(* ===== verification/Prelude.thy ===== *)
theory Prelude
  imports Main "HOL-Library.Word"
begin

unbundle bit_operations_syntax

text \<open>
  Shared vocabulary of the development: the collections of rewrite rules that
  the component proofs draw on, the type of sequence numbers, and the facts about
  64-bit arithmetic that every component needs.

  A sequence number of the code is a 64-bit word that wraps around.  The word that
  stands for the unbounded position \<open>x\<close> is \<open>seq_at x\<close>; positions are integers
  because the number "before the first" is -1.
\<close>

named_theorems pos_simps "arithmetic of the words that stand for positions"
named_theorems path_simps "which completed runs a program has"

type_synonym sequence_t = "64 word"

text \<open>The word that stands for an unbounded position.\<close>

definition seq_at :: "int \<Rightarrow> sequence_t" where
  "seq_at x = word_of_int x"

lemma seq_at_0 [pos_simps]: "0 = seq_at 0"
  by (simp add: seq_at_def)

lemma seq_at_add_1 [pos_simps]: "seq_at x + 1 = seq_at (x + 1)"
  by (simp add: seq_at_def)

lemma seq_at_diff_1 [pos_simps]: "seq_at x - 1 = seq_at (x - 1)"
  by (simp add: seq_at_def)

lemma seq_at_add_word [pos_simps]: "seq_at x + w = seq_at (x + uint w)"
  by (simp add: seq_at_def)

lemma seq_at_sub_word [pos_simps]: "seq_at x - w = seq_at (x - uint w)"
  by (simp add: seq_at_def)

lemma seq_at_minus_1: "seq_at (- 1) = - 1"
  by (simp add: seq_at_def)

lemma sint_small:
  assumes "- (2 ^ 63) \<le> d" and "d < 2 ^ 63"
  shows "sint (word_of_int d :: 64 word) = d"
  using assms by (simp add: sint_sbintrunc' signed_take_bit_int_eq_self)

lemma sint_seq_at_diff:
  assumes "- (2 ^ 63) \<le> x - y" and "x - y < 2 ^ 63"
  shows "sint (seq_at x - seq_at y) = x - y"
  using sint_small [OF assms] by (simp add: seq_at_def)

lemma seq_at_inject:
  assumes "\<bar>x - y\<bar> < 2 ^ 63"
  shows "seq_at x = seq_at y \<longleftrightarrow> x = y"
proof
  assume "seq_at x = seq_at y"
  then have "sint (seq_at x - seq_at y) = 0" by simp
  then show "x = y" using sint_seq_at_diff [of x y] assms by auto
qed simp

lemma sint_word_bounds: "- (2 ^ 63) \<le> sint (w :: 64 word)" "sint (w :: 64 word) < 2 ^ 63"
  using sint_ge [of w] sint_lt [of w] by simp_all

lemma unat_2_power: "unat (2 ^ k :: 64 word) = 2 ^ k" if "k < 64"
proof -
  have "(2 :: nat) ^ k < 2 ^ 64" using that by (intro power_strict_increasing) auto
  then show ?thesis using unat_of_nat [of "2 ^ k", where 'a = 64] by simp
qed

lemma uint_2_power: "uint (2 ^ k :: 64 word) = 2 ^ k" if "k < 64"
  using unat_2_power [OF that] by (simp add: uint_nat)

lemma unat_plus_1: "unat (i + 1) = unat i + 1" if "i < j" for i j :: "64 word"
  using that by unat_arith

lemma unat_count_up: "unat j - unat (i + 1) < unat j - unat i" if "i < j" for i j :: "64 word"
  using that by (simp add: unat_plus_1 [OF that] word_less_nat_alt diff_less_mono2)

text \<open>Masking a sequence number with a power of two minus one takes it modulo the power.\<close>

lemma seq_at_and_mask:
  assumes "N = 2 ^ k" and "k < 64"
  shows "unat (seq_at x AND (N - 1)) = nat (x mod 2 ^ k)"
proof -
  have m: "N - 1 = mask k"
    using assms(1) by (simp add: mask_eq_exp_minus_1)
  have "uint (seq_at x AND mask k) = take_bit k x"
    using assms(2)
    by (simp add: seq_at_def unsigned_take_bit_eq unsigned_of_int min_def flip: take_bit_eq_mask)
  then show ?thesis by (simp add: m take_bit_eq_mod unat_eq_nat_uint)
qed

lemma mod_window_inj:
  assumes "x mod n = y mod n" and "\<bar>x - y\<bar> < (n :: int)"
  shows "x = y"
proof -
  from assms(1) have "n dvd x - y" by (simp add: mod_eq_dvd_iff)
  with assms(2) show ?thesis using dvd_imp_le_int [of "x - y" n] by force
qed

end
