(* ===== verification/Machine.thy ===== *)
theory Machine
  imports Prelude
begin

text \<open>
  The language of the model.  A function of the library is a program: a tree whose
  nodes are the accesses to shared state that the C++ code makes (loads and stores of
  atomics, read-modify-write operations, mutex and condition variable calls, clock
  reads, reads and writes of ring buffer elements), in the order in which the code
  makes them.  Everything between two accesses is thread-local and is plain HOL.

  The tree says nothing about the other threads.  Three readings of it are defined:
  the logs it can produce when its accesses are answered by anything whatsoever
  (\<open>ends\<close>), its run on a machine under a schedule of interference (\<open>run\<close>),
  its interleaving with other threads (theory Rely_Guarantee), and its executions with other
  threads where the memory orders decide which values a load may return (theory Weak_Memory).
\<close>

section \<open>Accesses\<close>

datatype memory_order = Relaxed | Acquire | Release

text \<open>Atomic objects: a member of some object, or an element of a heap array.\<close>

datatype addr = Cell nat | Elem nat nat

datatype 'd act =
    Init addr sequence_t
  | Load memory_order addr
  | Store memory_order addr sequence_t
  | Fetch_Add memory_order addr sequence_t
  | Cas_Weak memory_order memory_order addr sequence_t sequence_t
  | Read nat nat
  | Write nat nat 'd
  | Lock nat
  | Unlock nat
  | Cv_Block nat
  | Cv_Wake nat
  | Notify_All nat
  | Now
  | Hardware_Concurrency
  | Pause
  | Yield
  | Sleep nat

text \<open>Answers: \<open>RCas ok old\<close> is the result and the value read of a compare-exchange.\<close>

datatype 'd resp =
    RUnit
  | RSeq sequence_t
  | RCas bool sequence_t
  | RData 'd
  | RNat nat

text \<open>
  The answers an access can have.  A compare-exchange that succeeds has read the
  expected value; one that fails may have read it too, since it is the weak form.
\<close>

fun fits :: "'d act \<Rightarrow> 'd resp \<Rightarrow> bool" where
  "fits (Load ord a) r = (\<exists>v. r = RSeq v)"
| "fits (Fetch_Add ord a v) r = (\<exists>w. r = RSeq w)"
| "fits (Cas_Weak ord1 ord2 a e d) r = (\<exists>ok v. r = RCas ok v \<and> (ok \<longrightarrow> v = e))"
| "fits (Read b i) r = (\<exists>x. r = RData x)"
| "fits Now r = (\<exists>n. r = RNat n)"
| "fits Hardware_Concurrency r = (\<exists>n. r = RNat n)"
| "fits c r = (r = RUnit)"

fun seq_of :: "'d resp \<Rightarrow> sequence_t" where
  "seq_of (RSeq v) = v"
| "seq_of (RCas ok v) = v"
| "seq_of r = 0"

fun bool_of :: "'d resp \<Rightarrow> bool" where
  "bool_of (RCas ok v) = ok"
| "bool_of r = False"

fun nat_of :: "'d resp \<Rightarrow> nat" where
  "nat_of (RNat n) = n"
| "nat_of r = 0"

fun data_of :: "'d resp \<Rightarrow> 'd" where
  "data_of (RData x) = x"
| "data_of r = undefined"

section \<open>Programs\<close>

text \<open>
  \<open>Assert_Failed\<close> is a failing \<open>assert\<close> of the code; \<open>Out_Of_Fuel\<close> stands for a waiting
  loop that has used up the iterations it was given.
\<close>

datatype ('d, 'a) prog =
    Return 'a
  | Act "'d act" "'d resp \<Rightarrow> ('d, 'a) prog"
  | Assert_Failed
  | Out_Of_Fuel

primrec bind :: "('d, 'a) prog \<Rightarrow> ('a \<Rightarrow> ('d, 'b) prog) \<Rightarrow> ('d, 'b) prog" where
  "bind (Return x) f = f x"
| "bind (Act c k) f = Act c (\<lambda>r. bind (k r) f)"
| "bind Assert_Failed f = Assert_Failed"
| "bind Out_Of_Fuel f = Out_Of_Fuel"

definition do_act :: "'d act \<Rightarrow> ('d, 'a) prog \<Rightarrow> ('d, 'a) prog" where
  "do_act c p = Act c (\<lambda>_. p)"

definition load :: "memory_order \<Rightarrow> addr \<Rightarrow> (sequence_t \<Rightarrow> ('d, 'a) prog) \<Rightarrow> ('d, 'a) prog" where
  "load ord a k = Act (Load ord a) (\<lambda>r. k (seq_of r))"

definition fetch_add ::
    "memory_order \<Rightarrow> addr \<Rightarrow> sequence_t \<Rightarrow> (sequence_t \<Rightarrow> ('d, 'a) prog) \<Rightarrow> ('d, 'a) prog" where
  "fetch_add ord a v k = Act (Fetch_Add ord a v) (\<lambda>r. k (seq_of r))"

definition compare_exchange_weak ::
    "memory_order \<Rightarrow> memory_order \<Rightarrow> addr \<Rightarrow> sequence_t \<Rightarrow> sequence_t \<Rightarrow>
     (bool \<Rightarrow> sequence_t \<Rightarrow> ('d, 'a) prog) \<Rightarrow> ('d, 'a) prog" where
  "compare_exchange_weak ord1 ord2 a e d k =
     Act (Cas_Weak ord1 ord2 a e d) (\<lambda>r. k (bool_of r) (seq_of r))"

definition read_data :: "nat \<Rightarrow> nat \<Rightarrow> ('d \<Rightarrow> ('d, 'a) prog) \<Rightarrow> ('d, 'a) prog" where
  "read_data b i k = Act (Read b i) (\<lambda>r. k (data_of r))"

definition now :: "(nat \<Rightarrow> ('d, 'a) prog) \<Rightarrow> ('d, 'a) prog" where
  "now k = Act Now (\<lambda>r. k (nat_of r))"

definition hardware_concurrency :: "(nat \<Rightarrow> ('d, 'a) prog) \<Rightarrow> ('d, 'a) prog" where
  "hardware_concurrency k = Act Hardware_Concurrency (\<lambda>r. k (nat_of r))"

definition assert :: "bool \<Rightarrow> ('d, 'a) prog \<Rightarrow> ('d, 'a) prog" where
  "assert b p = (if b then p else Assert_Failed)"

named_theorems prog_defs "the access combinators, as nodes of the tree"

declare do_act_def [prog_defs] load_def [prog_defs] fetch_add_def [prog_defs]
  compare_exchange_weak_def [prog_defs] read_data_def [prog_defs]
  now_def [prog_defs] hardware_concurrency_def [prog_defs] assert_def [prog_defs]

lemma bind_assoc: "bind (bind p f) g = bind p (\<lambda>x. bind (f x) g)"
  by (induction p) auto

lemma bind_Return [simp]: "bind p Return = p"
  by (induction p) auto

lemma bind_load [simp]: "bind (load ord a k) f = load ord a (\<lambda>v. bind (k v) f)"
  by (simp add: load_def)

lemma bind_do_act [simp]: "bind (do_act c p) f = do_act c (bind p f)"
  by (simp add: do_act_def)

section \<open>Completed runs against an arbitrary environment\<close>

datatype 'a outcome = Returned 'a | Failed | Exhausted | Blocked

type_synonym 'd log = "('d act \<times> 'd resp) list"

text \<open>
  \<open>ends p l out\<close>: when its accesses are answered as in the log \<open>l\<close>, program \<open>p\<close> makes
  exactly the accesses of \<open>l\<close> and ends with \<open>out\<close>.  The answers are arbitrary (a load may
  return any value), so a fact about all logs holds whatever the other threads do, and
  does not depend on the memory model.
\<close>

primrec ends :: "('d, 'a) prog \<Rightarrow> 'd log \<Rightarrow> 'a outcome \<Rightarrow> bool" where
  "ends (Return x) = (\<lambda>l out. l = [] \<and> out = Returned x)"
| "ends (Act c k) = (\<lambda>l out. case l of [] \<Rightarrow> False
     | e # l' \<Rightarrow> fst e = c \<and> fits c (snd e) \<and> ends (k (snd e)) l' out)"
| "ends Assert_Failed = (\<lambda>l out. l = [] \<and> out = Failed)"
| "ends Out_Of_Fuel = (\<lambda>l out. l = [] \<and> out = Exhausted)"

abbreviation returns :: "('d, 'a) prog \<Rightarrow> 'd log \<Rightarrow> 'a \<Rightarrow> bool" where
  "returns p l x \<equiv> ends p l (Returned x)"

abbreviation fails :: "('d, 'a) prog \<Rightarrow> 'd log \<Rightarrow> bool" where
  "fails p l \<equiv> ends p l Failed"

lemma ends_Act: "ends (Act c k) l out \<longleftrightarrow>
    (\<exists>r l'. l = (c, r) # l' \<and> fits c r \<and> ends (k r) l' out)"
  by (cases l) auto

declare ends.simps(2) [simp del]

lemma ends_Return [path_simps]: "ends (Return x) l out \<longleftrightarrow> l = [] \<and> out = Returned x"
  by simp

lemma ends_Assert_Failed [path_simps]: "ends Assert_Failed l out \<longleftrightarrow> l = [] \<and> out = Failed"
  by simp

lemma ends_Out_Of_Fuel [path_simps]: "ends Out_Of_Fuel l out \<longleftrightarrow> l = [] \<and> out = Exhausted"
  by simp

lemma ends_load [path_simps]: "ends (load ord a k) l out \<longleftrightarrow>
    (\<exists>v l'. l = (Load ord a, RSeq v) # l' \<and> ends (k v) l' out)"
  by (auto simp: load_def ends_Act)

lemma ends_fetch_add [path_simps]: "ends (fetch_add ord a w k) l out \<longleftrightarrow>
    (\<exists>v l'. l = (Fetch_Add ord a w, RSeq v) # l' \<and> ends (k v) l' out)"
  by (auto simp: fetch_add_def ends_Act)

lemma ends_cas [path_simps]: "ends (compare_exchange_weak o1 o2 a e d k) l out \<longleftrightarrow>
    (\<exists>ok v l'. l = (Cas_Weak o1 o2 a e d, RCas ok v) # l' \<and> (ok \<longrightarrow> v = e) \<and> ends (k ok v) l' out)"
  by (auto simp: compare_exchange_weak_def ends_Act)

lemma ends_read_data [path_simps]: "ends (read_data b i k) l out \<longleftrightarrow>
    (\<exists>x l'. l = (Read b i, RData x) # l' \<and> ends (k x) l' out)"
  by (auto simp: read_data_def ends_Act)

lemma ends_now [path_simps]: "ends (now k) l out \<longleftrightarrow>
    (\<exists>n l'. l = (Now, RNat n) # l' \<and> ends (k n) l' out)"
  by (auto simp: now_def ends_Act)

lemma ends_hardware_concurrency [path_simps]: "ends (hardware_concurrency k) l out \<longleftrightarrow>
    (\<exists>n l'. l = (Hardware_Concurrency, RNat n) # l' \<and> ends (k n) l' out)"
  by (auto simp: hardware_concurrency_def ends_Act)

lemma ends_do_act [path_simps]: "ends (do_act c p) l out \<longleftrightarrow>
    (\<exists>r l'. l = (c, r) # l' \<and> fits c r \<and> ends p l' out)"
  by (auto simp: do_act_def ends_Act)

lemma ends_assert [path_simps]: "ends (assert b p) l out \<longleftrightarrow>
    (if b then ends p l out else l = [] \<and> out = Failed)"
  by (simp add: assert_def)

lemma returns_bind [path_simps]: "returns (bind p f) l y \<longleftrightarrow>
    (\<exists>l1 l2 x. l = l1 @ l2 \<and> returns p l1 x \<and> returns (f x) l2 y)"
proof (induction p arbitrary: l)
  case (Act c k)
  have IH: "returns (bind (k r) f) l' y \<longleftrightarrow>
      (\<exists>l1 l2 x. l' = l1 @ l2 \<and> returns (k r) l1 x \<and> returns (f x) l2 y)" for r l'
    using Act.IH by (simp add: rangeI)
  show ?case
    by (auto simp: ends_Act IH Cons_eq_append_conv; blast)
qed auto

lemma fails_bind [path_simps]: "fails (bind p f) l \<longleftrightarrow>
    fails p l \<or> (\<exists>l1 l2 x. l = l1 @ l2 \<and> returns p l1 x \<and> fails (f x) l2)"
proof (induction p arbitrary: l)
  case (Act c k)
  have IH: "fails (bind (k r) f) l' \<longleftrightarrow>
      fails (k r) l' \<or> (\<exists>l1 l2 x. l' = l1 @ l2 \<and> returns (k r) l1 x \<and> fails (f x) l2)" for r l'
    using Act.IH by (simp add: rangeI)
  show ?case
    by (auto simp: ends_Act IH Cons_eq_append_conv; blast)
qed auto

lemma ends_deterministic:
  "ends p l out \<Longrightarrow> ends p l out' \<Longrightarrow> out = out'"
  by (induction p arbitrary: l) (auto simp: ends_Act)

lemma ends_not_Blocked [simp]: "\<not> ends p l Blocked"
  by (induction p arbitrary: l) (auto simp: ends_Act)

section \<open>Programs that only wait\<close>

text \<open>
  \<open>waits_only p held held'\<close>: program \<open>p\<close>, started with the mutexes \<open>held\<close> and ending with
  \<open>held'\<close>, changes no atomic object and no ring buffer element, fails no assertion, and keeps
  the rules of mutexes and condition variables: it locks only what it does not hold, and
  unlocks or blocks only with what it holds.
\<close>

fun waiting_act :: "'d act \<Rightarrow> nat set \<Rightarrow> nat set option" where
  "waiting_act (Load ord a) h = Some h"
| "waiting_act (Lock m) h = (if m \<in> h then None else Some (insert m h))"
| "waiting_act (Unlock m) h = (if m \<in> h then Some (h - {m}) else None)"
| "waiting_act (Cv_Block m) h = (if m \<in> h then Some (h - {m}) else None)"
| "waiting_act (Cv_Wake m) h = (if m \<in> h then None else Some (insert m h))"
| "waiting_act (Notify_All m) h = Some h"
| "waiting_act Now h = Some h"
| "waiting_act Hardware_Concurrency h = Some h"
| "waiting_act Pause h = Some h"
| "waiting_act Yield h = Some h"
| "waiting_act (Sleep ms) h = Some h"
| "waiting_act c h = None"

primrec waits_only :: "('d, 'a) prog \<Rightarrow> nat set \<Rightarrow> nat set \<Rightarrow> bool" where
  "waits_only (Return x) = (\<lambda>h h'. h = h')"
| "waits_only (Act c k) = (\<lambda>h h'. case waiting_act c h of None \<Rightarrow> False
     | Some h1 \<Rightarrow> (\<forall>r. waits_only (k r) h1 h'))"
| "waits_only Assert_Failed = (\<lambda>h h'. False)"
| "waits_only Out_Of_Fuel = (\<lambda>h h'. True)"

lemma waits_only_bind:
  "waits_only p h hm \<Longrightarrow> (\<And>x. waits_only (f x) hm h') \<Longrightarrow> waits_only (bind p f) h h'"
  by (induction p arbitrary: h) (auto split: option.splits)

lemma waits_only_not_fails: "waits_only p h h' \<Longrightarrow> \<not> fails p l"
proof (induction p arbitrary: h l)
  case (Act c k)
  then obtain h1 where "waiting_act c h = Some h1" "\<And>r. waits_only (k r) h1 h'"
    by (auto split: option.splits)
  then have "\<not> fails (k r) l" for r l using Act.IH [OF rangeI] by blast
  then show ?case by (simp add: ends_Act)
qed auto

end
