(* ===== verification/Interleaving.thy ===== *)
theory Interleaving
  imports Machine
begin

text \<open>
  The machine the programs run on, one atomic access at a time, and the run of one
  program under a schedule of interference by the other threads.

  Accesses are interleaved and always see the newest values; the memory orders that the code
  names are kept in the accesses, and theory Weak_Memory weakens this machine by them.
\<close>

section \<open>Machine states and accesses\<close>

text \<open>
  \<open>mem\<close> holds the atomic objects, \<open>cells\<close> the elements of the heap arrays of the ring
  buffers, \<open>owner\<close> and \<open>waiting\<close> the holder of each mutex and the threads blocked on the
  condition variable that belongs to it, \<open>clock\<close> the time and \<open>cores\<close> the number of
  hardware threads.
\<close>

record 'd mach =
  mem :: "addr \<Rightarrow> sequence_t"
  cells :: "nat \<Rightarrow> nat \<Rightarrow> 'd"
  owner :: "nat \<Rightarrow> nat option"
  waiting :: "nat \<Rightarrow> nat set"
  clock :: nat
  cores :: nat

definition tick :: "nat \<Rightarrow> 'd mach \<Rightarrow> 'd mach" where
  "tick n \<sigma> = \<sigma>\<lparr>clock := clock \<sigma> + n\<rparr>"

definition put :: "addr \<Rightarrow> sequence_t \<Rightarrow> 'd mach \<Rightarrow> 'd mach" where
  "put a v \<sigma> = \<sigma>\<lparr>mem := (mem \<sigma>)(a := v)\<rparr>"

text \<open>
  \<open>exec t n c \<sigma>\<close>: thread \<open>t\<close> makes access \<open>c\<close>; \<open>None\<close> when it cannot at this moment (a mutex
  held by another thread, a condition variable that has not been notified).  \<open>n\<close> resolves
  what the C++ library leaves open: the time an access takes, whether a weak
  compare-exchange fails spuriously and whether a condition variable wakes spuriously.
\<close>

fun exec :: "nat \<Rightarrow> nat \<Rightarrow> 'd act \<Rightarrow> 'd mach \<Rightarrow> ('d resp \<times> 'd mach) option" where
  "exec t n (Init a v) \<sigma> = Some (RUnit, put a v \<sigma>)"
| "exec t n (Load ord a) \<sigma> = Some (RSeq (mem \<sigma> a), \<sigma>)"
| "exec t n (Store ord a v) \<sigma> = Some (RUnit, put a v \<sigma>)"
| "exec t n (Fetch_Add ord a v) \<sigma> = Some (RSeq (mem \<sigma> a), put a (mem \<sigma> a + v) \<sigma>)"
| "exec t n (Cas_Weak o1 o2 a e d) \<sigma> =
     (if mem \<sigma> a = e \<and> n = 0 then Some (RCas True e, put a d \<sigma>)
      else Some (RCas False (mem \<sigma> a), \<sigma>))"
| "exec t n (Read b i) \<sigma> = Some (RData (cells \<sigma> b i), \<sigma>)"
| "exec t n (Write b i x) \<sigma> =
     Some (RUnit, \<sigma>\<lparr>cells := (cells \<sigma>)(b := (cells \<sigma> b)(i := x))\<rparr>)"
| "exec t n (Lock m) \<sigma> =
     (if owner \<sigma> m = None then Some (RUnit, \<sigma>\<lparr>owner := (owner \<sigma>)(m := Some t)\<rparr>) else None)"
| "exec t n (Unlock m) \<sigma> =
     (if owner \<sigma> m = Some t then Some (RUnit, \<sigma>\<lparr>owner := (owner \<sigma>)(m := None)\<rparr>) else None)"
| "exec t n (Cv_Block m) \<sigma> =
     (if owner \<sigma> m = Some t
      then Some (RUnit, \<sigma>\<lparr>owner := (owner \<sigma>)(m := None),
                          waiting := (waiting \<sigma>)(m := insert t (waiting \<sigma> m))\<rparr>)
      else None)"
| "exec t n (Cv_Wake m) \<sigma> =
     (if owner \<sigma> m = None \<and> (t \<notin> waiting \<sigma> m \<or> n \<noteq> 0)
      then Some (RUnit, \<sigma>\<lparr>owner := (owner \<sigma>)(m := Some t),
                          waiting := (waiting \<sigma>)(m := waiting \<sigma> m - {t})\<rparr>)
      else None)"
| "exec t n (Notify_All m) \<sigma> = Some (RUnit, \<sigma>\<lparr>waiting := (waiting \<sigma>)(m := {})\<rparr>)"
| "exec t n Now \<sigma> = Some (RNat (clock \<sigma> + n), tick n \<sigma>)"
| "exec t n Hardware_Concurrency \<sigma> = Some (RNat (cores \<sigma>), \<sigma>)"
| "exec t n Pause \<sigma> = Some (RUnit, tick n \<sigma>)"
| "exec t n Yield \<sigma> = Some (RUnit, tick n \<sigma>)"
| "exec t n (Sleep ms) \<sigma> = Some (RUnit, tick (ms + n) \<sigma>)"

lemma mem_put [simp]: "mem (put a v \<sigma>) = (mem \<sigma>)(a := v)"
  by (simp add: put_def)

lemma put_frame [simp]:
  "cells (put a v \<sigma>) = cells \<sigma>" "owner (put a v \<sigma>) = owner \<sigma>"
  "waiting (put a v \<sigma>) = waiting \<sigma>" "clock (put a v \<sigma>) = clock \<sigma>" "cores (put a v \<sigma>) = cores \<sigma>"
  by (simp_all add: put_def)

lemma tick_frame [simp]:
  "mem (tick n \<sigma>) = mem \<sigma>" "cells (tick n \<sigma>) = cells \<sigma>" "owner (tick n \<sigma>) = owner \<sigma>"
  "waiting (tick n \<sigma>) = waiting \<sigma>" "cores (tick n \<sigma>) = cores \<sigma>"
  by (simp_all add: tick_def)

lemma exec_fits: "exec t n c \<sigma> = Some (r, \<sigma>') \<Longrightarrow> fits c r"
  by (cases c) (auto split: if_splits)

section \<open>Runs under interference\<close>

text \<open>
  A schedule gives, for the \<open>i\<close>-th access of the program, the change that the other
  threads make to the machine before it, and the number that resolves the open choices.
\<close>

type_synonym 'd sched = "nat \<Rightarrow> ('d mach \<Rightarrow> 'd mach) \<times> nat"

primrec run :: "nat \<Rightarrow> 'd sched \<Rightarrow> ('d, 'a) prog \<Rightarrow> nat \<Rightarrow> 'd mach \<Rightarrow> 'a outcome \<times> 'd mach \<times> 'd log" where
  "run t w (Return x) = (\<lambda>i \<sigma>. (Returned x, \<sigma>, []))"
| "run t w (Act c k) = (\<lambda>i \<sigma>. case exec t (snd (w i)) c (fst (w i) \<sigma>) of
       None \<Rightarrow> (Blocked, fst (w i) \<sigma>, [])
     | Some (r, \<sigma>') \<Rightarrow>
         (let (out, \<sigma>'', l) = run t w (k r) (Suc i) \<sigma>' in (out, \<sigma>'', (c, r) # l)))"
| "run t w Assert_Failed = (\<lambda>i \<sigma>. (Failed, \<sigma>, []))"
| "run t w Out_Of_Fuel = (\<lambda>i \<sigma>. (Exhausted, \<sigma>, []))"

text \<open>The schedule of a thread that runs alone.\<close>

definition alone :: "'d sched" where
  "alone = (\<lambda>i. (\<lambda>\<sigma>. \<sigma>, 0))"

lemma alone_simps [simp]: "fst (alone i) \<sigma> = \<sigma>" "snd (alone i) = 0"
  by (simp_all add: alone_def)

lemma run_ends:
  "run t w p i \<sigma> = (out, \<sigma>', l) \<Longrightarrow> out \<noteq> Blocked \<Longrightarrow> ends p l out"
proof (induction p arbitrary: i \<sigma> l)
  case (Act c k)
  then obtain r \<sigma>1 where e: "exec t (snd (w i)) c (fst (w i) \<sigma>) = Some (r, \<sigma>1)"
    by (auto split: option.splits)
  obtain out2 \<sigma>2 l2 where r: "run t w (k r) (Suc i) \<sigma>1 = (out2, \<sigma>2, l2)"
    by (cases "run t w (k r) (Suc i) \<sigma>1") auto
  have o: "out2 = out" "\<sigma>2 = \<sigma>'" "l = (c, r) # l2" using Act.prems(1) e r by auto
  have "ends (k r) l2 out" using Act.IH [OF rangeI] r o Act.prems(2) by blast
  then show ?case using exec_fits [OF e] o(3) by (simp add: ends_Act)
qed auto

lemma run_bind:
  assumes "run t w p i \<sigma> = (out, \<sigma>1, l1)"
  shows "run t w (bind p f) i \<sigma> =
    (case out of
       Returned x \<Rightarrow> (let (out2, \<sigma>2, l2) = run t w (f x) (i + length l1) \<sigma>1 in (out2, \<sigma>2, l1 @ l2))
     | Failed \<Rightarrow> (Failed, \<sigma>1, l1)
     | Exhausted \<Rightarrow> (Exhausted, \<sigma>1, l1)
     | Blocked \<Rightarrow> (Blocked, \<sigma>1, l1))"
  using assms
proof (induction p arbitrary: i \<sigma> l1)
  case (Act c k)
  show ?case
  proof (cases "exec t (snd (w i)) c (fst (w i) \<sigma>)")
    case None
    with Act.prems show ?thesis by auto
  next
    case (Some q)
    obtain r \<sigma>2 where q: "q = (r, \<sigma>2)" by (cases q)
    obtain out' \<sigma>3 l3 where e: "run t w (k r) (Suc i) \<sigma>2 = (out', \<sigma>3, l3)"
      by (cases "run t w (k r) (Suc i) \<sigma>2") auto
    have o: "out' = out" "\<sigma>3 = \<sigma>1" "l1 = (c, r) # l3" using Act.prems Some q e by auto
    have "run t w (k r) (Suc i) \<sigma>2 = (out, \<sigma>1, l3)" using e o by simp
    from Act.IH [OF rangeI this] show ?thesis
      using Some q o by (simp split: outcome.splits prod.splits add: Let_def)
  qed
qed auto

lemma run_load [simp]: "run t w (load ord a k) i \<sigma> =
    (let v = mem (fst (w i) \<sigma>) a; (out, \<sigma>', l) = run t w (k v) (Suc i) (fst (w i) \<sigma>)
     in (out, \<sigma>', (Load ord a, RSeq v) # l))"
  by (simp add: load_def Let_def)

text \<open>A machine at rest: every atomic 0, every element \<open>x\<close>, no mutex held, four cores.\<close>

definition at_rest :: "'d \<Rightarrow> 'd mach" where
  "at_rest x = \<lparr>mem = (\<lambda>_. 0), cells = (\<lambda>_ _. x), owner = (\<lambda>_. None), waiting = (\<lambda>_. {}),
     clock = 0, cores = 4\<rparr>"

lemma at_rest_simps [simp]:
  "mem (at_rest x) = (\<lambda>_. 0)" "cells (at_rest x) = (\<lambda>_ _. x)" "owner (at_rest x) = (\<lambda>_. None)"
  "waiting (at_rest x) = (\<lambda>_. {})" "clock (at_rest x) = 0" "cores (at_rest x) = 4"
  by (simp_all add: at_rest_def)

end
