(* ===== verification/Rely_Guarantee.thy ===== *)
theory Rely_Guarantee
  imports Interleaving
begin

text \<open>
  Threads together.  A pool of programs is stepped one access at a time in any order.  A
  protocol says, for every thread, what the others may do between two of its accesses
  (\<open>rely\<close>), what each of its own accesses must keep to (\<open>guar\<close>), which accesses it may make
  in which state (\<open>okay\<close>), and which invariant all of this preserves.  Its states pair the
  machine with a ghost value that no program can read: unbounded positions, the history
  of the items.  \<open>safe\<close> is the weakest precondition of a program under a protocol; the
  theorem of the locale puts the threads together.
\<close>

section \<open>Protocols and safety of one thread\<close>

record ('d, 'g) protocol =
  rely :: "nat \<Rightarrow> 'd mach \<times> 'g \<Rightarrow> 'd mach \<times> 'g \<Rightarrow> bool"
  guar :: "nat \<Rightarrow> 'd mach \<times> 'g \<Rightarrow> 'd mach \<times> 'g \<Rightarrow> bool"
  okay :: "nat \<Rightarrow> 'd act \<Rightarrow> 'd mach \<times> 'g \<Rightarrow> bool"
  invar :: "'d mach \<times> 'g \<Rightarrow> bool"

text \<open>The use of mutexes that the C++ library defines.\<close>

fun disciplined :: "nat \<Rightarrow> 'd act \<Rightarrow> 'd mach \<Rightarrow> bool" where
  "disciplined t (Lock m) \<sigma> \<longleftrightarrow> owner \<sigma> m \<noteq> Some t"
| "disciplined t (Unlock m) \<sigma> \<longleftrightarrow> owner \<sigma> m = Some t"
| "disciplined t (Cv_Block m) \<sigma> \<longleftrightarrow> owner \<sigma> m = Some t"
| "disciplined t (Cv_Wake m) \<sigma> \<longleftrightarrow> owner \<sigma> m \<noteq> Some t"
| "disciplined t c \<sigma> \<longleftrightarrow> True"

primrec safe ::
    "('d, 'g) protocol \<Rightarrow> nat \<Rightarrow> ('d, 'a) prog \<Rightarrow> ('a \<Rightarrow> 'd mach \<times> 'g \<Rightarrow> bool) \<Rightarrow> 'd mach \<times> 'g \<Rightarrow> bool" where
  "safe P t (Return x) = (\<lambda>Q s. Q x s)"
| "safe P t (Act c k) = (\<lambda>Q s. \<forall>\<sigma> \<gamma>. rely P t s (\<sigma>, \<gamma>) \<longrightarrow>
     disciplined t c \<sigma> \<and> okay P t c (\<sigma>, \<gamma>) \<and>
     (\<forall>n r \<sigma>'. exec t n c \<sigma> = Some (r, \<sigma>') \<longrightarrow>
       (\<exists>\<gamma>'. guar P t (\<sigma>, \<gamma>) (\<sigma>', \<gamma>') \<and> safe P t (k r) Q (\<sigma>', \<gamma>'))))"
| "safe P t Assert_Failed = (\<lambda>Q s. False)"
| "safe P t Out_Of_Fuel = (\<lambda>Q s. True)"

declare safe.simps(2) [simp del]

lemma safe_bind: "safe P t (bind p f) Q s \<longleftrightarrow> safe P t p (\<lambda>x. safe P t (f x) Q) s"
proof (induction p arbitrary: s)
  case (Act c k)
  have "safe P t (bind (k r) f) Q s' \<longleftrightarrow> safe P t (k r) (\<lambda>x. safe P t (f x) Q) s'" for r s'
    by (rule Act.IH) simp
  then show ?case by (simp add: safe.simps)
qed auto

lemma safe_conseq:
  "safe P t p Q s \<Longrightarrow> (\<And>x s'. Q x s' \<Longrightarrow> Q' x s') \<Longrightarrow> safe P t p Q' s"
proof (induction p arbitrary: s)
  case (Act c k)
  have IH: "safe P t (k r) Q s' \<Longrightarrow> safe P t (k r) Q' s'" for r s'
    using Act.IH [OF rangeI] Act.prems(2) by blast
  show ?case using Act.prems(1) unfolding safe.simps by (meson IH)
qed auto

lemma safe_assert [simp]: "safe P t (assert b p) Q s \<longleftrightarrow> b \<and> safe P t p Q s"
  by (simp add: assert_def)

lemma safe_do_act:
  "safe P t (do_act c p) Q s \<longleftrightarrow> (\<forall>\<sigma> \<gamma>. rely P t s (\<sigma>, \<gamma>) \<longrightarrow>
     disciplined t c \<sigma> \<and> okay P t c (\<sigma>, \<gamma>) \<and>
     (\<forall>n r \<sigma>'. exec t n c \<sigma> = Some (r, \<sigma>') \<longrightarrow>
       (\<exists>\<gamma>'. guar P t (\<sigma>, \<gamma>) (\<sigma>', \<gamma>') \<and> safe P t p Q (\<sigma>', \<gamma>'))))"
  by (simp add: do_act_def safe.simps)

lemma safe_load:
  "safe P t (load ord a k) Q s \<longleftrightarrow> (\<forall>\<sigma> \<gamma>. rely P t s (\<sigma>, \<gamma>) \<longrightarrow>
     okay P t (Load ord a) (\<sigma>, \<gamma>) \<and>
     (\<exists>\<gamma>'. guar P t (\<sigma>, \<gamma>) (\<sigma>, \<gamma>') \<and> safe P t (k (mem \<sigma> a)) Q (\<sigma>, \<gamma>')))"
  by (simp add: load_def safe.simps)

lemma safe_read_data:
  "safe P t (read_data b i k) Q s \<longleftrightarrow> (\<forall>\<sigma> \<gamma>. rely P t s (\<sigma>, \<gamma>) \<longrightarrow>
     okay P t (Read b i) (\<sigma>, \<gamma>) \<and>
     (\<exists>\<gamma>'. guar P t (\<sigma>, \<gamma>) (\<sigma>, \<gamma>') \<and> safe P t (k (cells \<sigma> b i)) Q (\<sigma>, \<gamma>')))"
  by (simp add: read_data_def safe.simps)

section \<open>The pool of threads\<close>

type_synonym ('d, 'a) pool = "'d mach \<times> (nat \<Rightarrow> ('d, 'a) prog)"

inductive pool_step :: "('d, 'a) pool \<Rightarrow> ('d, 'a) pool \<Rightarrow> bool" where
  access: "ps t = Act c k \<Longrightarrow> exec t n c \<sigma> = Some (r, \<sigma>') \<Longrightarrow>
    pool_step (\<sigma>, ps) (\<sigma>', ps(t := k r))"

inductive_cases pool_stepE: "pool_step (\<sigma>, ps) c"

inductive pool_run :: "('d, 'a) pool \<Rightarrow> ('d, 'a) pool \<Rightarrow> bool" for c0 where
  start: "pool_run c0 c0"
| step: "pool_run c0 c \<Longrightarrow> pool_step c c' \<Longrightarrow> pool_run c0 c'"

text \<open>A schedule names the thread of each step and resolves its open choices.\<close>

fun pool_exec :: "(nat \<times> nat) list \<Rightarrow> ('d, 'a) pool \<Rightarrow> ('d, 'a) pool option" where
  "pool_exec [] c = Some c"
| "pool_exec ((t, n) # w) (\<sigma>, ps) =
     (case ps t of
        Act c k \<Rightarrow> (case exec t n c \<sigma> of
            None \<Rightarrow> None
          | Some (r, \<sigma>') \<Rightarrow> pool_exec w (\<sigma>', ps(t := k r)))
      | _ \<Rightarrow> None)"

lemma pool_run_step: "pool_run c1 c2 \<Longrightarrow> pool_step c c1 \<Longrightarrow> pool_run c c2"
  by (induction rule: pool_run.induct) (auto intro: pool_run.intros)

lemma pool_exec_run: "pool_exec w c = Some c' \<Longrightarrow> pool_run c c'"
proof (induction w c rule: pool_exec.induct)
  case (2 t n w \<sigma> ps)
  then obtain a k r \<sigma>' where a: "ps t = Act a k" and e: "exec t n a \<sigma> = Some (r, \<sigma>')"
    and w: "pool_exec w (\<sigma>', ps(t := k r)) = Some c'"
    by (auto split: prog.splits option.splits)
  have "pool_run (\<sigma>', ps(t := k r)) c'" using "2.IH" [OF a e refl] w by simp
  moreover have "pool_step (\<sigma>, ps) (\<sigma>', ps(t := k r))" using a e by (rule access)
  ultimately show ?case by (rule pool_run_step)
qed (auto intro: pool_run.start)

section \<open>Sound protocols\<close>

locale sound_protocol =
  fixes P :: "('d, 'g) protocol"
  assumes rely_refl: "rely P t s s"
    and rely_trans: "rely P t s s' \<Longrightarrow> rely P t s' s'' \<Longrightarrow> rely P t s s''"
    and rely_inv: "rely P t s s' \<Longrightarrow> invar P s \<Longrightarrow> invar P s'"
    and guar_inv: "guar P t s s' \<Longrightarrow> invar P s \<Longrightarrow> invar P s'"
    and guar_rely: "t \<noteq> u \<Longrightarrow> guar P t s s' \<Longrightarrow> rely P u s s'"
begin

lemma safe_rely:
  assumes "safe P t p Q s" and "rely P t s s'" and "\<And>x s s'. Q x s \<Longrightarrow> rely P t s s' \<Longrightarrow> Q x s'"
  shows "safe P t p Q s'"
proof (cases p)
  case (Act c k)
  have "rely P t s (\<sigma>, \<gamma>)" if "rely P t s' (\<sigma>, \<gamma>)" for \<sigma> \<gamma>
    using assms(2) that by (rule rely_trans)
  then show ?thesis using assms(1) unfolding Act safe.simps by blast
qed (use assms in auto)

text \<open>
  From a state with the invariant in which every thread is safe, every reachable state has
  the invariant, and every thread is safe in it, for some value of the ghost state.
\<close>

theorem pool_safe:
  assumes "pool_run (\<sigma>0, ps0) c"
    and "invar P (\<sigma>0, \<gamma>0)" and "\<And>t. safe P t (ps0 t) (Q t) (\<sigma>0, \<gamma>0)"
    and stable: "\<And>t x s s'. Q t x s \<Longrightarrow> rely P t s s' \<Longrightarrow> Q t x s'"
  shows "\<exists>\<gamma>. invar P (fst c, \<gamma>) \<and> (\<forall>t. safe P t (snd c t) (Q t) (fst c, \<gamma>))"
  using assms(1)
proof (induction rule: pool_run.induct)
  case start
  show ?case using assms(2,3) by auto
next
  case (step c c')
  then obtain \<gamma> where inv: "invar P (fst c, \<gamma>)" and safe: "\<And>t. safe P t (snd c t) (Q t) (fst c, \<gamma>)"
    by blast
  from \<open>pool_step c c'\<close> obtain \<sigma> ps t a k n r \<sigma>' where c: "c = (\<sigma>, ps)" "c' = (\<sigma>', ps(t := k r))"
    and p: "ps t = Act a k" and e: "exec t n a \<sigma> = Some (r, \<sigma>')"
    by (cases rule: pool_step.cases) auto
  have "safe P t (Act a k) (Q t) (\<sigma>, \<gamma>)" using safe [of t] c p by simp
  with e rely_refl obtain \<gamma>' where g: "guar P t (\<sigma>, \<gamma>) (\<sigma>', \<gamma>')"
    and s: "safe P t (k r) (Q t) (\<sigma>', \<gamma>')"
    unfolding safe.simps by blast
  have "safe P u ((ps(t := k r)) u) (Q u) (\<sigma>', \<gamma>')" for u
  proof (cases "u = t")
    case False
    then have "rely P u (\<sigma>, \<gamma>) (\<sigma>', \<gamma>')" using guar_rely [OF _ g] by simp
    moreover have "safe P u (ps u) (Q u) (\<sigma>, \<gamma>)" using safe [of u] c by simp
    ultimately show ?thesis using False stable by (auto intro: safe_rely)
  qed (simp add: s)
  moreover have "invar P (\<sigma>', \<gamma>')" using g inv c guar_inv by auto
  ultimately show ?case unfolding c fst_conv snd_conv by blast
qed

end

section \<open>What is shown of a pool of threads\<close>

text \<open>Two threads are about to access the same slot, and one of them is writing it.\<close>

definition data_race :: "(nat \<Rightarrow> ('d, 'a) prog) \<Rightarrow> bool" where
  "data_race ps \<longleftrightarrow> (\<exists>t u b i x k. t \<noteq> u \<and> ps t = Act (Write b i x) k \<and>
     (\<exists>k'. ps u = Act (Read b i) k' \<or> (\<exists>y. ps u = Act (Write b i y) k')))"

text \<open>No assertion has failed and there is no race; a consumer that has ended has the \<open>result\<close>.\<close>

definition sound_pool :: "nat set \<Rightarrow> 'a \<Rightarrow> (nat \<Rightarrow> ('d, 'a) prog) \<Rightarrow> bool" where
  "sound_pool consumers result ps \<longleftrightarrow> (\<forall>t. ps t \<noteq> Assert_Failed) \<and> \<not> data_race ps \<and>
     (\<forall>c \<in> consumers. \<forall>x. ps c = Return x \<longrightarrow> x = result)"

text \<open>
  A protocol that keeps a thread from accessing what another may be about to write: a pool of
  threads that are safe under it is sound in every state it reaches.
\<close>

locale race_free_protocol = sound_protocol P for P :: "('d, 'g) protocol" +
  assumes no_race: "invar P s \<Longrightarrow> t \<noteq> u \<Longrightarrow> okay P t (Write b i x) s \<Longrightarrow>
    \<not> okay P u (Read b i) s \<and> \<not> okay P u (Write b i y) s"
begin

lemma safe_okay: "safe P t (Act c k) Q (\<sigma>, \<gamma>) \<Longrightarrow> okay P t c (\<sigma>, \<gamma>)"
  using rely_refl [of t "(\<sigma>, \<gamma>)"] unfolding safe.simps by blast

lemma safe_no_data_race:
  assumes "invar P (\<sigma>, \<gamma>)" and safe: "\<And>t. safe P t (ps t) (Q t) (\<sigma>, \<gamma>)"
  shows "\<not> data_race ps"
proof
  assume "data_race ps"
  then obtain t u b i x k k' where tu: "t \<noteq> u" "ps t = Act (Write b i x) k"
    and u: "ps u = Act (Read b i) k' \<or> (\<exists>y. ps u = Act (Write b i y) k')"
    by (auto simp: data_race_def)
  have now: "okay P t c (\<sigma>, \<gamma>)" if "ps t = Act c k" for t c k
    using safe [of t] safe_okay [of t c k "Q t"] that by simp
  from u show False using no_race [OF assms(1) tu(1) now [OF tu(2)]] now by blast
qed

theorem sound_pool_run:
  assumes "pool_run (\<sigma>0, ps0) (\<sigma>, ps)" and "invar P (\<sigma>0, \<gamma>0)"
    and "\<And>t. safe P t (ps0 t) (\<lambda>x s. t \<in> C \<longrightarrow> x = result) (\<sigma>0, \<gamma>0)"
  shows "sound_pool C result ps"
proof -
  obtain \<gamma> where inv: "invar P (\<sigma>, \<gamma>)" and safe: "\<And>t. safe P t (ps t) (\<lambda>x s. t \<in> C \<longrightarrow> x = result) (\<sigma>, \<gamma>)"
    using pool_safe [OF assms(1,2), of "\<lambda>t x s. t \<in> C \<longrightarrow> x = result"] assms(3) by auto
  have "ps t \<noteq> Assert_Failed" for t using safe [of t] by auto
  moreover have "x = result" if "c \<in> C" "ps c = Return x" for c x using safe [of c] that by simp
  ultimately show ?thesis using safe_no_data_race [OF inv safe] by (auto simp: sound_pool_def)
qed

end

section \<open>Waiting\<close>

text \<open>A change that only mutexes, condition variables and time have made.\<close>

definition only_sync :: "nat \<Rightarrow> 'd mach \<Rightarrow> 'd mach \<Rightarrow> bool" where
  "only_sync t \<sigma> \<sigma>' \<longleftrightarrow> mem \<sigma>' = mem \<sigma> \<and> cells \<sigma>' = cells \<sigma> \<and> cores \<sigma>' = cores \<sigma> \<and>
     (\<forall>m u. u \<noteq> t \<longrightarrow> (owner \<sigma>' m = Some u \<longleftrightarrow> owner \<sigma> m = Some u))"

definition holds_mutexes :: "nat \<Rightarrow> nat set \<Rightarrow> 'd mach \<Rightarrow> bool" where
  "holds_mutexes t h \<sigma> \<longleftrightarrow> (\<forall>m. owner \<sigma> m = Some t \<longleftrightarrow> m \<in> h)"

lemma exec_waiting_act:
  assumes "waiting_act c h = Some h'" and "exec t n c \<sigma> = Some (r, \<sigma>')" and "holds_mutexes t h \<sigma>"
  shows "only_sync t \<sigma> \<sigma>'" and "holds_mutexes t h' \<sigma>'"
  using assms by (cases c; force simp: only_sync_def holds_mutexes_def split: if_splits)+

lemma disciplined_waiting_act:
  "waiting_act c h = Some h' \<Longrightarrow> holds_mutexes t h \<sigma> \<Longrightarrow> disciplined t c \<sigma>"
  by (cases c) (auto simp: holds_mutexes_def split: if_splits)

end
