(* ===== verification/Weak_Memory.thy ===== *)
theory Weak_Memory
  imports Rely_Guarantee
begin

text \<open>
  The same machine with the memory model of C++ for what the code uses: relaxed, acquire and
  release accesses to atomics, read-modify-writes, mutexes and plain data.  All stores to
  atomics and all accesses to data are kept in their order.  The view of a thread is the set of
  those that it knows, by their indices: its own, and what it has acquired, by loading a value
  that was stored with release order or by locking a mutex.  A load need not return the newest
  value of an atomic, only one that is not older than a store that the thread knows.

  The machine presupposes what \<open>ordered\<close> states: that an access to data knows those before it
  that it conflicts with (else they race, and C++ says nothing), that a store to an atomic knows
  the newest (else it may come earlier in the modification order), and that what a
  read-modify-write does not know are others of its kind (else it need not read the newest).
  Where that holds it makes every execution in which program order and reads-from have no cycle.
\<close>

section \<open>The history\<close>

text \<open>A store has the value, whether it is part of a read-modify-write, and what it passes on.\<close>

datatype access =
    Stored nat addr sequence_t bool "nat set"
  | Was_Read nat nat nat
  | Written nat nat nat

primrec actor :: "access \<Rightarrow> nat" where
  "actor (Stored t a v rmw V) = t"
| "actor (Was_Read t b i) = t"
| "actor (Written t b i) = t"

fun stores_to :: "addr \<Rightarrow> access \<Rightarrow> bool" where
  "stores_to a (Stored t b v rmw V) \<longleftrightarrow> b = a"
| "stores_to a e \<longleftrightarrow> False"

fun value_stored :: "access \<Rightarrow> sequence_t" where
  "value_stored (Stored t a v rmw V) = v"
| "value_stored e = 0"

fun passed_on :: "access \<Rightarrow> nat set" where
  "passed_on (Stored t a v rmw V) = V"
| "passed_on e = {}"

fun is_rmw :: "access \<Rightarrow> bool" where
  "is_rmw (Stored t a v rmw V) \<longleftrightarrow> rmw"
| "is_rmw e \<longleftrightarrow> False"

text \<open>
  \<open>base\<close> are the values of the atomics before all stores; every thread knows of them.
  \<open>handed m\<close> is what has been unlocked with mutex \<open>m\<close>.
\<close>

record memory =
  base :: "addr \<Rightarrow> sequence_t"
  history :: "access list"
  seen :: "nat \<Rightarrow> nat set"
  handed :: "nat \<Rightarrow> nat set"

text \<open>The stores to an atomic, the newest first; store \<open>length (stores \<omega> a)\<close> is the base.\<close>

definition stores :: "memory \<Rightarrow> addr \<Rightarrow> nat list" where
  "stores \<omega> a = filter (\<lambda>i. stores_to a (history \<omega> ! i)) (rev [0..<length (history \<omega>)])"

definition nth_value :: "memory \<Rightarrow> addr \<Rightarrow> nat \<Rightarrow> sequence_t" where
  "nth_value \<omega> a n = (if n < length (stores \<omega> a) then value_stored (history \<omega> ! (stores \<omega> a ! n)) else base \<omega> a)"

definition nth_store :: "memory \<Rightarrow> addr \<Rightarrow> nat \<Rightarrow> nat set" where
  "nth_store \<omega> a n = (if n < length (stores \<omega> a) then {stores \<omega> a ! n} else {})"

definition nth_passed :: "memory \<Rightarrow> addr \<Rightarrow> nat \<Rightarrow> nat set" where
  "nth_passed \<omega> a n = (if n < length (stores \<omega> a) then passed_on (history \<omega> ! (stores \<omega> a ! n)) else {})"

text \<open>Thread \<open>t\<close> knows of no newer store.\<close>

definition visible :: "nat \<Rightarrow> memory \<Rightarrow> addr \<Rightarrow> nat \<Rightarrow> bool" where
  "visible t \<omega> a n \<longleftrightarrow> n \<le> length (stores \<omega> a) \<and> (\<forall>i \<in> set (take n (stores \<omega> a)). i \<notin> seen \<omega> t)"

definition see :: "nat \<Rightarrow> nat set \<Rightarrow> memory \<Rightarrow> memory" where
  "see t V \<omega> = \<omega>\<lparr>seen := (seen \<omega>)(t := seen \<omega> t \<union> V)\<rparr>"

definition look :: "nat \<Rightarrow> memory_order \<Rightarrow> addr \<Rightarrow> nat \<Rightarrow> memory \<Rightarrow> memory" where
  "look t ord a n \<omega> = see t (nth_store \<omega> a n \<union> (if ord = Acquire then nth_passed \<omega> a n else {})) \<omega>"

definition record_access :: "nat \<Rightarrow> access \<Rightarrow> memory \<Rightarrow> memory" where
  "record_access t e \<omega> = (see t {length (history \<omega>)} \<omega>)\<lparr>history := history \<omega> @ [e]\<rparr>"

text \<open>
  A read-modify-write reads the newest value, and passes on what that store did (it continues its
  release sequence).
\<close>

definition store :: "nat \<Rightarrow> memory_order \<Rightarrow> addr \<Rightarrow> sequence_t \<Rightarrow> memory \<Rightarrow> memory" where
  "store t ord a v \<omega> = record_access t (Stored t a v False
     (if ord = Release then insert (length (history \<omega>)) (seen \<omega> t) else {})) \<omega>"

definition modify :: "nat \<Rightarrow> memory_order \<Rightarrow> addr \<Rightarrow> sequence_t \<Rightarrow> memory \<Rightarrow> memory" where
  "modify t ord a v \<omega> = (let \<omega>' = look t ord a 0 \<omega> in
     record_access t (Stored t a v True (nth_store \<omega> a 0 \<union> nth_passed \<omega> a 0 \<union>
       (if ord = Release then insert (length (history \<omega>)) (seen \<omega>' t) else {}))) \<omega>')"

definition acquire_mutex :: "nat \<Rightarrow> nat \<Rightarrow> memory \<Rightarrow> memory" where
  "acquire_mutex t m \<omega> = see t (handed \<omega> m) \<omega>"

definition release_mutex :: "nat \<Rightarrow> nat \<Rightarrow> memory \<Rightarrow> memory" where
  "release_mutex t m \<omega> = \<omega>\<lparr>handed := (handed \<omega>)(m := handed \<omega> m \<union> seen \<omega> t)\<rparr>"

section \<open>The accesses\<close>

text \<open>What an access that reads the newest values adds to the history and to the views.\<close>

fun effect :: "nat \<Rightarrow> 'd act \<Rightarrow> 'd resp \<Rightarrow> memory \<Rightarrow> memory" where
  "effect t (Init a v) r \<omega> = store t Relaxed a v \<omega>"
| "effect t (Load ord a) r \<omega> = look t ord a 0 \<omega>"
| "effect t (Store ord a v) r \<omega> = store t ord a v \<omega>"
| "effect t (Fetch_Add ord a v) r \<omega> = modify t ord a (seq_of r + v) \<omega>"
| "effect t (Cas_Weak o1 o2 a e d) r \<omega> = (if bool_of r then modify t o1 a d \<omega> else look t o2 a 0 \<omega>)"
| "effect t (Read b i) r \<omega> = record_access t (Was_Read t b i) \<omega>"
| "effect t (Write b i x) r \<omega> = record_access t (Written t b i) \<omega>"
| "effect t (Lock m) r \<omega> = acquire_mutex t m \<omega>"
| "effect t (Unlock m) r \<omega> = release_mutex t m \<omega>"
| "effect t (Cv_Block m) r \<omega> = release_mutex t m \<omega>"
| "effect t (Cv_Wake m) r \<omega> = acquire_mutex t m \<omega>"
| "effect t c r \<omega> = \<omega>"

text \<open>
  An access in the weak machine: as in the interleaving machine, or a load, or a
  compare-exchange that fails, of the value \<open>j\<close> stores before the newest.
\<close>

inductive weak_exec :: "nat \<Rightarrow> 'd act \<Rightarrow> 'd mach \<times> memory \<Rightarrow> 'd resp \<Rightarrow> 'd mach \<times> memory \<Rightarrow> bool" where
  newest: "exec t n c \<sigma> = Some (r, \<sigma>') \<Longrightarrow> weak_exec t c (\<sigma>, \<omega>) r (\<sigma>', effect t c r \<omega>)"
| older: "visible t \<omega> a j \<Longrightarrow>
    weak_exec t (Load ord a) (\<sigma>, \<omega>) (RSeq (nth_value \<omega> a j)) (\<sigma>, look t ord a j \<omega>)"
| failed: "visible t \<omega> a j \<Longrightarrow>
    weak_exec t (Cas_Weak o1 o2 a e d) (\<sigma>, \<omega>) (RCas False (nth_value \<omega> a j)) (\<sigma>, look t o2 a j \<omega>)"

fun ordered :: "nat \<Rightarrow> 'd act \<Rightarrow> memory \<Rightarrow> bool" where
  "ordered t (Read b i) \<omega> \<longleftrightarrow>
     (\<forall>n < length (history \<omega>). \<forall>u. history \<omega> ! n = Written u b i \<longrightarrow> n \<in> seen \<omega> t)"
| "ordered t (Write b i x) \<omega> \<longleftrightarrow>
     (\<forall>n < length (history \<omega>). \<forall>u. history \<omega> ! n = Written u b i \<or> history \<omega> ! n = Was_Read u b i \<longrightarrow> n \<in> seen \<omega> t)"
| "ordered t (Store ord a v) \<omega> \<longleftrightarrow> nth_store \<omega> a 0 \<subseteq> seen \<omega> t"
| "ordered t (Fetch_Add ord a v) \<omega> \<longleftrightarrow> (\<forall>n \<in> set (stores \<omega> a). n \<notin> seen \<omega> t \<longrightarrow> is_rmw (history \<omega> ! n))"
| "ordered t (Cas_Weak o1 o2 a e d) \<omega> \<longleftrightarrow> (\<forall>n \<in> set (stores \<omega> a). n \<notin> seen \<omega> t \<longrightarrow> is_rmw (history \<omega> ! n))"
| "ordered t (Init a v) \<omega> \<longleftrightarrow> False"
| "ordered t c \<omega> \<longleftrightarrow> True"

lemma see_simps [simp]:
  "base (see t V \<omega>) = base \<omega>" "history (see t V \<omega>) = history \<omega>" "handed (see t V \<omega>) = handed \<omega>"
  "seen (see t V \<omega>) = (seen \<omega>)(t := seen \<omega> t \<union> V)"
  by (simp_all add: see_def)

lemma look_simps [simp]:
  "base (look t ord a n \<omega>) = base \<omega>" "history (look t ord a n \<omega>) = history \<omega>"
  "handed (look t ord a n \<omega>) = handed \<omega>"
  by (simp_all add: look_def)

lemma seen_look:
  "seen (look t ord a n \<omega>) = (seen \<omega>)(t := seen \<omega> t \<union> nth_store \<omega> a n \<union> (if ord = Acquire then nth_passed \<omega> a n else {}))"
  by (simp add: look_def Un_assoc)

lemma record_access_simps [simp]:
  "base (record_access t e \<omega>) = base \<omega>" "history (record_access t e \<omega>) = history \<omega> @ [e]"
  "handed (record_access t e \<omega>) = handed \<omega>"
  "seen (record_access t e \<omega>) = (seen \<omega>)(t := insert (length (history \<omega>)) (seen \<omega> t))"
  by (simp_all add: record_access_def)

lemma mutex_simps [simp]:
  "base (acquire_mutex t m \<omega>) = base \<omega>" "history (acquire_mutex t m \<omega>) = history \<omega>"
  "seen (acquire_mutex t m \<omega>) = (seen \<omega>)(t := seen \<omega> t \<union> handed \<omega> m)"
  "base (release_mutex t m \<omega>) = base \<omega>" "history (release_mutex t m \<omega>) = history \<omega>"
  "seen (release_mutex t m \<omega>) = seen \<omega>"
  by (simp_all add: acquire_mutex_def release_mutex_def)

lemma stores_same: "history \<omega>' = history \<omega> \<Longrightarrow> stores \<omega>' a = stores \<omega> a"
  by (simp add: stores_def)

lemma stores_append:
  assumes "history \<omega>' = history \<omega> @ [e]"
  shows "stores \<omega>' a = (if stores_to a e then length (history \<omega>) # stores \<omega> a else stores \<omega> a)"
proof -
  have "filter (\<lambda>i. stores_to a ((history \<omega> @ [e]) ! i)) (rev [0..<length (history \<omega>)]) = stores \<omega> a"
    unfolding stores_def by (intro filter_cong) (auto simp: nth_append)
  then show ?thesis by (simp add: stores_def [of \<omega>'] assms)
qed

lemma in_stores: "i \<in> set (stores \<omega> a) \<longleftrightarrow> i < length (history \<omega>) \<and> stores_to a (history \<omega> ! i)"
  by (auto simp: stores_def)

lemma stores_nth:
  assumes "n < length (stores \<omega> a)"
  shows "stores \<omega> a ! n < length (history \<omega>)" "stores_to a (history \<omega> ! (stores \<omega> a ! n))"
  using nth_mem [OF assms] by (simp_all add: in_stores)

lemma newest_same:
  assumes "history \<omega>' = history \<omega>" "base \<omega>' = base \<omega>"
  shows "nth_value \<omega>' a n = nth_value \<omega> a n" "nth_store \<omega>' a n = nth_store \<omega> a n" "nth_passed \<omega>' a n = nth_passed \<omega> a n"
  by (simp_all add: nth_value_def nth_store_def nth_passed_def stores_same [OF assms(1)] assms)

lemma newest_append:
  assumes "history \<omega>' = history \<omega> @ [e]" "base \<omega>' = base \<omega>"
  shows "nth_value \<omega>' a 0 = (if stores_to a e then value_stored e else nth_value \<omega> a 0)"
proof (cases "stores_to a e")
  case False
  then show ?thesis
    using stores_nth(1) [of 0 \<omega> a] by (auto simp: nth_value_def stores_append [OF assms(1)] assms nth_append)
qed (simp add: nth_value_def stores_append [OF assms(1)] assms)

text \<open>The stores are sorted, the newest first.\<close>

lemma sorted_stores: "sorted_wrt (>) (stores \<omega> a)"
  unfolding stores_def by (intro sorted_wrt_filter) (simp add: sorted_wrt_rev)

text \<open>A visible store is not older than one that is known.\<close>

lemma visible_not_older:
  assumes v: "visible t \<omega> a n" and i: "i \<in> seen \<omega> t" "i < length (history \<omega>)" "stores_to a (history \<omega> ! i)"
  shows "n < length (stores \<omega> a)" and "i \<le> stores \<omega> a ! n"
proof -
  have "i \<in> set (stores \<omega> a)" using i by (simp add: in_stores)
  then obtain k where k: "k < length (stores \<omega> a)" "stores \<omega> a ! k = i" by (auto simp: in_set_conv_nth)
  have "n \<le> k"
  proof (rule ccontr)
    assume "\<not> n \<le> k"
    then have "i \<in> set (take n (stores \<omega> a))" using k by (auto simp: in_set_conv_nth intro: exI [of _ k])
    with v i(1) show False by (simp add: visible_def)
  qed
  then show "n < length (stores \<omega> a)" using k by simp
  show "i \<le> stores \<omega> a ! n"
  proof (cases "n = k")
    case False
    then show ?thesis using sorted_wrt_nth_less [OF sorted_stores, of n k \<omega> a] k \<open>n \<le> k\<close> by simp
  qed (use k in simp)
qed

section \<open>Coherence\<close>

text \<open>The interleaving machine has the newest values, and a thread knows what it has done.\<close>

definition coherent :: "'d mach \<Rightarrow> memory \<Rightarrow> bool" where
  "coherent \<sigma> \<omega> \<longleftrightarrow> (\<forall>a. nth_value \<omega> a 0 = mem \<sigma> a) \<and>
     (\<forall>n < length (history \<omega>). n \<in> seen \<omega> (actor (history \<omega> ! n)))"

lemma coherent_same: "coherent \<sigma> \<omega> \<Longrightarrow> mem \<sigma>' = mem \<sigma> \<Longrightarrow> coherent \<sigma>' \<omega>"
  by (simp add: coherent_def)

lemma coherent_see: "coherent \<sigma> \<omega> \<Longrightarrow> coherent \<sigma> (see t V \<omega>)"
  using newest_same [of "see t V \<omega>" \<omega>] by (auto simp: coherent_def)

lemma coherent_sync:
  "coherent \<sigma> \<omega> \<Longrightarrow> coherent \<sigma> (look t ord a n \<omega>)"
  "coherent \<sigma> \<omega> \<Longrightarrow> coherent \<sigma> (acquire_mutex t m \<omega>)"
  "coherent \<sigma> \<omega> \<Longrightarrow> coherent \<sigma> (release_mutex t m \<omega>)"
  using newest_same [of "release_mutex t m \<omega>" \<omega>]
  by (simp_all add: look_def acquire_mutex_def coherent_see) (simp add: coherent_def)

lemma coherent_record:
  assumes "coherent \<sigma> \<omega>" "actor e = t" "mem \<sigma>' = (\<lambda>a. if stores_to a e then value_stored e else mem \<sigma> a)"
  shows "coherent \<sigma>' (record_access t e \<omega>)"
  unfolding coherent_def
proof (intro conjI allI impI)
  show "nth_value (record_access t e \<omega>) a 0 = mem \<sigma>' a" for a
    using assms newest_append [of "record_access t e \<omega>" \<omega> e a] by (simp add: coherent_def)
  show "n \<in> seen (record_access t e \<omega>) (actor (history (record_access t e \<omega>) ! n))"
    if "n < length (history (record_access t e \<omega>))" for n
  proof (cases "n = length (history \<omega>)")
    case False
    then have "n < length (history \<omega>)" using that by simp
    then show ?thesis using assms(1) by (auto simp: coherent_def nth_append)
  qed (simp add: assms(2))
qed

text \<open>All that has happened before the threads start, happens before all that they do.\<close>

definition fresh :: "'d mach \<Rightarrow> memory" where
  "fresh \<sigma> = \<lparr>base = mem \<sigma>, history = [], seen = (\<lambda>_. {}), handed = (\<lambda>_. {})\<rparr>"

lemma fresh_simps [simp]:
  "base (fresh \<sigma>) = mem \<sigma>" "history (fresh \<sigma>) = []" "seen (fresh \<sigma>) t = {}" "handed (fresh \<sigma>) m = {}"
  by (simp_all add: fresh_def)

lemma coherent_fresh: "coherent \<sigma> (fresh \<sigma>)"
  by (simp add: coherent_def nth_value_def stores_def)

lemma coherent_modify: "coherent \<sigma> \<omega> \<Longrightarrow> coherent (put a v \<sigma>) (modify t ord a v \<omega>)"
  unfolding modify_def Let_def
  by (rule coherent_record [OF coherent_sync(1)]) (auto simp: fun_eq_iff)

lemma coherent_store: "coherent \<sigma> \<omega> \<Longrightarrow> coherent (put a v \<sigma>) (store t ord a v \<omega>)"
  unfolding store_def by (rule coherent_record) (auto simp: fun_eq_iff)

lemma coherent_data:
  "coherent \<sigma> \<omega> \<Longrightarrow> mem \<sigma>' = mem \<sigma> \<Longrightarrow> coherent \<sigma>' (record_access t (Was_Read t b i) \<omega>)"
  "coherent \<sigma> \<omega> \<Longrightarrow> mem \<sigma>' = mem \<sigma> \<Longrightarrow> coherent \<sigma>' (record_access t (Written t b i) \<omega>)"
  by (rule coherent_record; simp)+

lemma coherent_effect:
  assumes e: "exec t n c \<sigma> = Some (r, \<sigma>')" and "coherent \<sigma> \<omega>"
  shows "coherent \<sigma>' (effect t c r \<omega>)"
proof -
  have c: "coherent \<sigma>1 \<omega>" if "mem \<sigma>1 = mem \<sigma>" for \<sigma>1 :: "'a mach"
    using assms(2) that by (rule coherent_same)
  show ?thesis
    using e by (cases c)
      (auto split: if_splits intro!: c coherent_sync coherent_modify coherent_store coherent_data assms(2))
qed

lemma coherent_weak_exec:
  assumes "weak_exec t c (\<sigma>, \<omega>) r (\<sigma>', \<omega>')" and "coherent \<sigma> \<omega>"
  shows "coherent \<sigma>' \<omega>'"
  using assms by (cases rule: weak_exec.cases) (auto intro: coherent_effect coherent_sync)

section \<open>The pool of threads\<close>

type_synonym ('d, 'a) weak_pool = "('d mach \<times> memory) \<times> (nat \<Rightarrow> ('d, 'a) prog)"

inductive weak_step :: "('d, 'a) weak_pool \<Rightarrow> ('d, 'a) weak_pool \<Rightarrow> bool" where
  weak_access: "ps t = Act c k \<Longrightarrow> weak_exec t c s r s' \<Longrightarrow> weak_step (s, ps) (s', ps(t := k r))"

inductive weak_run :: "('d, 'a) weak_pool \<Rightarrow> ('d, 'a) weak_pool \<Rightarrow> bool" for c0 where
  weak_start: "weak_run c0 c0"
| weak_more: "weak_run c0 c \<Longrightarrow> weak_step c c' \<Longrightarrow> weak_run c0 c'"

text \<open>The interleavings are among the executions of the weak machine.\<close>

lemma pool_run_weak_run:
  assumes "pool_run (\<sigma>0, ps0) c"
  shows "\<exists>\<omega>. weak_run ((\<sigma>0, \<omega>0), ps0) ((fst c, \<omega>), snd c)"
  using assms
proof (induction rule: pool_run.induct)
  case start
  show ?case by (auto intro: weak_start)
next
  case (step c c')
  then obtain \<omega> where w: "weak_run ((\<sigma>0, \<omega>0), ps0) ((fst c, \<omega>), snd c)" by blast
  from \<open>pool_step c c'\<close> obtain \<sigma> ps t a k n r \<sigma>' where c: "c = (\<sigma>, ps)" "c' = (\<sigma>', ps(t := k r))"
    and p: "ps t = Act a k" and e: "exec t n a \<sigma> = Some (r, \<sigma>')"
    by (cases rule: pool_step.cases) auto
  have "weak_step ((\<sigma>, \<omega>), ps) ((\<sigma>', effect t a r \<omega>), ps(t := k r))"
    using p newest [OF e] by (rule weak_access)
  with w show ?case unfolding c fst_conv snd_conv by (blast intro: weak_more)
qed

lemma pool_exec_weak_run:
  assumes "pool_exec w (\<sigma>0, ps0) = Some (\<sigma>, ps)"
  obtains \<omega> where "weak_run ((\<sigma>0, fresh \<sigma>0), ps0) ((\<sigma>, \<omega>), ps)"
  using pool_run_weak_run [OF pool_exec_run [OF assms], of "fresh \<sigma>0"] by auto

text \<open>Every thread is about to make an access that is ordered.\<close>

definition race_free :: "memory \<Rightarrow> (nat \<Rightarrow> ('d, 'a) prog) \<Rightarrow> bool" where
  "race_free \<omega> ps \<longleftrightarrow> (\<forall>t c k. ps t = Act c k \<longrightarrow> ordered t c \<omega>)"

section \<open>What it allows\<close>

text \<open>
  The machine is weaker than the interleaving: of two threads that each store to an atomic and
  then load the other's, both may load the old value.
\<close>

lemma weak_store:
  assumes "ps t = do_act (Store ord a v) p"
  shows "weak_step ((\<sigma>, \<omega>), ps) ((put a v \<sigma>, store t ord a v \<omega>), ps(t := p))"
  using weak_access [of ps t "Store ord a v" "\<lambda>_. p" "(\<sigma>, \<omega>)" RUnit] newest [of t 0 "Store ord a v" \<sigma> RUnit "put a v \<sigma>" \<omega>] assms
  by (simp add: do_act_def)

lemma weak_load:
  assumes "ps t = load ord a k" "visible t \<omega> a j"
  shows "weak_step ((\<sigma>, \<omega>), ps) ((\<sigma>, look t ord a j \<omega>), ps(t := k (nth_value \<omega> a j)))"
  using weak_access [of ps t "Load ord a" "\<lambda>r. k (seq_of r)" "(\<sigma>, \<omega>)"] older [OF assms(2)] assms(1)
  by (fastforce simp: load_def)

lemma store_buffering:
  assumes "mem \<sigma> = (\<lambda>_. 0)"
    and "ps 2 = do_act (Store Release (Cell 2) 1) (load Acquire (Cell 3) Return)"
    and "ps 3 = do_act (Store Release (Cell 3) 1) (load Acquire (Cell 2) Return)"
  shows "\<exists>c. weak_run ((\<sigma>, fresh \<sigma>), ps) c \<and> snd c 2 = Return 0 \<and> snd c 3 = Return 0"
proof -
  define \<omega> where "\<omega> = store 3 Release (Cell 3) 1 (store 2 Release (Cell 2) 1 (fresh \<sigma>))"
  define \<omega>' where "\<omega>' = look 2 Acquire (Cell 3) (Suc 0) \<omega>"
  have h: "history \<omega> = [Stored 2 (Cell 2) 1 False {0}, Stored 3 (Cell 3) 1 False {Suc 0}]"
    by (simp add: \<omega>_def store_def)
  have h': "history \<omega>' = history \<omega>" "base \<omega> = (\<lambda>_. 0)" "base \<omega>' = base \<omega>"
    using assms(1) by (simp_all add: \<omega>'_def \<omega>_def store_def)
  have s: "stores \<omega> (Cell 2) = [0]" "stores \<omega> (Cell 3) = [Suc 0]" by (simp_all add: stores_def h)
  have v: "visible 2 \<omega> (Cell 3) (Suc 0)" by (simp add: visible_def s) (simp add: \<omega>_def store_def)
  have v': "visible 3 \<omega>' (Cell 2) (Suc 0)"
    by (simp add: visible_def stores_same [OF h'(1)] s) (simp add: \<omega>'_def seen_look nth_store_def s nth_passed_def, simp add: \<omega>_def store_def)
  have z: "nth_value \<omega> (Cell 3) (Suc 0) = 0" "nth_value \<omega>' (Cell 2) (Suc 0) = 0"
    by (simp_all add: nth_value_def stores_same [OF h'(1)] s h')
  let ?l2 = "load Acquire (Cell 3) Return" and ?l3 = "load Acquire (Cell 2) Return"
  have 1: "weak_step ((\<sigma>, fresh \<sigma>), ps) ((put (Cell 2) 1 \<sigma>, store 2 Release (Cell 2) 1 (fresh \<sigma>)), ps(2 := ?l2))"
    by (rule weak_store) (rule assms(2))
  have 2: "weak_step ((put (Cell 2) 1 \<sigma>, store 2 Release (Cell 2) 1 (fresh \<sigma>)), ps(2 := ?l2))
     ((put (Cell 3) 1 (put (Cell 2) 1 \<sigma>), \<omega>), ps(2 := ?l2, 3 := ?l3))"
    unfolding \<omega>_def by (rule weak_store) (simp add: assms(3))
  have 3: "weak_step ((put (Cell 3) 1 (put (Cell 2) 1 \<sigma>), \<omega>), ps(2 := ?l2, 3 := ?l3))
     ((put (Cell 3) 1 (put (Cell 2) 1 \<sigma>), \<omega>'), (ps(2 := ?l2, 3 := ?l3))(2 := Return 0))"
    using weak_load [of "ps(2 := ?l2, 3 := ?l3)" 2 Acquire "Cell 3" Return \<omega> "Suc 0"] v unfolding \<omega>'_def z by simp
  have 4: "weak_step ((put (Cell 3) 1 (put (Cell 2) 1 \<sigma>), \<omega>'), (ps(2 := ?l2, 3 := ?l3))(2 := Return 0))
     ((put (Cell 3) 1 (put (Cell 2) 1 \<sigma>), look 3 Acquire (Cell 2) (Suc 0) \<omega>'),
      (ps(2 := ?l2, 3 := ?l3))(2 := Return 0, 3 := Return 0))"
    using weak_load [of "(ps(2 := ?l2, 3 := ?l3))(2 := Return 0)" 3 Acquire "Cell 2" Return \<omega>' "Suc 0"] v' unfolding z by simp
  show ?thesis
    using weak_more [OF weak_more [OF weak_more [OF weak_more [OF weak_start 1] 2] 3] 4] by (intro exI conjI) (assumption, simp_all)
qed

text \<open>
  And a store with relaxed order publishes nothing: a thread that acquires its value does not
  know of the data written before it.
\<close>

lemma relaxed_store_races:
  assumes "ps 2 = do_act (Write 0 0 x) (do_act (Store Relaxed (Cell 2) 1) (Return 0))"
    and "ps 3 = load Acquire (Cell 2) (\<lambda>v. read_data 0 0 (\<lambda>x. Return v))"
  shows "\<exists>c. weak_run ((\<sigma>, fresh \<sigma>), ps) c \<and> \<not> race_free (snd (fst c)) (snd c)"
proof -
  define \<omega> where "\<omega> = store 2 Relaxed (Cell 2) 1 (record_access 2 (Written 2 0 0) (fresh \<sigma>))"
  have h: "history \<omega> = [Written 2 0 0, Stored 2 (Cell 2) 1 False {}]" by (simp add: \<omega>_def store_def)
  have s: "stores \<omega> (Cell 2) = [Suc 0]" by (simp add: stores_def h)
  have k: "0 \<notin> seen (look 3 Acquire (Cell 2) 0 \<omega>) 3"
    by (simp add: seen_look nth_store_def nth_passed_def s h) (simp add: \<omega>_def store_def)
  let ?p = "do_act (Store Relaxed (Cell 2) 1) (Return 0)" and ?r = "\<lambda>v. read_data 0 0 (\<lambda>x. Return v)"
  obtain \<sigma>1 where 1: "weak_step ((\<sigma>, fresh \<sigma>), ps) ((\<sigma>1, record_access 2 (Written 2 0 0) (fresh \<sigma>)), ps(2 := ?p))"
    using weak_access [of ps 2 "Write 0 0 x" "\<lambda>_. ?p" "(\<sigma>, fresh \<sigma>)" RUnit] assms(1)
      newest [of 2 0 "Write 0 0 x" \<sigma> RUnit _ "fresh \<sigma>"] by (fastforce simp: do_act_def)
  have 2: "weak_step ((\<sigma>1, record_access 2 (Written 2 0 0) (fresh \<sigma>)), ps(2 := ?p))
     ((put (Cell 2) 1 \<sigma>1, \<omega>), ps(2 := Return 0))"
    using weak_store [of "ps(2 := ?p)" 2 Relaxed "Cell 2" 1 "Return 0"] unfolding \<omega>_def by simp
  have v: "visible 3 \<omega> (Cell 2) 0" by (simp add: visible_def)
  define ps' where "ps' = (ps(2 := Return 0))(3 := ?r (nth_value \<omega> (Cell 2) 0))"
  have 3: "weak_step ((put (Cell 2) 1 \<sigma>1, \<omega>), ps(2 := Return 0))
     ((put (Cell 2) 1 \<sigma>1, look 3 Acquire (Cell 2) 0 \<omega>), ps')"
    unfolding ps'_def by (rule weak_load [OF _ v]) (simp add: assms(2))
  have "\<not> ordered 3 (Read 0 0 :: 'a act) (look 3 Acquire (Cell 2) 0 \<omega>)"
    unfolding ordered.simps not_all by (rule exI [of _ 0]) (use k h in simp)
  then have "\<not> race_free (look 3 Acquire (Cell 2) 0 \<omega>) ps'"
    unfolding race_free_def not_all by (intro exI [of _ 3]) (auto simp: ps'_def read_data_def)
  then show ?thesis
    using weak_more [OF weak_more [OF weak_more [OF weak_start 1] 2] 3] by auto
qed

end
