(* ===== verification/Weak_Protocols.thy ===== *)
theory Weak_Protocols
  imports Weak_Memory
begin

text \<open>
  Protocols on the weak machine.  The history and the views are part of the ghost state of the
  protocol, from which \<open>hist\<close> selects them.  \<open>weakly_safe\<close> is the weakest precondition of a program:
  its accesses are ordered, and whatever a load may return, it goes on safely.  What is safe on
  the weak machine is safe on the interleaving machine, so a proof of the former serves both.
\<close>

section \<open>Safety of one thread\<close>

primrec weakly_safe :: "('g \<Rightarrow> memory) \<Rightarrow> ('d, 'g) protocol \<Rightarrow> nat \<Rightarrow> ('d, 'a) prog \<Rightarrow>
    ('a \<Rightarrow> 'd mach \<times> 'g \<Rightarrow> bool) \<Rightarrow> 'd mach \<times> 'g \<Rightarrow> bool" where
  "weakly_safe hist P t (Return x) = (\<lambda>Q s. Q x s)"
| "weakly_safe hist P t (Act c k) = (\<lambda>Q s. \<forall>\<sigma> \<gamma>. rely P t s (\<sigma>, \<gamma>) \<longrightarrow>
     disciplined t c \<sigma> \<and> ordered t c (hist \<gamma>) \<and> okay P t c (\<sigma>, \<gamma>) \<and>
     (\<forall>r \<sigma>' \<omega>'. weak_exec t c (\<sigma>, hist \<gamma>) r (\<sigma>', \<omega>') \<longrightarrow>
       (\<exists>\<gamma>'. hist \<gamma>' = \<omega>' \<and> guar P t (\<sigma>, \<gamma>) (\<sigma>', \<gamma>') \<and> weakly_safe hist P t (k r) Q (\<sigma>', \<gamma>'))))"
| "weakly_safe hist P t Assert_Failed = (\<lambda>Q s. False)"
| "weakly_safe hist P t Out_Of_Fuel = (\<lambda>Q s. True)"

declare weakly_safe.simps(2) [simp del]

lemma weakly_safe_bind:
  "weakly_safe hist P t (bind p f) Q s \<longleftrightarrow> weakly_safe hist P t p (\<lambda>x. weakly_safe hist P t (f x) Q) s"
proof (induction p arbitrary: s)
  case (Act c k)
  have "weakly_safe hist P t (bind (k r) f) Q s' \<longleftrightarrow> weakly_safe hist P t (k r) (\<lambda>x. weakly_safe hist P t (f x) Q) s'"
    for r s' by (rule Act.IH) simp
  then show ?case by (simp add: weakly_safe.simps)
qed auto

lemma weakly_safe_conseq:
  "weakly_safe hist P t p Q s \<Longrightarrow> (\<And>x s'. Q x s' \<Longrightarrow> Q' x s') \<Longrightarrow> weakly_safe hist P t p Q' s"
proof (induction p arbitrary: s)
  case (Act c k)
  have IH: "weakly_safe hist P t (k r) Q s' \<Longrightarrow> weakly_safe hist P t (k r) Q' s'" for r s'
    using Act.IH [OF rangeI] Act.prems(2) by blast
  show ?case using Act.prems(1) unfolding weakly_safe.simps by (meson IH)
qed auto

lemma weakly_safe_assert [simp]: "weakly_safe hist P t (assert b p) Q s \<longleftrightarrow> b \<and> weakly_safe hist P t p Q s"
  by (simp add: assert_def)

text \<open>An interleaving is an execution of the weak machine.\<close>

lemma weakly_safe_safe: "weakly_safe hist P t p Q s \<Longrightarrow> safe P t p Q s"
proof (induction p arbitrary: s)
  case (Act c k)
  have IH: "weakly_safe hist P t (k r) Q s' \<Longrightarrow> safe P t (k r) Q s'" for r s'
    using Act.IH [OF rangeI] by blast
  show ?case
    unfolding safe.simps
  proof (intro allI impI conjI)
    fix \<sigma> \<gamma> assume "rely P t s (\<sigma>, \<gamma>)"
    with Act.prems have now: "disciplined t c \<sigma>" "okay P t c (\<sigma>, \<gamma>)"
      and go: "\<And>r \<sigma>' \<omega>'. weak_exec t c (\<sigma>, hist \<gamma>) r (\<sigma>', \<omega>') \<Longrightarrow>
        \<exists>\<gamma>'. hist \<gamma>' = \<omega>' \<and> guar P t (\<sigma>, \<gamma>) (\<sigma>', \<gamma>') \<and> weakly_safe hist P t (k r) Q (\<sigma>', \<gamma>')"
      unfolding weakly_safe.simps by blast+
    show "disciplined t c \<sigma>" "okay P t c (\<sigma>, \<gamma>)" by fact+
    fix n r \<sigma>' assume "exec t n c \<sigma> = Some (r, \<sigma>')"
    from go [OF newest [OF this]] IH
    show "\<exists>\<gamma>'. guar P t (\<sigma>, \<gamma>) (\<sigma>', \<gamma>') \<and> safe P t (k r) Q (\<sigma>', \<gamma>')" by blast
  qed
qed auto

text \<open>The accesses of which the result and the effect are the same on both machines.\<close>

lemma weak_exec_newest:
  assumes "\<And>ord a. c \<noteq> Load ord a" "\<And>o1 o2 a e d. c \<noteq> Cas_Weak o1 o2 a e d"
  shows "weak_exec t c (\<sigma>, \<omega>) r (\<sigma>', \<omega>') \<longleftrightarrow> (\<exists>n. exec t n c \<sigma> = Some (r, \<sigma>')) \<and> \<omega>' = effect t c r \<omega>"
proof
  assume "weak_exec t c (\<sigma>, \<omega>) r (\<sigma>', \<omega>')"
  then show "(\<exists>n. exec t n c \<sigma> = Some (r, \<sigma>')) \<and> \<omega>' = effect t c r \<omega>"
    using assms by (cases rule: weak_exec.cases) blast+
qed (auto intro: newest)

inductive_cases weak_loadE: "weak_exec t (Load ord a) s r s'"

lemma weakly_safe_store:
  "weakly_safe hist P t (do_act (Store ord a v) p) Q s \<longleftrightarrow> (\<forall>\<sigma> \<gamma>. rely P t s (\<sigma>, \<gamma>) \<longrightarrow>
     ordered t (Store ord a v :: 'd act) (hist \<gamma>) \<and> okay P t (Store ord a v) (\<sigma>, \<gamma>) \<and>
     (\<exists>\<gamma>'. hist \<gamma>' = store t ord a v (hist \<gamma>) \<and> guar P t (\<sigma>, \<gamma>) (put a v \<sigma>, \<gamma>') \<and>
        weakly_safe hist P t p Q (put a v \<sigma>, \<gamma>')))" for P :: "('d, 'g) protocol"
  by (auto simp: do_act_def weakly_safe.simps weak_exec_newest)

lemma weakly_safe_write:
  "weakly_safe hist P t (do_act (Write b i x) p) Q s \<longleftrightarrow> (\<forall>\<sigma> \<gamma>. rely P t s (\<sigma>, \<gamma>) \<longrightarrow>
     ordered t (Write b i x) (hist \<gamma>) \<and> okay P t (Write b i x) (\<sigma>, \<gamma>) \<and>
     (\<exists>\<gamma>'. hist \<gamma>' = record_access t (Written t b i) (hist \<gamma>) \<and>
        guar P t (\<sigma>, \<gamma>) (\<sigma>\<lparr>cells := (cells \<sigma>)(b := (cells \<sigma> b)(i := x))\<rparr>, \<gamma>') \<and>
        weakly_safe hist P t p Q (\<sigma>\<lparr>cells := (cells \<sigma>)(b := (cells \<sigma> b)(i := x))\<rparr>, \<gamma>')))" for P :: "('d, 'g) protocol"
  by (auto simp: do_act_def weakly_safe.simps weak_exec_newest)

lemma weakly_safe_read_data:
  "weakly_safe hist P t (read_data b i k) Q s \<longleftrightarrow> (\<forall>\<sigma> \<gamma>. rely P t s (\<sigma>, \<gamma>) \<longrightarrow>
     ordered t (Read b i :: 'd act) (hist \<gamma>) \<and> okay P t (Read b i) (\<sigma>, \<gamma>) \<and>
     (\<exists>\<gamma>'. hist \<gamma>' = record_access t (Was_Read t b i) (hist \<gamma>) \<and> guar P t (\<sigma>, \<gamma>) (\<sigma>, \<gamma>') \<and>
        weakly_safe hist P t (k (cells \<sigma> b i)) Q (\<sigma>, \<gamma>')))" for P :: "('d, 'g) protocol"
  by (auto simp: read_data_def weakly_safe.simps weak_exec_newest)

lemma weakly_safe_fetch_add:
  "weakly_safe hist P t (fetch_add ord a v k) Q s \<longleftrightarrow> (\<forall>\<sigma> \<gamma>. rely P t s (\<sigma>, \<gamma>) \<longrightarrow>
     ordered t (Fetch_Add ord a v :: 'd act) (hist \<gamma>) \<and> okay P t (Fetch_Add ord a v) (\<sigma>, \<gamma>) \<and>
     (\<exists>\<gamma>'. hist \<gamma>' = modify t ord a (mem \<sigma> a + v) (hist \<gamma>) \<and> guar P t (\<sigma>, \<gamma>) (put a (mem \<sigma> a + v) \<sigma>, \<gamma>') \<and>
        weakly_safe hist P t (k (mem \<sigma> a)) Q (put a (mem \<sigma> a + v) \<sigma>, \<gamma>')))" for P :: "('d, 'g) protocol"
  by (auto simp: fetch_add_def weakly_safe.simps weak_exec_newest)

text \<open>A load of a coherent memory returns a visible store.\<close>

lemma weak_load_iff:
  assumes "coherent \<sigma> \<omega>"
  shows "weak_exec t (Load ord a) (\<sigma>, \<omega>) r (\<sigma>', \<omega>') \<longleftrightarrow>
    (\<exists>j. visible t \<omega> a j \<and> r = RSeq (nth_value \<omega> a j) \<and> \<sigma>' = \<sigma> \<and> \<omega>' = look t ord a j \<omega>)"
proof -
  have "visible t \<omega> a 0" "mem \<sigma> a = nth_value \<omega> a 0"
    using assms by (simp_all add: visible_def coherent_def)
  then show ?thesis by (auto elim!: weak_loadE intro: weak_exec.older)
qed

section \<open>Protocols\<close>

text \<open>A change that only the loads and the mutexes of thread \<open>t\<close> have made.\<close>

definition only_sees :: "nat \<Rightarrow> memory \<Rightarrow> memory \<Rightarrow> bool" where
  "only_sees t \<omega> \<omega>' \<longleftrightarrow> base \<omega>' = base \<omega> \<and> history \<omega>' = history \<omega> \<and> seen \<omega> t \<subseteq> seen \<omega>' t \<and>
     (\<forall>u. u \<noteq> t \<longrightarrow> seen \<omega>' u = seen \<omega> u)"

lemma only_sees_look: "only_sees t \<omega> (look t ord a n \<omega>)"
  by (auto simp: only_sees_def seen_look)

lemma only_sees_seen: "only_sees t \<omega> \<omega>' \<Longrightarrow> seen \<omega> u \<subseteq> seen \<omega>' u"
  by (cases "u = t") (simp_all add: only_sees_def)

lemma coherent_only_sees: "coherent \<sigma> \<omega> \<Longrightarrow> only_sees t \<omega> \<omega>' \<Longrightarrow> mem \<sigma>' = mem \<sigma> \<Longrightarrow> coherent \<sigma>' \<omega>'"
  using newest_same [of \<omega>' \<omega>] only_sees_seen [of t \<omega> \<omega>'] by (simp add: coherent_def only_sees_def) blast

lemma weak_exec_waiting_act:
  assumes "waiting_act c h = Some h'" and "weak_exec t c (\<sigma>, \<omega>) r (\<sigma>', \<omega>')" and "holds_mutexes t h \<sigma>"
  shows "only_sync t \<sigma> \<sigma>'" and "holds_mutexes t h' \<sigma>'" and "only_sees t \<omega> \<omega>'" and "fits c r"
proof -
  have "only_sync t \<sigma> \<sigma>' \<and> holds_mutexes t h' \<sigma>' \<and> only_sees t \<omega> \<omega>' \<and> fits c r"
    using assms(2)
  proof (cases rule: weak_exec.cases)
    case (newest n)
    have "only_sees t \<omega> (effect t c r \<omega>)"
      using assms(1) only_sees_look by (cases c) (auto simp: only_sees_def split: if_splits)
    then show ?thesis using newest exec_waiting_act [OF assms(1) newest(2) assms(3)] exec_fits [OF newest(2)] by simp
  next
    case (older a j ord)
    then show ?thesis using assms only_sees_look by (auto simp: only_sync_def)
  next
    case (failed a j o1 o2 e d)
    with assms(1) show ?thesis by simp
  qed
  then show "only_sync t \<sigma> \<sigma>'" and "holds_mutexes t h' \<sigma>'" and "only_sees t \<omega> \<omega>'" and "fits c r" by blast+
qed

lemma ordered_waiting_act: "waiting_act c h = Some h' \<Longrightarrow> ordered t c \<omega>"
  by (cases c) (auto split: if_splits)

locale weak_protocol = sound_protocol P for P :: "('d, 'g) protocol" +
  fixes hist :: "'g \<Rightarrow> memory" and upd :: "memory \<Rightarrow> 'g \<Rightarrow> 'g"
  assumes hist_upd: "hist (upd \<omega> \<gamma>) = \<omega>"
    and inv_coherent: "invar P (\<sigma>, \<gamma>) \<Longrightarrow> coherent \<sigma> (hist \<gamma>)"
    and sync_guar: "invar P (\<sigma>, \<gamma>) \<Longrightarrow> only_sync t \<sigma> \<sigma>' \<Longrightarrow> only_sees t (hist \<gamma>) \<omega>' \<Longrightarrow>
      guar P t (\<sigma>, \<gamma>) (\<sigma>', upd \<omega>' \<gamma>)"
    and sync_okay: "waiting_act c h = Some h' \<Longrightarrow> okay P t c s"
    and rely_owner: "rely P t s s' \<Longrightarrow> owner (fst s') m = Some t \<longleftrightarrow> owner (fst s) m = Some t"
begin

abbreviation safely :: "nat \<Rightarrow> ('d, 'a) prog \<Rightarrow> ('a \<Rightarrow> 'd mach \<times> 'g \<Rightarrow> bool) \<Rightarrow> 'd mach \<times> 'g \<Rightarrow> bool" where
  "safely \<equiv> weakly_safe hist P"

lemma weakly_safe_rely:
  assumes "safely t p Q s" and "rely P t s s'" and "\<And>x s s'. Q x s \<Longrightarrow> rely P t s s' \<Longrightarrow> Q x s'"
  shows "safely t p Q s'"
proof (cases p)
  case (Act c k)
  have "rely P t s (\<sigma>, \<gamma>)" if "rely P t s' (\<sigma>, \<gamma>)" for \<sigma> \<gamma>
    using assms(2) that by (rule rely_trans)
  then show ?thesis using assms(1) unfolding Act weakly_safe.simps by blast
qed (use assms in auto)

text \<open>The theorem that puts threads together, for the weak machine.\<close>

theorem weak_pool_safe:
  assumes "weak_run ((\<sigma>0, hist \<gamma>0), ps0) c"
    and "invar P (\<sigma>0, \<gamma>0)" and "\<And>t. safely t (ps0 t) (Q t) (\<sigma>0, \<gamma>0)"
    and stable: "\<And>t x s s'. Q t x s \<Longrightarrow> rely P t s s' \<Longrightarrow> Q t x s'"
  shows "\<exists>\<gamma>. hist \<gamma> = snd (fst c) \<and> invar P (fst (fst c), \<gamma>) \<and>
    (\<forall>t. safely t (snd c t) (Q t) (fst (fst c), \<gamma>))"
  using assms(1)
proof (induction rule: weak_run.induct)
  case weak_start
  show ?case using assms(2,3) by auto
next
  case (weak_more c c')
  then obtain \<gamma> where h: "hist \<gamma> = snd (fst c)" and inv: "invar P (fst (fst c), \<gamma>)"
    and safe: "\<And>t. safely t (snd c t) (Q t) (fst (fst c), \<gamma>)" by blast
  from \<open>weak_step c c'\<close> obtain \<sigma> \<omega> ps t a k r \<sigma>' \<omega>' where
    c: "c = ((\<sigma>, \<omega>), ps)" "c' = ((\<sigma>', \<omega>'), ps(t := k r))"
    and p: "ps t = Act a k" and e: "weak_exec t a (\<sigma>, \<omega>) r (\<sigma>', \<omega>')"
    by (cases rule: weak_step.cases) (metis surj_pair)
  have "safely t (Act a k) (Q t) (\<sigma>, \<gamma>)" using safe [of t] c p by simp
  moreover have "weak_exec t a (\<sigma>, hist \<gamma>) r (\<sigma>', \<omega>')" using e h c by simp
  ultimately obtain \<gamma>' where h': "hist \<gamma>' = \<omega>'" and g: "guar P t (\<sigma>, \<gamma>) (\<sigma>', \<gamma>')"
    and s: "safely t (k r) (Q t) (\<sigma>', \<gamma>')"
    using rely_refl [of t "(\<sigma>, \<gamma>)"] unfolding weakly_safe.simps by blast
  have "safely u ((ps(t := k r)) u) (Q u) (\<sigma>', \<gamma>')" for u
  proof (cases "u = t")
    case False
    then have "rely P u (\<sigma>, \<gamma>) (\<sigma>', \<gamma>')" using guar_rely [OF _ g] by simp
    moreover have "safely u (ps u) (Q u) (\<sigma>, \<gamma>)" using safe [of u] c by simp
    ultimately show ?thesis using False stable by (auto intro: weakly_safe_rely)
  qed (simp add: s)
  moreover have "invar P (\<sigma>', \<gamma>')" using g inv c guar_inv by auto
  ultimately show ?case unfolding c fst_conv snd_conv using h' by blast
qed

lemma safely_ordered: "safely t (Act c k) Q (\<sigma>, \<gamma>) \<Longrightarrow> ordered t c (hist \<gamma>)"
  using rely_refl [of t "(\<sigma>, \<gamma>)"] unfolding weakly_safe.simps by blast

section \<open>Waiting\<close>

text \<open>What a thread that only waits can lose: the others act, or it synchronises itself.\<close>

definition waiting_step :: "nat \<Rightarrow> 'd mach \<times> 'g \<Rightarrow> 'd mach \<times> 'g \<Rightarrow> bool" where
  "waiting_step t s s' \<longleftrightarrow> rely P t s s' \<or>
     invar P s \<and> only_sync t (fst s) (fst s') \<and>
     (\<exists>\<omega>. only_sees t (hist (snd s)) \<omega> \<and> snd s' = upd \<omega> (snd s))"

definition stable_waiting :: "nat \<Rightarrow> ('d mach \<times> 'g \<Rightarrow> bool) \<Rightarrow> bool" where
  "stable_waiting t F \<longleftrightarrow> (\<forall>s s'. F s \<longrightarrow> waiting_step t s s' \<longrightarrow> F s')"

lemma stable_waitingD: "stable_waiting t F \<Longrightarrow> F s \<Longrightarrow> waiting_step t s s' \<Longrightarrow> F s'"
  unfolding stable_waiting_def by blast

lemma stable_waitingD1: "stable_waiting t F \<Longrightarrow> F s \<Longrightarrow> rely P t s s' \<Longrightarrow> F s'"
  unfolding stable_waiting_def waiting_step_def by blast

lemma stable_waitingI:
  assumes "\<And>s s'. F s \<Longrightarrow> rely P t s s' \<Longrightarrow> F s'"
    and "\<And>\<sigma> \<gamma> \<sigma>' \<omega>. F (\<sigma>, \<gamma>) \<Longrightarrow> invar P (\<sigma>, \<gamma>) \<Longrightarrow> only_sync t \<sigma> \<sigma>' \<Longrightarrow> only_sees t (hist \<gamma>) \<omega> \<Longrightarrow>
      guar P t (\<sigma>, \<gamma>) (\<sigma>', upd \<omega> \<gamma>) \<Longrightarrow> F (\<sigma>', upd \<omega> \<gamma>)"
  shows "stable_waiting t F"
  unfolding stable_waiting_def waiting_step_def
proof (intro allI impI, elim disjE conjE exE)
  fix s s' \<omega> assume "F s" "invar P s" "only_sync t (fst s) (fst s')" "only_sees t (hist (snd s)) \<omega>" "snd s' = upd \<omega> (snd s)"
  with assms(2) [of "fst s" "snd s" "fst s'" \<omega>] sync_guar [of "fst s" "snd s" t "fst s'" \<omega>]
  show "F s'" by (metis prod.collapse)
qed (rule assms(1))

text \<open>
  A waiting program is safe, and on return every value it has loaded is still covered by
  whatever stable fact \<open>K\<close> its load established.
\<close>

lemma safely_waiting_log:
  assumes "waits_only p h h'" and "invar P s" and "F s" and "holds_mutexes t h (fst s)"
    and "\<And>ord a v. (Load ord a, RSeq v) \<in> set lg \<Longrightarrow> K ord a v s"
    and F: "stable_waiting t F" and K: "\<And>ord a v. stable_waiting t (K ord a v)"
    and see: "\<And>\<sigma> \<gamma> ord a j. invar P (\<sigma>, \<gamma>) \<Longrightarrow> F (\<sigma>, \<gamma>) \<Longrightarrow> visible t (hist \<gamma>) a j \<Longrightarrow>
      K ord a (nth_value (hist \<gamma>) a j) (\<sigma>, upd (look t ord a j (hist \<gamma>)) \<gamma>)"
    and post: "\<And>l x s'. returns p l x \<Longrightarrow> invar P s' \<Longrightarrow> F s' \<Longrightarrow> holds_mutexes t h' (fst s') \<Longrightarrow>
      (\<And>ord a v. (Load ord a, RSeq v) \<in> set (lg @ l) \<Longrightarrow> K ord a v s') \<Longrightarrow> Q x s'"
  shows "safely t p Q s"
  using assms(1-5) post
proof (induction p arbitrary: s h lg)
  case (Return x)
  then show ?case using Return.prems(6) [of "[]" x s] by auto
next
  case (Act c k)
  from Act.prems(1) obtain h1 where h1: "waiting_act c h = Some h1" and w: "\<And>r. waits_only (k r) h1 h'"
    by (auto split: option.splits)
  show ?case
    unfolding weakly_safe.simps
  proof (intro allI impI conjI)
    fix \<sigma> \<gamma> assume r: "rely P t s (\<sigma>, \<gamma>)"
    have i: "invar P (\<sigma>, \<gamma>)" using r Act.prems(2) by (rule rely_inv)
    have f: "F (\<sigma>, \<gamma>)" using F Act.prems(3) r by (rule stable_waitingD1)
    have l: "K ord a v (\<sigma>, \<gamma>)" if "(Load ord a, RSeq v) \<in> set lg" for ord a v
      using K Act.prems(5) [OF that] r by (rule stable_waitingD1)
    have h: "holds_mutexes t h \<sigma>"
      using Act.prems(4) rely_owner [OF r] by (simp add: holds_mutexes_def)
    show "disciplined t c \<sigma>" using h1 h by (rule disciplined_waiting_act)
    show "ordered t c (hist \<gamma>)" using h1 by (rule ordered_waiting_act)
    show "okay P t c (\<sigma>, \<gamma>)" using h1 by (rule sync_okay)
    fix x \<sigma>' \<omega>' assume e: "weak_exec t c (\<sigma>, hist \<gamma>) x (\<sigma>', \<omega>')"
    note sync = weak_exec_waiting_act [OF h1 e h]
    have g: "guar P t (\<sigma>, \<gamma>) (\<sigma>', upd \<omega>' \<gamma>)" using i sync(1,3) by (rule sync_guar)
    have ws: "waiting_step t (\<sigma>, \<gamma>) (\<sigma>', upd \<omega>' \<gamma>)" using i sync(1,3) by (auto simp: waiting_step_def)
    have "safely t (k x) Q (\<sigma>', upd \<omega>' \<gamma>)"
    proof (rule Act.IH [OF rangeI w])
      show "invar P (\<sigma>', upd \<omega>' \<gamma>)" using g i by (rule guar_inv)
      show "F (\<sigma>', upd \<omega>' \<gamma>)" using F f ws by (rule stable_waitingD)
      show "holds_mutexes t h1 (fst (\<sigma>', upd \<omega>' \<gamma>))" using sync(2) by simp
      show "K ord a v (\<sigma>', upd \<omega>' \<gamma>)" if "(Load ord a, RSeq v) \<in> set (lg @ [(c, x)])" for ord a v
      proof (cases "(Load ord a, RSeq v) \<in> set lg")
        case True
        show ?thesis using K l [OF True] ws by (rule stable_waitingD)
      next
        case False
        then have c: "c = Load ord a" "x = RSeq v" using that by auto
        with e inv_coherent [OF i] obtain j where "visible t (hist \<gamma>) a j" "v = nth_value (hist \<gamma>) a j"
          "\<sigma>' = \<sigma>" "\<omega>' = look t ord a j (hist \<gamma>)" by (auto simp: weak_load_iff)
        with see [OF i f] show ?thesis by simp
      qed
      show "Q y s'" if "returns (k x) l y" "invar P s'" "F s'" "holds_mutexes t h' (fst s')"
        "\<And>ord a v. (Load ord a, RSeq v) \<in> set ((lg @ [(c, x)]) @ l) \<Longrightarrow> K ord a v s'" for l y s'
        using that sync(4) by (intro Act.prems(6) [of "(c, x) # l"]) (auto simp: ends_Act)
    qed
    with g hist_upd show "\<exists>\<gamma>'. hist \<gamma>' = \<omega>' \<and> guar P t (\<sigma>, \<gamma>) (\<sigma>', \<gamma>') \<and> safely t (k x) Q (\<sigma>', \<gamma>')" by blast
  qed
next
  case Assert_Failed
  then show ?case by simp
next
  case Out_Of_Fuel
  show ?case by simp
qed

lemmas safely_waiting = safely_waiting_log [where lg = "[]", simplified]

lemma safely_load:
  assumes "\<And>\<sigma> \<gamma>. rely P t s (\<sigma>, \<gamma>) \<Longrightarrow> invar P (\<sigma>, \<gamma>) \<and> okay P t (Load ord a) (\<sigma>, \<gamma>) \<and>
     (\<forall>j. visible t (hist \<gamma>) a j \<longrightarrow>
       safely t (k (nth_value (hist \<gamma>) a j)) Q (\<sigma>, upd (look t ord a j (hist \<gamma>)) \<gamma>))"
  shows "safely t (load ord a k) Q s"
  unfolding load_def weakly_safe.simps
proof (intro allI impI conjI)
  fix \<sigma> \<gamma> assume "rely P t s (\<sigma>, \<gamma>)"
  note here = assms [OF this]
  show "disciplined t (Load ord a) \<sigma>" "ordered t (Load ord a) (hist \<gamma>)" "okay P t (Load ord a) (\<sigma>, \<gamma>)"
    using here by simp_all
  fix r \<sigma>' \<omega>' assume "weak_exec t (Load ord a) (\<sigma>, hist \<gamma>) r (\<sigma>', \<omega>')"
  then obtain j where j: "visible t (hist \<gamma>) a j" "r = RSeq (nth_value (hist \<gamma>) a j)" "\<sigma>' = \<sigma>"
    "\<omega>' = look t ord a j (hist \<gamma>)" using here inv_coherent by (auto simp: weak_load_iff)
  have "guar P t (\<sigma>, \<gamma>) (\<sigma>, upd \<omega>' \<gamma>)"
    using here only_sees_look j by (intro sync_guar) (simp_all add: only_sync_def)
  then show "\<exists>\<gamma>'. hist \<gamma>' = \<omega>' \<and> guar P t (\<sigma>, \<gamma>) (\<sigma>', \<gamma>') \<and> safely t (k (seq_of r)) Q (\<sigma>', \<gamma>')"
    using here j hist_upd by (intro exI [of _ "upd \<omega>' \<gamma>"]) auto
qed

end

text \<open>
  A weak protocol that keeps a thread from accessing what another may be about to write: a pool
  of threads that are safe under it is sound and free of data races in every state it reaches.
\<close>

locale weak_race_free_protocol = weak_protocol P hist upd + race_free_protocol P
  for P :: "('d, 'g) protocol" and hist upd
begin

theorem weak_sound_run:
  assumes "weak_run ((\<sigma>0, hist \<gamma>0), ps0) ((\<sigma>, \<omega>), ps)" and "invar P (\<sigma>0, \<gamma>0)"
    and "\<And>t. safely t (ps0 t) (\<lambda>x s. t \<in> C \<longrightarrow> x = result) (\<sigma>0, \<gamma>0)"
  shows "sound_pool C result ps \<and> race_free \<omega> ps"
proof -
  obtain \<gamma> where h: "hist \<gamma> = \<omega>" and inv: "invar P (\<sigma>, \<gamma>)"
    and safe: "\<And>t. safely t (ps t) (\<lambda>x s. t \<in> C \<longrightarrow> x = result) (\<sigma>, \<gamma>)"
    using weak_pool_safe [OF assms(1,2), of "\<lambda>t x s. t \<in> C \<longrightarrow> x = result"] assms(3) by auto
  have "ps t \<noteq> Assert_Failed" for t using safe [of t] by auto
  moreover have "x = result" if "c \<in> C" "ps c = Return x" for c x using safe [of c] that by simp
  moreover have "\<not> data_race ps"
    using inv weakly_safe_safe [OF safe] by (rule safe_no_data_race)
  moreover have "ordered t c \<omega>" if "ps t = Act c k" for t c k
    using safe [of t] that h safely_ordered [of t c k] by auto
  ultimately show ?thesis by (auto simp: sound_pool_def race_free_def)
qed

end

end
