(* ===== verification/Sequence.thy ===== *)
theory Sequence
  imports Interleaving
begin

text \<open>
  sequence.hpp: sequence numbers, their signed difference and the two minimum searches
  over an array of atomic sequence numbers.  An array argument of the code (a pointer and
  a count) is the list of the atomics it points to.
\<close>

type_synonym sequence_diff_t = int

definition difference :: "sequence_t \<Rightarrow> sequence_t \<Rightarrow> sequence_diff_t" where
  "difference a b = sint (a - b)"

primrec minimum_sequence_loop :: "addr list \<Rightarrow> sequence_t \<Rightarrow> ('d, sequence_t) prog" where
  "minimum_sequence_loop [] minimum = Return minimum"
| "minimum_sequence_loop (a # as) minimum =
     load Acquire a (\<lambda>seq.
       minimum_sequence_loop as (if difference seq minimum < 0 then seq else minimum))"

definition minimum_sequence :: "addr list \<Rightarrow> ('d, sequence_t) prog" where
  "minimum_sequence sequences =
     (case sequences of
        [] \<Rightarrow> Assert_Failed
      | a # as \<Rightarrow> load Acquire a (\<lambda>minimum. minimum_sequence_loop as minimum))"

primrec minimum_sequence_after_loop ::
    "sequence_t \<Rightarrow> addr list \<Rightarrow> sequence_diff_t \<Rightarrow> ('d, sequence_t) prog" where
  "minimum_sequence_after_loop minimum [] minDelta = Return (word_of_int minDelta + minimum)"
| "minimum_sequence_after_loop minimum (a # as) minDelta =
     (if 0 \<le> minDelta
      then load Acquire a (\<lambda>seq.
        minimum_sequence_after_loop minimum as (min minDelta (difference seq minimum)))
      else Return (word_of_int minDelta + minimum))"

definition minimum_sequence_after :: "sequence_t \<Rightarrow> addr list \<Rightarrow> ('d, sequence_t) prog" where
  "minimum_sequence_after minimum sequences =
     (case sequences of
        [] \<Rightarrow> Assert_Failed
      | a # as \<Rightarrow> load Acquire a (\<lambda>seq.
          minimum_sequence_after_loop minimum as (difference seq minimum)))"

section \<open>The difference of sequence numbers\<close>

lemma difference_seq_at [pos_simps]:
  "- (2 ^ 63) \<le> x - y \<Longrightarrow> x - y < 2 ^ 63 \<Longrightarrow> difference (seq_at x) (seq_at y) = x - y"
  by (simp add: difference_def sint_seq_at_diff)

lemma word_of_int_difference [simp]: "word_of_int (difference a b) + b = a"
  by (simp add: difference_def)

lemma difference_bounds: "- (2 ^ 63) \<le> difference a b" "difference a b < 2 ^ 63"
  unfolding difference_def by (rule sint_word_bounds)+

lemma difference_self [simp]: "difference a a = 0"
  by (simp add: difference_def)

lemma difference_eq_0 [simp]: "difference a b = 0 \<longleftrightarrow> a = b"
  by (metis difference_self of_int_0 add_0 word_of_int_difference)

lemma difference_Suc:
  assumes "difference a b < 2 ^ 63 - 1"
  shows "difference (a + 1) b = difference a b + 1"
proof -
  have "word_of_int (difference a b + 1) = a + 1 - b"
    using word_of_int_difference [of a b] by (simp add: algebra_simps difference_def)
  then have "difference (a + 1) b = sint (word_of_int (difference a b + 1) :: sequence_t)"
    unfolding difference_def by metis
  also have "\<dots> = difference a b + 1"
    using difference_bounds(1) [of a b] assms by (intro sint_small) auto
  finally show ?thesis .
qed

lemma sint_uminus_word:
  assumes "sint (w :: 64 word) \<noteq> - (2 ^ 63)"
  shows "sint (- w) = - sint w"
proof -
  have "sint (- w) = sint (word_of_int (- sint w) :: 64 word)" by simp
  also have "\<dots> = - sint w"
    using sint_word_bounds [of w] assms by (intro sint_small) auto
  finally show ?thesis .
qed

lemma difference_swap:
  assumes "difference a b \<noteq> - (2 ^ 63)"
  shows "difference b a = - difference a b"
  using sint_uminus_word [of "a - b"] assms by (simp add: difference_def)

section \<open>What the minimum searches read and return\<close>

text \<open>The log of acquire loads of the atomics \<open>as\<close> that have returned the values \<open>vs\<close>.\<close>

definition load_log :: "addr list \<Rightarrow> sequence_t list \<Rightarrow> 'd log" where
  "load_log as vs = map2 (\<lambda>a v. (Load Acquire a, RSeq v)) as vs"

lemma load_log_simps [simp]:
  "load_log [] vs = []" "load_log (a # as) (v # vs) = (Load Acquire a, RSeq v) # load_log as vs"
  "load_log as [] = []"
  by (simp_all add: load_log_def)

lemma returns_minimum_sequence_loop:
  "returns (minimum_sequence_loop as m) l r \<longleftrightarrow>
    (\<exists>vs. length vs = length as \<and> l = load_log as vs \<and>
      r = foldl (\<lambda>m v. if difference v m < 0 then v else m) m vs)"
proof (induction as arbitrary: m l)
  case (Cons a as)
  show ?case
    by (auto simp: path_simps Cons.IH length_Suc_conv split del: if_split) force
qed (auto simp: path_simps)

lemma returns_minimum_sequence:
  "returns (minimum_sequence as) l r \<longleftrightarrow>
    (\<exists>v vs. length (v # vs) = length as \<and> l = load_log as (v # vs) \<and>
      r = foldl (\<lambda>m v. if difference v m < 0 then v else m) v vs)"
proof (cases as)
  case (Cons a as')
  show ?thesis
    unfolding Cons minimum_sequence_def list.case ends_load returns_minimum_sequence_loop
    by (simp split del: if_split) blast
qed (simp add: minimum_sequence_def)

lemma foldl_min_positions:
  assumes "\<And>y. y \<in> insert x (set ps) \<Longrightarrow> lo \<le> y \<and> y - lo < 2 ^ 63"
  shows "foldl (\<lambda>m v. if difference v m < 0 then v else m) (seq_at x) (map seq_at ps) =
    seq_at (Min (insert x (set ps)))"
  using assms
proof (induction ps arbitrary: x)
  case (Cons y ps)
  have w: "lo \<le> x" "x - lo < 2 ^ 63" "lo \<le> y" "y - lo < 2 ^ 63"
    using Cons.prems [of x] Cons.prems [of y] by auto
  have d: "difference (seq_at y) (seq_at x) = y - x"
    using w by (intro difference_seq_at) auto
  have "Min (insert x (set (y # ps))) = Min (insert (min x y) (set ps))"
    by (cases "ps = []") (auto simp: min.assoc)
  moreover have "(if difference (seq_at y) (seq_at x) < 0 then seq_at y else seq_at x) = seq_at (min x y)"
    by (simp add: d min_def)
  moreover have "foldl (\<lambda>m v. if difference v m < 0 then v else m) (seq_at (min x y)) (map seq_at ps) =
      seq_at (Min (insert (min x y) (set ps)))"
    using Cons.prems by (intro Cons.IH) (auto simp: min_def)
  ultimately show ?case by simp
qed simp

lemma returns_minimum_sequence_after_loop:
  "returns (minimum_sequence_after_loop m as d) l r \<Longrightarrow> d = difference v0 m \<Longrightarrow>
    \<exists>vs. length vs \<le> length as \<and> l = load_log (take (length vs) as) vs \<and>
      r \<in> set (v0 # vs) \<and> (\<forall>v \<in> set (v0 # vs). difference r m \<le> difference v m) \<and>
      (0 \<le> difference r m \<longrightarrow> length vs = length as)"
proof (induction as arbitrary: d l v0)
  case (Cons a as)
  show ?case
  proof (cases "0 \<le> d")
    case True
    with Cons.prems(1) obtain v l' where l: "l = (Load Acquire a, RSeq v) # l'"
      and r: "returns (minimum_sequence_after_loop m as (min d (difference v m))) l' r"
      by (auto simp: path_simps)
    define u where "u = (if d \<le> difference v m then v0 else v)"
    have u: "min d (difference v m) = difference u m" "u \<in> {v0, v}"
      using Cons.prems(2) by (auto simp: u_def min_def)
    have um: "difference u m \<le> difference v0 m" "difference u m \<le> difference v m"
      using u(1) Cons.prems(2) by auto
    from Cons.IH [OF r u(1)] obtain vs where vs: "length vs \<le> length as"
      "l' = load_log (take (length vs) as) vs" "r \<in> set (u # vs)"
      "\<forall>v \<in> set (u # vs). difference r m \<le> difference v m"
      "0 \<le> difference r m \<longrightarrow> length vs = length as" by blast
    have "difference r m \<le> difference u m" using vs(4) by simp
    then show ?thesis
      using vs l u(2) um by (intro exI [of _ "v # vs"]) auto
  next
    case False
    then show ?thesis using Cons.prems by (intro exI [of _ "[]"]) (auto simp: path_simps)
  qed
qed (auto simp: path_simps)

lemma returns_minimum_sequence_after:
  assumes "returns (minimum_sequence_after m as) l r"
  obtains vs where "vs \<noteq> []" "length vs \<le> length as" "l = load_log (take (length vs) as) vs"
    "r \<in> set vs" "\<forall>v \<in> set vs. difference r m \<le> difference v m"
    "0 \<le> difference r m \<longrightarrow> length vs = length as"
proof -
  from assms obtain a as' v l' where as: "as = a # as'" "l = (Load Acquire a, RSeq v) # l'"
    and r: "returns (minimum_sequence_after_loop m as' (difference v m)) l' r"
    by (cases as) (auto simp: minimum_sequence_after_def path_simps)
  from returns_minimum_sequence_after_loop [OF r refl] obtain vs where
    "length vs \<le> length as'" "l' = load_log (take (length vs) as') vs" "r \<in> set (v # vs)"
    "\<forall>u \<in> set (v # vs). difference r m \<le> difference u m"
    "0 \<le> difference r m \<longrightarrow> length vs = length as'" by blast
  then show thesis using as by (intro that [of "v # vs"]) auto
qed

lemma minimum_sequence_after_loop_total [simp]:
  "\<not> fails (minimum_sequence_after_loop m as d) l"
  "\<not> ends (minimum_sequence_after_loop m as d) l Exhausted"
  by (induction as arbitrary: d l) (auto simp: path_simps)

lemma minimum_sequence_after_total [simp]:
  "fails (minimum_sequence_after m as) l \<longleftrightarrow> as = [] \<and> l = []"
  "\<not> ends (minimum_sequence_after m as) l Exhausted"
  by (auto simp: minimum_sequence_after_def path_simps split: list.splits)

section \<open>What the operations compute\<close>

text \<open>
  The difference of two sequence numbers is the one signed 64-bit number that leads
  from the second to the first, across wrap-around.
\<close>

theorem difference_unique:
  "difference a b = d \<longleftrightarrow> - (2 ^ 63) \<le> d \<and> d < 2 ^ 63 \<and> b + word_of_int d = a"
proof
  assume "difference a b = d"
  then show "- (2 ^ 63) \<le> d \<and> d < 2 ^ 63 \<and> b + word_of_int d = a"
    using difference_bounds [of a b] word_of_int_difference [of a b] by (auto simp: add.commute)
next
  assume d: "- (2 ^ 63) \<le> d \<and> d < 2 ^ 63 \<and> b + word_of_int d = a"
  then have "a - b = word_of_int d" by (auto simp: algebra_simps)
  with d show "difference a b = d" by (simp add: difference_def sint_small)
qed

text \<open>
  Swapping the arguments of \<open>difference\<close> negates it, except at the one distance
  \<open>2 ^ 63\<close>, where both orders give \<open>-2 ^ 63\<close>, and each number is "before" the other.
\<close>

theorem difference_antisymmetric:
  "difference b a = (if difference a b = - (2 ^ 63) then - (2 ^ 63) else - difference a b)"
proof (cases "difference a b = - (2 ^ 63)")
  case True
  have "difference b a = - (2 ^ 63)"
  proof (rule ccontr)
    assume "difference b a \<noteq> - (2 ^ 63)"
    then have "difference a b = - difference b a" by (rule difference_swap)
    with True difference_bounds(2) [of b a] show False by simp
  qed
  with True show ?thesis by simp
next
  case False
  then show ?thesis using difference_swap [OF False] by simp
qed

text \<open>
  C19.  \<open>minimum_sequence\<close> returns the least of the positions it has read, when these are
  less than \<open>2 ^ 63\<close> apart, also across wrap-around of the 64-bit numbers.
\<close>

theorem minimum_sequence_correct:
  assumes "ps \<noteq> []" and "length ps = length as"
    and "\<And>p q. p \<in> set ps \<Longrightarrow> q \<in> set ps \<Longrightarrow> p - q < 2 ^ 63"
  shows "returns (minimum_sequence as) (load_log as (map seq_at ps)) r \<longleftrightarrow> r = seq_at (Min (set ps))"
proof -
  obtain p qs where ps: "ps = p # qs" using assms(1) by (cases ps) auto
  have inj: "load_log as vs = (load_log as ws :: 'd log) \<longleftrightarrow> vs = ws"
    if "length vs = length as" "length ws = length as" for vs ws
    using that
  proof (induction as arbitrary: vs ws)
    case (Cons a as)
    then show ?case by (auto simp: length_Suc_conv)
  qed simp
  have lo: "Min (set ps) \<in> set ps" using assms(1) by simp
  have "foldl (\<lambda>m v. if difference v m < 0 then v else m) (seq_at p) (map seq_at qs) =
    seq_at (Min (insert p (set qs)))"
    using assms(3) [OF _ lo] by (intro foldl_min_positions [where lo = "Min (set ps)"]) (auto simp: ps)
  then show ?thesis
    using assms(2) unfolding returns_minimum_sequence ps
    by (auto simp: inj simp del: load_log_simps split del: if_split
        intro!: exI [of _ "seq_at p"] exI [of _ "map seq_at qs"])
qed

lemma minimum_sequence_correct_witness:
  "returns (minimum_sequence [Cell 0, Cell 1] :: (unit, sequence_t) prog) (load_log [Cell 0, Cell 1] (map seq_at [1, -3])) (seq_at (-3))"
proof -
  have "returns (minimum_sequence [Cell 0, Cell 1] :: (unit, sequence_t) prog) (load_log [Cell 0, Cell 1] (map seq_at [1, -3])) r \<longleftrightarrow>
      r = seq_at (Min (set [1, -3]))" for r
    by (rule minimum_sequence_correct) auto
  then show ?thesis by simp
qed

lemma run_minimum_sequence_after_loop:
  assumes "0 \<le> p - m" "p - m < 2 ^ 63"
    and "\<And>a. a \<in> set as \<Longrightarrow> mem \<sigma> a = seq_at (f a) \<and> \<bar>f a - m\<bar> < 2 ^ 63"
  shows "fst (run t alone (minimum_sequence_after_loop (seq_at m) as (p - m)) i \<sigma>) =
    Returned (seq_at (case find (\<lambda>a. f a < m) as of Some a \<Rightarrow> f a | None \<Rightarrow> Min (insert p (f ` set as))))"
  using assms
proof (induction as arbitrary: p i)
  case Nil
  then show ?case by (simp add: seq_at_def)
next
  case (Cons a as)
  have a: "mem \<sigma> a = seq_at (f a)" "\<bar>f a - m\<bar> < 2 ^ 63" using Cons.prems(3) [of a] by auto
  then have d: "difference (mem \<sigma> a) (seq_at m) = f a - m" by (simp add: difference_seq_at)
  show ?case
  proof (cases "f a < m")
    case True
    then show ?thesis
      using Cons.prems(1) d by (cases as) (simp_all add: Let_def split_beta seq_at_def)
  next
    case False
    define q where "q = min p (f a)"
    have q: "0 \<le> q - m" "q - m < 2 ^ 63" "min (p - m) (f a - m) = q - m"
      using False a(2) Cons.prems(1,2) by (auto simp: q_def min_def)
    have ins: "Min (insert p (f ` set (a # as))) = Min (insert q (f ` set as))"
      by (cases "as = []") (auto simp: q_def min.assoc)
    show ?thesis
      using False Cons.prems(1) Cons.IH [OF q(1,2)] Cons.prems(3) d
      unfolding ins by (simp add: Let_def split_beta q(3))
  qed
qed

text \<open>
  C20.  \<open>minimum_sequence_after\<close> on atomics within \<open>2 ^ 63\<close> of \<open>minimum\<close>: the first that is
  before \<open>minimum\<close>, when there is one, and else the least of them all.
\<close>

theorem minimum_sequence_after_correct:
  assumes "as \<noteq> []"
    and "\<And>a. a \<in> set as \<Longrightarrow> mem \<sigma> a = seq_at (f a) \<and> \<bar>f a - m\<bar> < 2 ^ 63"
  shows "fst (run t alone (minimum_sequence_after (seq_at m) as) i \<sigma>) =
    Returned (seq_at (case find (\<lambda>a. f a < m) as of Some a \<Rightarrow> f a | None \<Rightarrow> Min (f ` set as)))"
proof (cases as)
  case (Cons a as')
  have a: "mem \<sigma> a = seq_at (f a)" "\<bar>f a - m\<bar> < 2 ^ 63" using assms(2) [of a] Cons by auto
  then have d: "difference (mem \<sigma> a) (seq_at m) = f a - m" by (simp add: difference_seq_at)
  show ?thesis
  proof (cases "f a < m")
    case True
    then show ?thesis
      using d a(1) by (cases as') (simp_all add: Cons minimum_sequence_after_def Let_def split_beta seq_at_def)
  next
    case False
    then show ?thesis
      using run_minimum_sequence_after_loop [of "f a" m as' \<sigma> f t "Suc i"] assms(2) a(2) d
      unfolding Cons list.set image_insert
      by (simp add: minimum_sequence_after_def Let_def split_beta)
  qed
qed (use assms in simp)

lemma minimum_sequence_after_correct_witness:
  "fst (run 0 alone (minimum_sequence_after (seq_at 4) [Cell 0, Cell 1]) 0
     (put (Cell 0) (seq_at 7) (put (Cell 1) (seq_at 5) (at_rest ())))) = Returned (seq_at 5)"
proof -
  define f :: "addr \<Rightarrow> int" where "f a = (if a = Cell 0 then 7 else 5)" for a
  have "fst (run 0 alone (minimum_sequence_after (seq_at 4) [Cell 0, Cell 1]) 0
     (put (Cell 0) (seq_at 7) (put (Cell 1) (seq_at 5) (at_rest ())))) =
    Returned (seq_at (case find (\<lambda>a. f a < 4) [Cell 0, Cell 1] of Some a \<Rightarrow> f a
      | None \<Rightarrow> Min (f ` set [Cell 0, Cell 1])))"
    by (rule minimum_sequence_after_correct) (auto simp: f_def)
  then show ?thesis by (simp add: f_def)
qed

end
