(* ===== verification/Wait_Strategy.thy ===== *)
theory Wait_Strategy
  imports Interleaving Sequence
begin

text \<open>
  The wait strategy model: what the C++ templates require of their \<open>WaitStrategy\<close>
  parameter.  A template parameter becomes a record of operations, together with the
  identity of the strategy object (the code compares the addresses of these objects).
  The waiting operations take the number of rounds they may wait as first argument.

  A member function template is compiled only when it is called, so a class can be used as
  wait strategy although a template of it is ill-formed.  The two waits with a limit are
  therefore optional: \<open>None\<close> says that a program that calls the member does not compile.

  The locales state the contracts that the clients (barriers, groups, claim strategies) rely
  on: the first is what every wait strategy provides, the second adds the waits with a limit.
\<close>

record 'd wait_strategy =
  ws_object :: nat
  ws_wait_until_published :: "nat \<Rightarrow> sequence_t \<Rightarrow> addr list \<Rightarrow> ('d, sequence_t) prog"
  ws_wait_until_published_for :: "(nat \<Rightarrow> sequence_t \<Rightarrow> addr list \<Rightarrow> nat \<Rightarrow> ('d, sequence_t) prog) option"
  ws_wait_until_published_until :: "(nat \<Rightarrow> sequence_t \<Rightarrow> addr list \<Rightarrow> nat \<Rightarrow> ('d, sequence_t) prog) option"
  ws_signal_all_when_blocking :: "('d, unit) prog"

text \<open>
  \<open>saw_all as m r l\<close>: the log \<open>l\<close> has acquire loads of every atomic of \<open>as\<close>; \<open>r\<close> is the least
  advanced of the values they returned, and it is not before \<open>m\<close>.
\<close>

definition saw_all :: "addr list \<Rightarrow> sequence_t \<Rightarrow> sequence_t \<Rightarrow> 'd log \<Rightarrow> bool" where
  "saw_all as m r l \<longleftrightarrow> 0 \<le> difference r m \<and>
     (\<exists>vs. length vs = length as \<and> set (load_log as vs) \<subseteq> set l \<and> r \<in> set vs \<and>
       (\<forall>v \<in> set vs. difference r m \<le> difference v m))"

text \<open>\<open>saw_lag as m r l\<close>: the log has an acquire load of an atomic of \<open>as\<close> that
  returned \<open>r\<close>, and \<open>r\<close> is before \<open>m\<close>.\<close>

definition saw_lag :: "addr list \<Rightarrow> sequence_t \<Rightarrow> sequence_t \<Rightarrow> 'd log \<Rightarrow> bool" where
  "saw_lag as m r l \<longleftrightarrow> difference r m < 0 \<and> (\<exists>a \<in> set as. (Load Acquire a, RSeq r) \<in> set l)"

lemma saw_all_mono: "saw_all as m r l \<Longrightarrow> set l \<subseteq> set l' \<Longrightarrow> saw_all as m r l'"
  by (auto simp: saw_all_def)

lemma saw_lag_mono: "saw_lag as m r l \<Longrightarrow> set l \<subseteq> set l' \<Longrightarrow> saw_lag as m r l'"
  by (auto simp: saw_lag_def)

text \<open>What a wait with a timeout has seen: one or the other, as the sign of the result says.\<close>

definition saw :: "addr list \<Rightarrow> sequence_t \<Rightarrow> sequence_t \<Rightarrow> 'd log \<Rightarrow> bool" where
  "saw as m r l \<longleftrightarrow> (if 0 \<le> difference r m then saw_all as m r l else saw_lag as m r l)"

lemma saw_mono: "saw as m r l \<Longrightarrow> set l \<subseteq> set l' \<Longrightarrow> saw as m r l'"
  using saw_all_mono saw_lag_mono by (auto simp: saw_def split: if_splits)

lemma saw_all_iff: "saw_all as m r l \<longleftrightarrow> saw as m r l \<and> 0 \<le> difference r m"
  by (auto simp: saw_def saw_all_def)

lemma load_log_memberD:
  "length vs \<le> length as \<Longrightarrow> v \<in> set vs \<Longrightarrow> \<exists>a \<in> set as. (Load Acquire a, RSeq v) \<in> set (load_log as vs)"
proof (induction as arbitrary: vs)
  case (Cons a as)
  then show ?case by (cases vs) auto
qed simp

lemma load_log_memberD':
  "length vs = length as \<Longrightarrow> a \<in> set as \<Longrightarrow> \<exists>v \<in> set vs. (Load Acquire a, RSeq v) \<in> set (load_log as vs)"
  by (induction as arbitrary: vs) (auto simp: length_Suc_conv)

text \<open>Every atomic waited for was seen at or after the number waited for.\<close>

lemma saw_allD:
  assumes "saw_all as m r l" and "a \<in> set as"
  shows "\<exists>v. (Load Acquire a, RSeq v) \<in> set l \<and> difference r m \<le> difference v m \<and> 0 \<le> difference v m"
  using assms load_log_memberD' by (fastforce simp: saw_all_def)

text \<open>
  The same in positions: when every value loaded stands for a position that the loaded
  atomic has reached by now, the result stands for a position that all of them have reached.
\<close>

lemma saw_all_positions:
  assumes "saw_all as (seq_at y) r l"
    and "\<And>a v. a \<in> set as \<Longrightarrow> (Load Acquire a, RSeq v) \<in> set l \<Longrightarrow>
      \<exists>x. v = seq_at x \<and> \<bar>x - y\<bar> < 2 ^ 63 \<and> reached a x"
  obtains q where "r = seq_at q" "y \<le> q" "q - y < 2 ^ 63"
    "\<And>a. a \<in> set as \<Longrightarrow> \<exists>x. q \<le> x \<and> reached a x"
proof -
  from assms(1) obtain vs where vs: "length vs = length as" "set (load_log as vs) \<subseteq> set l"
    "r \<in> set vs" and least: "\<forall>v \<in> set vs. difference r (seq_at y) \<le> difference v (seq_at y)"
    and pos: "0 \<le> difference r (seq_at y)"
    unfolding saw_all_def by blast
  obtain a where "a \<in> set as" "(Load Acquire a, RSeq r) \<in> set l"
    using load_log_memberD [of vs as r] vs by auto
  with assms(2) obtain q where q: "r = seq_at q" "\<bar>q - y\<bar> < 2 ^ 63" by blast
  have d: "difference r (seq_at y) = q - y" using q by (simp add: difference_seq_at)
  show thesis
  proof (rule that [of q])
    show "y \<le> q" "q - y < 2 ^ 63" using pos d q by auto
    fix a assume a: "a \<in> set as"
    with load_log_memberD' [OF vs(1)] obtain v where v: "v \<in> set vs" "(Load Acquire a, RSeq v) \<in> set l"
      using vs(2) by blast
    with assms(2) [OF a] obtain x where x: "v = seq_at x" "\<bar>x - y\<bar> < 2 ^ 63" "reached a x" by blast
    have "difference v (seq_at y) = x - y" using x by (simp add: difference_seq_at)
    with least v d x(3) show "\<exists>x. q \<le> x \<and> reached a x" by force
  qed (rule q(1))
qed

lemma minimum_sequence_after_saw:
  assumes "returns (minimum_sequence_after m as) l r"
  shows "saw as m r l"
  using assms
proof (rule returns_minimum_sequence_after)
  fix vs
  assume vs: "vs \<noteq> []" "length vs \<le> length as" "l = load_log (take (length vs) as) vs"
    "r \<in> set vs" "\<forall>v \<in> set vs. difference r m \<le> difference v m"
    "0 \<le> difference r m \<longrightarrow> length vs = length as"
  have "\<exists>a \<in> set (take (length vs) as). (Load Acquire a, RSeq r) \<in> set l"
    using vs by (auto intro!: load_log_memberD)
  then have "\<exists>a \<in> set as. (Load Acquire a, RSeq r) \<in> set l" by (meson in_set_takeD)
  then show ?thesis using vs by (auto simp: saw_def saw_all_def saw_lag_def intro: exI [of _ vs])
qed

lemma waits_only_minimum_sequence_after_loop:
  "waits_only (minimum_sequence_after_loop m as d) h h"
  by (induction as arbitrary: d) (auto simp: load_def)

lemma waits_only_minimum_sequence_after:
  "as \<noteq> [] \<Longrightarrow> waits_only (minimum_sequence_after m as) h h"
  by (cases as) (auto simp: minimum_sequence_after_def load_def waits_only_minimum_sequence_after_loop)

section \<open>The contracts\<close>

locale wait_strategy_model =
  fixes W :: "'d wait_strategy"
  assumes wait_returns:
      "returns (ws_wait_until_published W n m as) l r \<Longrightarrow> saw_all as m r l"
    and wait_waits_only:
      "as \<noteq> [] \<Longrightarrow> waits_only (ws_wait_until_published W n m as) {} {}"
    and signal_waits_only:
      "waits_only (ws_signal_all_when_blocking W) {} {}"
begin

lemma wait_reached: "returns (ws_wait_until_published W n m as) l r \<Longrightarrow> 0 \<le> difference r m"
  using wait_returns by (auto simp: saw_all_def)

lemma wait_not_fails: "as \<noteq> [] \<Longrightarrow> \<not> fails (ws_wait_until_published W n m as) l"
  using wait_waits_only waits_only_not_fails by blast

lemma signal_not_fails: "\<not> fails (ws_signal_all_when_blocking W) l"
  using signal_waits_only waits_only_not_fails by blast

end

text \<open>
  \<open>deadline_passed d l\<close>: in the log the clock was read after \<open>d\<close>.
\<close>

definition deadline_passed :: "nat \<Rightarrow> 'd log \<Rightarrow> bool" where
  "deadline_passed d l \<longleftrightarrow> (\<exists>t > d. (Now, RNat t) \<in> set l)"

lemma deadline_passed_mono: "deadline_passed d l \<Longrightarrow> set l \<subseteq> set l' \<Longrightarrow> deadline_passed d l'"
  by (auto simp: deadline_passed_def)

lemma timeout_passed_mono:
  "\<exists>t. (Now, RNat t) \<in> set l \<and> deadline_passed (t + d) l \<Longrightarrow> set l \<subseteq> set l' \<Longrightarrow>
    \<exists>t. (Now, RNat t) \<in> set l' \<and> deadline_passed (t + d) l'"
  by (auto dest: deadline_passed_mono)

text \<open>
  A wait strategy whose waits with a limit exist and keep to it: they return early only when
  the deadline has passed, for a timeout the one that lies the timeout after a time read from
  the clock.
\<close>

abbreviation ws_timed_wait_for ::
    "'d wait_strategy \<Rightarrow> nat \<Rightarrow> sequence_t \<Rightarrow> addr list \<Rightarrow> nat \<Rightarrow> ('d, sequence_t) prog" where
  "ws_timed_wait_for W \<equiv> the (ws_wait_until_published_for W)"

abbreviation ws_timed_wait_until ::
    "'d wait_strategy \<Rightarrow> nat \<Rightarrow> sequence_t \<Rightarrow> addr list \<Rightarrow> nat \<Rightarrow> ('d, sequence_t) prog" where
  "ws_timed_wait_until W \<equiv> the (ws_wait_until_published_until W)"

definition compiles_timed_waits :: "'d wait_strategy \<Rightarrow> bool" where
  "compiles_timed_waits W \<longleftrightarrow>
     ws_wait_until_published_for W \<noteq> None \<and> ws_wait_until_published_until W \<noteq> None"

locale timed_wait_strategy_model = wait_strategy_model W for W :: "'d wait_strategy" +
  assumes compiles: "compiles_timed_waits W"
    and wait_for_returns:
      "returns (ws_timed_wait_for W n m as d) l r \<Longrightarrow> saw as m r l"
    and wait_until_returns:
      "returns (ws_timed_wait_until W n m as d) l r \<Longrightarrow> saw as m r l"
    and wait_for_deadline:
      "returns (ws_timed_wait_for W n m as d) l r \<Longrightarrow> difference r m < 0 \<Longrightarrow>
        \<exists>t. (Now, RNat t) \<in> set l \<and> deadline_passed (t + d) l"
    and wait_until_deadline:
      "returns (ws_timed_wait_until W n m as d) l r \<Longrightarrow> difference r m < 0 \<Longrightarrow> deadline_passed d l"
    and wait_for_waits_only:
      "as \<noteq> [] \<Longrightarrow> waits_only (ws_timed_wait_for W n m as d) {} {}"
    and wait_until_waits_only:
      "as \<noteq> [] \<Longrightarrow> waits_only (ws_timed_wait_until W n m as d) {} {}"

section \<open>Progress\<close>

text \<open>Every atomic of \<open>as\<close> is at or after \<open>m\<close>.\<close>

definition all_published :: "sequence_t \<Rightarrow> addr list \<Rightarrow> 'd mach \<Rightarrow> bool" where
  "all_published m as \<sigma> \<longleftrightarrow> (\<forall>a \<in> set as. 0 \<le> difference (mem \<sigma> a) m)"

text \<open>
  \<open>published_from m as w T\<close>: the other threads have published \<open>m\<close> by the \<open>T\<close>-th access of
  the schedule, and never take it back.
\<close>

definition published_from :: "sequence_t \<Rightarrow> addr list \<Rightarrow> 'd sched \<Rightarrow> nat \<Rightarrow> bool" where
  "published_from m as w T \<longleftrightarrow> (\<forall>\<sigma>. all_published m as (fst (w T) \<sigma>)) \<and>
     (\<forall>i \<sigma>. all_published m as \<sigma> \<longrightarrow> all_published m as (fst (w i) \<sigma>))"

lemma published_fromD:
  "published_from m as w T \<Longrightarrow> (T < i \<longrightarrow> all_published m as \<sigma>) \<Longrightarrow> T \<le> i \<Longrightarrow> all_published m as (fst (w i) \<sigma>)"
  by (cases "i = T") (auto simp: published_from_def)

lemma run_minimum_sequence_after_loop_published:
  assumes "published_from m as w T" "set as' \<subseteq> set as" "T < i" "all_published m as \<sigma>" "0 \<le> d" "d < 2 ^ 63"
  shows "\<exists>r. fst (run t w (minimum_sequence_after_loop m as' d) i \<sigma>) = Returned r \<and> 0 \<le> difference r m"
  using assms(2-)
proof (induction as' arbitrary: i \<sigma> d)
  case Nil
  then show ?case by (simp add: difference_def sint_small)
next
  case (Cons a as')
  have p: "all_published m as (fst (w i) \<sigma>)" using Cons.prems(2,3) by (auto intro!: published_fromD [OF assms(1)])
  then have "0 \<le> difference (mem (fst (w i) \<sigma>) a) m" using Cons.prems(1) by (auto simp: all_published_def)
  with Cons.IH [OF _ _ p, of "Suc i" "min d (difference (mem (fst (w i) \<sigma>) a) m)"] Cons.prems
  show ?case by (auto simp: Let_def split_beta min_def)
qed

lemma run_minimum_sequence_after_published:
  assumes "published_from m as w T" "as \<noteq> []" "T \<le> i" "T < i \<longrightarrow> all_published m as \<sigma>"
  shows "\<exists>r. fst (run t w (minimum_sequence_after m as) i \<sigma>) = Returned r \<and> 0 \<le> difference r m"
proof (cases as)
  case (Cons a as')
  have p: "all_published m as (fst (w i) \<sigma>)" using assms(1,4,3) by (rule published_fromD)
  then have "0 \<le> difference (mem (fst (w i) \<sigma>) a) m" by (auto simp: all_published_def Cons)
  with run_minimum_sequence_after_loop_published [OF assms(1) _ _ p, of as' "Suc i"
      "difference (mem (fst (w i) \<sigma>) a) m" t] difference_bounds(2) assms(3)
  show ?thesis by (auto simp: Let_def split_beta Cons minimum_sequence_after_def)
qed (use assms in simp)

end
