(* ===== verification/Sequence_Barrier.thy ===== *)
theory Sequence_Barrier
  imports Wait_Strategy
begin

text \<open>
  sequence_barrier.hpp: one atomic sequence number with a single publisher.  The barrier
  holds a reference to its wait strategy and contains the atomic, named by its address.

  The waits with a limit are member templates that call the same of the wait strategy; they
  compile only with a strategy that has these waits (\<open>compiles_timed_waits\<close>), and only for such
  strategies do they mean anything here: what is proved of them is proved in the locale
  \<open>timed_wait_strategy_model\<close>.
\<close>

record 'd sequence_barrier =
  sb_waitStrategy :: "'d wait_strategy"
  sb_lastPublished :: addr

definition new_sequence_barrier :: "'d wait_strategy \<Rightarrow> addr \<Rightarrow> ('d, 'd sequence_barrier) prog" where
  "new_sequence_barrier W a =
     do_act (Init a (- 1)) (Return \<lparr>sb_waitStrategy = W, sb_lastPublished = a\<rparr>)"

definition barrier_last_published :: "'d sequence_barrier \<Rightarrow> ('d, sequence_t) prog" where
  "barrier_last_published b = load Acquire (sb_lastPublished b) Return"

definition barrier_wait_until_published ::
    "nat \<Rightarrow> 'd sequence_barrier \<Rightarrow> sequence_t \<Rightarrow> ('d, sequence_t) prog" where
  "barrier_wait_until_published n b sequence =
     bind (barrier_last_published b) (\<lambda>current.
       let diff = difference current sequence
       in if 0 \<le> diff then Return current
          else ws_wait_until_published (sb_waitStrategy b) n sequence [sb_lastPublished b])"

definition barrier_wait_until_published_for ::
    "nat \<Rightarrow> 'd sequence_barrier \<Rightarrow> sequence_t \<Rightarrow> nat \<Rightarrow> ('d, sequence_t) prog" where
  "barrier_wait_until_published_for n b sequence timeout =
     bind (barrier_last_published b) (\<lambda>current.
       let diff = difference current sequence
       in if 0 \<le> diff then Return current
          else ws_timed_wait_for (sb_waitStrategy b) n sequence [sb_lastPublished b] timeout)"

definition barrier_wait_until_published_until ::
    "nat \<Rightarrow> 'd sequence_barrier \<Rightarrow> sequence_t \<Rightarrow> nat \<Rightarrow> ('d, sequence_t) prog" where
  "barrier_wait_until_published_until n b sequence timeoutTime =
     bind (barrier_last_published b) (\<lambda>current.
       let diff = difference current sequence
       in if 0 \<le> diff then Return current
          else ws_timed_wait_until (sb_waitStrategy b) n sequence [sb_lastPublished b] timeoutTime)"

definition barrier_publish :: "'d sequence_barrier \<Rightarrow> sequence_t \<Rightarrow> ('d, unit) prog" where
  "barrier_publish b sequence =
     do_act (Store Release (sb_lastPublished b) sequence)
       (ws_signal_all_when_blocking (sb_waitStrategy b))"

lemmas barrier_wait_defs = barrier_wait_until_published_def barrier_wait_until_published_for_def
  barrier_wait_until_published_until_def barrier_last_published_def

text \<open>A value that one acquire load of the atomic has returned counts as seen.\<close>

lemma saw_single: "saw [a] m v ((Load Acquire a, RSeq v) # l)"
  by (auto simp: saw_def saw_all_def saw_lag_def intro!: exI [of _ "[v]"])

section \<open>The contract of the waits, for any wait strategy\<close>

context wait_strategy_model
begin

lemma returns_barrier_wait:
  assumes "sb_waitStrategy b = W" and "returns (barrier_wait_until_published n b m) l r"
  shows "saw_all [sb_lastPublished b] m r l"
proof -
  from assms(2) obtain v l' where l: "l = (Load Acquire (sb_lastPublished b), RSeq v) # l'"
    and r: "returns (if 0 \<le> difference v m then Return v
      else ws_wait_until_published (sb_waitStrategy b) n m [sb_lastPublished b]) l' r"
    by (auto simp: barrier_wait_defs ends_load Let_def)
  show ?thesis
  proof (cases "0 \<le> difference v m")
    case True
    with r l saw_single [of "sb_lastPublished b" m v l'] show ?thesis
      by (auto simp: ends_Return saw_all_iff)
  next
    case False
    with r have "returns (ws_wait_until_published W n m [sb_lastPublished b]) l' r"
      by (simp add: assms(1))
    then have "saw_all [sb_lastPublished b] m r l'" by (rule wait_returns)
    with l show ?thesis by (auto elim: saw_all_mono)
  qed
qed

lemma waits_only_barrier_wait:
  assumes "sb_waitStrategy b = W"
  shows "waits_only (barrier_wait_until_published n b m) {} {}"
  using assms wait_waits_only by (auto simp: barrier_wait_defs load_def Let_def)

end

context timed_wait_strategy_model
begin

lemma returns_barrier_wait_for:
  assumes "sb_waitStrategy b = W" and "returns (barrier_wait_until_published_for n b m t) l r"
  shows "saw [sb_lastPublished b] m r l"
proof -
  from assms(2) obtain v l' where l: "l = (Load Acquire (sb_lastPublished b), RSeq v) # l'"
    and r: "returns (if 0 \<le> difference v m then Return v
      else ws_timed_wait_for (sb_waitStrategy b) n m [sb_lastPublished b] t) l' r"
    by (auto simp: barrier_wait_defs ends_load Let_def)
  show ?thesis
  proof (cases "0 \<le> difference v m")
    case True
    with r l saw_single [of "sb_lastPublished b" m v l'] show ?thesis by (auto simp: ends_Return)
  next
    case False
    with r have "returns (ws_timed_wait_for W n m [sb_lastPublished b] t) l' r"
      by (simp add: assms(1))
    then have "saw [sb_lastPublished b] m r l'" by (rule wait_for_returns)
    with l show ?thesis by (auto elim: saw_mono)
  qed
qed

lemma returns_barrier_wait_until:
  assumes "sb_waitStrategy b = W" and "returns (barrier_wait_until_published_until n b m t) l r"
  shows "saw [sb_lastPublished b] m r l"
proof -
  from assms(2) obtain v l' where l: "l = (Load Acquire (sb_lastPublished b), RSeq v) # l'"
    and r: "returns (if 0 \<le> difference v m then Return v
      else ws_timed_wait_until (sb_waitStrategy b) n m [sb_lastPublished b] t) l' r"
    by (auto simp: barrier_wait_defs ends_load Let_def)
  show ?thesis
  proof (cases "0 \<le> difference v m")
    case True
    with r l saw_single [of "sb_lastPublished b" m v l'] show ?thesis by (auto simp: ends_Return)
  next
    case False
    with r have "returns (ws_timed_wait_until W n m [sb_lastPublished b] t) l' r"
      by (simp add: assms(1))
    then have "saw [sb_lastPublished b] m r l'" by (rule wait_until_returns)
    with l show ?thesis by (auto elim: saw_mono)
  qed
qed

lemma barrier_wait_until_deadline:
  assumes "sb_waitStrategy b = W"
    and "returns (barrier_wait_until_published_until n b m d) l r" "difference r m < 0"
  shows "deadline_passed d l"
proof -
  from assms obtain e l2 where "l = e # l2" "returns (ws_timed_wait_until W n m [sb_lastPublished b] d) l2 r"
    by (auto simp: barrier_wait_defs ends_load ends_Return Let_def split: if_splits)
  then show ?thesis
    using wait_until_deadline [OF _ assms(3)] by (fastforce elim: deadline_passed_mono)
qed

lemma barrier_wait_for_deadline:
  assumes "sb_waitStrategy b = W"
    and "returns (barrier_wait_until_published_for n b m d) l r" "difference r m < 0"
  shows "\<exists>t. (Now, RNat t) \<in> set l \<and> deadline_passed (t + d) l"
proof -
  from assms obtain e l2 where "l = e # l2" "returns (ws_timed_wait_for W n m [sb_lastPublished b] d) l2 r"
    by (auto simp: barrier_wait_defs ends_load ends_Return Let_def split: if_splits)
  then show ?thesis
    using wait_for_deadline [OF _ assms(3)] timeout_passed_mono [of l2 d l] by fastforce
qed

lemma waits_only_barrier_timed_waits:
  assumes "sb_waitStrategy b = W"
  shows "waits_only (barrier_wait_until_published_for n b m t) {} {}"
    and "waits_only (barrier_wait_until_published_until n b m t) {} {}"
  using assms wait_for_waits_only wait_until_waits_only
  by (auto simp: barrier_wait_defs load_def Let_def)

end

end
