(* ===== verification/Sequence_Barrier_Group.thy ===== *)
theory Sequence_Barrier_Group
  imports Sequence_Barrier
begin

text \<open>
  sequence_barrier_group.hpp: a vector of pointers to the atomics of sequence barriers.
\<close>

record 'd sequence_barrier_group =
  sbg_waitStrategy :: "'d wait_strategy"
  sbg_sequences :: "addr list"

definition new_sequence_barrier_group :: "'d wait_strategy \<Rightarrow> 'd sequence_barrier_group" where
  "new_sequence_barrier_group W = \<lparr>sbg_waitStrategy = W, sbg_sequences = []\<rparr>"

text \<open>The assertion compares the addresses of the two wait strategy objects.\<close>

definition group_add_barrier ::
    "'d sequence_barrier_group \<Rightarrow> 'd sequence_barrier \<Rightarrow> ('d, 'd sequence_barrier_group) prog" where
  "group_add_barrier g b =
     assert (ws_object (sb_waitStrategy b) = ws_object (sbg_waitStrategy g))
       (Return (g\<lparr>sbg_sequences := sbg_sequences g @ [sb_lastPublished b]\<rparr>))"

definition group_add_group ::
    "'d sequence_barrier_group \<Rightarrow> 'd sequence_barrier_group \<Rightarrow> 'd sequence_barrier_group" where
  "group_add_group g h = g\<lparr>sbg_sequences := sbg_sequences g @ sbg_sequences h\<rparr>"

definition group_last_published :: "'d sequence_barrier_group \<Rightarrow> ('d, sequence_t) prog" where
  "group_last_published g =
     assert (sbg_sequences g \<noteq> []) (minimum_sequence (sbg_sequences g))"

definition group_wait_until_published ::
    "nat \<Rightarrow> 'd sequence_barrier_group \<Rightarrow> sequence_t \<Rightarrow> ('d, sequence_t) prog" where
  "group_wait_until_published n g sequence =
     assert (sbg_sequences g \<noteq> [])
       (bind (minimum_sequence_after sequence (sbg_sequences g)) (\<lambda>current.
          if 0 \<le> difference current sequence then Return current
          else ws_wait_until_published (sbg_waitStrategy g) n sequence (sbg_sequences g)))"

definition group_wait_until_published_for ::
    "nat \<Rightarrow> 'd sequence_barrier_group \<Rightarrow> sequence_t \<Rightarrow> nat \<Rightarrow> ('d, sequence_t) prog" where
  "group_wait_until_published_for n g sequence timeout =
     assert (sbg_sequences g \<noteq> [])
       (bind (minimum_sequence_after sequence (sbg_sequences g)) (\<lambda>current.
          if 0 \<le> difference current sequence then Return current
          else ws_timed_wait_for (sbg_waitStrategy g) n sequence (sbg_sequences g) timeout))"

definition group_wait_until_published_until ::
    "nat \<Rightarrow> 'd sequence_barrier_group \<Rightarrow> sequence_t \<Rightarrow> nat \<Rightarrow> ('d, sequence_t) prog" where
  "group_wait_until_published_until n g sequence timeoutTime =
     assert (sbg_sequences g \<noteq> [])
       (bind (minimum_sequence_after sequence (sbg_sequences g)) (\<lambda>current.
          if 0 \<le> difference current sequence then Return current
          else ws_timed_wait_until (sbg_waitStrategy g) n sequence (sbg_sequences g) timeoutTime))"

lemmas group_wait_defs = group_wait_until_published_def group_wait_until_published_for_def
  group_wait_until_published_until_def

text \<open>The three waits share their first step: one search, then the strategy.\<close>

lemma returns_group_wait_first:
  assumes "returns (bind (minimum_sequence_after m as) (\<lambda>current.
      if 0 \<le> difference current m then Return current else p)) l r"
    and "\<And>l'. returns p l' r \<Longrightarrow> saw as m r l'"
  shows "saw as m r l"
proof -
  from assms(1) obtain l1 l2 v where l: "l = l1 @ l2" and v: "returns (minimum_sequence_after m as) l1 v"
    and r: "returns (if 0 \<le> difference v m then Return v else p) l2 r"
    by (auto simp: returns_bind)
  show ?thesis
  proof (cases "0 \<le> difference v m")
    case True
    with r l minimum_sequence_after_saw [OF v] show ?thesis by (simp add: ends_Return)
  next
    case False
    with r have "saw as m r l2" by (simp add: assms(2))
    then show ?thesis by (rule saw_mono) (simp add: l)
  qed
qed

lemma waits_only_minimum_sequence_loop: "waits_only (minimum_sequence_loop as v) h h"
  by (induction as arbitrary: v) (auto simp: load_def)

lemma waits_only_group_last_published:
  "sbg_sequences g \<noteq> [] \<Longrightarrow> waits_only (group_last_published g) h h"
  by (auto simp: group_last_published_def assert_def minimum_sequence_def load_def
      waits_only_minimum_sequence_loop split: list.split)

context wait_strategy_model
begin

lemma returns_group_wait:
  assumes "sbg_waitStrategy g = W" and "returns (group_wait_until_published n g m) l r"
  shows "saw_all (sbg_sequences g) m r l"
proof -
  have r: "returns (bind (minimum_sequence_after m (sbg_sequences g)) (\<lambda>current.
      if 0 \<le> difference current m then Return current
      else ws_wait_until_published W n m (sbg_sequences g))) l r"
    using assms(2) unfolding assms(1) group_wait_defs ends_assert by (simp split: if_splits)
  then have "saw (sbg_sequences g) m r l"
    by (rule returns_group_wait_first) (auto dest: wait_returns simp: saw_all_iff)
  moreover have "0 \<le> difference r m"
    using r wait_reached by (auto simp: path_simps split: if_splits)
  ultimately show ?thesis by (simp add: saw_all_iff)
qed

lemma waits_only_group_wait:
  assumes "sbg_waitStrategy g = W" and "sbg_sequences g \<noteq> []"
  shows "waits_only (group_wait_until_published n g m) {} {}"
  using assms wait_waits_only
  by (auto simp: group_wait_defs assert_def
      intro!: waits_only_bind [where hm = "{}"] waits_only_minimum_sequence_after)

end

context timed_wait_strategy_model
begin

lemma returns_group_wait_for:
  assumes "sbg_waitStrategy g = W" and "returns (group_wait_until_published_for n g m t) l r"
  shows "saw (sbg_sequences g) m r l"
proof -
  have "returns (bind (minimum_sequence_after m (sbg_sequences g)) (\<lambda>current.
      if 0 \<le> difference current m then Return current
      else ws_timed_wait_for W n m (sbg_sequences g) t)) l r"
    using assms(2) unfolding assms(1) group_wait_defs ends_assert by (simp split: if_splits)
  then show ?thesis by (rule returns_group_wait_first) (rule wait_for_returns)
qed

lemma returns_group_wait_until:
  assumes "sbg_waitStrategy g = W" and "returns (group_wait_until_published_until n g m t) l r"
  shows "saw (sbg_sequences g) m r l"
proof -
  have "returns (bind (minimum_sequence_after m (sbg_sequences g)) (\<lambda>current.
      if 0 \<le> difference current m then Return current
      else ws_timed_wait_until W n m (sbg_sequences g) t)) l r"
    using assms(2) unfolding assms(1) group_wait_defs ends_assert by (simp split: if_splits)
  then show ?thesis by (rule returns_group_wait_first) (rule wait_until_returns)
qed

lemma group_wait_until_deadline:
  assumes "sbg_waitStrategy g = W"
    and "returns (group_wait_until_published_until n g m d) l r" "difference r m < 0"
  shows "deadline_passed d l"
proof -
  from assms obtain l1 l2 where "l = l1 @ l2" "returns (ws_timed_wait_until W n m (sbg_sequences g) d) l2 r"
    by (auto simp: group_wait_defs ends_assert returns_bind ends_Return split: if_splits)
  then show ?thesis
    using wait_until_deadline [OF _ assms(3)] by (fastforce elim: deadline_passed_mono)
qed

lemma group_wait_for_deadline:
  assumes "sbg_waitStrategy g = W"
    and "returns (group_wait_until_published_for n g m d) l r" "difference r m < 0"
  shows "\<exists>t. (Now, RNat t) \<in> set l \<and> deadline_passed (t + d) l"
proof -
  from assms obtain l1 l2 where "l = l1 @ l2" "returns (ws_timed_wait_for W n m (sbg_sequences g) d) l2 r"
    by (auto simp: group_wait_defs ends_assert returns_bind ends_Return split: if_splits)
  then show ?thesis
    using wait_for_deadline [OF _ assms(3)] timeout_passed_mono [of l2 d l] by fastforce
qed

lemma waits_only_group_timed_waits:
  assumes "sbg_waitStrategy g = W" and "sbg_sequences g \<noteq> []"
  shows "waits_only (group_wait_until_published_for n g m t) {} {}"
    and "waits_only (group_wait_until_published_until n g m t) {} {}"
  using assms wait_for_waits_only wait_until_waits_only
  by (auto simp: group_wait_defs assert_def
      intro!: waits_only_bind [where hm = "{}"] waits_only_minimum_sequence_after)

end

end
