(* ===== verification/Sequence_Range.thy ===== *)
theory Sequence_Range
  imports Prelude
begin

text \<open>
  sequence_range.hpp: a contiguous range of sequence numbers that may wrap around.  The
  code's \<open>size_t\<close> is 64 bits wide (\<open>multi_threaded_claim_strategy::try_claim_until\<close> takes the
  minimum of a \<open>size_t\<close> and a \<open>sequence_t\<close>, which only compiles if they are one type).
\<close>

type_synonym size_t = "64 word"

record sequence_range =
  m_first :: sequence_t
  m_size :: size_t

definition empty_sequence_range :: sequence_range where
  "empty_sequence_range = \<lparr>m_first = 0, m_size = 0\<rparr>"

definition sequence_range :: "sequence_t \<Rightarrow> size_t \<Rightarrow> sequence_range" where
  "sequence_range first n = \<lparr>m_first = first, m_size = n\<rparr>"

definition range_size :: "sequence_range \<Rightarrow> size_t" where
  "range_size r = m_size r"

definition range_first :: "sequence_range \<Rightarrow> sequence_t" where
  "range_first r = m_first r"

definition range_end :: "sequence_range \<Rightarrow> sequence_t" where
  "range_end r = m_first r + m_size r"

definition range_last :: "sequence_range \<Rightarrow> sequence_t" where
  "range_last r = range_end r - 1"

definition range_nth :: "sequence_range \<Rightarrow> size_t \<Rightarrow> sequence_t" where
  "range_nth r index = m_first r + index"

lemmas sequence_range_defs = empty_sequence_range_def sequence_range_def range_size_def
  range_first_def range_end_def range_last_def range_nth_def

lemma range_nth_seq_at:
  "range_nth (sequence_range (seq_at x) n) i = seq_at (x + uint i)"
  by (simp add: sequence_range_defs pos_simps)

lemma range_last_seq_at:
  "range_last (sequence_range (seq_at x) n) = seq_at (x + uint n - 1)"
  by (simp add: sequence_range_defs pos_simps)

lemma range_end_seq_at:
  "range_end (sequence_range (seq_at x) n) = seq_at (x + uint n)"
  by (simp add: sequence_range_defs pos_simps)

lemma range_nth_inject:
  "range_nth r i = range_nth r j \<longleftrightarrow> i = j"
  by (simp add: sequence_range_defs)

lemma range_elements:
  "map (range_nth (sequence_range (seq_at x) n)) (map of_nat [0..<unat n]) = map seq_at [x..x + uint n - 1]"
proof (rule nth_equalityI)
  show "length (map (range_nth (sequence_range (seq_at x) n)) (map of_nat [0..<unat n])) =
    length (map seq_at [x..x + uint n - 1])" by simp
next
  fix i assume "i < length (map (range_nth (sequence_range (seq_at x) n)) (map of_nat [0..<unat n]))"
  then have i: "i < unat n" by simp
  moreover have "unat n < 2 ^ LENGTH(64)" by (rule unsigned_less)
  ultimately have u: "uint (of_nat i :: 64 word) = int i"
    unfolding uint_nat unat_of_nat by simp
  have "int i < uint n" using i unfolding uint_nat of_nat_less_iff .
  have "[x..x + uint n - 1] ! i = x + int i" using \<open>int i < uint n\<close> by (intro nth_upto) simp
  moreover have "i < length [x..x + uint n - 1]" using i by simp
  ultimately show "map (range_nth (sequence_range (seq_at x) n)) (map of_nat [0..<unat n]) ! i =
    map seq_at [x..x + uint n - 1] ! i"
    using i u by (simp only: nth_map length_map length_upt diff_zero nth_upt add_0 range_nth_seq_at)
qed

text \<open>
  C21.  A range is its elements: \<open>range[0]\<close> to \<open>range[size() - 1]\<close> are exactly the \<open>size()\<close>
  consecutive sequence numbers from \<open>first()\<close> on; \<open>last()\<close> is the element at \<open>size() - 1\<close>
  and \<open>end()\<close> the number after it, also when the range wraps around.
\<close>

theorem sequence_range_correct:
  "map (range_nth (sequence_range (seq_at x) n)) (map of_nat [0..<unat (range_size (sequence_range (seq_at x) n))]) =
     map seq_at [x..x + uint n - 1] \<and>
   range_first (sequence_range (seq_at x) n) = seq_at x \<and>
   range_last (sequence_range (seq_at x) n) = range_nth (sequence_range (seq_at x) n) (n - 1) \<and>
   range_end (sequence_range (seq_at x) n) = range_last (sequence_range (seq_at x) n) + 1 \<and>
   range_size empty_sequence_range = 0"
  using range_elements by (simp add: sequence_range_defs)

end
