(* ===== verification/Ring_Buffer.thy ===== *)
theory Ring_Buffer
  imports Interleaving Sequence_Range
begin

text \<open>
  ring_buffer.hpp: a heap array whose size is a power of two, indexed by sequence numbers.
  The array is named by a number; its elements are the \<open>cells\<close> of the machine.  The
  contents of a fresh array (default-constructed elements) are whatever the machine holds.
\<close>

record ring_buffer =
  rb_size :: size_t
  rb_mask :: size_t
  rb_data :: nat

definition power_of_two :: "size_t \<Rightarrow> bool" where
  "power_of_two n \<longleftrightarrow> 0 < n \<and> n AND (n - 1) = 0"

definition new_ring_buffer :: "size_t \<Rightarrow> nat \<Rightarrow> ('d, ring_buffer) prog" where
  "new_ring_buffer n array =
     (let b = \<lparr>rb_size = n, rb_mask = n - 1, rb_data = array\<rparr>
      in assert (0 < rb_size b \<and> rb_size b AND rb_mask b = 0) (Return b))"

definition buffer_size :: "ring_buffer \<Rightarrow> size_t" where
  "buffer_size b = rb_size b"

definition buffer_slot :: "ring_buffer \<Rightarrow> sequence_t \<Rightarrow> nat" where
  "buffer_slot b seq = unat (seq AND rb_mask b)"

definition buffer_read :: "ring_buffer \<Rightarrow> sequence_t \<Rightarrow> ('d \<Rightarrow> ('d, 'a) prog) \<Rightarrow> ('d, 'a) prog" where
  "buffer_read b seq k = read_data (rb_data b) (buffer_slot b seq) k"

definition buffer_write :: "ring_buffer \<Rightarrow> sequence_t \<Rightarrow> 'd \<Rightarrow> ('d, 'a) prog \<Rightarrow> ('d, 'a) prog" where
  "buffer_write b seq x p = do_act (Write (rb_data b) (buffer_slot b seq) x) p"

section \<open>The power-of-two test\<close>

lemma nat_and_pred_eq_0:
  "0 < n \<Longrightarrow> n AND (n - 1) = 0 \<longleftrightarrow> (\<exists>k. n = 2 ^ k)" for n :: nat
proof (induction n rule: nat_bit_induct)
  case (even n)
  have e: "2 * n - 1 = 1 + 2 * (n - 1)" using even.hyps by simp
  have "2 * n AND (2 * n - 1) = 2 * (n AND (n - 1))"
  proof (rule bit_eqI)
    show "bit (2 * n AND (2 * n - 1)) m \<longleftrightarrow> bit (2 * (n AND (n - 1))) m" for m
      unfolding e bit_and_iff by (cases m) (simp_all add: bit_double_iff bit_and_iff bit_Suc bit_0)
  qed
  then have "2 * n AND (2 * n - 1) = 0 \<longleftrightarrow> (\<exists>k. n = 2 ^ k)" using even by simp
  also have "\<dots> \<longleftrightarrow> (\<exists>k. 2 * n = 2 ^ k)"
  proof
    assume "\<exists>k. 2 * n = 2 ^ k"
    then obtain k where "2 * n = 2 ^ k" by blast
    then show "\<exists>k. n = 2 ^ k" using even.hyps by (cases k) auto
  qed (metis power_Suc)
  finally show ?case .
next
  case (odd n)
  have "Suc (2 * n) AND 2 * n = 2 * n"
  proof (rule bit_eqI)
    show "bit (Suc (2 * n) AND 2 * n) m \<longleftrightarrow> bit (2 * n) m" for m
      unfolding bit_and_iff by (cases m) (simp_all add: bit_Suc bit_0)
  qed
  moreover have "Suc (2 * n) = 2 ^ k \<longleftrightarrow> n = 0 \<and> k = 0" for k
    by (cases k) (simp, simp, presburger)
  ultimately show ?case by simp
qed simp

lemma power_of_two_iff: "power_of_two n \<longleftrightarrow> (\<exists>k < 64. n = 2 ^ k)"
proof (cases "n = 0")
  case False
  have "n AND (n - 1) = 0 \<longleftrightarrow> unat n AND (unat n - 1) = 0"
    using False by (simp add: unat_eq_0 [symmetric] unsigned_and_eq unat_minus_one)
  also have "\<dots> \<longleftrightarrow> (\<exists>k. unat n = 2 ^ k)"
    using False by (intro nat_and_pred_eq_0) (simp add: unat_gt_0)
  also have "\<dots> \<longleftrightarrow> (\<exists>k < 64. n = 2 ^ k)"
  proof
    assume "\<exists>k. unat n = 2 ^ k"
    then obtain k where k: "unat n = 2 ^ k" by blast
    have "unat n < 2 ^ LENGTH(64)" by (rule unsigned_less)
    then have "(2 :: nat) ^ k < 2 ^ 64" using k by simp
    then have "k < 64" by (rule power_less_imp_less_exp [rotated]) simp
    then have "n = 2 ^ k" using k by (simp add: word_unat_eq_iff unat_2_power)
    with \<open>k < 64\<close> show "\<exists>k < 64. n = 2 ^ k" by blast
  next
    assume "\<exists>k < 64. n = 2 ^ k"
    then show "\<exists>k. unat n = 2 ^ k" by (auto simp: unat_2_power)
  qed
  finally show ?thesis using False by (simp add: power_of_two_def word_gt_0)
qed (simp add: power_of_two_def)

section \<open>What the buffer holds\<close>

text \<open>
  The constructor of ring_buffer succeeds exactly for the sizes that are powers of two,
  with the size and its mask, and fails its assertion for every other size.
\<close>

theorem new_ring_buffer_correct:
  "ends (new_ring_buffer n array) l out \<longleftrightarrow> l = [] \<and>
    out = (if \<exists>k < 64. n = 2 ^ k
           then Returned \<lparr>rb_size = n, rb_mask = n - 1, rb_data = array\<rparr> else Failed)"
  using power_of_two_iff [of n] by (auto simp: new_ring_buffer_def path_simps power_of_two_def)

lemma new_ring_buffer_returns:
  assumes "returns (new_ring_buffer n array) l b"
  obtains k where "k < 64" "n = 2 ^ k" "rb_size b = n" "rb_mask b = n - 1" "rb_data b = array"
  using assms power_of_two_iff [of n]
  by (auto simp: new_ring_buffer_def path_simps power_of_two_def split: if_splits)

lemma buffer_slot_seq_at:
  assumes "rb_mask b = 2 ^ k - 1" "k < 64"
  shows "buffer_slot b (seq_at x) = nat (x mod 2 ^ k)"
  using seq_at_and_mask [OF refl assms(2)] by (simp add: buffer_slot_def assms(1))

lemma buffer_slot_window:
  assumes "rb_mask b = 2 ^ k - 1" "k < 64" "\<bar>x - y\<bar> < 2 ^ k"
  shows "buffer_slot b (seq_at x) = buffer_slot b (seq_at y) \<longleftrightarrow> x = y"
proof
  assume "buffer_slot b (seq_at x) = buffer_slot b (seq_at y)"
  then have "x mod 2 ^ k = y mod 2 ^ k"
    using assms(1,2) by (simp add: buffer_slot_seq_at nat_eq_iff2 split: if_splits)
  then show "x = y" using assms(3) by (rule mod_window_inj)
qed simp

text \<open>
  C18.  Indexing: the element of a sequence number is its position modulo the size, it is in
  range, and two positions less than one buffer apart share an element only if equal.
\<close>

theorem buffer_slot_correct:
  assumes "returns (new_ring_buffer n array) l b"
  shows "buffer_slot b (seq_at x) = nat (x mod uint n) \<and> buffer_slot b (seq_at x) < unat n \<and>
    (\<bar>x - y\<bar> < uint n \<longrightarrow> (buffer_slot b (seq_at x) = buffer_slot b (seq_at y) \<longleftrightarrow> x = y))"
proof -
  obtain k where k: "k < 64" "n = 2 ^ k" "rb_mask b = 2 ^ k - 1"
    using assms by (rule new_ring_buffer_returns) auto
  have s: "buffer_slot b (seq_at x) = nat (x mod uint n)"
    using k by (simp add: buffer_slot_seq_at uint_2_power)
  have "x mod 2 ^ k < 2 ^ k" "0 \<le> x mod 2 ^ k" by simp_all
  then have "nat (x mod uint n) < unat n"
    using k by (simp add: uint_2_power unat_2_power nat_less_iff)
  moreover have "\<bar>x - y\<bar> < uint n \<longrightarrow> (buffer_slot b (seq_at x) = buffer_slot b (seq_at y) \<longleftrightarrow> x = y)"
    using k by (intro impI buffer_slot_window) (auto simp: uint_2_power)
  ultimately show ?thesis using s by simp
qed

text \<open>A buffer of four elements.\<close>

lemma new_ring_buffer_4: "returns (new_ring_buffer 4 9) [] \<lparr>rb_size = 4, rb_mask = 3, rb_data = 9\<rparr>"
  by (simp add: new_ring_buffer_def path_simps)

lemma buffer_slot_correct_witness:
  "buffer_slot \<lparr>rb_size = 4, rb_mask = 3, rb_data = 9\<rparr> (seq_at 6) = 2"
  using buffer_slot_correct [OF new_ring_buffer_4, of 6 5] by simp

lemma run_buffer_write: "run t w (buffer_write b s x p) i \<sigma> =
    (let \<sigma>' = fst (w i) \<sigma>;
         (out, \<sigma>'', l) = run t w p (Suc i) (\<sigma>'\<lparr>cells := (cells \<sigma>')(rb_data b := (cells \<sigma>' (rb_data b))
           (buffer_slot b s := x))\<rparr>)
     in (out, \<sigma>'', (Write (rb_data b) (buffer_slot b s) x, RUnit) # l))"
  by (simp add: buffer_write_def do_act_def Let_def)

lemma run_buffer_writes:
  assumes "rb_mask b = 2 ^ k - 1" "k < 64" "distinct ps"
    and "\<And>p q. p \<in> set ps \<Longrightarrow> q \<in> set ps \<Longrightarrow> p - q < 2 ^ k"
  shows "\<exists>i' \<sigma>' l'. run t alone (foldr (\<lambda>p. buffer_write b (seq_at p) (f p)) ps prg) i \<sigma> =
     (let (out, \<sigma>'', l) = run t alone prg i' \<sigma>' in (out, \<sigma>'', l' @ l)) \<and>
     (\<forall>p \<in> set ps. cells \<sigma>' (rb_data b) (buffer_slot b (seq_at p)) = f p) \<and>
     (\<forall>x. (\<forall>p \<in> set ps. x \<noteq> buffer_slot b (seq_at p)) \<longrightarrow>
        cells \<sigma>' (rb_data b) x = cells \<sigma> (rb_data b) x)"
  using assms(3,4)
proof (induction ps arbitrary: i \<sigma>)
  case Nil
  show ?case by (intro exI [of _ i] exI [of _ \<sigma>] exI [of _ "[]"]) simp
next
  case (Cons p ps)
  define \<sigma>1 where "\<sigma>1 = \<sigma>\<lparr>cells := (cells \<sigma>)(rb_data b := (cells \<sigma> (rb_data b))
    (buffer_slot b (seq_at p) := f p))\<rparr>"
  from Cons.IH [of "Suc i" \<sigma>1] Cons.prems obtain i' \<sigma>' l' where
    r: "run t alone (foldr (\<lambda>p. buffer_write b (seq_at p) (f p)) ps prg) (Suc i) \<sigma>1 =
      (let (out, \<sigma>'', l) = run t alone prg i' \<sigma>' in (out, \<sigma>'', l' @ l))"
    and h: "\<forall>p \<in> set ps. cells \<sigma>' (rb_data b) (buffer_slot b (seq_at p)) = f p"
    and fr: "\<forall>x. (\<forall>p \<in> set ps. x \<noteq> buffer_slot b (seq_at p)) \<longrightarrow>
        cells \<sigma>' (rb_data b) x = cells \<sigma>1 (rb_data b) x" by auto
  have sep: "buffer_slot b (seq_at p) \<noteq> buffer_slot b (seq_at q)" if "q \<in> set ps" for q
    using that Cons.prems assms(1,2) by (subst buffer_slot_window) (auto simp: abs_if)
  have "cells \<sigma>' (rb_data b) (buffer_slot b (seq_at p)) = f p"
    using fr sep by (auto simp: \<sigma>1_def)
  moreover have "cells \<sigma>' (rb_data b) x = cells \<sigma> (rb_data b) x"
    if "\<forall>q \<in> set (p # ps). x \<noteq> buffer_slot b (seq_at q)" for x
    using fr that by (simp add: \<sigma>1_def)
  ultimately show ?case using r h
    by (intro exI [of _ i'] exI [of _ \<sigma>'] exI [of _ "(Write (rb_data b) (buffer_slot b (seq_at p)) (f p), RUnit) # l'"])
      (simp add: run_buffer_write Let_def split_beta flip: \<sigma>1_def)
qed

text \<open>
  C17.  The ring buffer holds a window of \<open>size()\<close> consecutive positions: items written at
  distinct positions of one window, in any order, are all read back, none overwritten.
\<close>

theorem ring_buffer_holds_window:
  assumes "returns (new_ring_buffer n array) l b" "distinct ps"
    and "\<And>p q. p \<in> set ps \<Longrightarrow> q \<in> set ps \<Longrightarrow> p - q < uint n" and "q \<in> set ps"
  shows "fst (run t alone (foldr (\<lambda>p. buffer_write b (seq_at p) (f p)) ps
      (buffer_read b (seq_at q) Return)) i \<sigma>) = Returned (f q)"
proof -
  obtain k where k: "k < 64" "n = 2 ^ k" "rb_mask b = 2 ^ k - 1"
    using assms(1) by (rule new_ring_buffer_returns) auto
  from run_buffer_writes [OF k(3,1) assms(2), where t = t and f = f and i = i and \<sigma> = \<sigma>
      and prg = "buffer_read b (seq_at q) Return"] assms(3,4) k
  show ?thesis
    by (fastforce simp: uint_2_power buffer_read_def read_data_def split: prod.splits)
qed

lemma ring_buffer_holds_window_witness:
  "fst (run 0 alone (foldr (\<lambda>p. buffer_write \<lparr>rb_size = 4, rb_mask = 3, rb_data = 9\<rparr> (seq_at p) (p * 10))
      [7, 5, 6] (buffer_read \<lparr>rb_size = 4, rb_mask = 3, rb_data = 9\<rparr> (seq_at 5) Return)) 0 (at_rest 0)) = Returned 50"
  using ring_buffer_holds_window [OF new_ring_buffer_4, of "[7, 5, 6]" 5 0 "\<lambda>p. p * 10" 0 "at_rest 0"]
  by force

end
