(* ===== verification/Single_Threaded_Claim_Strategy.thy ===== *)
theory Single_Threaded_Claim_Strategy
  imports Sequence_Barrier_Group Sequence_Range Ring_Buffer
begin

text \<open>
  single_threaded_claim_strategy.hpp: the claim strategy of a single producer.  The
  producer's cursor is a plain member, so the operations that move it return the updated
  strategy; the atomics are in the barriers.  The member \<open>m_lastKnownClaimableSequence\<close> is
  never read or written by the code and has no field here.
\<close>

record 'd single_claim =
  st_bufferSize :: size_t
  st_nextSequenceToClaim :: sequence_t
  st_claimBarrier :: "'d sequence_barrier_group"
  st_readBarrier :: "'d sequence_barrier"

definition new_single_claim :: "size_t \<Rightarrow> 'd wait_strategy \<Rightarrow> addr \<Rightarrow> ('d, 'd single_claim) prog" where
  "new_single_claim bufferSize W a =
     bind (new_sequence_barrier W a) (\<lambda>readBarrier.
       assert (0 < bufferSize \<and> bufferSize AND (bufferSize - 1) = 0)
         (Return \<lparr>st_bufferSize = bufferSize, st_nextSequenceToClaim = 0,
           st_claimBarrier = new_sequence_barrier_group W, st_readBarrier = readBarrier\<rparr>))"

definition st_buffer_size :: "'d single_claim \<Rightarrow> size_t" where
  "st_buffer_size s = st_bufferSize s"

definition st_add_claim_barrier ::
    "'d single_claim \<Rightarrow> 'd sequence_barrier \<Rightarrow> ('d, 'd single_claim) prog" where
  "st_add_claim_barrier s b =
     bind (group_add_barrier (st_claimBarrier s) b) (\<lambda>g. Return (s\<lparr>st_claimBarrier := g\<rparr>))"

definition st_add_claim_barrier_group ::
    "'d single_claim \<Rightarrow> 'd sequence_barrier_group \<Rightarrow> 'd single_claim" where
  "st_add_claim_barrier_group s g = s\<lparr>st_claimBarrier := group_add_group (st_claimBarrier s) g\<rparr>"

definition st_claim_one :: "nat \<Rightarrow> 'd single_claim \<Rightarrow> ('d, sequence_t \<times> 'd single_claim) prog" where
  "st_claim_one n s =
     bind (group_wait_until_published n (st_claimBarrier s)
             (st_nextSequenceToClaim s - st_bufferSize s)) (\<lambda>_.
       Return (st_nextSequenceToClaim s,
               s\<lparr>st_nextSequenceToClaim := st_nextSequenceToClaim s + 1\<rparr>))"

text \<open>
  The end of every batch claim: as many slots as asked for, at most those available.
\<close>

definition st_take ::
    "'d single_claim \<Rightarrow> size_t \<Rightarrow> sequence_diff_t \<Rightarrow> sequence_range \<times> 'd single_claim" where
  "st_take s count diff =
     (let available = word_of_int (diff + 1);
          count' = min count available
      in (sequence_range (st_nextSequenceToClaim s) count',
          s\<lparr>st_nextSequenceToClaim := st_nextSequenceToClaim s + count'\<rparr>))"

definition st_claim :: "nat \<Rightarrow> 'd single_claim \<Rightarrow> size_t \<Rightarrow> ('d, sequence_range \<times> 'd single_claim) prog" where
  "st_claim n s count =
     bind (group_wait_until_published n (st_claimBarrier s)
             (st_nextSequenceToClaim s - st_bufferSize s)) (\<lambda>published.
       let claimable = published + st_bufferSize s;
           diff = difference claimable (st_nextSequenceToClaim s)
       in assert (0 \<le> diff) (Return (st_take s count diff)))"

text \<open>The results of the try operations: the flag, the out-parameter \<open>range\<close>, the strategy.\<close>

definition st_try_claim ::
    "'d single_claim \<Rightarrow> size_t \<Rightarrow> sequence_range \<Rightarrow>
     ('d, bool \<times> sequence_range \<times> 'd single_claim) prog" where
  "st_try_claim s count rng =
     bind (group_last_published (st_claimBarrier s)) (\<lambda>published.
       let seq = published + st_bufferSize s;
           diff = difference seq (st_nextSequenceToClaim s)
       in if diff < 0 then Return (False, rng, s)
          else assert (0 \<le> diff) (Return (True, st_take s count diff)))"

definition st_try_claim_for ::
    "nat \<Rightarrow> 'd single_claim \<Rightarrow> size_t \<Rightarrow> sequence_range \<Rightarrow> nat \<Rightarrow>
     ('d, bool \<times> sequence_range \<times> 'd single_claim) prog" where
  "st_try_claim_for n s count rng timeout =
     bind (st_try_claim s count rng) (\<lambda>(claimed, rng, s).
       if claimed then Return (True, rng, s)
       else bind (group_wait_until_published_for n (st_claimBarrier s)
                   (st_nextSequenceToClaim s - st_bufferSize s) timeout) (\<lambda>published.
              let claimable = published + st_bufferSize s;
                  diff = difference claimable (st_nextSequenceToClaim s)
              in if diff < 0 then Return (False, rng, s)
                 else Return (True, st_take s count diff)))"

definition st_try_claim_until ::
    "nat \<Rightarrow> 'd single_claim \<Rightarrow> size_t \<Rightarrow> sequence_range \<Rightarrow> nat \<Rightarrow>
     ('d, bool \<times> sequence_range \<times> 'd single_claim) prog" where
  "st_try_claim_until n s count rng timeoutTime =
     bind (st_try_claim s count rng) (\<lambda>(claimed, rng, s).
       if claimed then Return (True, rng, s)
       else bind (group_wait_until_published_until n (st_claimBarrier s)
                   (st_nextSequenceToClaim s - st_bufferSize s) timeoutTime) (\<lambda>published.
              let claimable = published + st_bufferSize s;
                  diff = difference claimable (st_nextSequenceToClaim s)
              in if diff < 0 then Return (False, rng, s)
                 else Return (True, st_take s count diff)))"

definition st_publish :: "'d single_claim \<Rightarrow> sequence_t \<Rightarrow> ('d, unit) prog" where
  "st_publish s sequence = barrier_publish (st_readBarrier s) sequence"

definition st_last_published :: "'d single_claim \<Rightarrow> ('d, sequence_t) prog" where
  "st_last_published s = barrier_last_published (st_readBarrier s)"

definition st_wait_until_published :: "nat \<Rightarrow> 'd single_claim \<Rightarrow> sequence_t \<Rightarrow> ('d, sequence_t) prog" where
  "st_wait_until_published n s sequence = barrier_wait_until_published n (st_readBarrier s) sequence"

definition st_wait_until_published_known ::
    "nat \<Rightarrow> 'd single_claim \<Rightarrow> sequence_t \<Rightarrow> sequence_t \<Rightarrow> ('d, sequence_t) prog" where
  "st_wait_until_published_known n s sequence lastKnownPublished = st_wait_until_published n s sequence"

definition st_wait_until_published_for ::
    "nat \<Rightarrow> 'd single_claim \<Rightarrow> sequence_t \<Rightarrow> nat \<Rightarrow> ('d, sequence_t) prog" where
  "st_wait_until_published_for n s sequence timeout =
     barrier_wait_until_published_for n (st_readBarrier s) sequence timeout"

definition st_wait_until_published_known_for ::
    "nat \<Rightarrow> 'd single_claim \<Rightarrow> sequence_t \<Rightarrow> sequence_t \<Rightarrow> nat \<Rightarrow> ('d, sequence_t) prog" where
  "st_wait_until_published_known_for n s sequence lastKnownPublished timeout =
     st_wait_until_published_for n s sequence timeout"

definition st_wait_until_published_until ::
    "nat \<Rightarrow> 'd single_claim \<Rightarrow> sequence_t \<Rightarrow> nat \<Rightarrow> ('d, sequence_t) prog" where
  "st_wait_until_published_until n s sequence timeoutTime =
     barrier_wait_until_published_until n (st_readBarrier s) sequence timeoutTime"

definition st_wait_until_published_known_until ::
    "nat \<Rightarrow> 'd single_claim \<Rightarrow> sequence_t \<Rightarrow> sequence_t \<Rightarrow> nat \<Rightarrow> ('d, sequence_t) prog" where
  "st_wait_until_published_known_until n s sequence lastKnownPublished timeoutTime =
     st_wait_until_published_until n s sequence timeoutTime"

end
