(* ===== verification/Multi_Threaded_Claim_Strategy.thy ===== *)
theory Multi_Threaded_Claim_Strategy
  imports Sequence_Barrier_Group Sequence_Range Ring_Buffer
begin

text \<open>
  multi_threaded_claim_strategy.hpp: the claim strategy of several producers.  All of its
  mutable state is in atomics: the claim counter and the array \<open>m_published\<close>, whose entry for
  a slot holds the sequence number last published in that slot.

  The first numeric argument of an operation bounds its waiting rounds and its retries.
\<close>

record 'd multi_claim =
  mt_indexMask :: sequence_t
  mt_bufferSize :: size_t
  mt_waitStrategy :: "'d wait_strategy"
  mt_claimBarrier :: "'d sequence_barrier_group"
  mt_published :: nat
  mt_nextClaimable :: addr

text \<open>The entry \<open>m_published[sequence & m_indexMask]\<close>.\<close>

definition mt_entry :: "'d multi_claim \<Rightarrow> sequence_t \<Rightarrow> addr" where
  "mt_entry s sequence = Elem (mt_published s) (unat (sequence AND mt_indexMask s))"

section \<open>Construction\<close>

function mt_init_published :: "size_t \<Rightarrow> nat \<Rightarrow> sequence_t \<Rightarrow> ('d, unit) prog" where
  "mt_init_published bufferSize array i =
     (if i < bufferSize
      then do_act (Store Relaxed (Elem array (unat i)) (i - bufferSize))
             (mt_init_published bufferSize array (i + 1))
      else Return ())"
  by pat_completeness auto
termination
  by (relation "measure (\<lambda>(bufferSize, array, i). unat bufferSize - unat i)")
    (auto simp: unat_count_up)

definition new_multi_claim ::
    "size_t \<Rightarrow> 'd wait_strategy \<Rightarrow> nat \<Rightarrow> addr \<Rightarrow> ('d, 'd multi_claim) prog" where
  "new_multi_claim bufferSize W array a =
     do_act (Init a 0)
       (assert (0 < bufferSize \<and> bufferSize AND (bufferSize - 1) = 0)
         (bind (mt_init_published bufferSize array 0) (\<lambda>_.
           Return \<lparr>mt_indexMask = bufferSize - 1, mt_bufferSize = bufferSize, mt_waitStrategy = W,
             mt_claimBarrier = new_sequence_barrier_group W, mt_published = array,
             mt_nextClaimable = a\<rparr>)))"

definition mt_buffer_size :: "'d multi_claim \<Rightarrow> size_t" where
  "mt_buffer_size s = mt_bufferSize s"

definition mt_add_claim_barrier ::
    "'d multi_claim \<Rightarrow> 'd sequence_barrier \<Rightarrow> ('d, 'd multi_claim) prog" where
  "mt_add_claim_barrier s b =
     bind (group_add_barrier (mt_claimBarrier s) b) (\<lambda>g. Return (s\<lparr>mt_claimBarrier := g\<rparr>))"

definition mt_add_claim_barrier_group ::
    "'d multi_claim \<Rightarrow> 'd sequence_barrier_group \<Rightarrow> 'd multi_claim" where
  "mt_add_claim_barrier_group s g = s\<lparr>mt_claimBarrier := group_add_group (mt_claimBarrier s) g\<rparr>"

section \<open>Claiming\<close>

definition mt_claim_one :: "nat \<Rightarrow> 'd multi_claim \<Rightarrow> ('d, sequence_t) prog" where
  "mt_claim_one n s =
     fetch_add Relaxed (mt_nextClaimable s) 1 (\<lambda>sequence.
       bind (group_wait_until_published n (mt_claimBarrier s) (sequence - mt_bufferSize s)) (\<lambda>_.
         Return sequence))"

definition mt_claim :: "nat \<Rightarrow> 'd multi_claim \<Rightarrow> size_t \<Rightarrow> ('d, sequence_range) prog" where
  "mt_claim n s count =
     (let count = min count (mt_bufferSize s)
      in fetch_add Relaxed (mt_nextClaimable s) count (\<lambda>sequence.
           let rng = sequence_range sequence count
           in bind (group_wait_until_published n (mt_claimBarrier s) (range_last rng - mt_bufferSize s)) (\<lambda>_.
                Return rng)))"

text \<open>The compare-exchange loop; \<open>count\<close> keeps the smaller value over the rounds, as in the code.\<close>

primrec mt_try_claim_loop ::
    "nat \<Rightarrow> 'd multi_claim \<Rightarrow> sequence_t \<Rightarrow> size_t \<Rightarrow> sequence_range \<Rightarrow> sequence_t \<Rightarrow>
     ('d, bool \<times> sequence_range) prog" where
  "mt_try_claim_loop 0 s published count rng sequence = Out_Of_Fuel"
| "mt_try_claim_loop (Suc n) s published count rng sequence =
     (let diff = difference published sequence
      in if diff < 0 then Return (False, rng)
         else let count = min count (word_of_int (diff + 1))
              in compare_exchange_weak Relaxed Relaxed (mt_nextClaimable s) sequence (sequence + count)
                   (\<lambda>exchanged seen.
                     if exchanged then Return (True, sequence_range sequence count)
                     else mt_try_claim_loop n s published count rng seen))"

definition mt_try_claim ::
    "nat \<Rightarrow> 'd multi_claim \<Rightarrow> size_t \<Rightarrow> sequence_range \<Rightarrow> ('d, bool \<times> sequence_range) prog" where
  "mt_try_claim n s count rng =
     bind (group_last_published (mt_claimBarrier s)) (\<lambda>lastPublished.
       let published = lastPublished + mt_bufferSize s
       in load Relaxed (mt_nextClaimable s) (\<lambda>sequence.
            mt_try_claim_loop n s published count rng sequence))"

primrec mt_try_claim_until_loop ::
    "nat \<Rightarrow> nat \<Rightarrow> 'd multi_claim \<Rightarrow> sequence_t \<Rightarrow> size_t \<Rightarrow> sequence_range \<Rightarrow> nat \<Rightarrow> sequence_t \<Rightarrow>
     ('d, bool \<times> sequence_range) prog" where
  "mt_try_claim_until_loop w 0 s published count rng timeoutTime sequence = Out_Of_Fuel"
| "mt_try_claim_until_loop w (Suc n) s published count rng timeoutTime sequence =
     (let attempt = (\<lambda>published diff.
            let reducedCount = min count (word_of_int (diff + 1))
            in compare_exchange_weak Relaxed Relaxed (mt_nextClaimable s) sequence (sequence + reducedCount)
                 (\<lambda>exchanged seen.
                   if exchanged then Return (True, sequence_range sequence reducedCount)
                   else mt_try_claim_until_loop w n s published count rng timeoutTime seen));
          diff = difference published sequence
      in if diff < 0
         then bind (group_wait_until_published_until w (mt_claimBarrier s)
                     (sequence - mt_bufferSize s) timeoutTime) (\<lambda>waited.
                let published = waited + mt_bufferSize s;
                    diff = difference published sequence
                in if diff < 0 then Return (False, rng) else attempt published diff)
         else attempt published diff)"

definition mt_try_claim_until ::
    "nat \<Rightarrow> 'd multi_claim \<Rightarrow> size_t \<Rightarrow> sequence_range \<Rightarrow> nat \<Rightarrow> ('d, bool \<times> sequence_range) prog" where
  "mt_try_claim_until n s count rng timeoutTime =
     bind (group_last_published (mt_claimBarrier s)) (\<lambda>lastPublished.
       let published = lastPublished + mt_bufferSize s
       in load Relaxed (mt_nextClaimable s) (\<lambda>sequence.
            mt_try_claim_until_loop n n s published count rng timeoutTime sequence))"

definition mt_try_claim_for ::
    "nat \<Rightarrow> 'd multi_claim \<Rightarrow> size_t \<Rightarrow> sequence_range \<Rightarrow> nat \<Rightarrow> ('d, bool \<times> sequence_range) prog" where
  "mt_try_claim_for n s count rng timeout =
     now (\<lambda>time. mt_try_claim_until n s count rng (time + timeout))"

section \<open>Publishing\<close>

definition mt_set_published :: "'d multi_claim \<Rightarrow> sequence_t \<Rightarrow> ('d, unit) prog" where
  "mt_set_published s sequence =
     load Relaxed (mt_entry s sequence) (\<lambda>entry.
       assert (entry = sequence - mt_bufferSize s)
         (do_act (Store Release (mt_entry s sequence) sequence) (Return ())))"

definition mt_publish :: "'d multi_claim \<Rightarrow> sequence_t \<Rightarrow> ('d, unit) prog" where
  "mt_publish s sequence =
     bind (mt_set_published s sequence) (\<lambda>_. ws_signal_all_when_blocking (mt_waitStrategy s))"

function mt_publish_loop :: "'d multi_claim \<Rightarrow> sequence_range \<Rightarrow> size_t \<Rightarrow> size_t \<Rightarrow> ('d, unit) prog" where
  "mt_publish_loop s rng i j =
     (if i < j
      then bind (mt_set_published s (range_nth rng i)) (\<lambda>_. mt_publish_loop s rng (i + 1) j)
      else Return ())"
  by pat_completeness auto
termination
  by (relation "measure (\<lambda>(s, rng, i, j). unat j - unat i)") (auto simp: unat_count_up)

definition mt_publish_range :: "'d multi_claim \<Rightarrow> sequence_range \<Rightarrow> ('d, unit) prog" where
  "mt_publish_range s rng =
     bind (mt_publish_loop s rng 0 (range_size rng)) (\<lambda>_.
       ws_signal_all_when_blocking (mt_waitStrategy s))"

section \<open>Reading\<close>

definition mt_is_published :: "'d multi_claim \<Rightarrow> sequence_t \<Rightarrow> ('d, bool) prog" where
  "mt_is_published s sequence =
     load Acquire (mt_entry s sequence) (\<lambda>entry. Return (entry = sequence))"

primrec mt_last_published_loop ::
    "nat \<Rightarrow> 'd multi_claim \<Rightarrow> sequence_t \<Rightarrow> sequence_t \<Rightarrow> ('d, sequence_t) prog" where
  "mt_last_published_loop 0 s seq lastKnownPublished =
     bind (mt_is_published s seq) (\<lambda>p. if p then Out_Of_Fuel else Return lastKnownPublished)"
| "mt_last_published_loop (Suc n) s seq lastKnownPublished =
     bind (mt_is_published s seq) (\<lambda>p.
       if p then mt_last_published_loop n s (seq + 1) seq else Return lastKnownPublished)"

definition mt_last_published_after :: "nat \<Rightarrow> 'd multi_claim \<Rightarrow> sequence_t \<Rightarrow> ('d, sequence_t) prog" where
  "mt_last_published_after n s lastKnownPublished =
     mt_last_published_loop n s (lastKnownPublished + 1) lastKnownPublished"

function mt_wait_loop :: "nat \<Rightarrow> 'd multi_claim \<Rightarrow> sequence_t \<Rightarrow> sequence_t \<Rightarrow> ('d, unit) prog" where
  "mt_wait_loop n s sequence seq =
     (if difference seq sequence \<le> 0
      then bind (mt_is_published s seq) (\<lambda>p.
           bind (if p then Return ()
                 else bind (ws_wait_until_published (mt_waitStrategy s) n seq [mt_entry s seq]) (\<lambda>_. Return ())) (\<lambda>_.
             mt_wait_loop n s sequence (seq + 1)))
      else Return ())"
  by pat_completeness auto
termination
  by (relation "measure (\<lambda>(n, s, sequence, seq). nat (1 - difference seq sequence))")
    (auto simp: difference_Suc)

definition mt_wait_until_published ::
    "nat \<Rightarrow> 'd multi_claim \<Rightarrow> sequence_t \<Rightarrow> sequence_t \<Rightarrow> ('d, sequence_t) prog" where
  "mt_wait_until_published n s sequence lastKnownPublished =
     assert (0 < difference sequence lastKnownPublished)
       (bind (mt_wait_loop n s sequence (lastKnownPublished + 1)) (\<lambda>_.
          mt_last_published_after n s sequence))"

text \<open>
  The variant with a deadline.  As in the code, the wait inside the loop is the one without
  a deadline.  The loop gives \<open>Some\<close> of the number to return early, or \<open>None\<close>.
\<close>

function mt_wait_until_loop ::
    "nat \<Rightarrow> 'd multi_claim \<Rightarrow> sequence_t \<Rightarrow> nat \<Rightarrow> sequence_t \<Rightarrow> ('d, sequence_t option) prog" where
  "mt_wait_until_loop n s sequence timeoutTime seq =
     (if difference seq sequence \<le> 0
      then bind (mt_is_published s seq) (\<lambda>p.
           if p then mt_wait_until_loop n s sequence timeoutTime (seq + 1)
           else bind (ws_wait_until_published (mt_waitStrategy s) n seq [mt_entry s seq]) (\<lambda>result.
                  if difference result seq < 0 then Return (Some (seq - 1))
                  else mt_wait_until_loop n s sequence timeoutTime (seq + 1)))
      else Return None)"
  by pat_completeness auto
termination
  by (relation "measure (\<lambda>(n, s, sequence, timeoutTime, seq). nat (1 - difference seq sequence))")
    (auto simp: difference_Suc)

definition mt_wait_until_published_until ::
    "nat \<Rightarrow> 'd multi_claim \<Rightarrow> sequence_t \<Rightarrow> sequence_t \<Rightarrow> nat \<Rightarrow> ('d, sequence_t) prog" where
  "mt_wait_until_published_until n s sequence lastKnownPublished timeoutTime =
     assert (0 < difference sequence lastKnownPublished)
       (bind (mt_wait_until_loop n s sequence timeoutTime (lastKnownPublished + 1)) (\<lambda>early.
          case early of
            Some seq \<Rightarrow> Return seq
          | None \<Rightarrow> mt_last_published_after n s sequence))"

definition mt_wait_until_published_for ::
    "nat \<Rightarrow> 'd multi_claim \<Rightarrow> sequence_t \<Rightarrow> sequence_t \<Rightarrow> nat \<Rightarrow> ('d, sequence_t) prog" where
  "mt_wait_until_published_for n s sequence lastKnownPublished timeout =
     now (\<lambda>time. mt_wait_until_published_until n s sequence lastKnownPublished (time + timeout))"

declare mt_init_published.simps [simp del] mt_publish_loop.simps [simp del]
  mt_wait_loop.simps [simp del] mt_wait_until_loop.simps [simp del]

section \<open>What the waits have seen\<close>

lemma returns_is_published:
  "returns (mt_is_published s sequence) l p \<longleftrightarrow>
     (\<exists>v. l = [(Load Acquire (mt_entry s sequence), RSeq v)] \<and> p = (v = sequence))"
  by (auto simp: mt_is_published_def path_simps)

text \<open>A run of published numbers: entries seen to hold \<open>y + 1\<close>, \<open>y + 2\<close>, ..., \<open>y + j\<close>, and
  that of the next number seen to hold something else.\<close>

lemma returns_mt_last_published_loop:
  "returns (mt_last_published_loop n s (seq_at (y + 1)) (seq_at y)) l r \<Longrightarrow>
     \<exists>j. j \<le> n \<and> r = seq_at (y + int j) \<and>
       (\<forall>i \<in> {1..j}. (Load Acquire (mt_entry s (seq_at (y + int i))), RSeq (seq_at (y + int i))) \<in> set l) \<and>
       (\<exists>v. v \<noteq> seq_at (y + int j + 1) \<and> (Load Acquire (mt_entry s (seq_at (y + int j + 1))), RSeq v) \<in> set l)"
proof (induction n arbitrary: y l)
  case 0
  then show ?case by (auto simp: returns_bind returns_is_published ends_Return ends_Out_Of_Fuel split: if_splits)
next
  case (Suc n)
  from Suc.prems obtain v l' where l: "l = (Load Acquire (mt_entry s (seq_at (y + 1))), RSeq v) # l'"
    and r: "returns (if v = seq_at (y + 1) then mt_last_published_loop n s (seq_at (y + 1) + 1) (seq_at (y + 1))
        else Return (seq_at y)) l' r"
    by (auto simp: returns_bind returns_is_published)
  show ?case
  proof (cases "v = seq_at (y + 1)")
    case False
    with r l show ?thesis by (intro exI [of _ 0]) (auto simp: ends_Return)
  next
    case True
    with r have "returns (mt_last_published_loop n s (seq_at (y + 1 + 1)) (seq_at (y + 1))) l' r"
      by (simp add: seq_at_add_1)
    from Suc.IH [OF this] obtain j where j: "j \<le> n" "r = seq_at (y + 1 + int j)"
      and seen: "\<forall>i \<in> {1..j}. (Load Acquire (mt_entry s (seq_at (y + 1 + int i))), RSeq (seq_at (y + 1 + int i))) \<in> set l'"
      and stop: "\<exists>v. v \<noteq> seq_at (y + 1 + int j + 1) \<and>
        (Load Acquire (mt_entry s (seq_at (y + 1 + int j + 1))), RSeq v) \<in> set l'" by blast
    have "(Load Acquire (mt_entry s (seq_at (y + int i))), RSeq (seq_at (y + int i))) \<in> set l"
      if "i \<in> {1..Suc j}" for i
    proof (cases "i = 1")
      case True
      then show ?thesis using l \<open>v = seq_at (y + 1)\<close> by simp
    next
      case False
      with that have "i - 1 \<in> {1..j}" "y + 1 + int (i - 1) = y + int i" by auto
      then show ?thesis using seen l by (metis list.set_intros(2))
    qed
    then show ?thesis using j stop l by (intro exI [of _ "Suc j"]) (auto simp: algebra_simps)
  qed
qed

lemma returns_mt_last_published_after:
  assumes "returns (mt_last_published_after n s (seq_at y)) l r"
  shows "\<exists>j. j \<le> n \<and> r = seq_at (y + int j) \<and>
       (\<forall>i \<in> {1..j}. (Load Acquire (mt_entry s (seq_at (y + int i))), RSeq (seq_at (y + int i))) \<in> set l) \<and>
       (\<exists>v. v \<noteq> seq_at (y + int j + 1) \<and> (Load Acquire (mt_entry s (seq_at (y + int j + 1))), RSeq v) \<in> set l)"
  using assms unfolding mt_last_published_after_def seq_at_add_1 by (rule returns_mt_last_published_loop)

context wait_strategy_model
begin

lemma returns_mt_wait_loop:
  assumes "mt_waitStrategy s = W" and "returns (mt_wait_loop n s (seq_at y) (seq_at x)) l u"
    and "x \<le> y + 1" "y - x < 2 ^ 63 - 1" and "p \<in> {x..y}"
  shows "\<exists>v. (Load Acquire (mt_entry s (seq_at p)), RSeq v) \<in> set l \<and> 0 \<le> difference v (seq_at p)"
  using assms(2-)
proof (induction "nat (y + 1 - x)" arbitrary: x l rule: less_induct)
  case less
  have xy: "x \<le> y" using less.prems by simp
  have d: "difference (seq_at x) (seq_at y) = x - y"
    using less.prems xy by (intro difference_seq_at) auto
  from less.prems(1) xy obtain v l1 l2 l' where l: "l = (Load Acquire (mt_entry s (seq_at x)), RSeq v) # l1 @ l2"
    and w: "returns (if v = seq_at x then Return ()
       else bind (ws_wait_until_published (mt_waitStrategy s) n (seq_at x) [mt_entry s (seq_at x)]) (\<lambda>_. Return ())) l1 ()"
    and rest: "returns (mt_wait_loop n s (seq_at y) (seq_at x + 1)) l2 u"
    by (subst (asm) mt_wait_loop.simps) (fastforce simp: d returns_bind returns_is_published)
  have first: "\<exists>v. (Load Acquire (mt_entry s (seq_at x)), RSeq v) \<in> set l \<and> 0 \<le> difference v (seq_at x)"
  proof (cases "v = seq_at x")
    case True
    then show ?thesis by (auto simp: l)
  next
    case False
    with w assms(1) have "returns (ws_wait_until_published W n (seq_at x) [mt_entry s (seq_at x)]) l1
        (SOME r. returns (ws_wait_until_published W n (seq_at x) [mt_entry s (seq_at x)]) l1 r)"
      by (auto simp: path_simps intro: someI)
    from saw_allD [OF wait_returns [OF this], of "mt_entry s (seq_at x)"] l show ?thesis by auto
  qed
  show ?case
  proof (cases "p = x")
    case True
    with first show ?thesis by simp
  next
    case False
    have "\<exists>v. (Load Acquire (mt_entry s (seq_at p)), RSeq v) \<in> set l2 \<and> 0 \<le> difference v (seq_at p)"
    proof (rule less.hyps)
      show "returns (mt_wait_loop n s (seq_at y) (seq_at (x + 1))) l2 u" using rest by (simp add: seq_at_add_1)
    qed (use less.prems xy False in auto)
    then show ?thesis using l by auto
  qed
qed

lemma waits_only_mt_wait_loop:
  assumes "mt_waitStrategy s = W"
  shows "waits_only (mt_wait_loop n s sequence seq) {} {}"
  using assms
proof (induction n s sequence seq rule: mt_wait_loop.induct)
  case (1 n s sequence seq)
  have w: "waits_only (ws_wait_until_published (mt_waitStrategy s) n m [a]) {} {}" for m a
    using "1.prems" wait_waits_only by simp
  show ?case
    using 1 by (subst mt_wait_loop.simps)
      (auto simp: mt_is_published_def load_def intro!: waits_only_bind [where hm = "{}"] w)
qed

lemma waits_only_mt_last_published_loop: "waits_only (mt_last_published_loop n s seq known) h h"
  by (induction n arbitrary: seq known) (auto simp: mt_is_published_def load_def)

lemma waits_only_mt_wait:
  assumes "mt_waitStrategy s = W" and "0 < difference sequence known"
  shows "waits_only (mt_wait_until_published n s sequence known) {} {}"
  using assms by (auto simp: mt_wait_until_published_def assert_def mt_last_published_after_def
      intro!: waits_only_bind [where hm = "{}"] waits_only_mt_wait_loop waits_only_mt_last_published_loop)

text \<open>A wait returns a position such that everything after the last known position was seen
  published, up to the position asked for by waiting, and beyond it one by one.\<close>

lemma returns_mt_wait:
  assumes "mt_waitStrategy s = W" and "returns (mt_wait_until_published n s (seq_at y) (seq_at x)) l r"
    and "x < y" "y - x < 2 ^ 63 - 1"
  obtains j where "r = seq_at (y + int j)"
    "\<And>p. x < p \<Longrightarrow> p \<le> y \<Longrightarrow>
       \<exists>v. (Load Acquire (mt_entry s (seq_at p)), RSeq v) \<in> set l \<and> 0 \<le> difference v (seq_at p)"
    "\<And>i. 1 \<le> i \<Longrightarrow> i \<le> j \<Longrightarrow>
       (Load Acquire (mt_entry s (seq_at (y + int i))), RSeq (seq_at (y + int i))) \<in> set l"
proof -
  obtain l1 l2 u where l: "l = l1 @ l2" and w: "returns (mt_wait_loop n s (seq_at y) (seq_at (x + 1))) l1 u"
    and r: "returns (mt_last_published_after n s (seq_at y)) l2 r"
    using assms(2) by (auto simp: mt_wait_until_published_def ends_assert returns_bind seq_at_add_1 split: if_splits)
  from returns_mt_last_published_after [OF r] obtain j where j: "r = seq_at (y + int j)"
    and seen: "\<forall>i \<in> {1..j}. (Load Acquire (mt_entry s (seq_at (y + int i))), RSeq (seq_at (y + int i))) \<in> set l2"
    by blast
  show thesis
  proof (rule that [OF j])
    show "\<exists>v. (Load Acquire (mt_entry s (seq_at p)), RSeq v) \<in> set l \<and> 0 \<le> difference v (seq_at p)"
      if "x < p" "p \<le> y" for p
      using returns_mt_wait_loop [OF assms(1) w _ _, of p] assms(3,4) that l by force
    show "(Load Acquire (mt_entry s (seq_at (y + int i))), RSeq (seq_at (y + int i))) \<in> set l"
      if "1 \<le> i" "i \<le> j" for i using seen that l by simp
  qed
qed

end

end
