(* ===== verification/Spin_Wait.thy ===== *)
theory Spin_Wait
  imports Interleaving
begin

text \<open>
  spin_wait.hpp: the back-off of a spinning thread.  The first ten calls of
  \<open>spin_once\<close> busy-wait for exponentially longer, then each call yields the time slice, and
  every twentieth of those sleeps.
\<close>

record spin_wait =
  m_value :: "32 word"

definition spin_reset :: "spin_wait \<Rightarrow> ('d, spin_wait) prog" where
  "spin_reset s = hardware_concurrency (\<lambda>n. Return (s\<lparr>m_value := (if n > 1 then 0 else 10)\<rparr>))"

definition new_spin_wait :: "('d, spin_wait) prog" where
  "new_spin_wait = spin_reset \<lparr>m_value = 0\<rparr>"

definition next_spin_will_yield :: "spin_wait \<Rightarrow> bool" where
  "next_spin_will_yield s \<longleftrightarrow> 10 \<le> m_value s"

text \<open>\<open>while (count-- != 0) yield_processor();\<close>\<close>

text \<open>The pause of the processor; compilers without the instruction compile it to nothing.\<close>

definition yield_processor :: "('d, 'a) prog \<Rightarrow> ('d, 'a) prog" where
  [simp]: "yield_processor p = do_act Pause p"

primrec pause_loop :: "nat \<Rightarrow> ('d, unit) prog" where
  "pause_loop 0 = Return ()"
| "pause_loop (Suc count) = yield_processor (pause_loop count)"

definition spin_once :: "spin_wait \<Rightarrow> ('d, spin_wait) prog" where
  "spin_once s =
     bind
       (if next_spin_will_yield s
        then (let count = m_value s - 10
              in if count mod 20 = 19 then do_act (Sleep 1) (Return ()) else do_act Yield (Return ()))
        else pause_loop (unat (push_bit (unat (m_value s)) (4 :: 32 word))))
       (\<lambda>_. Return (s\<lparr>m_value := (if m_value s = 0xFFFFFFFF then 10 else m_value s + 1)\<rparr>))"

lemma waits_only_pause_loop [simp]: "waits_only (pause_loop n :: ('d, unit) prog) h h' \<longleftrightarrow> h = h'"
  by (induction n) (auto simp: do_act_def)

lemma waits_only_spin_once: "waits_only (spin_once s) h h"
  unfolding spin_once_def by (rule waits_only_bind [where hm = h]) (auto simp: do_act_def Let_def)

lemma returns_pause_loop: "returns (pause_loop n) l x \<longleftrightarrow> l = replicate n (Pause, RUnit)"
  by (induction n arbitrary: l) (auto simp: path_simps)

text \<open>What one call does, in each phase.\<close>

lemma returns_spin_once:
  "returns (spin_once s) l s' \<longleftrightarrow>
     s' = s\<lparr>m_value := (if m_value s = 0xFFFFFFFF then 10 else m_value s + 1)\<rparr> \<and>
     l = (if 10 \<le> m_value s
          then (if (m_value s - 10) mod 20 = 19 then [(Sleep 1, RUnit)] else [(Yield, RUnit)])
          else replicate (unat (push_bit (unat (m_value s)) (4 :: 32 word))) (Pause, RUnit))"
proof (cases "10 \<le> m_value s")
  case True
  then show ?thesis
    by (cases "(m_value s - 10) mod 20 = 19")
      (auto simp only: spin_once_def next_spin_will_yield_def if_True if_False Let_def simp_thms
        bind_do_act bind.simps ends_do_act ends_Return fits.simps append_Nil outcome.inject)
next
  case False
  then show ?thesis
    by (auto simp only: spin_once_def next_spin_will_yield_def if_False simp_thms
        returns_bind returns_pause_loop ends_Return append_Nil2 outcome.inject)
qed

lemma spin_once_no_fuel [simp]:
  "\<not> ends (pause_loop n) l Exhausted" "\<not> ends (pause_loop n) l Failed"
  by (induction n arbitrary: l) (auto simp: path_simps)

section \<open>The back-off\<close>

text \<open>\<open>n\<close> calls of \<open>spin_once\<close> on one spinner.\<close>

primrec spin_times :: "nat \<Rightarrow> spin_wait \<Rightarrow> ('d, spin_wait) prog" where
  "spin_times 0 s = Return s"
| "spin_times (Suc n) s = bind (spin_once s) (spin_times n)"

definition pauses :: "'d log \<Rightarrow> nat" where
  "pauses l = length (filter (\<lambda>e. fst e = Pause) l)"

lemma pauses_simps [simp]:
  "pauses [] = 0" "pauses (l @ l') = pauses l + pauses l'"
  "pauses (replicate n (Pause, r)) = n"
  "pauses ((c, r) # l) = (if c = Pause then 1 else 0) + pauses l"
  by (auto simp: pauses_def filter_replicate)

lemma spin_value_stays: "(v :: 32 word) \<noteq> 0xFFFFFFFF \<Longrightarrow> 10 \<le> v \<Longrightarrow> 10 \<le> v + 1"
  by (unat_arith, simp)

lemma spin_once_yields:
  assumes "returns (spin_once s) l s'" "10 \<le> m_value s"
  shows "10 \<le> m_value s'" and "pauses l = 0"
  using assms spin_value_stays by (auto simp: returns_spin_once split: if_splits)

lemma spin_times_yields:
  "returns (spin_times n s) l s' \<Longrightarrow> 10 \<le> m_value s \<Longrightarrow> 10 \<le> m_value s' \<and> pauses l = 0"
proof (induction n arbitrary: s l)
  case (Suc n)
  then obtain l1 l2 s1 where "l = l1 @ l2" "returns (spin_once s) l1 s1" "returns (spin_times n s1) l2 s'"
    by (auto simp: path_simps)
  with Suc.IH [of s1 l2] spin_once_yields [of s l1 s1] Suc.prems(2) show ?case by simp
qed (simp add: path_simps)

lemma unat_spin_pauses:
  assumes "(v :: 32 word) < 10"
  shows "unat (push_bit (unat v) (4 :: 32 word)) = 4 * 2 ^ unat v"
proof -
  have u: "unat v < 10" using assms by unat_arith
  have "(4 :: nat) * 2 ^ unat v \<le> 4 * 2 ^ 9" using u by (intro mult_left_mono power_increasing) auto
  then have "(4 :: nat) * 2 ^ unat v < 2 ^ 32" by simp
  moreover have "push_bit (unat v) (4 :: 32 word) = of_nat (4 * 2 ^ unat v)" by (simp add: push_bit_eq_mult)
  ultimately show ?thesis by (simp only: unat_of_nat) simp
qed

lemma unat_plus_1': "(v :: 32 word) < w \<Longrightarrow> unat (v + 1) = unat v + 1"
  by unat_arith

lemma spin_once_pauses:
  assumes "returns (spin_once s) l s'" "m_value s < 10"
  shows "unat (m_value s') = unat (m_value s) + 1" and "pauses l = 4 * 2 ^ unat (m_value s)"
proof -
  have l: "m_value s \<noteq> 0xFFFFFFFF" "\<not> 10 \<le> m_value s" using assms(2) by auto
  show "unat (m_value s') = unat (m_value s) + 1"
    using assms l unat_plus_1' [OF assms(2)] by (simp add: returns_spin_once)
  show "pauses l = 4 * 2 ^ unat (m_value s)"
    using assms l by (simp add: returns_spin_once unat_spin_pauses)
qed

lemma spin_times_pauses:
  assumes "returns (spin_times n s) l s'" "unat (m_value s) \<le> 10"
  shows "pauses l + 4 * 2 ^ unat (m_value s) = 4 * 2 ^ min 10 (unat (m_value s) + n) \<and>
    min 10 (unat (m_value s')) = min 10 (unat (m_value s) + n)"
  using assms
proof (induction n arbitrary: s l)
  case 0
  then show ?case by (simp add: path_simps)
next
  case (Suc n)
  then obtain l1 l2 s1 where l: "l = l1 @ l2" and s1: "returns (spin_once s) l1 s1"
    and r: "returns (spin_times n s1) l2 s'" by (auto simp: path_simps)
  show ?case
  proof (cases "m_value s < 10")
    case True
    note step = spin_once_pauses [OF s1 True]
    have "unat (m_value s) < 10" using True by unat_arith
    then show ?thesis using Suc.IH [OF r] step l by simp
  next
    case False
    then have v: "unat (m_value s) = 10" using Suc.prems(2) by unat_arith
    have ge: "10 \<le> m_value s" using False by simp
    have s': "10 \<le> m_value s'" "pauses l = 0"
      using spin_once_yields [OF s1 ge] spin_times_yields [OF r] l by simp_all
    from s'(1) have "10 \<le> unat (m_value s')" by unat_arith
    with s'(2) v show ?thesis by simp
  qed
qed

text \<open>
  The counter of a spinner after a number of calls: it counts up to the largest 32-bit number and
  then starts over at ten.  A call at counter \<open>i\<close> pauses \<open>4 * 2 ^ i\<close> times below ten; from
  ten on it yields, every twentieth time it sleeps.
\<close>

definition spin_counter :: "nat \<Rightarrow> nat" where
  "spin_counter i = (if i < 10 then i else 10 + (i - 10) mod (2 ^ 32 - 10))"

definition back_off :: "nat \<Rightarrow> 'd log" where
  "back_off i =
     (if i < 10 then replicate (4 * 2 ^ i) (Pause, RUnit)
      else if (i - 10) mod (2 ^ 32 - 10) mod 20 = 19 then [(Sleep 1, RUnit)] else [(Yield, RUnit)])"

lemma spin_counter_Suc:
  "spin_counter (Suc i) = (if spin_counter i = 4294967295 then 10 else spin_counter i + 1)"
proof (cases "i < 10")
  case True
  then show ?thesis by (cases "i = 9") (auto simp: spin_counter_def)
next
  case False
  then have "Suc i - 10 = Suc (i - 10)" by simp
  with False show ?thesis by (simp add: spin_counter_def mod_Suc)
qed

lemma unat_eq_max: "(v :: 32 word) = 0xFFFFFFFF \<longleftrightarrow> unat v = 4294967295"
  by (auto simp: word_unat_eq_iff)

lemma unat_spin_step:
  "unat (if v = 0xFFFFFFFF then 10 else v + 1 :: 32 word) =
     (if unat v = 4294967295 then 10 else unat v + 1)"
proof (cases "v = 0xFFFFFFFF")
  case False
  then have "unat v \<noteq> 4294967295" by (simp only: unat_eq_max not_False_eq_True)
  then have "v < 0xFFFFFFFF" using unsigned_less [of v, where 'a = nat] by (simp add: word_less_nat_alt)
  then have "unat (v + 1) = unat v + 1" by (rule unat_plus_1')
  moreover have "unat v \<noteq> 4294967295" using False by (simp only: unat_eq_max not_False_eq_True)
  ultimately show ?thesis using False by simp
qed simp

lemma unat_eq_19: "(v :: 32 word) = 19 \<longleftrightarrow> unat v = 19"
  by (auto simp: word_unat_eq_iff)

lemma spin_once_back_off:
  assumes "returns (spin_once s) l s'" and "unat (m_value s) = spin_counter i"
  shows "l = back_off i \<and> unat (m_value s') = spin_counter (Suc i)"
proof -
  have ten: "10 \<le> m_value s \<longleftrightarrow> 10 \<le> i" and small: "m_value s < 10 \<Longrightarrow> unat (m_value s) = i"
    using assms(2) by (auto simp: spin_counter_def word_le_nat_alt word_less_nat_alt split: if_splits)
  have "unat ((m_value s - 10) mod 20) = (i - 10) mod (2 ^ 32 - 10) mod 20" if "10 \<le> i"
    using that ten assms(2) by (simp add: unat_mod unat_sub spin_counter_def)
  then have "(m_value s - 10) mod 20 = 19 \<longleftrightarrow> (i - 10) mod (2 ^ 32 - 10) mod 20 = 19" if "10 \<le> i"
    using that by (simp only: unat_eq_19)
  then have "l = back_off i"
    using assms(1) ten small by (auto simp: returns_spin_once back_off_def unat_spin_pauses not_le)
  moreover have "unat (m_value s') = spin_counter (Suc i)"
    using assms by (simp add: returns_spin_once spin_counter_Suc unat_spin_step del: unat_plus_simple)
  ultimately show ?thesis by blast
qed

lemma spin_times_back_off:
  "returns (spin_times n s) l s' \<Longrightarrow> unat (m_value s) = spin_counter i \<Longrightarrow>
    l = concat (map back_off [i..<i + n]) \<and> unat (m_value s') = spin_counter (i + n)"
proof (induction n arbitrary: s l i)
  case 0
  then show ?case by (simp add: path_simps)
next
  case (Suc n)
  then obtain l1 l2 s1 where l: "l = l1 @ l2" and s1: "returns (spin_once s) l1 s1"
    and r: "returns (spin_times n s1) l2 s'" by (auto simp: path_simps)
  note step = spin_once_back_off [OF s1 Suc.prems(2)]
  have "[i..<i + Suc n] = i # [Suc i..<Suc i + n]" by (subst upt_conv_Cons) simp_all
  then show ?case using step Suc.IH [OF r conjunct2 [OF step]] by (simp add: l del: upt_Suc)
qed

text \<open>
  C22.  The back-off of a fresh spinner: \<open>n\<close> calls do exactly this.  Its first ten calls busy-wait
  4, 8, 16, ..., 2048 pauses, 4092 in total; on a single core it starts past them.  From then on
  every call gives up the processor once: it yields, or sleeps for a millisecond every twentieth
  time (the count starts over when the 32-bit counter of the calls overflows).  \<open>next_spin_will_yield\<close>
  says whether the next call will do so.
\<close>

theorem spin_wait_back_off:
  assumes "returns (bind new_spin_wait (spin_times n)) ((Hardware_Concurrency, RNat h) # l) s"
  shows "l = concat (map back_off [(if 1 < h then 0 else 10)..<(if 1 < h then 0 else 10) + n]) \<and>
    pauses l = (if 1 < h then 4 * (2 ^ min 10 n - 1) else 0) \<and>
    (next_spin_will_yield s \<longleftrightarrow> 10 \<le> n \<or> h \<le> 1)"
proof -
  define s0 where "s0 = \<lparr>m_value = (if h > 1 then 0 else 10)\<rparr>"
  obtain l1 l2 s1 where a: "(Hardware_Concurrency, RNat h) # l = l1 @ l2"
    "returns new_spin_wait l1 s1" "returns (spin_times n s1) l2 s"
    using assms unfolding returns_bind by blast
  from a(1,2) have "s1 = s0" "l2 = l"
    by (auto simp: new_spin_wait_def spin_reset_def path_simps s0_def)
  with a(3) have r: "returns (spin_times n s0) l s" by simp
  have u: "unat (m_value s0) = (if h > 1 then 0 else 10)" by (simp add: s0_def)
  have p: "pauses l + 4 * 2 ^ unat (m_value s0) = 4 * 2 ^ min 10 (unat (m_value s0) + n)"
    "min 10 (unat (m_value s)) = min 10 (unat (m_value s0) + n)"
    using spin_times_pauses [OF r] u by auto
  have "l = concat (map back_off [(if 1 < h then 0 else 10)..<(if 1 < h then 0 else 10) + n])"
    using spin_times_back_off [OF r, of "if 1 < h then 0 else 10"] u by (simp add: spin_counter_def)
  moreover have "pauses l = (if 1 < h then 4 * (2 ^ min 10 n - 1) else 0)"
    using p(1) u by (simp add: diff_mult_distrib2 split: if_splits)
  moreover have "next_spin_will_yield s \<longleftrightarrow> 10 \<le> unat (m_value s)"
    unfolding next_spin_will_yield_def by unat_arith
  ultimately show ?thesis using p(2) u by (auto simp: min_def split: if_splits)
qed

text \<open>Two calls on a single core, where both yield.\<close>

lemma spin_wait_back_off_witness:
  "returns (bind new_spin_wait (spin_times 2)) [(Hardware_Concurrency, RNat 1), (Yield, RUnit), (Yield, RUnit) :: unit act \<times> unit resp]
     \<lparr>m_value = 12\<rparr> \<and>
   concat (map back_off [10..<12]) = [(Yield, RUnit), (Yield, RUnit) :: unit act \<times> unit resp]"
proof -
  have "returns new_spin_wait [(Hardware_Concurrency, RNat 1) :: unit act \<times> unit resp] \<lparr>m_value = 10\<rparr>"
    by (simp add: new_spin_wait_def spin_reset_def path_simps)
  moreover have "returns (spin_times (Suc (Suc 0)) \<lparr>m_value = 10\<rparr>)
      [(Yield, RUnit), (Yield, RUnit) :: unit act \<times> unit resp] \<lparr>m_value = 12\<rparr>"
    by (simp add: path_simps returns_spin_once)
  then have "returns (spin_times 2 \<lparr>m_value = 10\<rparr>) [(Yield, RUnit), (Yield, RUnit) :: unit act \<times> unit resp] \<lparr>m_value = 12\<rparr>"
    unfolding numeral_2_eq_2 .
  ultimately have r: "returns (bind new_spin_wait (spin_times 2)) ([(Hardware_Concurrency, RNat 1)] @
      [(Yield, RUnit), (Yield, RUnit) :: unit act \<times> unit resp]) \<lparr>m_value = 12\<rparr>"
    unfolding returns_bind by blast
  from spin_wait_back_off [OF this [unfolded append_Cons append_Nil]] r show ?thesis by simp
qed

end
