(* ===== verification/Spin_Wait_Strategy.thy ===== *)
theory Spin_Wait_Strategy
  imports Wait_Strategy Spin_Wait
begin

text \<open>
  spin_wait_strategy.hpp: waiting by reading the sequences over and over, with the
  back-off of spin_wait between two rounds.
\<close>

section \<open>The operations\<close>

primrec spin_until_published ::
    "nat \<Rightarrow> sequence_t \<Rightarrow> addr list \<Rightarrow> spin_wait \<Rightarrow> sequence_t \<Rightarrow> ('d, sequence_t) prog" where
  "spin_until_published 0 sequence sequences spinner result =
     (if difference result sequence < 0 then Out_Of_Fuel else Return result)"
| "spin_until_published (Suc n) sequence sequences spinner result =
     (if difference result sequence < 0
      then bind (spin_once spinner) (\<lambda>spinner'.
           bind (minimum_sequence_after sequence sequences) (\<lambda>result'.
             spin_until_published n sequence sequences spinner' result'))
      else Return result)"

definition spin_wait_until_published ::
    "nat \<Rightarrow> sequence_t \<Rightarrow> addr list \<Rightarrow> ('d, sequence_t) prog" where
  "spin_wait_until_published n sequence sequences =
     assert (0 < length sequences)
       (bind new_spin_wait (\<lambda>spinner.
        bind (minimum_sequence_after sequence sequences) (\<lambda>result.
          spin_until_published n sequence sequences spinner result)))"

text \<open>
  The loop with a deadline.  \<open>timeoutTime < Clock::now()\<close> is evaluated only when the next
  round would yield, as \<open>&&\<close> does.
\<close>

primrec spin_until_published_or ::
    "nat \<Rightarrow> sequence_t \<Rightarrow> addr list \<Rightarrow> nat \<Rightarrow> spin_wait \<Rightarrow> sequence_t \<Rightarrow> ('d, sequence_t) prog" where
  "spin_until_published_or 0 sequence sequences timeoutTime spinner result =
     (if difference result sequence < 0 then Out_Of_Fuel else Return result)"
| "spin_until_published_or (Suc n) sequence sequences timeoutTime spinner result =
     (if difference result sequence < 0
      then (let continue = bind (spin_once spinner) (\<lambda>spinner'.
                 bind (minimum_sequence_after sequence sequences) (\<lambda>result'.
                   spin_until_published_or n sequence sequences timeoutTime spinner' result'))
            in if next_spin_will_yield spinner
               then now (\<lambda>time. if timeoutTime < time then Return result else continue)
               else continue)
      else Return result)"

definition spin_wait_until_published_until ::
    "nat \<Rightarrow> sequence_t \<Rightarrow> addr list \<Rightarrow> nat \<Rightarrow> ('d, sequence_t) prog" where
  "spin_wait_until_published_until n sequence sequences timeoutTime =
     assert (0 < length sequences)
       (bind new_spin_wait (\<lambda>spinner.
        bind (minimum_sequence_after sequence sequences) (\<lambda>result.
          spin_until_published_or n sequence sequences timeoutTime spinner result)))"

definition spin_wait_until_published_for ::
    "nat \<Rightarrow> sequence_t \<Rightarrow> addr list \<Rightarrow> nat \<Rightarrow> ('d, sequence_t) prog" where
  "spin_wait_until_published_for n sequence sequences timeout =
     now (\<lambda>time. spin_wait_until_published_until n sequence sequences (time + timeout))"

definition spin_signal_all_when_blocking :: "('d, unit) prog" where
  "spin_signal_all_when_blocking = Return ()"

definition spin_wait_strategy :: "nat \<Rightarrow> 'd wait_strategy" where
  "spin_wait_strategy object =
     \<lparr>ws_object = object,
      ws_wait_until_published = spin_wait_until_published,
      ws_wait_until_published_for = Some spin_wait_until_published_for,
      ws_wait_until_published_until = Some spin_wait_until_published_until,
      ws_signal_all_when_blocking = spin_signal_all_when_blocking\<rparr>"

section \<open>The contract\<close>

lemma returns_spin_until_published:
  "returns (spin_until_published n m as sp r0) l r \<Longrightarrow> saw as m r0 l0 \<Longrightarrow> saw_all as m r (l0 @ l)"
proof (induction n arbitrary: sp r0 l l0)
  case 0
  then show ?case by (auto simp: path_simps saw_all_iff split: if_splits)
next
  case (Suc n)
  show ?case
  proof (cases "difference r0 m < 0")
    case True
    with Suc.prems(1) obtain l1 l2 l3 sp' r1 where l: "l = l1 @ l2 @ l3"
      and r1: "returns (minimum_sequence_after m as) l2 r1"
      and r: "returns (spin_until_published n m as sp' r1) l3 r"
      by (auto simp: path_simps)
    have "saw as m r1 (l0 @ l1 @ l2)"
      using minimum_sequence_after_saw [OF r1] by (rule saw_mono) auto
    from Suc.IH [OF r this] l show ?thesis by simp
  next
    case False
    with Suc.prems show ?thesis by (auto simp: path_simps saw_all_iff)
  qed
qed

lemma returns_spin_until_published_or:
  "returns (spin_until_published_or n m as d sp r0) l r \<Longrightarrow> saw as m r0 l0 \<Longrightarrow> saw as m r (l0 @ l)"
proof (induction n arbitrary: sp r0 l l0)
  case 0
  then show ?case by (auto simp: path_simps split: if_splits)
next
  case (Suc n)
  have stop: "saw as m r0 (l0 @ l')" for l'
    using Suc.prems(2) by (rule saw_mono) auto
  have again: "saw as m r (l0 @ lp @ l')"
    if "returns (bind (spin_once sp) (\<lambda>sp'. bind (minimum_sequence_after m as)
          (\<lambda>r1. spin_until_published_or n m as d sp' r1))) l' r" for lp l'
  proof -
    from that obtain l1 l2 l3 sp' r1 where l': "l' = l1 @ l2 @ l3"
      and r1: "returns (minimum_sequence_after m as) l2 r1"
      and r: "returns (spin_until_published_or n m as d sp' r1) l3 r"
      by (auto simp: path_simps)
    have "saw as m r1 (l0 @ lp @ l1 @ l2)"
      using minimum_sequence_after_saw [OF r1] by (rule saw_mono) auto
    from Suc.IH [OF r this] l' show ?thesis by simp
  qed
  show ?case
  proof (cases "difference r0 m < 0 \<and> next_spin_will_yield sp")
    case True
    with Suc.prems(1) obtain t l' where "l = (Now, RNat t) # l'"
      and "returns (if d < t then Return r0 else bind (spin_once sp) (\<lambda>sp'.
          bind (minimum_sequence_after m as) (\<lambda>r1. spin_until_published_or n m as d sp' r1))) l' r"
      by (auto simp: ends_now Let_def)
    then show ?thesis
      using stop [of l] again [of l' "[(Now, RNat t)]"] by (auto simp: ends_Return split: if_splits)
  next
    case False
    with Suc.prems(1) show ?thesis
      using stop [of l] again [of l "[]"] by (auto simp: ends_Return split: if_splits)
  qed
qed

lemmas spin_wait_defs = spin_wait_until_published_def spin_wait_until_published_until_def
  spin_wait_until_published_for_def

lemma returns_spin_wait_until_published:
  assumes "returns (spin_wait_until_published n m as) l r"
  shows "saw_all as m r l"
proof -
  from assms obtain l1 l2 l3 sp r1 where l: "l = l1 @ l2 @ l3"
    and r1: "returns (minimum_sequence_after m as) l2 r1"
    and r: "returns (spin_until_published n m as sp r1) l3 r"
    by (auto simp: spin_wait_defs path_simps split: if_splits)
  have "saw as m r1 (l1 @ l2)"
    using minimum_sequence_after_saw [OF r1] by (rule saw_mono) auto
  from returns_spin_until_published [OF r this] l show ?thesis by simp
qed

lemma returns_spin_wait_until_published_until:
  assumes "returns (spin_wait_until_published_until n m as d) l r"
  shows "saw as m r l"
proof -
  from assms obtain l1 l2 l3 sp r1 where l: "l = l1 @ l2 @ l3"
    and r1: "returns (minimum_sequence_after m as) l2 r1"
    and r: "returns (spin_until_published_or n m as d sp r1) l3 r"
    by (auto simp: spin_wait_defs path_simps split: if_splits)
  have "saw as m r1 (l1 @ l2)"
    using minimum_sequence_after_saw [OF r1] by (rule saw_mono) auto
  from returns_spin_until_published_or [OF r this] l show ?thesis by simp
qed

lemma returns_spin_wait_until_published_for:
  assumes "returns (spin_wait_until_published_for n m as d) l r"
  shows "saw as m r l"
proof -
  from assms obtain t l' where l: "l = (Now, RNat t) # l'"
    and "returns (spin_wait_until_published_until n m as (t + d)) l' r"
    by (auto simp: spin_wait_until_published_for_def path_simps)
  then have "saw as m r l'" by (intro returns_spin_wait_until_published_until)
  then show ?thesis using l by (auto elim: saw_mono)
qed

lemma waits_only_new_spin_wait: "waits_only new_spin_wait h h"
  by (simp add: new_spin_wait_def spin_reset_def hardware_concurrency_def)

lemma waits_only_spin_until_published:
  "as \<noteq> [] \<Longrightarrow> waits_only (spin_until_published n m as sp r) h h"
  by (induction n arbitrary: sp r)
    (auto intro!: waits_only_bind [where hm = h] waits_only_spin_once waits_only_minimum_sequence_after)

lemma waits_only_spin_until_published_or:
  "as \<noteq> [] \<Longrightarrow> waits_only (spin_until_published_or n m as d sp r) h h"
  by (induction n arbitrary: sp r)
    (auto simp: Let_def now_def
      intro!: waits_only_bind [where hm = h] waits_only_spin_once waits_only_minimum_sequence_after)

lemmas waits_only_spin = waits_only_bind [where hm = "{}"] waits_only_new_spin_wait
  waits_only_minimum_sequence_after waits_only_spin_until_published waits_only_spin_until_published_or

lemma waits_only_spin_waits:
  assumes "as \<noteq> []"
  shows "waits_only (spin_wait_until_published n m as) {} {}"
    and "waits_only (spin_wait_until_published_until n m as d) {} {}"
    and "waits_only (spin_wait_until_published_for n m as d) {} {}"
  using assms by (auto simp: spin_wait_defs now_def assert_def intro!: waits_only_spin)

lemmas spin_wait_strategy_select = wait_strategy.select_convs spin_wait_strategy_def
  spin_signal_all_when_blocking_def

text \<open>A wait with a deadline gives up only after it has read a later time from the clock.\<close>

lemma spin_until_published_or_deadline:
  fixes l :: "'d log"
  shows "returns (spin_until_published_or n m as d sp r0) l r \<Longrightarrow> difference r m < 0 \<Longrightarrow> deadline_passed d l"
proof (induction n arbitrary: sp r0 l)
  case 0
  then show ?case by (auto simp: path_simps split: if_splits)
next
  case (Suc n)
  have again: "deadline_passed d (lp @ l')"
    if "returns (bind (spin_once sp) (\<lambda>sp'. bind (minimum_sequence_after m as)
          (\<lambda>r1. spin_until_published_or n m as d sp' r1))) l' r" for lp l' :: "'d log"
  proof -
    from that obtain l1 l2 l3 sp' r1 where l': "l' = l1 @ l2 @ l3"
      and r: "returns (spin_until_published_or n m as d sp' r1) l3 r"
      by (auto simp: returns_bind)
    from Suc.IH [OF r Suc.prems(2)] l' show ?thesis by (auto elim: deadline_passed_mono)
  qed
  show ?case
  proof (cases "difference r0 m < 0 \<and> next_spin_will_yield sp")
    case True
    with Suc.prems(1) obtain t l' where l: "l = (Now, RNat t) # l'"
      and r: "returns (if d < t then Return r0 else bind (spin_once sp) (\<lambda>sp'.
          bind (minimum_sequence_after m as) (\<lambda>r1. spin_until_published_or n m as d sp' r1))) l' r"
      by (auto simp: ends_now Let_def)
    show ?thesis
    proof (cases "d < t")
      case True
      then show ?thesis by (auto simp: l deadline_passed_def)
    next
      case False
      with r again [of l' "[(Now, RNat t)]"] show ?thesis by (simp add: l)
    qed
  next
    case False
    with Suc.prems show ?thesis using again [of l "[]"] by (auto simp: ends_Return split: if_splits)
  qed
qed

lemma spin_wait_until_deadline:
  assumes "returns (spin_wait_until_published_until n m as d) l r" and "difference r m < 0"
  shows "deadline_passed d l"
proof -
  from assms(1) obtain l1 l2 l3 sp r1 where "l = l1 @ l2 @ l3"
    "returns (spin_until_published_or n m as d sp r1) l3 r"
    by (auto simp: spin_wait_defs path_simps split: if_splits)
  then show ?thesis
    using assms(2) by (auto dest!: spin_until_published_or_deadline elim: deadline_passed_mono)
qed

lemma spin_wait_for_deadline:
  assumes "returns (spin_wait_until_published_for n m as d) l r" and "difference r m < 0"
  shows "\<exists>t. (Now, RNat t) \<in> set l \<and> deadline_passed (t + d) l"
proof -
  from assms(1) obtain t l' where l: "l = (Now, RNat t) # l'"
    and "returns (spin_wait_until_published_until n m as (t + d)) l' r"
    by (auto simp: spin_wait_until_published_for_def path_simps)
  then have "deadline_passed (t + d) l'" using assms(2) by (intro spin_wait_until_deadline)
  then have "deadline_passed (t + d) l" by (rule deadline_passed_mono) (auto simp: l)
  then show ?thesis using l by auto
qed

interpretation spin: timed_wait_strategy_model "spin_wait_strategy object" for object
  by unfold_locales
    (auto simp: spin_wait_strategy_select compiles_timed_waits_def waits_only_spin_waits
      returns_spin_wait_until_published returns_spin_wait_until_published_until
      returns_spin_wait_until_published_for spin_wait_until_deadline spin_wait_for_deadline)

section \<open>Termination\<close>

text \<open>The accesses of a spinning wait: none of them can block, and none changes an atomic.\<close>

fun spinning_act :: "'d act \<Rightarrow> bool" where
  "spinning_act (Load ord a) \<longleftrightarrow> True"
| "spinning_act Now \<longleftrightarrow> True"
| "spinning_act Hardware_Concurrency \<longleftrightarrow> True"
| "spinning_act Pause \<longleftrightarrow> True"
| "spinning_act Yield \<longleftrightarrow> True"
| "spinning_act (Sleep ms) \<longleftrightarrow> True"
| "spinning_act c \<longleftrightarrow> False"

primrec spins_only :: "('d, 'a) prog \<Rightarrow> bool" where
  "spins_only (Return x) \<longleftrightarrow> True"
| "spins_only (Act c k) \<longleftrightarrow> spinning_act c \<and> (\<forall>r. spins_only (k r))"
| "spins_only Assert_Failed \<longleftrightarrow> False"
| "spins_only Out_Of_Fuel \<longleftrightarrow> False"

lemma exec_spinning_act: "spinning_act c \<Longrightarrow> \<exists>r \<sigma>'. exec t n c \<sigma> = Some (r, \<sigma>') \<and> mem \<sigma>' = mem \<sigma>"
  by (cases c) auto

lemma run_spins_only:
  assumes "published_from m as w T" "spins_only p" "T < i \<longrightarrow> all_published m as \<sigma>"
    "run t w p i \<sigma> = (out, \<sigma>', l)"
  shows "(\<exists>x. out = Returned x) \<and> (T < i + length l \<longrightarrow> all_published m as \<sigma>')"
  using assms(2-)
proof (induction p arbitrary: i \<sigma> l)
  case (Act c k)
  then obtain r \<sigma>1 where e: "exec t (snd (w i)) c (fst (w i) \<sigma>) = Some (r, \<sigma>1)"
    and m: "mem \<sigma>1 = mem (fst (w i) \<sigma>)" using exec_spinning_act by (metis spins_only.simps(2))
  obtain out2 \<sigma>2 l2 where r: "run t w (k r) (Suc i) \<sigma>1 = (out2, \<sigma>2, l2)"
    by (cases "run t w (k r) (Suc i) \<sigma>1") auto
  have o: "out2 = out" "\<sigma>2 = \<sigma>'" "l = (c, r) # l2" using Act.prems(3) e r by auto
  note r = r [unfolded o]
  have "T < Suc i \<longrightarrow> all_published m as \<sigma>1"
    using published_fromD [OF assms(1), of i \<sigma>] Act.prems(2) m by (auto simp: all_published_def)
  with Act.IH [OF rangeI _ _ r] Act.prems(1) show ?case by (simp add: o)
qed auto

lemma spins_only_bind: "spins_only p \<Longrightarrow> (\<And>x. spins_only (f x)) \<Longrightarrow> spins_only (bind p f)"
  by (induction p) auto

lemma spins_only_spin_once: "spins_only (spin_once s)"
proof -
  have "spins_only (pause_loop n :: ('d, unit) prog)" for n by (induction n) (auto simp: do_act_def)
  then show ?thesis
    unfolding spin_once_def by (intro spins_only_bind) (auto simp: do_act_def Let_def)
qed

lemma spins_only_minimum_sequence_after: "as \<noteq> [] \<Longrightarrow> spins_only (minimum_sequence_after m as)"
proof -
  have "spins_only (minimum_sequence_after_loop m as d :: ('d, sequence_t) prog)" for as d
    by (induction as arbitrary: d) (auto simp: load_def)
  then show "as \<noteq> [] \<Longrightarrow> ?thesis" by (auto simp: minimum_sequence_after_def load_def split: list.split)
qed

lemma run_spin_once:
  assumes "published_from m as w T" "T < i \<longrightarrow> all_published m as \<sigma>"
  obtains s' \<sigma>' l where "run t w (spin_once s) i \<sigma> = (Returned s', \<sigma>', l)" "l \<noteq> []"
    "T < i + length l \<longrightarrow> all_published m as \<sigma>'"
proof -
  obtain out \<sigma>' l where r: "run t w (spin_once s) i \<sigma> = (out, \<sigma>', l)"
    by (cases "run t w (spin_once s) i \<sigma>")
  note safe = run_spins_only [OF assms(1) spins_only_spin_once assms(2) r]
  then obtain s' where out: "out = Returned s'" by blast
  then have "returns (spin_once s) l s'" using run_ends [OF r] by blast
  then have "l \<noteq> []"
    using unat_spin_pauses [of "m_value s"] by (auto simp: returns_spin_once not_le split: if_splits)
  then show thesis using that r out safe by blast
qed

lemma run_minimum_sequence_after:
  assumes "published_from m as w T" "as \<noteq> []" "T < i \<longrightarrow> all_published m as \<sigma>"
  obtains r \<sigma>' l where "run t w (minimum_sequence_after m as) i \<sigma> = (Returned r, \<sigma>', l)" "l \<noteq> []"
    "T < i + length l \<longrightarrow> all_published m as \<sigma>'" "T \<le> i \<longrightarrow> 0 \<le> difference r m"
proof -
  obtain out \<sigma>' l where r: "run t w (minimum_sequence_after m as) i \<sigma> = (out, \<sigma>', l)"
    by (cases "run t w (minimum_sequence_after m as) i \<sigma>")
  note safe = run_spins_only [OF assms(1) spins_only_minimum_sequence_after [OF assms(2)] assms(3) r]
  then obtain x where out: "out = Returned x" by blast
  then have "returns (minimum_sequence_after m as) l x" using run_ends [OF r] by blast
  then have "l \<noteq> []" by (rule returns_minimum_sequence_after) (use assms(2) in \<open>auto simp: neq_Nil_conv\<close>)
  moreover have "T \<le> i \<longrightarrow> 0 \<le> difference x m"
    using run_minimum_sequence_after_published [OF assms(1,2) _ assms(3), of t] r out by auto
  ultimately show thesis using that r out safe by blast
qed

lemma run_spin_until_published:
  assumes "published_from m as w T" "as \<noteq> []" "T < i \<longrightarrow> all_published m as \<sigma>" "T \<le> i + n"
  shows "\<exists>x. fst (run t w (spin_until_published (Suc n) m as s r) i \<sigma>) = Returned x"
  using assms(3,4)
proof (induction n arbitrary: i \<sigma> s r)
  case 0
  obtain s' \<sigma>1 l1 where 1: "run t w (spin_once s) i \<sigma> = (Returned s', \<sigma>1, l1)" "l1 \<noteq> []"
    "T < i + length l1 \<longrightarrow> all_published m as \<sigma>1" using run_spin_once [OF assms(1) 0(1)] .
  obtain v \<sigma>2 l2 where 2: "run t w (minimum_sequence_after m as) (i + length l1) \<sigma>1 = (Returned v, \<sigma>2, l2)"
    "T \<le> i + length l1 \<longrightarrow> 0 \<le> difference v m" using run_minimum_sequence_after [OF assms(1,2) 1(3)] .
  show ?case using 0(2) 2(2) by (simp add: run_bind [OF 1(1)] run_bind [OF 2(1)])
next
  case (Suc n)
  obtain s' \<sigma>1 l1 where 1: "run t w (spin_once s) i \<sigma> = (Returned s', \<sigma>1, l1)" "l1 \<noteq> []"
    "T < i + length l1 \<longrightarrow> all_published m as \<sigma>1" using run_spin_once [OF assms(1) Suc.prems(1)] .
  obtain v \<sigma>2 l2 where 2: "run t w (minimum_sequence_after m as) (i + length l1) \<sigma>1 = (Returned v, \<sigma>2, l2)"
    "l2 \<noteq> []" "T < i + length l1 + length l2 \<longrightarrow> all_published m as \<sigma>2"
    using run_minimum_sequence_after [OF assms(1,2) 1(3)] .
  have "T \<le> i + length l1 + length l2 + n"
    using Suc.prems(2) 1(2) by (cases l1) auto
  with Suc.IH [OF 2(3), of s' v] show ?case
    by (subst spin_until_published.simps)
      (simp add: run_bind [OF 1(1)] run_bind [OF 2(1)] split_beta del: spin_until_published.simps)
qed

lemma run_spin_wait_until_published:
  assumes "published_from m as w T" "as \<noteq> []" "T \<le> n"
  shows "\<exists>r. fst (run t w (spin_wait_until_published (Suc n) m as) 0 \<sigma>) = Returned r"
proof -
  have s0: "\<exists>sp \<sigma>1. run t w new_spin_wait 0 \<sigma> = (Returned sp, \<sigma>1, [(Hardware_Concurrency, RNat (cores (fst (w 0) \<sigma>)))])
      \<and> mem \<sigma>1 = mem (fst (w 0) \<sigma>)"
    by (simp add: new_spin_wait_def spin_reset_def prog_defs)
  then obtain sp \<sigma>1 where sp: "run t w new_spin_wait 0 \<sigma> =
      (Returned sp, \<sigma>1, [(Hardware_Concurrency, RNat (cores (fst (w 0) \<sigma>)))])"
    and m: "mem \<sigma>1 = mem (fst (w 0) \<sigma>)" by blast
  have p1: "T < 1 \<longrightarrow> all_published m as \<sigma>1"
    using published_fromD [OF assms(1), of 0 \<sigma>] m by (auto simp: all_published_def)
  obtain r \<sigma>2 l2 where 2: "run t w (minimum_sequence_after m as) 1 \<sigma>1 = (Returned r, \<sigma>2, l2)"
    "T < 1 + length l2 \<longrightarrow> all_published m as \<sigma>2"
    using run_minimum_sequence_after [OF assms(1,2) p1] .
  have "\<exists>x. fst (run t w (spin_until_published (Suc n) m as sp r) (1 + length l2) \<sigma>2) = Returned x"
    using assms(1,2) 2(2) by (rule run_spin_until_published) (use assms(3) in simp)
  then show ?thesis
    using assms(2) 2(1) by (simp add: spin_wait_until_published_def assert_def run_bind [OF sp]
        run_bind [OF 2(1) [unfolded One_nat_def]] split_beta del: spin_until_published.simps)
qed

end
