(* ===== verification/Blocking_Wait_Strategy.thy ===== *)
theory Blocking_Wait_Strategy
  imports Wait_Strategy
begin

text \<open>
  blocking_wait_strategy.hpp: waiting on a condition variable.  The mutex and the
  condition variable of a strategy object carry the number of the object.  The call of
  \<open>std::condition_variable\<close> with a predicate is the loop that the C++ standard gives for it:
  \<open>wait(lock, pred)\<close> is \<open>while (!pred()) wait(lock);\<close>, where a wait is the atomic release of
  the mutex and the entry into the set of waiting threads (\<open>Cv_Block\<close>), then the wake-up that
  takes the mutex again (\<open>Cv_Wake\<close>).  The predicate stores the minimum it has read in
  \<open>result\<close>.

  The two waits with a limit have no model, because the source has no program for them: their
  bodies call \<open>m_cv.wait_for(lock, pred, timeout)\<close> and \<open>m_cv.wait_until(lock, pred,
  timeoutTime)\<close>, and \<open>std::condition_variable\<close> takes the time before the predicate.  Being
  member templates they are compiled only when called, and nothing in the repository calls
  them; the strategy has \<open>None\<close> for both.
\<close>

primrec cv_wait :: "nat \<Rightarrow> nat \<Rightarrow> sequence_t \<Rightarrow> addr list \<Rightarrow> ('d, sequence_t) prog" where
  "cv_wait m 0 sequence sequences =
     bind (minimum_sequence_after sequence sequences) (\<lambda>result.
       if 0 \<le> difference result sequence then Return result else Out_Of_Fuel)"
| "cv_wait m (Suc n) sequence sequences =
     bind (minimum_sequence_after sequence sequences) (\<lambda>result.
       if 0 \<le> difference result sequence then Return result
       else do_act (Cv_Block m) (do_act (Cv_Wake m) (cv_wait m n sequence sequences)))"

definition blocking_wait_until_published ::
    "nat \<Rightarrow> nat \<Rightarrow> sequence_t \<Rightarrow> addr list \<Rightarrow> ('d, sequence_t) prog" where
  "blocking_wait_until_published m n sequence sequences =
     assert (0 < length sequences)
       (do_act (Lock m)
         (bind (cv_wait m n sequence sequences) (\<lambda>result.
           do_act (Unlock m) (Return result))))"

definition blocking_signal_all_when_blocking :: "nat \<Rightarrow> ('d, unit) prog" where
  "blocking_signal_all_when_blocking m =
     do_act (Lock m) (do_act (Notify_All m) (do_act (Unlock m) (Return ())))"

definition blocking_wait_strategy :: "nat \<Rightarrow> 'd wait_strategy" where
  "blocking_wait_strategy object =
     \<lparr>ws_object = object,
      ws_wait_until_published = blocking_wait_until_published object,
      ws_wait_until_published_for = None,
      ws_wait_until_published_until = None,
      ws_signal_all_when_blocking = blocking_signal_all_when_blocking object\<rparr>"

section \<open>The contract\<close>

lemma returns_cv_wait: "returns (cv_wait m n s as) l r \<Longrightarrow> saw_all as s r l"
proof (induction n arbitrary: l)
  case 0
  then show ?case
    by (auto simp: path_simps saw_all_iff dest!: minimum_sequence_after_saw split: if_splits)
next
  case (Suc n)
  then obtain l1 l2 r1 where l: "l = l1 @ l2" and r1: "returns (minimum_sequence_after s as) l1 r1"
    and r: "returns (if 0 \<le> difference r1 s then Return r1
       else do_act (Cv_Block m) (do_act (Cv_Wake m) (cv_wait m n s as))) l2 r"
    by (auto simp: returns_bind)
  show ?case
  proof (cases "0 \<le> difference r1 s")
    case True
    with r l minimum_sequence_after_saw [OF r1] show ?thesis by (auto simp: path_simps saw_all_iff)
  next
    case False
    with r obtain l3 where l2: "l2 = [(Cv_Block m, RUnit), (Cv_Wake m, RUnit)] @ l3"
      and "returns (cv_wait m n s as) l3 r"
      by (auto simp: path_simps)
    then have "saw_all as s r l3" by (intro Suc.IH)
    then show ?thesis by (rule saw_all_mono) (auto simp: l l2)
  qed
qed

lemma returns_blocking_wait_until_published:
  assumes "returns (blocking_wait_until_published m n s as) l r"
  shows "saw_all as s r l"
proof -
  from assms obtain l1 where "l = (Lock m, RUnit) # l1 @ [(Unlock m, RUnit)]" "returns (cv_wait m n s as) l1 r"
    by (auto simp: blocking_wait_until_published_def path_simps split: if_splits)
  then show ?thesis by (auto dest!: returns_cv_wait elim: saw_all_mono)
qed

lemma waits_only_cv_wait: "as \<noteq> [] \<Longrightarrow> waits_only (cv_wait m n s as) {m} {m}"
  by (induction n)
    (auto simp: do_act_def intro!: waits_only_bind [where hm = "{m}"] waits_only_minimum_sequence_after)

lemma waits_only_blocking_wait:
  "as \<noteq> [] \<Longrightarrow> waits_only (blocking_wait_until_published m n s as) {} {}"
  by (auto simp: blocking_wait_until_published_def do_act_def assert_def
    intro!: waits_only_bind [where hm = "{m}"] waits_only_cv_wait)

interpretation blocking: wait_strategy_model "blocking_wait_strategy object" for object
  by unfold_locales
    (auto simp: blocking_wait_strategy_def waits_only_blocking_wait
      blocking_signal_all_when_blocking_def do_act_def returns_blocking_wait_until_published)

text \<open>No program can use its waits with a limit.\<close>

lemma blocking_compiles_no_timed_waits:
  "ws_wait_until_published_for (blocking_wait_strategy object) = None"
  "ws_wait_until_published_until (blocking_wait_strategy object) = None"
  by (simp_all add: blocking_wait_strategy_def)

end
