(* ===== verification/Wait_Strategies.thy ===== *)
theory Wait_Strategies
  imports Spin_Wait_Strategy Blocking_Wait_Strategy
begin

text \<open>
  The two wait strategies of the library side by side: what every wait has established
  when it returns, why a wait with a deadline may return early, which of them have such waits,
  and that a spinning wait ends.
\<close>

text \<open>The objects of spin_wait_strategy and of blocking_wait_strategy.\<close>

definition library_strategies :: "'d wait_strategy set" where
  "library_strategies = range spin_wait_strategy \<union> range blocking_wait_strategy"

lemma library_strategy_cases [consumes 1, case_names spin blocking]:
  assumes "W \<in> library_strategies"
  obtains object where "W = spin_wait_strategy object"
    | object where "W = blocking_wait_strategy object"
  using assms by (auto simp: library_strategies_def)

lemma library_strategiesI [intro, simp]:
  "spin_wait_strategy object \<in> library_strategies"
  "blocking_wait_strategy object \<in> library_strategies"
  by (simp_all add: library_strategies_def)

lemma library_strategy_model: "W \<in> library_strategies \<Longrightarrow> wait_strategy_model W"
  using spin.wait_strategy_model_axioms blocking.wait_strategy_model_axioms
  by (auto elim!: library_strategy_cases)

section \<open>Strategies with timed waits\<close>

text \<open>
  The strategies whose waits with a limit a program can call: those of spin_wait_strategy, since
  the calls to the condition variable in the corresponding members of blocking_wait_strategy do
  not compile.
\<close>

definition timed_strategies :: "'d wait_strategy set" where
  "timed_strategies = {W \<in> library_strategies. compiles_timed_waits W}"

lemma timed_strategies_eq: "timed_strategies = range spin_wait_strategy"
  by (auto simp: timed_strategies_def library_strategies_def compiles_timed_waits_def
      blocking_compiles_no_timed_waits spin_wait_strategy_def)

lemma timed_strategiesI [intro, simp]: "spin_wait_strategy object \<in> timed_strategies"
  by (simp add: timed_strategies_eq)

lemma blocking_not_timed: "blocking_wait_strategy object \<notin> timed_strategies"
  by (simp add: timed_strategies_def compiles_timed_waits_def blocking_compiles_no_timed_waits)

lemma timed_strategies_library [dest]: "W \<in> timed_strategies \<Longrightarrow> W \<in> library_strategies"
  by (simp add: timed_strategies_def)

lemma timed_strategy_model: "W \<in> timed_strategies \<Longrightarrow> timed_wait_strategy_model W"
  using spin.timed_wait_strategy_model_axioms by (auto simp: timed_strategies_eq)

text \<open>Signalling on a machine whose mutex is free changes only who is blocked.\<close>

lemma run_signal:
  assumes "W \<in> library_strategies" and "owner \<sigma> (ws_object W) = None"
  shows "\<exists>ws l. run t alone (ws_signal_all_when_blocking W) i \<sigma> = (Returned (), \<sigma>\<lparr>waiting := ws\<rparr>, l)"
  using assms(1)
proof (cases rule: library_strategy_cases)
  case (spin object)
  then show ?thesis
    by (intro exI [of _ "waiting \<sigma>"]) (simp add: spin_wait_strategy_def spin_signal_all_when_blocking_def)
next
  case (blocking object)
  then show ?thesis
    using assms(2)
    by (intro exI [of _ "(waiting \<sigma>)(object := {})"] exI)
      (simp add: blocking_wait_strategy_def blocking_signal_all_when_blocking_def prog_defs fun_upd_idem)
qed

text \<open>
  C14.  A wait of either strategy returns only when it has seen every sequence waited for at or
  after the number waited for; it returns the least advanced of the values it has seen.
\<close>

theorem wait_until_published_correct:
  assumes "W \<in> library_strategies" and "returns (ws_wait_until_published W n m as) l r"
  shows "0 \<le> difference r m \<and> (\<exists>a \<in> set as. (Load Acquire a, RSeq r) \<in> set l) \<and>
    (\<forall>a \<in> set as. \<exists>v. (Load Acquire a, RSeq v) \<in> set l \<and> difference r m \<le> difference v m)"
proof -
  have saw: "saw_all as m r l"
    using library_strategy_model [OF assms(1)] assms(2) by (rule wait_strategy_model.wait_returns)
  then obtain vs where "length vs = length as" "set (load_log as vs) \<subseteq> set l" "r \<in> set vs" "0 \<le> difference r m"
    by (auto simp: saw_all_def)
  moreover from this have "\<exists>a \<in> set as. (Load Acquire a, RSeq r) \<in> set (load_log as vs)"
    by (intro load_log_memberD) auto
  ultimately show ?thesis using saw_allD [OF saw] by blast
qed

text \<open>A wait for a number that is already published, on one core.\<close>

lemma spin_wait_at_once:
  "returns (ws_wait_until_published (spin_wait_strategy 0) n 4 [Cell 0])
     [(Hardware_Concurrency, RNat 1), (Load Acquire (Cell 0), RSeq 6) :: unit act \<times> unit resp] 6"
  by (cases n) (simp_all add: spin_wait_strategy_def spin_wait_until_published_def new_spin_wait_def
      spin_reset_def minimum_sequence_after_def prog_defs ends_Act difference_def)

lemma wait_until_published_correct_witness:
  "0 \<le> difference 6 4 \<and>
   (\<exists>v. (Load Acquire (Cell 0), RSeq v) \<in> set [(Hardware_Concurrency, RNat 1),
      (Load Acquire (Cell 0), RSeq 6) :: unit act \<times> unit resp])"
  using wait_until_published_correct [OF library_strategiesI(1) spin_wait_at_once] by auto

text \<open>
  C15.  A wait with a deadline, of every strategy whose timed waits compile: when the result is
  at or after the number waited for, every sequence was seen there; when it is before, some
  sequence was last seen lagging with that value, and a time after the deadline was read.
\<close>

theorem wait_until_published_until_correct:
  assumes "W \<in> timed_strategies" and "returns (ws_timed_wait_until W n m as d) l r"
  shows "if 0 \<le> difference r m then saw_all as m r l else saw_lag as m r l \<and> deadline_passed d l"
  using timed_wait_strategy_model.wait_until_returns [OF timed_strategy_model [OF assms(1)] assms(2)]
    timed_wait_strategy_model.wait_until_deadline [OF timed_strategy_model [OF assms(1)] assms(2)]
  by (auto simp: saw_def)

text \<open>A wait on one core, for a number not published, that finds the deadline passed.\<close>

lemma spin_wait_timed_out:
  "returns (ws_timed_wait_until (spin_wait_strategy 0) 1 4 [Cell 0] 10)
     [(Hardware_Concurrency, RNat 1), (Load Acquire (Cell 0), RSeq 3), (Now, RNat 12) :: unit act \<times> unit resp] 3"
  by (simp add: spin_wait_strategy_def spin_wait_until_published_until_def new_spin_wait_def
      spin_reset_def minimum_sequence_after_def prog_defs ends_Act difference_def next_spin_will_yield_def)

lemma wait_until_published_until_correct_witness:
  "deadline_passed 10 [(Hardware_Concurrency, RNat 1), (Load Acquire (Cell 0), RSeq 3),
     (Now, RNat 12) :: unit act \<times> unit resp]"
  using wait_until_published_until_correct [OF timed_strategiesI spin_wait_timed_out]
  by (simp add: difference_def)

text \<open>
  The wait with a timeout is the wait with the deadline that lies the timeout after a
  time read from the clock: it returns early only when that deadline has passed.
\<close>

theorem wait_until_published_for_correct:
  assumes "W \<in> timed_strategies" and "returns (ws_timed_wait_for W n m as d) l r"
  shows "if 0 \<le> difference r m then saw_all as m r l
    else saw_lag as m r l \<and> (\<exists>t. (Now, RNat t) \<in> set l \<and> deadline_passed (t + d) l)"
  using timed_wait_strategy_model.wait_for_returns [OF timed_strategy_model [OF assms(1)] assms(2)]
    timed_wait_strategy_model.wait_for_deadline [OF timed_strategy_model [OF assms(1)] assms(2)]
  by (auto simp: saw_def)

lemma spin_wait_for_timed_out:
  "returns (ws_timed_wait_for (spin_wait_strategy 0) 1 4 [Cell 0] 3)
     [(Now, RNat 7), (Hardware_Concurrency, RNat 1), (Load Acquire (Cell 0), RSeq 3),
      (Now, RNat 12) :: unit act \<times> unit resp] 3"
  by (simp add: spin_wait_strategy_def spin_wait_until_published_for_def spin_wait_until_published_until_def
      new_spin_wait_def spin_reset_def minimum_sequence_after_def prog_defs ends_Act difference_def
      next_spin_will_yield_def)

lemma wait_until_published_for_correct_witness:
  "\<exists>t. (Now, RNat t) \<in> set [(Now, RNat 7), (Hardware_Concurrency, RNat 1), (Load Acquire (Cell 0), RSeq 3),
      (Now, RNat 12) :: unit act \<times> unit resp] \<and>
    deadline_passed (t + 3) [(Now, RNat 7), (Hardware_Concurrency, RNat 1), (Load Acquire (Cell 0), RSeq 3),
      (Now, RNat 12) :: unit act \<times> unit resp]"
  using wait_until_published_for_correct [OF timed_strategiesI spin_wait_for_timed_out]
  by (simp only: difference_def) simp

text \<open>
  C16.  A spinning wait ends: when the sequences waited for are published by the \<open>T\<close>-th of its
  accesses and stay published, it returns within \<open>T + 1\<close> rounds, whatever else the other
  threads do, and no access of it can block.
\<close>

theorem spin_wait_terminates:
  assumes "published_from m as w T" and "as \<noteq> []" and "T \<le> n"
  shows "\<exists>r \<sigma>' l. run t w (ws_wait_until_published (spin_wait_strategy object) (Suc n) m as) 0 \<sigma> =
    (Returned r, \<sigma>', l) \<and> 0 \<le> difference r m"
proof -
  have "\<exists>r. fst (run t w (spin_wait_until_published (Suc n) m as) 0 \<sigma>) = Returned r"
    using assms by (rule run_spin_wait_until_published)
  then obtain r \<sigma>' l where run: "run t w (spin_wait_until_published (Suc n) m as) 0 \<sigma> = (Returned r, \<sigma>', l)"
    by (metis prod.collapse)
  then have "returns (spin_wait_until_published (Suc n) m as) l r" using run_ends by blast
  then have "saw_all as m r l" by (rule returns_spin_wait_until_published)
  with run show ?thesis by (auto simp: spin_wait_strategy_select saw_all_def)
qed

lemma spin_wait_terminates_witness:
  "\<exists>r \<sigma>' l. run 0 (\<lambda>i. (put (Cell 0) 5, 0)) (ws_wait_until_published (spin_wait_strategy 0) 1 5 [Cell 0]) 0
     (at_rest ()) = (Returned r, \<sigma>', l) \<and> 0 \<le> difference r 5"
proof -
  have p: "published_from 5 [Cell 0] (\<lambda>i. (put (Cell 0) 5, 0)) 0"
    by (simp add: published_from_def all_published_def)
  show ?thesis using spin_wait_terminates [OF p, of 0 0 0 "at_rest ()"] by simp
qed

end
