(* ===== verification/Benchmark_Clients.thy ===== *)
theory Benchmark_Clients
  imports Single_Threaded_Claim_Strategy Multi_Threaded_Claim_Strategy Wait_Strategies
begin

text \<open>
  The programs of src/benchmark: unicast, multicast, pipeline, diamond and sequencer.  They
  are the clients of the library: each sets up a wait strategy, a claim strategy, barriers
  and a ring buffer, starts producer and consumer threads, and compares the sums that the
  consumers have computed with the sum expected.

  Every consumer of every benchmark is the same loop, which differs only in what it waits
  on; so the loop takes the wait as an argument.  A consumer's result is \<open>Some sum\<close>, a
  producer's is \<open>None\<close>.  Measuring and printing the throughput is left out.
\<close>

section \<open>The consumers\<close>

text \<open>
  \<open>do { sum += buffer[nextToRead]; --itemsRemaining; } while (nextToRead++ != available);\<close>
  The first argument is what the body does with an item; the benchmarks add it to the sum.
  The result is the new \<open>sum\<close> (here \<open>acc\<close>), \<open>itemsRemaining\<close> and \<open>nextToRead\<close>.
\<close>

lemma read_batch_decreases:
  "nextToRead \<noteq> available \<Longrightarrow> unat (available - (nextToRead + 1)) < unat (available - nextToRead)"
  for nextToRead available :: sequence_t
proof -
  assume "nextToRead \<noteq> available"
  then have ne: "available - nextToRead \<noteq> 0" by simp
  have "unat (available - nextToRead - 1) = unat (available - nextToRead) - 1"
    using ne by (rule unat_minus_one)
  moreover have "0 < unat (available - nextToRead)" using ne by (simp only: unat_gt_0 not_False_eq_True)
  moreover have "available - (nextToRead + 1) = available - nextToRead - 1" by simp
  ultimately show ?thesis by (metis diff_less zero_less_one)
qed

function read_batch ::
    "('d \<Rightarrow> 'a \<Rightarrow> 'a) \<Rightarrow> ring_buffer \<Rightarrow> sequence_t \<Rightarrow> 'a \<Rightarrow> 64 word \<Rightarrow> sequence_t \<Rightarrow>
     ('d, 'a \<times> 64 word \<times> sequence_t) prog" where
  "read_batch f buffer available acc itemsRemaining nextToRead =
     buffer_read buffer nextToRead (\<lambda>item.
       if nextToRead \<noteq> available
       then read_batch f buffer available (f item acc) (itemsRemaining - 1) (nextToRead + 1)
       else Return (f item acc, itemsRemaining - 1, nextToRead + 1))"
  by pat_completeness auto
termination
  by (relation "measure (\<lambda>(f, buffer, available, acc, itemsRemaining, nextToRead).
      unat (available - nextToRead))") (auto intro: read_batch_decreases)

declare read_batch.simps [simp del]

primrec consume_loop ::
    "nat \<Rightarrow> (sequence_t \<Rightarrow> ('d, sequence_t) prog) \<Rightarrow> ('d \<Rightarrow> 'a \<Rightarrow> 'a) \<Rightarrow> ring_buffer \<Rightarrow>
     'd sequence_barrier \<Rightarrow> 'a \<Rightarrow> 64 word \<Rightarrow> sequence_t \<Rightarrow> ('d, 'a) prog" where
  "consume_loop 0 wait f buffer barrier acc itemsRemaining nextToRead =
     (if 0 < itemsRemaining then Out_Of_Fuel else Return acc)"
| "consume_loop (Suc n) wait f buffer barrier acc itemsRemaining nextToRead =
     (if 0 < itemsRemaining
      then bind (wait nextToRead) (\<lambda>available.
           bind (read_batch f buffer available acc itemsRemaining nextToRead)
             (\<lambda>(acc, itemsRemaining, nextToRead).
           bind (barrier_publish barrier available) (\<lambda>_.
             consume_loop n wait f buffer barrier acc itemsRemaining nextToRead)))
      else Return acc)"

definition consumer ::
    "nat \<Rightarrow> (sequence_t \<Rightarrow> (64 word, sequence_t) prog) \<Rightarrow> ring_buffer \<Rightarrow>
     (64 word) sequence_barrier \<Rightarrow> 64 word \<Rightarrow> (64 word, (64 word) option) prog" where
  "consumer n wait buffer barrier iterationCount =
     bind (consume_loop n wait (+) buffer barrier 0 iterationCount 0) (\<lambda>result. Return (Some result))"

section \<open>The producers\<close>

text \<open>
  \<open>for (i = 0; i < iterationCount; ++i) { seq = claim_one(); buffer[seq] = i; publish(seq); }\<close>
\<close>

function st_producer_loop ::
    "nat \<Rightarrow> (64 word) single_claim \<Rightarrow> ring_buffer \<Rightarrow> 64 word \<Rightarrow> 64 word \<Rightarrow> (64 word, unit) prog" where
  "st_producer_loop n claimStrategy buffer iterationCount i =
     (if i < iterationCount
      then bind (st_claim_one n claimStrategy) (\<lambda>(seq, claimStrategy).
           buffer_write buffer seq i
          (bind (st_publish claimStrategy seq) (\<lambda>_.
             st_producer_loop n claimStrategy buffer iterationCount (i + 1))))
      else Return ())"
  by pat_completeness auto
termination
  by (relation "measure (\<lambda>(n, s, b, j, i). unat j - unat i)") (auto simp: unat_count_up)

function mt_producer_loop ::
    "nat \<Rightarrow> (64 word) multi_claim \<Rightarrow> ring_buffer \<Rightarrow> 64 word \<Rightarrow> 64 word \<Rightarrow> (64 word, unit) prog" where
  "mt_producer_loop n claimStrategy buffer iterationCount i =
     (if i < iterationCount
      then bind (mt_claim_one n claimStrategy) (\<lambda>seq.
           buffer_write buffer seq i
          (bind (mt_publish claimStrategy seq) (\<lambda>_.
             mt_producer_loop n claimStrategy buffer iterationCount (i + 1))))
      else Return ())"
  by pat_completeness auto
termination
  by (relation "measure (\<lambda>(n, s, b, j, i). unat j - unat i)") (auto simp: unat_count_up)

declare st_producer_loop.simps [simp del] mt_producer_loop.simps [simp del]

definition st_producer ::
    "nat \<Rightarrow> (64 word) single_claim \<Rightarrow> ring_buffer \<Rightarrow> 64 word \<Rightarrow> (64 word, (64 word) option) prog" where
  "st_producer n claimStrategy buffer iterationCount =
     bind (st_producer_loop n claimStrategy buffer iterationCount 0) (\<lambda>_. Return None)"

definition mt_producer ::
    "nat \<Rightarrow> (64 word) multi_claim \<Rightarrow> ring_buffer \<Rightarrow> 64 word \<Rightarrow> (64 word, (64 word) option) prog" where
  "mt_producer n claimStrategy buffer iterationCount =
     bind (mt_producer_loop n claimStrategy buffer iterationCount 0) (\<lambda>_. Return None)"

text \<open>\<open>const uint64_t expectedResult = (iterationCount * (iterationCount - 1)) / 2;\<close>\<close>

definition expectedResult :: "64 word \<Rightarrow> 64 word" where
  "expectedResult iterationCount = (iterationCount * (iterationCount - 1)) div 2"

section \<open>unicast\<close>

text \<open>
  In the four benchmarks with one producer the atomic of the claim strategy's read barrier
  is \<open>Cell 0\<close>, that of the barrier of consumer \<open>i\<close> is \<open>Cell (Suc i)\<close>, and the ring buffer is
  array 0.  Thread 0 is the main thread, which is the producer; thread \<open>Suc i\<close> is consumer \<open>i\<close>.
\<close>

definition unicast_setup :: "(64 word) wait_strategy \<Rightarrow> size_t \<Rightarrow>
    (64 word, (64 word) single_claim \<times> (64 word) sequence_barrier \<times> ring_buffer) prog" where
  "unicast_setup waitStrategy bufferSize =
     bind (new_single_claim bufferSize waitStrategy (Cell 0)) (\<lambda>claimStrategy.
     bind (new_sequence_barrier waitStrategy (Cell 1)) (\<lambda>consumed.
     bind (st_add_claim_barrier claimStrategy consumed) (\<lambda>claimStrategy.
     bind (new_ring_buffer bufferSize 0) (\<lambda>buffer.
       Return (claimStrategy, consumed, buffer)))))"

definition unicast_threads ::
    "nat \<Rightarrow> (64 word) single_claim \<times> (64 word) sequence_barrier \<times> ring_buffer \<Rightarrow> 64 word \<Rightarrow>
     nat \<Rightarrow> (64 word, (64 word) option) prog" where
  "unicast_threads n objects iterationCount =
     (case objects of (claimStrategy, consumed, buffer) \<Rightarrow>
       (\<lambda>thread. Return None)
         (0 := st_producer n claimStrategy buffer iterationCount,
          1 := consumer n
            (\<lambda>nextToRead. st_wait_until_published_known n claimStrategy nextToRead (nextToRead - 1))
            buffer consumed iterationCount))"

section \<open>multicast\<close>

primrec multicast_barriers ::
    "(64 word) wait_strategy \<Rightarrow> nat list \<Rightarrow> (64 word) single_claim \<Rightarrow>
     (64 word, (64 word) single_claim \<times> (64 word) sequence_barrier list) prog" where
  "multicast_barriers waitStrategy [] claimStrategy = Return (claimStrategy, [])"
| "multicast_barriers waitStrategy (i # is) claimStrategy =
     bind (new_sequence_barrier waitStrategy (Cell (Suc i))) (\<lambda>barrier.
     bind (st_add_claim_barrier claimStrategy barrier) (\<lambda>claimStrategy.
     bind (multicast_barriers waitStrategy is claimStrategy) (\<lambda>(claimStrategy, consumedBarriers).
       Return (claimStrategy, barrier # consumedBarriers))))"

definition multicast_setup :: "(64 word) wait_strategy \<Rightarrow> size_t \<Rightarrow> nat \<Rightarrow>
    (64 word, (64 word) single_claim \<times> (64 word) sequence_barrier list \<times> ring_buffer) prog" where
  "multicast_setup waitStrategy bufferSize consumerCount =
     bind (new_single_claim bufferSize waitStrategy (Cell 0)) (\<lambda>claimStrategy.
     bind (new_ring_buffer bufferSize 0) (\<lambda>buffer.
     bind (multicast_barriers waitStrategy [0..<consumerCount] claimStrategy)
       (\<lambda>(claimStrategy, consumedBarriers).
       Return (claimStrategy, consumedBarriers, buffer))))"

definition multicast_threads ::
    "nat \<Rightarrow> (64 word) single_claim \<times> (64 word) sequence_barrier list \<times> ring_buffer \<Rightarrow> 64 word \<Rightarrow>
     nat \<Rightarrow> (64 word, (64 word) option) prog" where
  "multicast_threads n objects iterationCount thread =
     (case objects of (claimStrategy, consumedBarriers, buffer) \<Rightarrow>
        if thread = 0 then st_producer n claimStrategy buffer iterationCount
        else if thread \<le> length consumedBarriers
        then consumer n
          (\<lambda>nextToRead. st_wait_until_published_known n claimStrategy nextToRead (nextToRead - 1))
          buffer (consumedBarriers ! (thread - 1)) iterationCount
        else Return None)"

section \<open>pipeline\<close>

primrec pipeline_barriers ::
    "(64 word) wait_strategy \<Rightarrow> nat list \<Rightarrow> (64 word, (64 word) sequence_barrier list) prog" where
  "pipeline_barriers waitStrategy [] = Return []"
| "pipeline_barriers waitStrategy (i # is) =
     bind (new_sequence_barrier waitStrategy (Cell (Suc i))) (\<lambda>barrier.
     bind (pipeline_barriers waitStrategy is) (\<lambda>consumedBarriers.
       Return (barrier # consumedBarriers)))"

definition pipeline_setup :: "(64 word) wait_strategy \<Rightarrow> size_t \<Rightarrow> nat \<Rightarrow>
    (64 word, (64 word) single_claim \<times> (64 word) sequence_barrier list \<times> ring_buffer) prog" where
  "pipeline_setup waitStrategy bufferSize consumerCount =
     bind (new_single_claim bufferSize waitStrategy (Cell 0)) (\<lambda>claimStrategy.
     bind (new_ring_buffer bufferSize 0) (\<lambda>buffer.
     bind (pipeline_barriers waitStrategy [0..<consumerCount]) (\<lambda>consumedBarriers.
     bind (st_add_claim_barrier claimStrategy (last consumedBarriers)) (\<lambda>claimStrategy.
       Return (claimStrategy, consumedBarriers, buffer)))))"

definition pipeline_threads ::
    "nat \<Rightarrow> (64 word) single_claim \<times> (64 word) sequence_barrier list \<times> ring_buffer \<Rightarrow> 64 word \<Rightarrow>
     nat \<Rightarrow> (64 word, (64 word) option) prog" where
  "pipeline_threads n objects iterationCount thread =
     (case objects of (claimStrategy, consumedBarriers, buffer) \<Rightarrow>
        if thread = 0 then st_producer n claimStrategy buffer iterationCount
        else if thread \<le> length consumedBarriers
        then consumer n
          (if thread = 1
           then (\<lambda>nextToRead. st_wait_until_published_known n claimStrategy nextToRead (nextToRead - 1))
           else barrier_wait_until_published n (consumedBarriers ! (thread - 2)))
          buffer (consumedBarriers ! (thread - 1)) iterationCount
        else Return None)"

section \<open>diamond\<close>

primrec diamond_barriers ::
    "(64 word) wait_strategy \<Rightarrow> nat \<Rightarrow> nat list \<Rightarrow> (64 word) sequence_barrier_group \<Rightarrow>
     (64 word, (64 word) sequence_barrier_group \<times> (64 word) sequence_barrier list) prog" where
  "diamond_barriers waitStrategy consumerCount [] parallelConsumers = Return (parallelConsumers, [])"
| "diamond_barriers waitStrategy consumerCount (i # is) parallelConsumers =
     bind (new_sequence_barrier waitStrategy (Cell (Suc i))) (\<lambda>barrier.
     bind (if i + 1 \<noteq> consumerCount then group_add_barrier parallelConsumers barrier
           else Return parallelConsumers) (\<lambda>parallelConsumers.
     bind (diamond_barriers waitStrategy consumerCount is parallelConsumers)
       (\<lambda>(parallelConsumers, consumedBarriers).
       Return (parallelConsumers, barrier # consumedBarriers))))"

definition diamond_setup :: "(64 word) wait_strategy \<Rightarrow> size_t \<Rightarrow> nat \<Rightarrow>
    (64 word, (64 word) single_claim \<times> (64 word) sequence_barrier list \<times>
     (64 word) sequence_barrier_group \<times> ring_buffer) prog" where
  "diamond_setup waitStrategy bufferSize consumerCount =
     bind (new_single_claim bufferSize waitStrategy (Cell 0)) (\<lambda>claimStrategy.
     bind (new_ring_buffer bufferSize 0) (\<lambda>buffer.
     bind (diamond_barriers waitStrategy consumerCount [0..<consumerCount]
             (new_sequence_barrier_group waitStrategy)) (\<lambda>(parallelConsumers, consumedBarriers).
     bind (st_add_claim_barrier claimStrategy (last consumedBarriers)) (\<lambda>claimStrategy.
       Return (claimStrategy, consumedBarriers, parallelConsumers, buffer)))))"

definition diamond_threads ::
    "nat \<Rightarrow> (64 word) single_claim \<times> (64 word) sequence_barrier list \<times>
     (64 word) sequence_barrier_group \<times> ring_buffer \<Rightarrow> 64 word \<Rightarrow>
     nat \<Rightarrow> (64 word, (64 word) option) prog" where
  "diamond_threads n objects iterationCount thread =
     (case objects of (claimStrategy, consumedBarriers, parallelConsumers, buffer) \<Rightarrow>
        if thread = 0 then st_producer n claimStrategy buffer iterationCount
        else if thread \<le> length consumedBarriers
        then consumer n
          (if thread \<noteq> length consumedBarriers
           then (\<lambda>nextToRead. st_wait_until_published_known n claimStrategy nextToRead (nextToRead - 1))
           else group_wait_until_published n parallelConsumers)
          buffer (consumedBarriers ! (thread - 1)) iterationCount
        else Return None)"

section \<open>sequencer\<close>

text \<open>
  Several producers and one consumer.  The claim counter is \<open>Cell 0\<close>, the consumer's barrier
  \<open>Cell 1\<close>, the array \<open>m_published\<close> has number 0, and so has the ring buffer.  The main thread,
  thread 0, is the consumer; thread \<open>Suc i\<close> is producer \<open>i\<close>.
\<close>

definition sequencer_setup :: "(64 word) wait_strategy \<Rightarrow> size_t \<Rightarrow>
    (64 word, (64 word) multi_claim \<times> (64 word) sequence_barrier \<times> ring_buffer) prog" where
  "sequencer_setup waitStrategy bufferSize =
     bind (new_multi_claim bufferSize waitStrategy 0 (Cell 0)) (\<lambda>claimStrategy.
     bind (new_sequence_barrier waitStrategy (Cell 1)) (\<lambda>consumed.
     bind (mt_add_claim_barrier claimStrategy consumed) (\<lambda>claimStrategy.
     bind (new_ring_buffer bufferSize 0) (\<lambda>buffer.
       Return (claimStrategy, consumed, buffer)))))"

definition sequencer_threads ::
    "nat \<Rightarrow> (64 word) multi_claim \<times> (64 word) sequence_barrier \<times> ring_buffer \<Rightarrow> 64 word \<Rightarrow>
     64 word \<Rightarrow> nat \<Rightarrow> (64 word, (64 word) option) prog" where
  "sequencer_threads n objects iterationCount producerCount thread =
     (case objects of (claimStrategy, consumed, buffer) \<Rightarrow>
        if thread = 0
        then consumer n
          (\<lambda>nextToRead. mt_wait_until_published n claimStrategy nextToRead (nextToRead - 1))
          buffer consumed (iterationCount * producerCount)
        else if thread \<le> unat producerCount then mt_producer n claimStrategy buffer iterationCount
        else Return None)"

text \<open>\<open>producerCount * (iterationCount * (iterationCount - 1)) / 2\<close>\<close>

definition sequencer_expectedResult :: "64 word \<Rightarrow> 64 word \<Rightarrow> 64 word" where
  "sequencer_expectedResult iterationCount producerCount =
     (producerCount * (iterationCount * (iterationCount - 1))) div 2"

section \<open>The benchmarks on the multi-threaded claim strategy\<close>

text \<open>
  The mains of unicast, multicast, pipeline and diamond run them with either claim strategy as
  the template argument.  These are the instances at the multi-threaded one; the claim counter is \<open>Cell 0\<close>
  and the array \<open>m_published\<close> has number 0, the rest is as above.
\<close>

definition unicast_mt_setup :: "(64 word) wait_strategy \<Rightarrow> size_t \<Rightarrow>
    (64 word, (64 word) multi_claim \<times> (64 word) sequence_barrier \<times> ring_buffer) prog" where
  "unicast_mt_setup waitStrategy bufferSize =
     bind (new_multi_claim bufferSize waitStrategy 0 (Cell 0)) (\<lambda>claimStrategy.
     bind (new_sequence_barrier waitStrategy (Cell 1)) (\<lambda>consumed.
     bind (mt_add_claim_barrier claimStrategy consumed) (\<lambda>claimStrategy.
     bind (new_ring_buffer bufferSize 0) (\<lambda>buffer.
       Return (claimStrategy, consumed, buffer)))))"

definition unicast_mt_threads ::
    "nat \<Rightarrow> (64 word) multi_claim \<times> (64 word) sequence_barrier \<times> ring_buffer \<Rightarrow> 64 word \<Rightarrow>
     nat \<Rightarrow> (64 word, (64 word) option) prog" where
  "unicast_mt_threads n objects iterationCount =
     (case objects of (claimStrategy, consumed, buffer) \<Rightarrow>
       (\<lambda>thread. Return None)
         (0 := mt_producer n claimStrategy buffer iterationCount,
          1 := consumer n
            (\<lambda>nextToRead. mt_wait_until_published n claimStrategy nextToRead (nextToRead - 1))
            buffer consumed iterationCount))"

primrec multicast_mt_barriers ::
    "(64 word) wait_strategy \<Rightarrow> nat list \<Rightarrow> (64 word) multi_claim \<Rightarrow>
     (64 word, (64 word) multi_claim \<times> (64 word) sequence_barrier list) prog" where
  "multicast_mt_barriers waitStrategy [] claimStrategy = Return (claimStrategy, [])"
| "multicast_mt_barriers waitStrategy (i # is) claimStrategy =
     bind (new_sequence_barrier waitStrategy (Cell (Suc i))) (\<lambda>barrier.
     bind (mt_add_claim_barrier claimStrategy barrier) (\<lambda>claimStrategy.
     bind (multicast_mt_barriers waitStrategy is claimStrategy) (\<lambda>(claimStrategy, consumedBarriers).
       Return (claimStrategy, barrier # consumedBarriers))))"

definition multicast_mt_setup :: "(64 word) wait_strategy \<Rightarrow> size_t \<Rightarrow> nat \<Rightarrow>
    (64 word, (64 word) multi_claim \<times> (64 word) sequence_barrier list \<times> ring_buffer) prog" where
  "multicast_mt_setup waitStrategy bufferSize consumerCount =
     bind (new_multi_claim bufferSize waitStrategy 0 (Cell 0)) (\<lambda>claimStrategy.
     bind (new_ring_buffer bufferSize 0) (\<lambda>buffer.
     bind (multicast_mt_barriers waitStrategy [0..<consumerCount] claimStrategy)
       (\<lambda>(claimStrategy, consumedBarriers).
       Return (claimStrategy, consumedBarriers, buffer))))"

definition multicast_mt_threads ::
    "nat \<Rightarrow> (64 word) multi_claim \<times> (64 word) sequence_barrier list \<times> ring_buffer \<Rightarrow> 64 word \<Rightarrow>
     nat \<Rightarrow> (64 word, (64 word) option) prog" where
  "multicast_mt_threads n objects iterationCount thread =
     (case objects of (claimStrategy, consumedBarriers, buffer) \<Rightarrow>
        if thread = 0 then mt_producer n claimStrategy buffer iterationCount
        else if thread \<le> length consumedBarriers
        then consumer n
          (\<lambda>nextToRead. mt_wait_until_published n claimStrategy nextToRead (nextToRead - 1))
          buffer (consumedBarriers ! (thread - 1)) iterationCount
        else Return None)"

definition pipeline_mt_setup :: "(64 word) wait_strategy \<Rightarrow> size_t \<Rightarrow> nat \<Rightarrow>
    (64 word, (64 word) multi_claim \<times> (64 word) sequence_barrier list \<times> ring_buffer) prog" where
  "pipeline_mt_setup waitStrategy bufferSize consumerCount =
     bind (new_multi_claim bufferSize waitStrategy 0 (Cell 0)) (\<lambda>claimStrategy.
     bind (new_ring_buffer bufferSize 0) (\<lambda>buffer.
     bind (pipeline_barriers waitStrategy [0..<consumerCount]) (\<lambda>consumedBarriers.
     bind (mt_add_claim_barrier claimStrategy (last consumedBarriers)) (\<lambda>claimStrategy.
       Return (claimStrategy, consumedBarriers, buffer)))))"

definition pipeline_mt_threads ::
    "nat \<Rightarrow> (64 word) multi_claim \<times> (64 word) sequence_barrier list \<times> ring_buffer \<Rightarrow> 64 word \<Rightarrow>
     nat \<Rightarrow> (64 word, (64 word) option) prog" where
  "pipeline_mt_threads n objects iterationCount thread =
     (case objects of (claimStrategy, consumedBarriers, buffer) \<Rightarrow>
        if thread = 0 then mt_producer n claimStrategy buffer iterationCount
        else if thread \<le> length consumedBarriers
        then consumer n
          (if thread = 1
           then (\<lambda>nextToRead. mt_wait_until_published n claimStrategy nextToRead (nextToRead - 1))
           else barrier_wait_until_published n (consumedBarriers ! (thread - 2)))
          buffer (consumedBarriers ! (thread - 1)) iterationCount
        else Return None)"

definition diamond_mt_setup :: "(64 word) wait_strategy \<Rightarrow> size_t \<Rightarrow> nat \<Rightarrow>
    (64 word, (64 word) multi_claim \<times> (64 word) sequence_barrier list \<times>
     (64 word) sequence_barrier_group \<times> ring_buffer) prog" where
  "diamond_mt_setup waitStrategy bufferSize consumerCount =
     bind (new_multi_claim bufferSize waitStrategy 0 (Cell 0)) (\<lambda>claimStrategy.
     bind (new_ring_buffer bufferSize 0) (\<lambda>buffer.
     bind (diamond_barriers waitStrategy consumerCount [0..<consumerCount]
             (new_sequence_barrier_group waitStrategy)) (\<lambda>(parallelConsumers, consumedBarriers).
     bind (mt_add_claim_barrier claimStrategy (last consumedBarriers)) (\<lambda>claimStrategy.
       Return (claimStrategy, consumedBarriers, parallelConsumers, buffer)))))"

definition diamond_mt_threads ::
    "nat \<Rightarrow> (64 word) multi_claim \<times> (64 word) sequence_barrier list \<times>
     (64 word) sequence_barrier_group \<times> ring_buffer \<Rightarrow> 64 word \<Rightarrow>
     nat \<Rightarrow> (64 word, (64 word) option) prog" where
  "diamond_mt_threads n objects iterationCount thread =
     (case objects of (claimStrategy, consumedBarriers, parallelConsumers, buffer) \<Rightarrow>
        if thread = 0 then mt_producer n claimStrategy buffer iterationCount
        else if thread \<le> length consumedBarriers
        then consumer n
          (if thread \<noteq> length consumedBarriers
           then (\<lambda>nextToRead. mt_wait_until_published n claimStrategy nextToRead (nextToRead - 1))
           else group_wait_until_published n parallelConsumers)
          buffer (consumedBarriers ! (thread - 1)) iterationCount
        else Return None)"

end
