(* ===== verification/Reader.thy ===== *)
theory Reader
  imports Weak_Protocols Benchmark_Clients
begin

text \<open>
  A consumer under any protocol that lets it read.  The locale \<open>reader\<close> says what the
  consumer loop of the clients relies on: its own progress \<open>got\<close> is its own, positions once
  \<open>ready\<close> stay ready with the same item, a ready position that it has not given up may be
  read, in order with all that has been written to its slot, and holds its item, and it may
  publish what it has read.  From this the loop is safe on the weak machine and has folded
  exactly the items of the positions from 0 to the end, in order.
\<close>

text \<open>What the handler \<open>f\<close> has made of the items before position \<open>p\<close>.\<close>

definition fold_items :: "('d \<Rightarrow> 'a \<Rightarrow> 'a) \<Rightarrow> 'a \<Rightarrow> (int \<Rightarrow> 'd) \<Rightarrow> int \<Rightarrow> 'a" where
  "fold_items f a item p = fold f (map item [0..p - 1]) a"

lemma fold_items_0 [simp]: "fold_items f a item 0 = a"
  by (simp add: fold_items_def)

lemma fold_items_Suc: "0 \<le> p \<Longrightarrow> fold_items f a item (p + 1) = f (item p) (fold_items f a item p)"
  by (simp add: fold_items_def upto_rec2)

lemma fold_items_cong:
  "(\<And>x. 0 \<le> x \<Longrightarrow> x < p \<Longrightarrow> item x = item' x) \<Longrightarrow> fold_items f a item p = fold_items f a item' p"
  unfolding fold_items_def by (intro fold_cong) auto

text \<open>A wait of a consumer: it only waits, and it has seen the atomics \<open>as\<close> when it returns.\<close>

definition waits_for :: "(sequence_t \<Rightarrow> ('d, sequence_t) prog) \<Rightarrow> addr list \<Rightarrow> bool" where
  "waits_for wait as \<longleftrightarrow> (\<forall>m. waits_only (wait m) {} {}) \<and>
     (\<forall>m l r. returns (wait m) l r \<longrightarrow> saw_all as m r l)"

locale reader = weak_protocol P hist upd + wait_strategy_model W
  for P :: "('d, 'g) protocol" and hist :: "'g \<Rightarrow> memory" and upd :: "memory \<Rightarrow> 'g \<Rightarrow> 'g"
    and W :: "'d wait_strategy" +
  fixes t :: nat and buffer :: ring_buffer and k :: nat and barrier :: "'d sequence_barrier"
    and total :: int and got :: "'g \<Rightarrow> int" and ready :: "'g \<Rightarrow> int \<Rightarrow> bool"
    and item :: "'g \<Rightarrow> int \<Rightarrow> 'd"
  assumes mask: "rb_mask buffer = 2 ^ k - 1" "k < 64"
    and strategy: "sb_waitStrategy barrier = W"
    and total: "total < 2 ^ 64"
    and got_stable: "rely P t s s' \<Longrightarrow> got (snd s') = got (snd s)"
    and ready_stable: "rely P t s s' \<Longrightarrow> invar P s \<Longrightarrow> ready (snd s) q \<Longrightarrow> ready (snd s') q"
    and item_stable: "rely P t s s' \<Longrightarrow> invar P s \<Longrightarrow> ready (snd s) q \<Longrightarrow> 0 \<le> p \<Longrightarrow> p \<le> q \<Longrightarrow>
      item (snd s') p = item (snd s) p"
    and sees_stable: "only_sees t (hist \<gamma>) \<omega> \<Longrightarrow> got (upd \<omega> \<gamma>) = got \<gamma> \<and> item (upd \<omega> \<gamma>) = item \<gamma> \<and>
      (ready \<gamma> q \<longrightarrow> ready (upd \<omega> \<gamma>) q)"
    and ready_less: "invar P s \<Longrightarrow> ready (snd s) q \<Longrightarrow> q < total"
    and got_nonneg: "invar P s \<Longrightarrow> 0 \<le> got (snd s)"
    and can_read: "invar P (\<sigma>, \<gamma>) \<Longrightarrow> ready \<gamma> q \<Longrightarrow> got \<gamma> \<le> p \<Longrightarrow> p \<le> q \<Longrightarrow>
      ordered t (Read (rb_data buffer) (nat (p mod 2 ^ k)) :: 'd act) (hist \<gamma>) \<and>
      okay P t (Read (rb_data buffer) (nat (p mod 2 ^ k))) (\<sigma>, \<gamma>) \<and>
      cells \<sigma> (rb_data buffer) (nat (p mod 2 ^ k)) = item \<gamma> p \<and>
      (\<exists>\<gamma>'. hist \<gamma>' = record_access t (Was_Read t (rb_data buffer) (nat (p mod 2 ^ k))) (hist \<gamma>) \<and>
        guar P t (\<sigma>, \<gamma>) (\<sigma>, \<gamma>') \<and> got \<gamma>' = got \<gamma> \<and> ready \<gamma>' q \<and> item \<gamma>' = item \<gamma>)"
    and can_publish: "invar P (\<sigma>, \<gamma>) \<Longrightarrow> ready \<gamma> q \<Longrightarrow> got \<gamma> \<le> q \<Longrightarrow>
      ordered t (Store Release (sb_lastPublished barrier) (seq_at q) :: 'd act) (hist \<gamma>) \<and>
      okay P t (Store Release (sb_lastPublished barrier) (seq_at q)) (\<sigma>, \<gamma>) \<and>
      (\<exists>\<gamma>'. hist \<gamma>' = store t Release (sb_lastPublished barrier) (seq_at q) (hist \<gamma>) \<and>
        guar P t (\<sigma>, \<gamma>) (put (sb_lastPublished barrier) (seq_at q) \<sigma>, \<gamma>') \<and>
        got \<gamma>' = q + 1 \<and> ready \<gamma>' q \<and> item \<gamma>' = item \<gamma>)"
begin

text \<open>The consumer has given back the positions before \<open>g\<close>, and has made \<open>acc\<close> of the
  items before \<open>p\<close>; positions up to \<open>q\<close> are ready.\<close>

definition at :: "('d \<Rightarrow> 'a \<Rightarrow> 'a) \<Rightarrow> 'a \<Rightarrow> int \<Rightarrow> int \<Rightarrow> int \<Rightarrow> 'a \<Rightarrow> 'd mach \<times> 'g \<Rightarrow> bool" where
  "at f a g q p acc s \<longleftrightarrow> invar P s \<and> got (snd s) = g \<and> ready (snd s) q \<and> p \<le> q + 1 \<and>
     fold_items f a (item (snd s)) p = acc"

lemma at_rely: "at f a g q p acc s \<Longrightarrow> rely P t s s' \<Longrightarrow> at f a g q p acc s'"
  using fold_items_cong [of p "item (snd s)" "item (snd s')" f a]
  by (auto simp: at_def rely_inv got_stable ready_stable item_stable)

lemma at_waiting: "stable_waiting t (at f a g q p acc)"
proof (rule stable_waitingI)
  show "at f a g q p acc s'" if "at f a g q p acc s" "rely P t s s'" for s s'
    using that by (rule at_rely)
  fix \<sigma> \<gamma> \<sigma>' \<omega>
  assume "at f a g q p acc (\<sigma>, \<gamma>)" and "only_sees t (hist \<gamma>) \<omega>" and "guar P t (\<sigma>, \<gamma>) (\<sigma>', upd \<omega> \<gamma>)"
  then show "at f a g q p acc (\<sigma>', upd \<omega> \<gamma>)"
    using sees_stable [of \<gamma> \<omega> q] guar_inv by (auto simp: at_def)
qed

lemma holds_mutexes_rely: "holds_mutexes t h (fst s) \<Longrightarrow> rely P t s s' \<Longrightarrow> holds_mutexes t h (fst s')"
  using rely_owner by (simp add: holds_mutexes_def)

lemma slot: "buffer_slot buffer (seq_at p) = nat (p mod 2 ^ k)"
  using mask by (rule buffer_slot_seq_at)

lemma safely_read_batch:
  assumes "at f a g q p acc s" and "holds_mutexes t {} (fst s)"
    and "g \<le> p" "p \<le> q" "q - g < 2 ^ 63" and "rem = of_int (total - p)"
    and post: "\<And>acc s. at f a g q (q + 1) acc s \<Longrightarrow> holds_mutexes t {} (fst s) \<Longrightarrow>
      Q (acc, of_int (total - (q + 1)), seq_at (q + 1)) s"
  shows "safely t (read_batch f buffer (seq_at q) acc rem (seq_at p)) Q s"
  using assms(1-6)
proof (induction "nat (q - p)" arbitrary: p acc rem s rule: less_induct)
  case less
  note prems = less.prems
  show ?case
    unfolding read_batch.simps [of f buffer "seq_at q" acc rem "seq_at p"] buffer_read_def weakly_safe_read_data slot
  proof (intro allI impI conjI)
    fix \<sigma> \<gamma> assume r: "rely P t s (\<sigma>, \<gamma>)"
    have at: "at f a g q p acc (\<sigma>, \<gamma>)" using prems(1) r by (rule at_rely)
    then have read: "invar P (\<sigma>, \<gamma>)" "ready \<gamma> q" "got \<gamma> \<le> p" using prems(3) by (simp_all add: at_def)
    note read = can_read [OF read prems(4)]
    show "ordered t (Read (rb_data buffer) (nat (p mod 2 ^ k)) :: 'd act) (hist \<gamma>)" using read by blast
    show "okay P t (Read (rb_data buffer) (nat (p mod 2 ^ k))) (\<sigma>, \<gamma>)" using read by blast
    have c: "cells \<sigma> (rb_data buffer) (nat (p mod 2 ^ k)) = item \<gamma> p" using read by blast
    obtain \<gamma>' where w: "hist \<gamma>' = record_access t (Was_Read t (rb_data buffer) (nat (p mod 2 ^ k))) (hist \<gamma>)"
      and g: "guar P t (\<sigma>, \<gamma>) (\<sigma>, \<gamma>')" and \<gamma>': "got \<gamma>' = got \<gamma>" "ready \<gamma>' q" "item \<gamma>' = item \<gamma>"
      using read by blast
    have "invar P (\<sigma>, \<gamma>')" using guar_inv [OF g] at by (simp add: at_def)
    then have at': "at f a g q (p + 1) (f (item \<gamma> p) acc) (\<sigma>, \<gamma>')"
      using at prems(3,4) got_nonneg [of "(\<sigma>, \<gamma>)"] \<gamma>' by (auto simp: at_def fold_items_Suc)
    have h: "holds_mutexes t {} (fst (\<sigma>, \<gamma>'))" using holds_mutexes_rely [OF prems(2) r] by simp
    have eq: "seq_at p = seq_at q \<longleftrightarrow> p = q" using prems(3-5) by (intro seq_at_inject) auto
    have rem: "rem - 1 = of_int (total - (p + 1))" using prems(6) by (simp add: algebra_simps)
    have "safely t (if seq_at p \<noteq> seq_at q
        then read_batch f buffer (seq_at q) (f (item \<gamma> p) acc) (rem - 1) (seq_at p + 1)
        else Return (f (item \<gamma> p) acc, rem - 1, seq_at p + 1)) Q (\<sigma>, \<gamma>')"
    proof (cases "p = q")
      case True
      with post [OF at' [unfolded \<open>p = q\<close>] h] show ?thesis
        unfolding rem by (simp add: seq_at_add_1)
    next
      case False
      then have "safely t (read_batch f buffer (seq_at q) (f (item \<gamma> p) acc) (rem - 1) (seq_at (p + 1))) Q (\<sigma>, \<gamma>')"
        using prems by (intro less.hyps [OF _ at' h _ _ _ rem]) auto
      then show ?thesis using False eq by (simp add: seq_at_add_1)
    qed
    with w g show "\<exists>\<gamma>'. hist \<gamma>' = record_access t (Was_Read t (rb_data buffer) (nat (p mod 2 ^ k))) (hist \<gamma>) \<and>
        guar P t (\<sigma>, \<gamma>) (\<sigma>, \<gamma>') \<and>
        safely t (if seq_at p \<noteq> seq_at q
          then read_batch f buffer (seq_at q) (f (cells \<sigma> (rb_data buffer) (nat (p mod 2 ^ k))) acc) (rem - 1) (seq_at p + 1)
          else Return (f (cells \<sigma> (rb_data buffer) (nat (p mod 2 ^ k))) acc, rem - 1, seq_at p + 1)) Q (\<sigma>, \<gamma>')"
      unfolding c by blast
  qed
qed

lemma safely_barrier_publish:
  assumes "at f a g q (q + 1) acc s" and "holds_mutexes t {} (fst s)" and "g \<le> q"
    and post: "\<And>s. at f a (q + 1) q (q + 1) acc s \<Longrightarrow> holds_mutexes t {} (fst s) \<Longrightarrow> Q () s"
  shows "safely t (barrier_publish barrier (seq_at q)) Q s"
  unfolding barrier_publish_def weakly_safe_store strategy
proof (intro allI impI conjI)
  fix \<sigma> \<gamma> assume r: "rely P t s (\<sigma>, \<gamma>)"
  have at: "at f a g q (q + 1) acc (\<sigma>, \<gamma>)" using assms(1) r by (rule at_rely)
  have h: "holds_mutexes t {} (fst (\<sigma>, \<gamma>))" using assms(2) r by (rule holds_mutexes_rely)
  define \<sigma>' where "\<sigma>' = put (sb_lastPublished barrier) (seq_at q) \<sigma>"
  have publish: "invar P (\<sigma>, \<gamma>)" "ready \<gamma> q" "got \<gamma> \<le> q" using at assms(3) by (simp_all add: at_def)
  note publish = can_publish [OF publish]
  show "ordered t (Store Release (sb_lastPublished barrier) (seq_at q) :: 'd act) (hist \<gamma>)" using publish by blast
  show "okay P t (Store Release (sb_lastPublished barrier) (seq_at q)) (\<sigma>, \<gamma>)" using publish by blast
  obtain \<gamma>' where w: "hist \<gamma>' = store t Release (sb_lastPublished barrier) (seq_at q) (hist \<gamma>)"
    and g: "guar P t (\<sigma>, \<gamma>) (\<sigma>', \<gamma>')" and \<gamma>': "got \<gamma>' = q + 1" "ready \<gamma>' q" "item \<gamma>' = item \<gamma>"
    using publish unfolding \<sigma>'_def by blast
  have at': "at f a (q + 1) q (q + 1) acc (\<sigma>', \<gamma>')"
    using at \<gamma>' guar_inv [OF g] by (simp add: at_def)
  have h': "holds_mutexes t {} (fst (\<sigma>', \<gamma>'))" using h by (simp add: \<sigma>'_def holds_mutexes_def)
  have "safely t (ws_signal_all_when_blocking W) Q (\<sigma>', \<gamma>')"
    using at' h' post
    by (intro safely_waiting [OF signal_waits_only _ at' h' at_waiting, where K = "\<lambda>_ _ _ _. True"])
      (auto simp: at_def stable_waiting_def)
  with w g show "\<exists>\<gamma>'. hist \<gamma>' = store t Release (sb_lastPublished barrier) (seq_at q) (hist \<gamma>) \<and>
      guar P t (\<sigma>, \<gamma>) (put (sb_lastPublished barrier) (seq_at q) \<sigma>, \<gamma>') \<and>
      safely t (ws_signal_all_when_blocking W) Q (put (sb_lastPublished barrier) (seq_at q) \<sigma>, \<gamma>')"
    unfolding \<sigma>'_def by blast
qed

text \<open>The loop, given a wait that returns a ready position which is not before the one asked for.\<close>

theorem safely_consume_loop:
  assumes wait: "\<And>g acc s. at f a g (g - 1) g acc s \<Longrightarrow> holds_mutexes t {} (fst s) \<Longrightarrow> g < total \<Longrightarrow>
      safely t (wait (seq_at g)) (\<lambda>r s. \<exists>q. r = seq_at q \<and> g \<le> q \<and> q - g < 2 ^ 63 \<and>
        at f a g q g acc s \<and> holds_mutexes t {} (fst s)) s"
    and "at f a g (g - 1) g acc s" and "holds_mutexes t {} (fst s)" and "rem = of_int (total - g)"
    and post: "\<And>s acc. at f a total (total - 1) total acc s \<Longrightarrow> Q acc s"
  shows "safely t (consume_loop n wait f buffer barrier acc rem (seq_at g)) Q s"
  using assms(2-4)
proof (induction n arbitrary: g acc rem s)
  have rem: "0 < rem \<longleftrightarrow> g < total" and le: "g \<le> total"
    if "at f a g (g - 1) g acc s" "rem = of_int (total - g)" for g acc s and rem :: "64 word"
  proof -
    have b: "0 \<le> g" "g \<le> total"
      using that(1) got_nonneg [of s] ready_less [of s "g - 1"] by (auto simp: at_def)
    then have "uint rem = total - g"
      using that(2) total by (simp add: unsigned_of_int take_bit_int_eq_self del: of_int_diff)
    then show "0 < rem \<longleftrightarrow> g < total" using b by (simp add: word_less_def)
    show "g \<le> total" by (rule b)
  qed
  {
    case 0
    then show ?case using rem [OF 0(1,3)] le [OF 0(1,3)] post [of acc s] by auto
  next
    case (Suc n)
    show ?case
    proof (cases "g < total")
      case False
      then have "g = total" using le [OF Suc.prems(1,3)] by simp
      then show ?thesis using Suc.prems(1) rem [OF Suc.prems(1,3)] post by simp
    next
      case True
      have read: "safely t (read_batch f buffer (seq_at q) acc rem (seq_at g))
          (\<lambda>x. safely t ((\<lambda>(acc, rem, nextToRead). bind (barrier_publish barrier (seq_at q))
             (\<lambda>_. consume_loop n wait f buffer barrier acc rem nextToRead)) x) Q) s'"
        if q: "g \<le> q" "q - g < 2 ^ 63" "at f a g q g acc s'" "holds_mutexes t {} (fst s')" for q s'
      proof (rule safely_read_batch [OF q(3,4) _ q(1,2) Suc.prems(3)])
        fix acc' s'' assume a: "at f a g q (q + 1) acc' s''" and h: "holds_mutexes t {} (fst s'')"
        have "safely t (barrier_publish barrier (seq_at q))
          (\<lambda>_. safely t (consume_loop n wait f buffer barrier acc' (of_int (total - (q + 1))) (seq_at (q + 1))) Q) s''"
          using Suc.IH [of "q + 1" acc'] by (intro safely_barrier_publish [OF a h q(1)]) auto
        then show "safely t (case (acc', of_int (total - (q + 1)), seq_at (q + 1)) of
            (acc, rem, nextToRead) \<Rightarrow> bind (barrier_publish barrier (seq_at q))
             (\<lambda>_. consume_loop n wait f buffer barrier acc rem nextToRead)) Q s''"
          by (simp add: weakly_safe_bind)
      qed simp
      have "safely t (wait (seq_at g)) (\<lambda>available. safely t
          (bind (read_batch f buffer available acc rem (seq_at g)) (\<lambda>(acc, rem, nextToRead).
             bind (barrier_publish barrier available)
               (\<lambda>_. consume_loop n wait f buffer barrier acc rem nextToRead))) Q) s"
        using wait [OF Suc.prems(1,2) True] by (rule weakly_safe_conseq) (auto simp: weakly_safe_bind read)
      then show ?thesis using True rem [OF Suc.prems(1,3)] by (simp add: weakly_safe_bind)
    qed
  }
qed

end

end
