(* ===== verification/Test_Clients.thy ===== *)
theory Test_Clients
  imports Benchmark_Clients
begin

text \<open>
  The programs of src/test/benchmark.cpp: clients that claim and publish several positions at a
  time.  A writer fills and publishes batches of items until it has written all of them, and
  then one more message that tells the reader to end; the reader handles whatever has been
  published until it has seen that message from every writer.  One run of each program is
  modelled.  A message keeps its type; the time stamps in it, and the table of latencies the
  reader makes of them, are measurement and are left out.

  The result of a reader is the \<open>result\<close> of the code with its \<open>nextToRead\<close>, that of a writer is
  \<open>None\<close>.  A batch size is a template parameter of the code.
\<close>

record message =
  m_type :: "32 word"

definition dead :: message where
  "dead = \<lparr>m_type = 0xdead\<rparr>"

section \<open>The readers\<close>

text \<open>
  \<open>do { auto& message = buffer[nextToRead]; ... } while (nextToRead++ != available);\<close>
  The first argument is what the body does with a message.
\<close>

function read_messages ::
    "('d \<Rightarrow> 'a \<Rightarrow> 'a) \<Rightarrow> ring_buffer \<Rightarrow> sequence_t \<Rightarrow> 'a \<Rightarrow> sequence_t \<Rightarrow> ('d, 'a \<times> sequence_t) prog" where
  "read_messages f buffer available acc nextToRead =
     buffer_read buffer nextToRead (\<lambda>message.
       if nextToRead \<noteq> available then read_messages f buffer available (f message acc) (nextToRead + 1)
       else Return (f message acc, nextToRead + 1))"
  by pat_completeness auto
termination
  by (relation "measure (\<lambda>(f, buffer, available, acc, nextToRead). unat (available - nextToRead))")
    (auto intro: read_batch_decreases)

declare read_messages.simps [simp del]

text \<open>The loop around it, which ends as soon as \<open>stop\<close> holds of what has been made of the messages.\<close>

primrec read_until ::
    "nat \<Rightarrow> ('a \<Rightarrow> bool) \<Rightarrow> (sequence_t \<Rightarrow> ('d, sequence_t) prog) \<Rightarrow> ('d \<Rightarrow> 'a \<Rightarrow> 'a) \<Rightarrow> ring_buffer \<Rightarrow>
     'd sequence_barrier \<Rightarrow> 'a \<Rightarrow> sequence_t \<Rightarrow> ('d, sequence_t) prog" where
  "read_until 0 stop wait f buffer finishedReading acc nextToRead =
     (if stop acc then Return nextToRead else Out_Of_Fuel)"
| "read_until (Suc n) stop wait f buffer finishedReading acc nextToRead =
     (if stop acc then Return nextToRead
      else bind (wait nextToRead) (\<lambda>available.
           assert (0 \<le> difference available nextToRead)
          (bind (read_messages f buffer available acc nextToRead) (\<lambda>(acc, nextToRead).
           bind (barrier_publish finishedReading available) (\<lambda>_.
             read_until n stop wait f buffer finishedReading acc nextToRead)))))"

text \<open>\<open>if (message.m_type == 0xdead) exit = true;\<close> and \<open>--exitCount;\<close>\<close>

definition see_exit :: "message \<Rightarrow> bool \<Rightarrow> bool" where
  "see_exit message exit = (if m_type message = 0xdead then True else exit)"

definition count_exit :: "message \<Rightarrow> int \<Rightarrow> int" where
  "count_exit message exitCount = (if m_type message = 0xdead then exitCount - 1 else exitCount)"

definition st_reader ::
    "nat \<Rightarrow> message single_claim \<Rightarrow> message sequence_barrier \<Rightarrow> ring_buffer \<Rightarrow>
     (message, (64 word \<times> sequence_t) option) prog" where
  "st_reader n claimStrategy finishedReading buffer =
     bind (read_until n (\<lambda>exit. exit) (st_wait_until_published n claimStrategy) see_exit
             buffer finishedReading False 0) (\<lambda>nextToRead.
       let sum = 0 in Return (Some (sum, nextToRead)))"

definition mt_reader ::
    "nat \<Rightarrow> message multi_claim \<Rightarrow> message sequence_barrier \<Rightarrow> ring_buffer \<Rightarrow> int \<Rightarrow>
     (message, (64 word \<times> sequence_t) option) prog" where
  "mt_reader n claimStrategy finishedReading buffer writerCount =
     bind (read_until n (\<lambda>exitCount. \<not> 0 < exitCount)
             (\<lambda>nextToRead. mt_wait_until_published n claimStrategy nextToRead (nextToRead - 1)) count_exit
             buffer finishedReading writerCount 0) (\<lambda>nextToRead.
       let sum = 0 in Return (Some (sum, nextToRead)))"

section \<open>The writers\<close>

text \<open>\<open>while (seq != seqEnd) { auto& item = buffer[seq]; item.m_type = 0; ... ++seq; }\<close>\<close>

function write_items :: "ring_buffer \<Rightarrow> sequence_t \<Rightarrow> sequence_t \<Rightarrow> (message, 'r) prog \<Rightarrow> (message, 'r) prog" where
  "write_items buffer seq seqEnd p =
     (if seq \<noteq> seqEnd then buffer_write buffer seq \<lparr>m_type = 0\<rparr> (write_items buffer (seq + 1) seqEnd p) else p)"
  by pat_completeness auto
termination
  by (relation "measure (\<lambda>(buffer, seq, seqEnd, p). unat (seqEnd - seq))") (auto intro: read_batch_decreases)

declare write_items.simps [simp del]

text \<open>The batches; a writer of batches of one position claims it by \<open>claim_one\<close>.\<close>

definition st_claim_batch ::
    "nat \<Rightarrow> 'd single_claim \<Rightarrow> size_t \<Rightarrow> size_t \<Rightarrow> ('d, sequence_range \<times> 'd single_claim) prog" where
  "st_claim_batch n claimStrategy writerBatchSize remaining =
     (if writerBatchSize = 1
      then bind (st_claim_one n claimStrategy) (\<lambda>(seq, claimStrategy). Return (sequence_range seq 1, claimStrategy))
      else st_claim n claimStrategy (min writerBatchSize remaining))"

primrec st_writer_loop ::
    "nat \<Rightarrow> nat \<Rightarrow> message single_claim \<Rightarrow> ring_buffer \<Rightarrow> size_t \<Rightarrow> size_t \<Rightarrow> (message, message single_claim) prog" where
  "st_writer_loop n 0 claimStrategy buffer writerBatchSize remaining =
     (if 0 < remaining then Out_Of_Fuel else Return claimStrategy)"
| "st_writer_loop n (Suc m) claimStrategy buffer writerBatchSize remaining =
     (if 0 < remaining
      then bind (st_claim_batch n claimStrategy writerBatchSize remaining) (\<lambda>(rng, claimStrategy).
           write_items buffer (range_first rng) (range_end rng)
          (bind (st_publish claimStrategy (range_last rng)) (\<lambda>_.
             st_writer_loop n m claimStrategy buffer writerBatchSize (remaining - range_size rng))))
      else Return claimStrategy)"

definition st_writer ::
    "nat \<Rightarrow> message single_claim \<Rightarrow> ring_buffer \<Rightarrow> size_t \<Rightarrow> size_t \<Rightarrow>
     (message, (64 word \<times> sequence_t) option) prog" where
  "st_writer n claimStrategy buffer writerBatchSize itemCount =
     bind (st_writer_loop n n claimStrategy buffer writerBatchSize itemCount) (\<lambda>claimStrategy.
     bind (st_claim_one n claimStrategy) (\<lambda>(seq, claimStrategy).
       buffer_write buffer seq dead
      (bind (st_publish claimStrategy seq) (\<lambda>_. Return None))))"

definition mt_claim_batch ::
    "nat \<Rightarrow> 'd multi_claim \<Rightarrow> size_t \<Rightarrow> size_t \<Rightarrow> ('d, sequence_range) prog" where
  "mt_claim_batch n claimStrategy writerBatchSize remaining =
     (if writerBatchSize = 1
      then bind (mt_claim_one n claimStrategy) (\<lambda>seq. Return (sequence_range seq 1))
      else mt_claim n claimStrategy (min writerBatchSize remaining))"

primrec mt_writer_loop ::
    "nat \<Rightarrow> nat \<Rightarrow> message multi_claim \<Rightarrow> ring_buffer \<Rightarrow> size_t \<Rightarrow> size_t \<Rightarrow> (message, unit) prog" where
  "mt_writer_loop n 0 claimStrategy buffer writerBatchSize remaining =
     (if 0 < remaining then Out_Of_Fuel else Return ())"
| "mt_writer_loop n (Suc m) claimStrategy buffer writerBatchSize remaining =
     (if 0 < remaining
      then bind (mt_claim_batch n claimStrategy writerBatchSize remaining) (\<lambda>rng.
           write_items buffer (range_first rng) (range_end rng)
          (bind (mt_publish_range claimStrategy rng) (\<lambda>_.
             mt_writer_loop n m claimStrategy buffer writerBatchSize (remaining - range_size rng))))
      else Return ())"

definition mt_writer ::
    "nat \<Rightarrow> message multi_claim \<Rightarrow> ring_buffer \<Rightarrow> size_t \<Rightarrow> size_t \<Rightarrow>
     (message, (64 word \<times> sequence_t) option) prog" where
  "mt_writer n claimStrategy buffer writerBatchSize itemCount =
     bind (mt_writer_loop n n claimStrategy buffer writerBatchSize itemCount) (\<lambda>_.
     bind (mt_claim_one n claimStrategy) (\<lambda>seq.
       buffer_write buffer seq dead
      (bind (mt_publish claimStrategy seq) (\<lambda>_. Return None))))"

section \<open>The set-up and the threads\<close>

text \<open>
  One run with either claim strategy.  Single: thread 0 is the writer, thread 1 the reader; the
  atomic of the claim strategy's read barrier is \<open>Cell 0\<close>.  Multi: thread 0 is the reader, thread
  \<open>Suc w\<close> is writer \<open>w\<close>; the claim counter is \<open>Cell 0\<close>.  The reader's barrier is \<open>Cell 1\<close>, and
  the array \<open>m_published\<close> and the ring buffer have number 0.
\<close>

definition single_test_setup :: "message wait_strategy \<Rightarrow> size_t \<Rightarrow>
    (message, message single_claim \<times> message sequence_barrier \<times> ring_buffer) prog" where
  "single_test_setup waitStrategy bufferSize =
     bind (new_single_claim bufferSize waitStrategy (Cell 0)) (\<lambda>claimStrategy.
     bind (new_sequence_barrier waitStrategy (Cell 1)) (\<lambda>finishedReading.
     bind (st_add_claim_barrier claimStrategy finishedReading) (\<lambda>claimStrategy.
     bind (new_ring_buffer bufferSize 0) (\<lambda>buffer.
       Return (claimStrategy, finishedReading, buffer)))))"

definition single_test_threads ::
    "nat \<Rightarrow> message single_claim \<times> message sequence_barrier \<times> ring_buffer \<Rightarrow> size_t \<Rightarrow> size_t \<Rightarrow>
     nat \<Rightarrow> (message, (64 word \<times> sequence_t) option) prog" where
  "single_test_threads n objects writerBatchSize itemCount =
     (case objects of (claimStrategy, finishedReading, buffer) \<Rightarrow>
       (\<lambda>thread. Return None)
         (0 := st_writer n claimStrategy buffer writerBatchSize itemCount,
          1 := st_reader n claimStrategy finishedReading buffer))"

definition multi_test_setup :: "message wait_strategy \<Rightarrow> size_t \<Rightarrow>
    (message, message multi_claim \<times> message sequence_barrier \<times> ring_buffer) prog" where
  "multi_test_setup waitStrategy bufferSize =
     bind (new_multi_claim bufferSize waitStrategy 0 (Cell 0)) (\<lambda>claimStrategy.
     bind (new_sequence_barrier waitStrategy (Cell 1)) (\<lambda>finishedReading.
     bind (mt_add_claim_barrier claimStrategy finishedReading) (\<lambda>claimStrategy.
     bind (new_ring_buffer bufferSize 0) (\<lambda>buffer.
       Return (claimStrategy, finishedReading, buffer)))))"

definition multi_test_threads ::
    "nat \<Rightarrow> message multi_claim \<times> message sequence_barrier \<times> ring_buffer \<Rightarrow> nat \<Rightarrow> size_t \<Rightarrow> size_t \<Rightarrow>
     nat \<Rightarrow> (message, (64 word \<times> sequence_t) option) prog" where
  "multi_test_threads n objects writerCount writerBatchSize itemCount thread =
     (case objects of (claimStrategy, finishedReading, buffer) \<Rightarrow>
        if thread = 0 then mt_reader n claimStrategy finishedReading buffer (int writerCount)
        else if thread \<le> writerCount then mt_writer n claimStrategy buffer writerBatchSize itemCount
        else Return None)"

end
