(* ===== verification/Message_Reader.thy ===== *)
theory Message_Reader
  imports Reader Test_Clients
begin

text \<open>
  A reader of messages under any protocol that lets it read: the loop of the readers of
  src/test/benchmark.cpp, which does not count the items but ends when it has seen the last
  messages, handles all messages up to these, in order, and no more.
\<close>

text \<open>The inner loop is that of a consumer, without the count.\<close>

lemma read_messages_batch:
  "read_messages f buffer available acc p =
     bind (read_batch f buffer available acc rem p) (\<lambda>(acc, rem, p). Return (acc, p))"
proof (induction f buffer available acc p arbitrary: rem rule: read_messages.induct)
  case (1 f buffer available acc p)
  have "read_messages f buffer available (f message acc) (p + 1) =
      bind (read_batch f buffer available (f message acc) (rem - 1) (p + 1)) (\<lambda>(acc, rem, p). Return (acc, p))"
    if "p \<noteq> available" for message
    using that by (rule 1)
  then show ?case
    unfolding read_messages.simps [of f buffer available acc p] read_batch.simps [of f buffer available acc rem p]
    by (cases "p = available") (simp_all add: buffer_read_def read_data_def)
qed

context reader
begin

theorem safely_read_until:
  assumes wait: "\<And>g acc s. at f a g (g - 1) g acc s \<Longrightarrow> holds_mutexes t {} (fst s) \<Longrightarrow> g < total \<Longrightarrow>
      safely t (wait (seq_at g)) (\<lambda>r s. \<exists>q. r = seq_at q \<and> g \<le> q \<and> q - g < 2 ^ 63 \<and>
        at f a g q g acc s \<and> holds_mutexes t {} (fst s)) s"
    and stop: "\<And>g acc s. at f a g (g - 1) g acc s \<Longrightarrow> stop acc \<longleftrightarrow> g = total"
    and "at f a g (g - 1) g acc s" and "holds_mutexes t {} (fst s)"
    and post: "\<And>s acc. at f a total (total - 1) total acc s \<Longrightarrow> Q (seq_at total) s"
  shows "safely t (read_until n stop wait f buffer barrier acc (seq_at g)) Q s"
  using assms(3,4)
proof (induction n arbitrary: g acc s)
  have ends: "safely t (Return (seq_at g)) Q s" if "at f a g (g - 1) g acc s" "stop acc" for g acc s
    using that stop [OF that(1)] post [of acc s] by auto
  {
    case 0
    then show ?case using ends by simp
  next
    case (Suc n)
    show ?case
    proof (cases "stop acc")
      case True
      with ends [OF Suc.prems(1) True] show ?thesis by simp
    next
      case False
      have "g \<le> total" using Suc.prems(1) ready_less [of s "g - 1"] by (auto simp: at_def)
      with False stop [OF Suc.prems(1)] have less: "g < total" by auto
      have step: "safely t (assert (0 \<le> difference (seq_at q) (seq_at g))
          (bind (read_messages f buffer (seq_at q) acc (seq_at g)) (\<lambda>(acc, nextToRead).
           bind (barrier_publish barrier (seq_at q)) (\<lambda>_.
             read_until n stop wait f buffer barrier acc nextToRead)))) Q s'"
        if q: "g \<le> q" "q - g < 2 ^ 63" "at f a g q g acc s'" "holds_mutexes t {} (fst s')" for q s'
      proof -
        have d: "0 \<le> difference (seq_at q) (seq_at g)" using q(1,2) by (subst difference_seq_at) auto
        have "safely t (read_batch f buffer (seq_at q) acc (of_int (total - g)) (seq_at g))
            (\<lambda>x. safely t ((\<lambda>(acc, rem, nextToRead). bind (barrier_publish barrier (seq_at q))
               (\<lambda>_. read_until n stop wait f buffer barrier acc nextToRead)) x) Q) s'"
        proof (rule safely_read_batch [OF q(3,4) _ q(1,2) refl])
          fix acc' s'' assume a: "at f a g q (q + 1) acc' s''" and h: "holds_mutexes t {} (fst s'')"
          have "safely t (barrier_publish barrier (seq_at q))
            (\<lambda>_. safely t (read_until n stop wait f buffer barrier acc' (seq_at (q + 1))) Q) s''"
            using Suc.IH [of "q + 1" acc'] by (intro safely_barrier_publish [OF a h q(1)]) auto
          then show "safely t (case (acc', of_int (total - (q + 1)), seq_at (q + 1)) of
              (acc, rem, nextToRead) \<Rightarrow> bind (barrier_publish barrier (seq_at q))
               (\<lambda>_. read_until n stop wait f buffer barrier acc nextToRead)) Q s''"
            by (simp add: weakly_safe_bind)
        qed simp
        then show ?thesis
          using d by (simp add: assert_def weakly_safe_bind case_prod_unfold
              read_messages_batch [where rem = "of_int (total - g)"])
      qed
      have "safely t (wait (seq_at g)) (\<lambda>available. safely t (assert (0 \<le> difference available (seq_at g))
          (bind (read_messages f buffer available acc (seq_at g)) (\<lambda>(acc, nextToRead).
           bind (barrier_publish barrier available) (\<lambda>_.
             read_until n stop wait f buffer barrier acc nextToRead)))) Q) s"
        using wait [OF Suc.prems less] by (rule weakly_safe_conseq) (elim exE conjE, simp only: step)
      then show ?thesis using False by (simp add: weakly_safe_bind)
    qed
  }
qed

end

end
