(* ===== verification/Happens_Before.thy ===== *)
theory Happens_Before
  imports Weak_Protocols
begin

text \<open>
  The vocabulary in which the protocols speak of the history: each entry of it is an event at a
  position, and what a view knows is a set of events.  A set of events is settled when no more
  of it will happen, so that who knows them all goes on doing so.
\<close>

section \<open>Events\<close>

text \<open>
  The item of a position is written, and published; consumer \<open>c\<close> reads it, and gives it back.
  \<open>Taken p\<close> is the claim of a position, where several producers compete for it.
\<close>

datatype event = Wrote int | Published int | Read_By nat int | Given_By nat int | Taken int

primrec position :: "event \<Rightarrow> int" where
  "position (Wrote p) = p"
| "position (Published p) = p"
| "position (Read_By c p) = p"
| "position (Given_By c p) = p"
| "position (Taken p) = p"

text \<open>The events up to a position, of the producers and of the consumers \<open>U\<close>.\<close>

fun upto_by :: "nat set \<Rightarrow> int \<Rightarrow> event \<Rightarrow> bool" where
  "upto_by U p (Read_By c q) \<longleftrightarrow> c \<in> U \<and> q \<le> p"
| "upto_by U p (Given_By c q) \<longleftrightarrow> c \<in> U \<and> q \<le> p"
| "upto_by U p (Wrote q) \<longleftrightarrow> q \<le> p"
| "upto_by U p (Published q) \<longleftrightarrow> q \<le> p"
| "upto_by U p (Taken q) \<longleftrightarrow> False"

definition events_upto :: "nat set \<Rightarrow> int \<Rightarrow> event set" where
  "events_upto U p = {e. upto_by U p e}"

lemma events_upto_mono: "U \<subseteq> U' \<Longrightarrow> p \<le> p' \<Longrightarrow> events_upto U p \<subseteq> events_upto U' p'"
proof
  fix e assume "U \<subseteq> U'" "p \<le> p'" "e \<in> events_upto U p"
  then show "e \<in> events_upto U' p'" by (cases e) (auto simp: events_upto_def)
qed

lemma in_events_upto [simp]:
  "Read_By c q \<in> events_upto U p \<longleftrightarrow> c \<in> U \<and> q \<le> p" "Given_By c q \<in> events_upto U p \<longleftrightarrow> c \<in> U \<and> q \<le> p"
  "Wrote q \<in> events_upto U p \<longleftrightarrow> q \<le> p" "Published q \<in> events_upto U p \<longleftrightarrow> q \<le> p" "Taken q \<notin> events_upto U p"
  by (simp_all add: events_upto_def)

text \<open>
  What is known of position \<open>p\<close> at a stage behind the consumers \<open>U\<close>, when the buffer has \<open>n\<close> slots:
  all that these did up to \<open>p\<close>, and all that anybody did up to one buffer before \<open>p\<close>.
\<close>

definition known_at :: "nat set \<Rightarrow> int \<Rightarrow> nat set \<Rightarrow> int \<Rightarrow> event set" where
  "known_at C n U p = events_upto U p \<union> events_upto C (p - n)"

lemma known_at_mono: "U \<subseteq> U' \<Longrightarrow> p \<le> p' \<Longrightarrow> known_at C n U p \<subseteq> known_at C n U' p'"
  unfolding known_at_def by (intro Un_mono events_upto_mono) auto

lemma in_known_at [simp]:
  "Read_By c q \<in> known_at C n U p \<longleftrightarrow> c \<in> U \<and> q \<le> p \<or> c \<in> C \<and> q \<le> p - n"
  "Given_By c q \<in> known_at C n U p \<longleftrightarrow> c \<in> U \<and> q \<le> p \<or> c \<in> C \<and> q \<le> p - n"
  "Wrote q \<in> known_at C n U p \<longleftrightarrow> q \<le> p \<or> q \<le> p - n" "Published q \<in> known_at C n U p \<longleftrightarrow> q \<le> p \<or> q \<le> p - n"
  "Taken q \<notin> known_at C n U p"
  by (simp_all add: known_at_def)

section \<open>Knowledge\<close>

text \<open>The events of the history are \<open>es\<close>; the view \<open>V\<close> has all of them that are in \<open>E\<close>.\<close>

definition knows :: "event list \<Rightarrow> nat set \<Rightarrow> event set \<Rightarrow> bool" where
  "knows es V E \<longleftrightarrow> (\<forall>n < length es. es ! n \<in> E \<longrightarrow> n \<in> V)"

lemma knowsD: "knows es V E \<Longrightarrow> n < length es \<Longrightarrow> es ! n \<in> E \<Longrightarrow> n \<in> V"
  by (simp add: knows_def)

lemma knows_mono: "knows es V E \<Longrightarrow> V \<subseteq> V' \<Longrightarrow> E' \<subseteq> E \<Longrightarrow> knows es V' E'"
  by (auto simp: knows_def)

lemma knows_view: "knows es V E \<Longrightarrow> V \<subseteq> V' \<Longrightarrow> knows es V' E"
  by (rule knows_mono) auto

lemma knows_Un: "knows es V (E \<union> E') \<longleftrightarrow> knows es V E \<and> knows es V E'"
  by (auto simp: knows_def)

lemma knows_append: "set new \<inter> E = {} \<Longrightarrow> knows (es @ new) V E \<longleftrightarrow> knows es V E"
  by (auto simp: knows_def nth_append disjoint_iff)

lemma knows_snoc: "knows (es @ [e]) V E \<longleftrightarrow> knows es V E \<and> (e \<in> E \<longrightarrow> length es \<in> V)"
  by (auto simp: knows_def nth_append less_Suc_eq)

text \<open>The history goes on without events of \<open>E\<close>.\<close>

definition goes_on :: "event set \<Rightarrow> event list \<Rightarrow> event list \<Rightarrow> bool" where
  "goes_on E es es' \<longleftrightarrow> (\<exists>new. es' = es @ new \<and> set new \<inter> E = {})"

lemma goes_on_refl: "goes_on E es es"
  by (auto simp: goes_on_def)

lemma goes_on_snoc: "e \<notin> E \<Longrightarrow> goes_on E es (es @ [e])"
  by (auto simp: goes_on_def)

lemma goes_on_trans:
  assumes "goes_on E es es'" "goes_on E' es' es''" "E \<subseteq> E'"
  shows "goes_on E es es''"
proof -
  obtain new new' where "es' = es @ new" "es'' = es' @ new'" "set new \<inter> E = {}" "set new' \<inter> E' = {}"
    using assms(1,2) unfolding goes_on_def by blast
  then have "es'' = es @ (new @ new')" "set (new @ new') \<inter> E = {}" using assms(3) by auto
  then show ?thesis unfolding goes_on_def by blast
qed

lemma goes_on_knows: "goes_on E es es' \<Longrightarrow> knows es V E' \<Longrightarrow> E' \<subseteq> E \<Longrightarrow> knows es' V E'"
  unfolding goes_on_def using knows_append [of _ E' es V] by (metis disjoint_iff subset_iff)

lemma goes_on_length: "goes_on E es es' \<Longrightarrow> length es \<le> length es'"
  by (auto simp: goes_on_def)

lemma goes_on_nth: "goes_on E es es' \<Longrightarrow> n < length es \<Longrightarrow> es' ! n = es ! n"
  by (auto simp: goes_on_def nth_append)

end
