(* ===== verification/Single_Producer.thy ===== *)
theory Single_Producer
  imports Message_Reader Happens_Before
begin

text \<open>
  The protocol of a disruptor with one producer and any acyclic arrangement of consumers.
  Thread 0 is the producer; a consumer is named by its thread number.  The ghost state is
  the number of positions published and, for each consumer, the number of positions it has
  given back; and the history of the weak machine with the event that each entry of it is.
\<close>

section \<open>The arrangement and the protocol\<close>

text \<open>
  The buffer has \<open>2 ^ k\<close> slots.  A consumer waits for the consumers \<open>upstream\<close> of it, or for the
  producer when there are none; the producer waits for the \<open>gates\<close>.
\<close>

record 'd arrangement =
  ar_bits :: nat
  ar_array :: nat
  ar_cursor :: addr
  ar_barrier :: "nat \<Rightarrow> addr"
  ar_consumers :: "nat set"
  ar_upstream :: "nat \<Rightarrow> nat set"
  ar_gates :: "nat set"
  ar_total :: int
  ar_item :: "int \<Rightarrow> 'd"

definition downstream :: "'d arrangement \<Rightarrow> (nat \<times> nat) set" where
  "downstream T = {(u, c). c \<in> ar_consumers T \<and> u \<in> ar_upstream T c}"

text \<open>Every consumer has a gate downstream of it, so that the producer waits for all of them.\<close>

definition well_arranged :: "'d arrangement \<Rightarrow> bool" where
  "well_arranged T \<longleftrightarrow> ar_bits T \<le> 62 \<and> ar_total T < 2 ^ 64 \<and> 0 \<notin> ar_consumers T \<and>
     (\<forall>c \<in> ar_consumers T. ar_barrier T c \<noteq> ar_cursor T) \<and> inj_on (ar_barrier T) (ar_consumers T) \<and>
     (\<forall>c \<in> ar_consumers T. ar_upstream T c \<subseteq> ar_consumers T) \<and> ar_gates T \<subseteq> ar_consumers T \<and>
     (\<forall>c \<in> ar_consumers T. \<exists>g \<in> ar_gates T. (c, g) \<in> (downstream T)\<^sup>*)"

lemma well_arranged_gate:
  "well_arranged T \<Longrightarrow> c \<in> ar_consumers T \<Longrightarrow> \<exists>g \<in> ar_gates T. (c, g) \<in> (downstream T)\<^sup>*"
  by (simp add: well_arranged_def)

lemma well_arranged_consumer: "well_arranged T \<Longrightarrow> c \<in> ar_consumers T \<Longrightarrow> c \<noteq> 0"
  by (metis well_arranged_def)

lemma well_arranged_upstream: "well_arranged T \<Longrightarrow> c \<in> ar_consumers T \<Longrightarrow> ar_upstream T c \<subseteq> ar_consumers T"
  by (simp add: well_arranged_def)

record progress =
  pub :: int
  got :: "nat \<Rightarrow> int"
  hist :: memory
  events :: "event list"

definition ar_slot :: "'d arrangement \<Rightarrow> int \<Rightarrow> nat" where
  "ar_slot T p = nat (p mod 2 ^ ar_bits T)"

text \<open>
  The first part of the invariant: the atomics hold the progress; no consumer is ahead of those
  upstream of it or of the producer, or a whole buffer behind the producer; a published item
  that some consumer has not given back is still in its slot.
\<close>

definition sp_data :: "'d arrangement \<Rightarrow> 'd mach \<times> progress \<Rightarrow> bool" where
  "sp_data T s \<longleftrightarrow> (case s of (\<sigma>, \<gamma>) \<Rightarrow>
     0 \<le> pub \<gamma> \<and> pub \<gamma> \<le> ar_total T \<and> mem \<sigma> (ar_cursor T) = seq_at (pub \<gamma> - 1) \<and>
     (\<forall>c \<in> ar_consumers T. mem \<sigma> (ar_barrier T c) = seq_at (got \<gamma> c - 1) \<and>
        0 \<le> got \<gamma> c \<and> got \<gamma> c \<le> pub \<gamma> \<and> pub \<gamma> \<le> got \<gamma> c + 2 ^ ar_bits T \<and>
        (\<forall>u \<in> ar_upstream T c. got \<gamma> c \<le> got \<gamma> u) \<and>
        (\<forall>p. got \<gamma> c \<le> p \<longrightarrow> p < pub \<gamma> \<longrightarrow> cells \<sigma> (ar_array T) (ar_slot T p) = ar_item T p)))"

text \<open>The consumers up to a stage: those that a consumer is downstream of, and itself.\<close>

definition sp_stage :: "'d arrangement \<Rightarrow> nat \<Rightarrow> nat set" where
  "sp_stage T c = {d. (d, c) \<in> (downstream T)\<^sup>*}"

definition sp_known :: "'d arrangement \<Rightarrow> nat set \<Rightarrow> int \<Rightarrow> event set" where
  "sp_known T U p = known_at (ar_consumers T) (2 ^ ar_bits T) U p"

text \<open>What each entry of the history is, and what the stores pass on.\<close>

fun sp_entry :: "'d arrangement \<Rightarrow> progress \<Rightarrow> event \<Rightarrow> access \<Rightarrow> bool" where
  "sp_entry T \<gamma> (Wrote p) x \<longleftrightarrow> x = Written 0 (ar_array T) (ar_slot T p) \<and> 0 \<le> p \<and>
     (\<forall>c \<in> ar_consumers T. p < got \<gamma> c + 2 ^ ar_bits T)"
| "sp_entry T \<gamma> (Read_By c p) x \<longleftrightarrow> x = Was_Read c (ar_array T) (ar_slot T p) \<and>
     c \<in> ar_consumers T \<and> 0 \<le> p \<and> p < pub \<gamma>"
| "sp_entry T \<gamma> (Published p) x \<longleftrightarrow> 0 \<le> p \<and> p < pub \<gamma> \<and>
     (\<exists>V. x = Stored 0 (ar_cursor T) (seq_at p) False V \<and> knows (events \<gamma>) V (sp_known T {} p))"
| "sp_entry T \<gamma> (Given_By c p) x \<longleftrightarrow> c \<in> ar_consumers T \<and> 0 \<le> p \<and> p < got \<gamma> c \<and>
     (\<exists>V. x = Stored c (ar_barrier T c) (seq_at p) False V \<and> knows (events \<gamma>) V (sp_known T (sp_stage T c) p))"
| "sp_entry T \<gamma> (Taken p) x \<longleftrightarrow> False"

fun sp_stores :: "'d arrangement \<Rightarrow> addr \<Rightarrow> event \<Rightarrow> bool" where
  "sp_stores T a (Published p) \<longleftrightarrow> a = ar_cursor T"
| "sp_stores T a (Given_By c p) \<longleftrightarrow> c \<in> ar_consumers T \<and> a = ar_barrier T c"
| "sp_stores T a e \<longleftrightarrow> False"

text \<open>
  The second part of the invariant: every access has been one of these events, and each atomic
  was only ever moved on.
\<close>

definition sp_history :: "'d arrangement \<Rightarrow> progress \<Rightarrow> bool" where
  "sp_history T \<gamma> \<longleftrightarrow> list_all2 (sp_entry T \<gamma>) (events \<gamma>) (history (hist \<gamma>)) \<and>
     sorted_wrt (\<lambda>e e'. \<forall>a. sp_stores T a e \<longrightarrow> sp_stores T a e' \<longrightarrow> position e < position e') (events \<gamma>) \<and>
     base (hist \<gamma>) (ar_cursor T) = seq_at (- 1) \<and>
     (\<forall>c \<in> ar_consumers T. base (hist \<gamma>) (ar_barrier T c) = seq_at (- 1))"

definition sp_inv :: "'d arrangement \<Rightarrow> 'd mach \<times> progress \<Rightarrow> bool" where
  "sp_inv T s \<longleftrightarrow> sp_data T s \<and> coherent (fst s) (hist (snd s)) \<and> sp_history T (snd s)"

text \<open>What will not happen any more.\<close>

fun sp_settled :: "'d arrangement \<Rightarrow> progress \<Rightarrow> event \<Rightarrow> bool" where
  "sp_settled T \<gamma> (Wrote p) \<longleftrightarrow> p < pub \<gamma>"
| "sp_settled T \<gamma> (Published p) \<longleftrightarrow> p < pub \<gamma>"
| "sp_settled T \<gamma> (Read_By c p) \<longleftrightarrow> (c \<in> ar_consumers T \<longrightarrow> p < got \<gamma> c)"
| "sp_settled T \<gamma> (Given_By c p) \<longleftrightarrow> (c \<in> ar_consumers T \<longrightarrow> p < got \<gamma> c)"
| "sp_settled T \<gamma> (Taken p) \<longleftrightarrow> True"

definition sp_rely :: "'d arrangement \<Rightarrow> nat \<Rightarrow> 'd mach \<times> progress \<Rightarrow> 'd mach \<times> progress \<Rightarrow> bool" where
  "sp_rely T t s s' \<longleftrightarrow> (sp_inv T s \<longrightarrow> sp_inv T s') \<and>
     pub (snd s) \<le> pub (snd s') \<and> (\<forall>c. got (snd s) c \<le> got (snd s') c) \<and>
     (t = 0 \<longrightarrow> pub (snd s') = pub (snd s) \<and> cells (fst s') (ar_array T) = cells (fst s) (ar_array T)) \<and>
     got (snd s') t = got (snd s) t \<and>
     goes_on (Collect (sp_settled T (snd s))) (events (snd s)) (events (snd s')) \<and>
     seen (hist (snd s')) t = seen (hist (snd s)) t \<and>
     (\<forall>m. owner (fst s') m = Some t \<longleftrightarrow> owner (fst s) m = Some t)"

text \<open>
  The accesses that are allowed: a consumer reads published items it has not given back,
  the producer writes the slots of the next items when no consumer needs them any more, and
  each publishes its own progress only, by a release store, and only when it has made some.
\<close>

fun sp_okay :: "'d arrangement \<Rightarrow> nat \<Rightarrow> 'd act \<Rightarrow> 'd mach \<times> progress \<Rightarrow> bool" where
  "sp_okay T t (Read b i) (\<sigma>, \<gamma>) \<longleftrightarrow> b = ar_array T \<and> t \<in> ar_consumers T \<and>
     (\<exists>p. i = ar_slot T p \<and> got \<gamma> t \<le> p \<and> p < pub \<gamma>)"
| "sp_okay T t (Write b i x) (\<sigma>, \<gamma>) \<longleftrightarrow> b = ar_array T \<and> t = 0 \<and>
     (\<exists>p \<ge> pub \<gamma>. i = ar_slot T p \<and> (\<forall>c \<in> ar_consumers T. p < got \<gamma> c + 2 ^ ar_bits T))"
| "sp_okay T t (Store ord a v) (\<sigma>, \<gamma>) \<longleftrightarrow> ord = Release \<and> v \<noteq> mem \<sigma> a \<and>
     (if t = 0 then a = ar_cursor T else t \<in> ar_consumers T \<and> a = ar_barrier T t)"
| "sp_okay T t (Init a v) s \<longleftrightarrow> False"
| "sp_okay T t (Fetch_Add ord a v) s \<longleftrightarrow> False"
| "sp_okay T t (Cas_Weak o1 o2 a e d) s \<longleftrightarrow> False"
| "sp_okay T t c s \<longleftrightarrow> True"

definition sp_protocol :: "'d arrangement \<Rightarrow> ('d, progress) protocol" where
  "sp_protocol T = \<lparr>rely = sp_rely T, guar = (\<lambda>t s s'. \<forall>u. u \<noteq> t \<longrightarrow> sp_rely T u s s'),
     okay = sp_okay T, invar = sp_inv T\<rparr>"

lemma sp_protocol_select [simp]:
  "rely (sp_protocol T) = sp_rely T" "okay (sp_protocol T) = sp_okay T" "invar (sp_protocol T) = sp_inv T"
  "guar (sp_protocol T) t s s' \<longleftrightarrow> (\<forall>u. u \<noteq> t \<longrightarrow> sp_rely T u s s')"
  by (simp_all add: sp_protocol_def)

lemma sp_inv_sync:
  assumes "sp_inv T (\<sigma>, \<gamma>)" "mem \<sigma>' = mem \<sigma>" "cells \<sigma>' = cells \<sigma>" "only_sees t (hist \<gamma>) \<omega>"
  shows "sp_inv T (\<sigma>', \<gamma>\<lparr>hist := \<omega>\<rparr>)"
proof -
  have "sp_entry T (\<gamma>\<lparr>hist := \<omega>\<rparr>) e x \<longleftrightarrow> sp_entry T \<gamma> e x" for e x by (cases e) simp_all
  then have e: "sp_entry T (\<gamma>\<lparr>hist := \<omega>\<rparr>) = sp_entry T \<gamma>" by (simp add: fun_eq_iff)
  have "base \<omega> = base (hist \<gamma>)" "history \<omega> = history (hist \<gamma>)" using assms(4) by (simp_all add: only_sees_def)
  then have "sp_history T (\<gamma>\<lparr>hist := \<omega>\<rparr>)"
    using assms(1) unfolding sp_history_def sp_inv_def e by simp
  then show ?thesis
    using assms coherent_only_sees [of \<sigma> "hist \<gamma>" t \<omega> \<sigma>'] by (simp add: sp_inv_def sp_data_def)
qed

lemma sp_okay_waiting: "waiting_act c h = Some h' \<Longrightarrow> sp_okay T t c s"
  by (cases c; cases s) (auto split: if_splits)

lemma sp_settled_mono:
  assumes "pub \<gamma> \<le> pub \<gamma>'" "\<And>c. got \<gamma> c \<le> got \<gamma>' c"
  shows "Collect (sp_settled T \<gamma>) \<subseteq> Collect (sp_settled T \<gamma>')"
proof
  fix e assume "e \<in> Collect (sp_settled T \<gamma>)"
  then show "e \<in> Collect (sp_settled T \<gamma>')" by (cases e) (auto intro: assms less_le_trans)
qed

lemma sp_rely_trans:
  assumes 1: "sp_rely T t s s'" and 2: "sp_rely T t s' s''"
  shows "sp_rely T t s s''"
  unfolding sp_rely_def
proof (intro conjI allI)
  show "got (snd s) c \<le> got (snd s'') c" for c
    using 1 2 order_trans [of "got (snd s) c" "got (snd s') c" "got (snd s'') c"] by (simp add: sp_rely_def)
  have "Collect (sp_settled T (snd s)) \<subseteq> Collect (sp_settled T (snd s'))"
    using 1 by (intro sp_settled_mono) (simp_all add: sp_rely_def)
  with 1 2 show "goes_on (Collect (sp_settled T (snd s))) (events (snd s)) (events (snd s''))"
    by (auto simp: sp_rely_def intro: goes_on_trans)
qed (use 1 2 in \<open>simp_all add: sp_rely_def\<close>)

interpretation sp: weak_protocol "sp_protocol T" hist "\<lambda>\<omega> \<gamma>. \<gamma>\<lparr>hist := \<omega>\<rparr>" for T :: "'d arrangement"
proof unfold_locales
  fix t s s' s'' and u :: nat
  show "rely (sp_protocol T) t s s" by (simp add: sp_rely_def goes_on_refl)
  show "rely (sp_protocol T) t s s''" if "rely (sp_protocol T) t s s'" "rely (sp_protocol T) t s' s''"
    using that sp_rely_trans by simp blast
  show "invar (sp_protocol T) s'" if "rely (sp_protocol T) t s s'" "invar (sp_protocol T) s"
    using that by (simp add: sp_rely_def)
  show "invar (sp_protocol T) s'" if g: "guar (sp_protocol T) t s s'" and i: "invar (sp_protocol T) s"
  proof -
    have "sp_rely T (Suc t) s s'" using g by simp
    with i show ?thesis by (simp add: sp_rely_def)
  qed
  show "rely (sp_protocol T) u s s'" if "t \<noteq> u" "guar (sp_protocol T) t s s'"
    using that by simp
next
  show "hist (\<gamma>\<lparr>hist := \<omega>\<rparr>) = \<omega>" for \<omega> and \<gamma> :: progress by simp
  show "coherent \<sigma> (hist \<gamma>)" if "invar (sp_protocol T) (\<sigma>, \<gamma>)" for \<sigma> \<gamma>
    using that by (simp add: sp_inv_def)
next
  fix \<sigma> \<gamma> t \<sigma>' \<omega>
  assume "invar (sp_protocol T) (\<sigma>, \<gamma>)" and o: "only_sync t \<sigma> \<sigma>'" "only_sees t (hist \<gamma>) \<omega>"
  then have "sp_inv T (\<sigma>', \<gamma>\<lparr>hist := \<omega>\<rparr>)"
    by (intro sp_inv_sync) (simp_all add: only_sync_def)
  then show "guar (sp_protocol T) t (\<sigma>, \<gamma>) (\<sigma>', \<gamma>\<lparr>hist := \<omega>\<rparr>)"
    using o by (simp add: sp_rely_def only_sync_def only_sees_def goes_on_refl)
next
  fix c h h' t s
  show "okay (sp_protocol T) t c s" if "waiting_act c h = Some h'"
    using sp_okay_waiting [OF that] by simp
next
  fix t s s' m
  show "owner (fst s') m = Some t \<longleftrightarrow> owner (fst s) m = Some t" if "rely (sp_protocol T) t s s'"
    using that by (simp add: sp_rely_def)
qed

text \<open>No two threads can be about to access the same slot when one of them writes.\<close>

lemma sp_no_race:
  assumes "sp_inv T (\<sigma>, \<gamma>)" "t \<noteq> u" "sp_okay T t (Write b i x) (\<sigma>, \<gamma>)"
  shows "\<not> sp_okay T u (Read b i) (\<sigma>, \<gamma>)" and "\<not> sp_okay T u (Write b i y) (\<sigma>, \<gamma>)"
proof -
  show "\<not> sp_okay T u (Read b i) (\<sigma>, \<gamma>)"
  proof
    assume r: "sp_okay T u (Read b i) (\<sigma>, \<gamma>)"
    then obtain p where p: "i = ar_slot T p" "got \<gamma> u \<le> p" "p < pub \<gamma>" and u: "u \<in> ar_consumers T"
      by auto
    obtain w where w: "pub \<gamma> \<le> w" "i = ar_slot T w" "w < got \<gamma> u + 2 ^ ar_bits T"
      using assms(3) u by auto
    have "p mod 2 ^ ar_bits T = w mod 2 ^ ar_bits T"
      using p(1) w(2) by (auto simp: ar_slot_def nat_eq_iff2 split: if_splits)
    moreover have "\<bar>p - w\<bar> < 2 ^ ar_bits T" using p(2,3) w(1,3) by linarith
    ultimately have "p = w" by (rule mod_window_inj)
    with p(3) w(1) show False by simp
  qed
  show "\<not> sp_okay T u (Write b i y) (\<sigma>, \<gamma>)" using assms by auto
qed

interpretation sp_pool: weak_race_free_protocol "sp_protocol T" hist "\<lambda>\<omega> \<gamma>. \<gamma>\<lparr>hist := \<omega>\<rparr>" for T :: "'d arrangement"
proof unfold_locales
  fix t u b i x y and s :: "'d mach \<times> progress"
  obtain \<sigma> \<gamma> where s: "s = (\<sigma>, \<gamma>)" by (cases s)
  assume "invar (sp_protocol T) s" "t \<noteq> u" "okay (sp_protocol T) t (Write b i x) s"
  then show "\<not> okay (sp_protocol T) u (Read b i) s \<and> \<not> okay (sp_protocol T) u (Write b i y) s"
    using sp_no_race [of T \<sigma> \<gamma> t u b i x] unfolding s sp_protocol_select by blast
qed

section \<open>The history\<close>

lemma in_sp_known [simp]:
  "Read_By c q \<in> sp_known T U p \<longleftrightarrow> c \<in> U \<and> q \<le> p \<or> c \<in> ar_consumers T \<and> q \<le> p - 2 ^ ar_bits T"
  "Given_By c q \<in> sp_known T U p \<longleftrightarrow> c \<in> U \<and> q \<le> p \<or> c \<in> ar_consumers T \<and> q \<le> p - 2 ^ ar_bits T"
  "Wrote q \<in> sp_known T U p \<longleftrightarrow> q \<le> p" "Published q \<in> sp_known T U p \<longleftrightarrow> q \<le> p" "Taken q \<notin> sp_known T U p"
proof -
  have "(0 :: int) < 2 ^ ar_bits T" by simp
  then show "Wrote q \<in> sp_known T U p \<longleftrightarrow> q \<le> p" "Published q \<in> sp_known T U p \<longleftrightarrow> q \<le> p"
    unfolding sp_known_def in_known_at by linarith+
qed (simp_all add: sp_known_def)

lemma sp_known_mono: "p \<le> p' \<Longrightarrow> sp_known T U p \<subseteq> sp_known T U p'"
  unfolding sp_known_def by (intro known_at_mono) simp_all

text \<open>A consumer is never behind the gate downstream of it.\<close>

lemma sp_gate_behind:
  assumes "sp_data T (\<sigma>, \<gamma>)" "(c, g) \<in> (downstream T)\<^sup>*"
  shows "got \<gamma> g \<le> got \<gamma> c"
  using assms(2)
proof (induction rule: rtrancl_induct)
  case (step u d)
  then have "got \<gamma> d \<le> got \<gamma> u" using assms(1) by (auto simp: downstream_def sp_data_def)
  with step.IH show ?case by simp
qed simp

text \<open>What the stores pass on is settled.\<close>

lemma sp_known_settled:
  assumes "sp_data T (\<sigma>, \<gamma>)"
  shows "p < pub \<gamma> \<Longrightarrow> sp_known T {} p \<subseteq> Collect (sp_settled T \<gamma>)"
    and "c \<in> ar_consumers T \<Longrightarrow> p < got \<gamma> c \<Longrightarrow> sp_known T (sp_stage T c) p \<subseteq> Collect (sp_settled T \<gamma>)"
proof -
  have le: "got \<gamma> d \<le> pub \<gamma>" "pub \<gamma> \<le> got \<gamma> d + 2 ^ ar_bits T" if "d \<in> ar_consumers T" for d
    using assms that by (auto simp: sp_data_def)
  have lag: "q < got \<gamma> d" if "d \<in> ar_consumers T" "q \<le> p - 2 ^ ar_bits T" "p < pub \<gamma>" for q d
    using le(2) [OF that(1)] that by linarith
  show "sp_known T {} p \<subseteq> Collect (sp_settled T \<gamma>)" if "p < pub \<gamma>"
  proof
    fix e assume "e \<in> sp_known T {} p"
    then show "e \<in> Collect (sp_settled T \<gamma>)" using that lag by (cases e) auto
  qed
  show "sp_known T (sp_stage T c) p \<subseteq> Collect (sp_settled T \<gamma>)" if c: "c \<in> ar_consumers T" "p < got \<gamma> c"
  proof
    fix e assume e: "e \<in> sp_known T (sp_stage T c) p"
    have p: "p < pub \<gamma>" using le(1) [OF c(1)] c(2) by simp
    have "q < got \<gamma> d" if "d \<in> sp_stage T c" "q \<le> p" for d q
      using sp_gate_behind [OF assms, of d c] that c by (simp add: sp_stage_def)
    then show "e \<in> Collect (sp_settled T \<gamma>)" using e p lag by (cases e) auto
  qed
qed

lemma sp_entry_mono:
  assumes "sp_entry T \<gamma> e x" and data: "sp_data T (\<sigma>, \<gamma>)"
    and mono: "pub \<gamma> \<le> pub \<gamma>'" "\<And>c. got \<gamma> c \<le> got \<gamma>' c"
    and more: "goes_on (Collect (sp_settled T \<gamma>)) (events \<gamma>) (events \<gamma>')"
  shows "sp_entry T \<gamma>' e x"
proof -
  have less: "p < got \<gamma>' c + d" if "p < got \<gamma> c + d" for p c d using that mono(2) [of c] by linarith
  note known = goes_on_knows [OF more] sp_known_settled [OF data]
  show ?thesis
  proof (cases e)
    case (Published p)
    with assms(1) known show ?thesis using mono(1) by fastforce
  next
    case (Given_By c p)
    with assms(1) known less [of p c 0] show ?thesis by fastforce
  qed (use assms(1) mono(1) less in auto)
qed

text \<open>A thread knows what it has done.\<close>

fun sp_does :: "nat \<Rightarrow> event \<Rightarrow> bool" where
  "sp_does t (Wrote p) \<longleftrightarrow> t = 0"
| "sp_does t (Published p) \<longleftrightarrow> t = 0"
| "sp_does t (Read_By c p) \<longleftrightarrow> t = c"
| "sp_does t (Given_By c p) \<longleftrightarrow> t = c"
| "sp_does t (Taken p) \<longleftrightarrow> False"

lemma sp_entry_actor: "sp_entry T \<gamma> e x \<Longrightarrow> sp_does t e \<longleftrightarrow> actor x = t"
  by (cases e) auto

lemma sp_entry_at:
  assumes "sp_inv T (\<sigma>, \<gamma>)" "n < length (events \<gamma>)"
  shows "sp_entry T \<gamma> (events \<gamma> ! n) (history (hist \<gamma>) ! n)"
  using assms by (auto simp: sp_inv_def sp_history_def list_all2_conv_all_nth)

lemma sp_events_length: "sp_inv T (\<sigma>, \<gamma>) \<Longrightarrow> length (events \<gamma>) = length (history (hist \<gamma>))"
  by (auto simp: sp_inv_def sp_history_def list_all2_lengthD)

lemma sp_own:
  assumes "sp_inv T (\<sigma>, \<gamma>)"
  shows "knows (events \<gamma>) (seen (hist \<gamma>) t) {e. sp_does t e}"
proof -
  have "n \<in> seen (hist \<gamma>) t" if "n < length (events \<gamma>)" "sp_does t (events \<gamma> ! n)" for n
    using sp_entry_actor [OF sp_entry_at [OF assms that(1)], of t] that assms sp_events_length [OF assms]
    by (auto simp: sp_inv_def coherent_def)
  then show ?thesis by (simp add: knows_def)
qed

text \<open>One more access that is an event.\<close>

lemma sp_step:
  assumes inv: "sp_inv T (\<sigma>, \<gamma>)" and data: "sp_data T (\<sigma>', \<gamma>')"
    and h: "hist \<gamma>' = record_access t x (hist \<gamma>)" "events \<gamma>' = events \<gamma> @ [e]"
    and new: "\<not> sp_settled T \<gamma> e" and entry: "sp_entry T \<gamma>' e x"
    and later: "\<And>a e'. sp_stores T a e \<Longrightarrow> e' \<in> set (events \<gamma>) \<Longrightarrow> sp_stores T a e' \<Longrightarrow> position e' < position e"
    and x: "actor x = t" and mem: "mem \<sigma>' = (\<lambda>a. if stores_to a x then value_stored x else mem \<sigma> a)"
    and mono: "pub \<gamma> \<le> pub \<gamma>'" "\<And>c. got \<gamma> c \<le> got \<gamma>' c"
    and others: "t \<noteq> 0 \<Longrightarrow> pub \<gamma>' = pub \<gamma> \<and> cells \<sigma>' = cells \<sigma>" "\<And>u. u \<noteq> t \<Longrightarrow> got \<gamma>' u = got \<gamma> u"
    and owner: "owner \<sigma>' = owner \<sigma>"
  shows "sp_inv T (\<sigma>', \<gamma>')" and "u \<noteq> t \<Longrightarrow> sp_rely T u (\<sigma>, \<gamma>) (\<sigma>', \<gamma>')"
proof -
  have data0: "sp_data T (\<sigma>, \<gamma>)" and hi: "sp_history T \<gamma>" using inv by (simp_all add: sp_inv_def)
  have more: "goes_on (Collect (sp_settled T \<gamma>)) (events \<gamma>) (events \<gamma>')"
    using new by (simp add: h goes_on_snoc)
  have "list_all2 (sp_entry T \<gamma>') (events \<gamma>) (history (hist \<gamma>))"
    using hi sp_entry_mono [OF _ data0 mono more] by (auto simp: sp_history_def elim: list_all2_mono)
  then have "list_all2 (sp_entry T \<gamma>') (events \<gamma>') (history (hist \<gamma>'))"
    using entry by (simp add: h list_all2_appendI)
  then have "sp_history T \<gamma>'"
    using hi later by (auto simp: sp_history_def h sorted_wrt_append)
  moreover have "coherent \<sigma>' (hist \<gamma>')"
    unfolding h using inv x mem by (intro coherent_record) (simp_all add: sp_inv_def)
  ultimately show inv': "sp_inv T (\<sigma>', \<gamma>')" using data by (simp add: sp_inv_def)
  show "sp_rely T u (\<sigma>, \<gamma>) (\<sigma>', \<gamma>')" if "u \<noteq> t"
    using inv' more mono others owner that by (auto simp: sp_rely_def h)
qed

text \<open>The entries that store to an atomic are the events that do.\<close>

lemma sp_entry_stores: "sp_entry T \<gamma> e x \<Longrightarrow> stores_to a x \<longleftrightarrow> sp_stores T a e"
  by (cases e) auto

lemma sp_entry_value: "sp_entry T \<gamma> e x \<Longrightarrow> stores_to a x \<Longrightarrow> value_stored x = seq_at (position e)"
  by (cases e) auto

lemma sp_entry_position: "sp_entry T \<gamma> e x \<Longrightarrow> 0 \<le> position e"
  by (cases e) auto

lemma sp_knows_nothing: "sp_inv T (\<sigma>, \<gamma>) \<Longrightarrow> knows (events \<gamma>) V (sp_known T U (- 1))"
  unfolding knows_def
proof (intro allI impI)
  fix n assume inv: "sp_inv T (\<sigma>, \<gamma>)" and n: "n < length (events \<gamma>)" "events \<gamma> ! n \<in> sp_known T U (- 1)"
  have "(0 :: int) < 2 ^ ar_bits T" by simp
  then have "q < 0" if "q \<le> - 1 - 2 ^ ar_bits T" for q :: int using that by linarith
  with n(2) have "position (events \<gamma> ! n) < 0" by (cases "events \<gamma> ! n") auto
  with sp_entry_position [OF sp_entry_at [OF inv n(1)]] show "n \<in> V" by simp
qed

text \<open>Thread \<open>t\<close> has seen the atomic \<open>a\<close> at position \<open>q\<close> or later.\<close>

definition sp_spotted :: "'d arrangement \<Rightarrow> progress \<Rightarrow> nat \<Rightarrow> addr \<Rightarrow> int \<Rightarrow> bool" where
  "sp_spotted T \<gamma> t a q \<longleftrightarrow> q < 0 \<or> (\<exists>n < length (events \<gamma>). n \<in> seen (hist \<gamma>) t \<and>
     sp_stores T a (events \<gamma> ! n) \<and> q \<le> position (events \<gamma> ! n))"

lemma sp_spotted_mono: "sp_spotted T \<gamma> t a q \<Longrightarrow> q' \<le> q \<Longrightarrow> sp_spotted T \<gamma> t a q'"
  unfolding sp_spotted_def by force

lemma sp_spotted_stable:
  assumes "sp_spotted T \<gamma> t a q" "goes_on E (events \<gamma>) (events \<gamma>')" "seen (hist \<gamma>) t \<subseteq> seen (hist \<gamma>') t"
  shows "sp_spotted T \<gamma>' t a q"
  using assms(1) unfolding sp_spotted_def
proof (elim disjE exE conjE)
  fix n assume "n < length (events \<gamma>)" "n \<in> seen (hist \<gamma>) t" "sp_stores T a (events \<gamma> ! n)"
    "q \<le> position (events \<gamma> ! n)"
  then show "q < 0 \<or> (\<exists>n < length (events \<gamma>'). n \<in> seen (hist \<gamma>') t \<and>
     sp_stores T a (events \<gamma>' ! n) \<and> q \<le> position (events \<gamma>' ! n))"
    using goes_on_length [OF assms(2)] goes_on_nth [OF assms(2), of n] assms(3)
    by (intro disjI2 exI [of _ n]) auto
qed simp

text \<open>A load returns a position, and not one before what the thread has seen.\<close>

lemma sp_load:
  assumes inv: "sp_inv T (\<sigma>, \<gamma>)" and v: "visible t (hist \<gamma>) a j" and b: "base (hist \<gamma>) a = seq_at (- 1)"
  obtains q where "- 1 \<le> q" "nth_value (hist \<gamma>) a j = seq_at q"
    "\<And>y. sp_spotted T \<gamma> t a y \<Longrightarrow> y \<le> q"
    "q = - 1 \<or> (\<exists>n < length (events \<gamma>). nth_store (hist \<gamma>) a j = {n} \<and> sp_stores T a (events \<gamma> ! n) \<and>
       position (events \<gamma> ! n) = q \<and> nth_passed (hist \<gamma>) a j = passed_on (history (hist \<gamma>) ! n))"
proof (cases "j < length (stores (hist \<gamma>) a)")
  case False
  then have "nth_value (hist \<gamma>) a j = seq_at (- 1)" using b by (simp add: nth_value_def)
  moreover have "y \<le> - 1" if "sp_spotted T \<gamma> t a y" for y
  proof (rule ccontr)
    assume "\<not> y \<le> - 1"
    then obtain n where n: "n < length (events \<gamma>)" "n \<in> seen (hist \<gamma>) t" "sp_stores T a (events \<gamma> ! n)"
      using \<open>sp_spotted T \<gamma> t a y\<close> by (auto simp: sp_spotted_def)
    then have "stores_to a (history (hist \<gamma>) ! n)" using sp_entry_stores [OF sp_entry_at [OF inv n(1)]] by simp
    then show False using visible_not_older(1) [OF v n(2)] n(1) sp_events_length [OF inv] False by simp
  qed
  ultimately show thesis by (intro that [of "- 1"]) auto
next
  case True
  define i where "i = stores (hist \<gamma>) a ! j"
  have i: "i < length (events \<gamma>)" "stores_to a (history (hist \<gamma>) ! i)"
    using stores_nth [OF True] sp_events_length [OF inv] by (simp_all add: i_def)
  note e = sp_entry_at [OF inv i(1)]
  have s: "sp_stores T a (events \<gamma> ! i)" using sp_entry_stores [OF e] i(2) by simp
  define q where "q = position (events \<gamma> ! i)"
  have "y \<le> q" if "sp_spotted T \<gamma> t a y" for y
  proof (cases "y < 0")
    case True
    then show ?thesis using sp_entry_position [OF e] by (simp add: q_def)
  next
    case False
    then obtain n where n: "n < length (events \<gamma>)" "n \<in> seen (hist \<gamma>) t" "sp_stores T a (events \<gamma> ! n)"
      "y \<le> position (events \<gamma> ! n)" using \<open>sp_spotted T \<gamma> t a y\<close> by (auto simp: sp_spotted_def)
    then have "stores_to a (history (hist \<gamma>) ! n)" using sp_entry_stores [OF sp_entry_at [OF inv n(1)]] by simp
    then have "n \<le> i" using visible_not_older(2) [OF v n(2)] n(1) sp_events_length [OF inv] by (simp add: i_def)
    moreover have "position (events \<gamma> ! n) < q" if "n < i"
      using inv that i(1) n(3) s unfolding q_def sp_inv_def sp_history_def
      by (auto dest: sorted_wrt_nth_less [of _ _ n i])
    ultimately show ?thesis using n(4) by (cases "n = i") (auto simp: q_def)
  qed
  then show thesis
    using sp_entry_position [OF e] sp_entry_value [OF e i(2)] i s True
    by (intro that [of q]) (auto simp: q_def nth_value_def nth_store_def nth_passed_def i_def)
qed

end
