(* ===== verification/Single_Producer_Consumers.thy ===== *)
theory Single_Producer_Consumers
  imports Single_Producer
begin

text \<open>
  The consumers of a disruptor with one producer, on the weak machine: what a wait tells a
  consumer, and the safety of its whole loop.
\<close>

section \<open>The consumers\<close>

text \<open>
  What a thread has acquired when it has loaded the position \<open>q\<close> from an atomic, and what it
  keeps while it waits.
\<close>

definition sp_acquired :: "'d arrangement \<Rightarrow> progress \<Rightarrow> nat \<Rightarrow> addr \<Rightarrow> int \<Rightarrow> bool" where
  "sp_acquired T \<gamma> t a q \<longleftrightarrow> sp_spotted T \<gamma> t a q \<and>
     (a = ar_cursor T \<longrightarrow> q < pub \<gamma> \<and> knows (events \<gamma>) (seen (hist \<gamma>) t) (sp_known T {} q)) \<and>
     (\<forall>c \<in> ar_consumers T. a = ar_barrier T c \<longrightarrow> q < got \<gamma> c \<and>
        knows (events \<gamma>) (seen (hist \<gamma>) t) (sp_known T (sp_stage T c) q))"

definition sp_loaded :: "'d arrangement \<Rightarrow> nat \<Rightarrow> addr set \<Rightarrow> int \<Rightarrow> memory_order \<Rightarrow> addr \<Rightarrow> sequence_t \<Rightarrow>
    'd mach \<times> progress \<Rightarrow> bool" where
  "sp_loaded T t A y ord a v s \<longleftrightarrow> sp_inv T s \<and>
     (ord = Acquire \<longrightarrow> a \<in> A \<longrightarrow> (\<exists>q. v = seq_at q \<and> y \<le> q \<and> sp_acquired T (snd s) t a q))"

lemma sp_acquired_stable:
  assumes "sp_acquired T \<gamma> t a q" and data: "sp_data T (\<sigma>, \<gamma>)"
    and mono: "pub \<gamma> \<le> pub \<gamma>'" "\<And>c. got \<gamma> c \<le> got \<gamma>' c"
    and more: "goes_on (Collect (sp_settled T \<gamma>)) (events \<gamma>) (events \<gamma>')"
    and sees: "seen (hist \<gamma>) t \<subseteq> seen (hist \<gamma>') t"
  shows "sp_acquired T \<gamma>' t a q"
proof -
  have known: "knows (events \<gamma>') (seen (hist \<gamma>') t) E"
    if "knows (events \<gamma>) (seen (hist \<gamma>) t) E" "E \<subseteq> Collect (sp_settled T \<gamma>)" for E
    using goes_on_knows [OF more that] sees by (rule knows_view)
  have less: "q < got \<gamma>' c" if "q < got \<gamma> c" for c using that mono(2) [of c] by linarith
  show ?thesis
    using assms(1) known sp_known_settled [OF data] sp_spotted_stable [OF _ more sees] less mono(1)
    unfolding sp_acquired_def by fastforce
qed

lemma sp_loaded_stable: "sp.stable_waiting T t (sp_loaded T t A y ord a v)"
proof (rule sp.stable_waitingI)
  fix s s' assume l: "sp_loaded T t A y ord a v s" and r: "rely (sp_protocol T) t s s'"
  have "sp_acquired T (snd s') t a q" if "sp_acquired T (snd s) t a q" for q
    using l r by (intro sp_acquired_stable [OF that, of "fst s"]) (simp_all add: sp_loaded_def sp_inv_def sp_rely_def)
  with l r show "sp_loaded T t A y ord a v s'" by (auto simp: sp_loaded_def sp_rely_def)
next
  fix \<sigma> \<gamma> \<sigma>' \<omega>
  assume l: "sp_loaded T t A y ord a v (\<sigma>, \<gamma>)" and sees: "only_sees t (hist \<gamma>) \<omega>"
    and g: "guar (sp_protocol T) t (\<sigma>, \<gamma>) (\<sigma>', \<gamma>\<lparr>hist := \<omega>\<rparr>)"
  have "sp_acquired T (\<gamma>\<lparr>hist := \<omega>\<rparr>) t a q" if "sp_acquired T \<gamma> t a q" for q
    using l sees by (intro sp_acquired_stable [OF that, of \<sigma>])
      (simp_all add: sp_loaded_def sp_inv_def only_sees_def goes_on_refl)
  moreover have "sp_inv T (\<sigma>', \<gamma>\<lparr>hist := \<omega>\<rparr>)" using sp.guar_inv [OF g] l by (simp add: sp_loaded_def)
  ultimately show "sp_loaded T t A y ord a v (\<sigma>', \<gamma>\<lparr>hist := \<omega>\<rparr>)" using l by (auto simp: sp_loaded_def)
qed

lemma sp_loaded_now:
  assumes wf: "well_arranged T" and inv: "sp_inv T (\<sigma>, \<gamma>)"
    and A: "A \<subseteq> insert (ar_cursor T) (ar_barrier T ` ar_consumers T)"
    and spots: "\<And>a. a \<in> A \<Longrightarrow> sp_spotted T \<gamma> t a y"
    and v: "visible t (hist \<gamma>) a j"
  shows "sp_loaded T t A y ord a (nth_value (hist \<gamma>) a j) (\<sigma>, \<gamma>\<lparr>hist := look t ord a j (hist \<gamma>)\<rparr>)"
proof -
  define \<gamma>' where "\<gamma>' = \<gamma>\<lparr>hist := look t ord a j (hist \<gamma>)\<rparr>"
  have sel [simp]: "pub \<gamma>' = pub \<gamma>" "got \<gamma>' = got \<gamma>" "events \<gamma>' = events \<gamma>" "hist \<gamma>' = look t ord a j (hist \<gamma>)"
    by (simp_all add: \<gamma>'_def)
  have inv': "sp_inv T (\<sigma>, \<gamma>')" unfolding \<gamma>'_def by (rule sp_inv_sync [OF inv refl refl only_sees_look])
  have data: "sp_data T (\<sigma>, \<gamma>)" using inv by (simp add: sp_inv_def)
  have "\<exists>q. nth_value (hist \<gamma>) a j = seq_at q \<and> y \<le> q \<and> sp_acquired T \<gamma>' t a q"
    if ord: "ord = Acquire" and a: "a \<in> A"
  proof -
    have b: "base (hist \<gamma>) a = seq_at (- 1)" using inv a A by (auto simp: sp_inv_def sp_history_def)
    obtain q where q: "- 1 \<le> q" "nth_value (hist \<gamma>) a j = seq_at q" "\<And>y. sp_spotted T \<gamma> t a y \<Longrightarrow> y \<le> q"
      and s: "q = - 1 \<or> (\<exists>n < length (events \<gamma>). nth_store (hist \<gamma>) a j = {n} \<and> sp_stores T a (events \<gamma> ! n) \<and>
        position (events \<gamma> ! n) = q \<and> nth_passed (hist \<gamma>) a j = passed_on (history (hist \<gamma>) ! n))"
      using sp_load [OF inv v b] by metis
    have "sp_acquired T \<gamma>' t a q"
    proof (cases "q = - 1")
      case True
      then show ?thesis
        using data sp_knows_nothing [OF inv'] by (auto simp: sp_acquired_def sp_spotted_def sp_data_def intro: less_le_trans)
    next
      case False
      with s obtain n where n: "n < length (events \<gamma>)" "nth_store (hist \<gamma>) a j = {n}" "sp_stores T a (events \<gamma> ! n)"
        "position (events \<gamma> ! n) = q" "nth_passed (hist \<gamma>) a j = passed_on (history (hist \<gamma>) ! n)" by blast
      have sees: "seen (hist \<gamma>') t = insert n (seen (hist \<gamma>) t \<union> passed_on (history (hist \<gamma>) ! n))"
        using n ord by (simp add: seen_look)
      note e = sp_entry_at [OF inv n(1)]
      have "sp_spotted T \<gamma>' t a q" using n sees by (auto simp: sp_spotted_def intro!: exI [of _ n])
      moreover have inj: "ar_barrier T c = ar_barrier T d \<longleftrightarrow> c = d" "ar_barrier T c \<noteq> ar_cursor T"
        if "c \<in> ar_consumers T" "d \<in> ar_consumers T" for c d
        using wf that by (auto simp: well_arranged_def inj_on_eq_iff)
      have known: "knows (events \<gamma>) (seen (hist \<gamma>') t) E" if "knows (events \<gamma>) (passed_on (history (hist \<gamma>) ! n)) E" for E
        using that by (rule knows_view) (unfold sees, blast)
      show ?thesis
      proof (cases "events \<gamma> ! n")
        case (Published p)
        then show ?thesis
          using e n(3,4) inj calculation known by (fastforce simp: sp_acquired_def)
      next
        case (Given_By c p)
        then show ?thesis
          using e n(3,4) inj calculation known by (fastforce simp: sp_acquired_def)
      qed (use n(3) in simp_all)
    qed
    with q spots [OF a] show ?thesis by blast
  qed
  with inv' show ?thesis by (auto simp: sp_loaded_def \<gamma>'_def)
qed

text \<open>What consumer \<open>c\<close> may read: positions published and given back by all upstream of it, as it knows.\<close>

definition sp_sources :: "'d arrangement \<Rightarrow> nat \<Rightarrow> addr set" where
  "sp_sources T c = (if ar_upstream T c = {} then {ar_cursor T} else ar_barrier T ` ar_upstream T c)"

definition sp_ready :: "'d arrangement \<Rightarrow> nat \<Rightarrow> progress \<Rightarrow> int \<Rightarrow> bool" where
  "sp_ready T c \<gamma> q \<longleftrightarrow> q < pub \<gamma> \<and> (\<forall>u \<in> ar_upstream T c. q < got \<gamma> u) \<and>
     knows (events \<gamma>) (seen (hist \<gamma>) c) (sp_known T (sp_stage T c - {c}) q) \<and>
     (\<forall>a \<in> sp_sources T c. sp_spotted T \<gamma> c a q)"

lemma sp_stage_upstream:
  assumes "d \<in> sp_stage T c" "d \<noteq> c"
  obtains u where "u \<in> ar_upstream T c" "d \<in> sp_stage T u"
  using assms by (auto simp: sp_stage_def downstream_def elim: rtranclE)

text \<open>With what it has done itself, a consumer knows all up to its own stage.\<close>

lemma sp_ready_known:
  assumes "sp_inv T (\<sigma>, \<gamma>)" "sp_ready T c \<gamma> q"
  shows "knows (events \<gamma>) (seen (hist \<gamma>) c) (sp_known T (sp_stage T c) q)"
  unfolding knows_def
proof (intro allI impI)
  fix n assume n: "n < length (events \<gamma>)" "events \<gamma> ! n \<in> sp_known T (sp_stage T c) q"
  show "n \<in> seen (hist \<gamma>) c"
  proof (cases "sp_does c (events \<gamma> ! n)")
    case True
    then show ?thesis using knowsD [OF sp_own [OF assms(1)] n(1), of c] by simp
  next
    case False
    then have "events \<gamma> ! n \<in> sp_known T (sp_stage T c - {c}) q" using n(2) by (cases "events \<gamma> ! n") auto
    then show ?thesis using assms(2) n(1) by (auto simp: sp_ready_def dest: knowsD)
  qed
qed

lemma sp_ready_stable:
  assumes "sp_ready T c \<gamma> q" and data: "sp_data T (\<sigma>, \<gamma>)" and c: "c \<in> ar_consumers T" and wf: "well_arranged T"
    and mono: "pub \<gamma> \<le> pub \<gamma>'" "\<And>c. got \<gamma> c \<le> got \<gamma>' c"
    and more: "goes_on E (events \<gamma>) (events \<gamma>')"
    and E: "\<And>e. e \<in> sp_known T (sp_stage T c - {c}) q \<Longrightarrow> sp_settled T \<gamma> e \<Longrightarrow> e \<in> E"
    and sees: "seen (hist \<gamma>) c \<subseteq> seen (hist \<gamma>') c"
  shows "sp_ready T c \<gamma>' q"
proof -
  have r: "q < pub \<gamma>" "\<And>u. u \<in> ar_upstream T c \<Longrightarrow> q < got \<gamma> u" using assms(1) by (simp_all add: sp_ready_def)
  have "e \<in> Collect (sp_settled T \<gamma>)" if e: "e \<in> sp_known T (sp_stage T c - {c}) q" for e
  proof (cases "\<exists>d \<in> sp_stage T c - {c}. sp_does d e")
    case True
    then obtain d where d: "sp_does d e" "d \<in> sp_stage T c" "d \<noteq> c" by blast
    then obtain u where u: "u \<in> ar_upstream T c" "d \<in> sp_stage T u" by (blast elim: sp_stage_upstream)
    have "u \<in> ar_consumers T" using well_arranged_upstream [OF wf c] u(1) by blast
    moreover have "e \<in> sp_known T (sp_stage T u) q" using e d u(2) by (cases e) auto
    ultimately show ?thesis using sp_known_settled(2) [OF data _ r(2) [OF u(1)]] by blast
  next
    case False
    then have "e \<in> sp_known T {} q" using e by (cases e) auto
    then show ?thesis using sp_known_settled(1) [OF data r(1)] by blast
  qed
  then have sub: "sp_known T (sp_stage T c - {c}) q \<subseteq> E" using E by blast
  have "knows (events \<gamma>') (seen (hist \<gamma>) c) (sp_known T (sp_stage T c - {c}) q)"
    using assms(1) sub by (intro goes_on_knows [OF more]) (simp_all add: sp_ready_def)
  then have "knows (events \<gamma>') (seen (hist \<gamma>') c) (sp_known T (sp_stage T c - {c}) q)"
    using sees by (rule knows_view)
  moreover have "q < got \<gamma>' u" if "u \<in> ar_upstream T c" for u using r(2) [OF that] mono(2) [of u] by linarith
  moreover have "sp_spotted T \<gamma>' c a q" if "a \<in> sp_sources T c" for a
    using assms(1) that by (intro sp_spotted_stable [OF _ more sees]) (simp add: sp_ready_def)
  ultimately show ?thesis
    using assms(1) mono(1) by (simp add: sp_ready_def)
qed

text \<open>The accesses of a consumer are in order.\<close>

lemma sp_slot_before:
  assumes "ar_slot T p = ar_slot T q" "p < q + 2 ^ ar_bits T"
  shows "p \<le> q"
proof (rule ccontr)
  assume "\<not> p \<le> q"
  have "p mod 2 ^ ar_bits T = q mod 2 ^ ar_bits T"
    using assms(1) by (auto simp: ar_slot_def nat_eq_iff2 split: if_splits)
  moreover have "\<bar>p - q\<bar> < 2 ^ ar_bits T" using \<open>\<not> p \<le> q\<close> assms(2) by simp
  ultimately have "p = q" by (rule mod_window_inj)
  with \<open>\<not> p \<le> q\<close> show False by simp
qed

lemma sp_read_ordered:
  assumes "c \<in> ar_consumers T" "sp_inv T (\<sigma>, \<gamma>)" "sp_ready T c \<gamma> q" "got \<gamma> c \<le> p" "p \<le> q"
  shows "ordered c (Read (ar_array T) (ar_slot T p)) (hist \<gamma>)"
  unfolding ordered.simps
proof (intro allI impI)
  fix n u assume n: "n < length (history (hist \<gamma>))" "history (hist \<gamma>) ! n = Written u (ar_array T) (ar_slot T p)"
  then have n': "n < length (events \<gamma>)" using sp_events_length [OF assms(2)] by simp
  with n(2) sp_entry_at [OF assms(2) n'] obtain p' where p': "events \<gamma> ! n = Wrote p'" "ar_slot T p' = ar_slot T p"
    "p' < got \<gamma> c + 2 ^ ar_bits T" using assms(1) by (cases "events \<gamma> ! n") auto
  have "p' \<le> p" using p'(2) by (rule sp_slot_before) (use p'(3) assms(4) in simp)
  then show "n \<in> seen (hist \<gamma>) c"
    using assms(3,5) n' p'(1) by (auto simp: sp_ready_def dest: knowsD)
qed

text \<open>The newest store to an atomic is known to the thread that makes all of them.\<close>

lemma sp_store_ordered:
  assumes "sp_inv T (\<sigma>, \<gamma>)" "\<And>e. sp_stores T a e \<Longrightarrow> sp_does t e"
  shows "ordered t (Store ord a v) (hist \<gamma>)"
proof -
  have "n \<in> seen (hist \<gamma>) t" if "n \<in> nth_store (hist \<gamma>) a 0" for n
  proof -
    have "n \<in> set (stores (hist \<gamma>) a)" using that by (auto simp: nth_store_def split: if_splits)
    then have n: "n < length (events \<gamma>)" "stores_to a (history (hist \<gamma>) ! n)"
      using sp_events_length [OF assms(1)] by (simp_all add: in_stores)
    have "sp_does t (events \<gamma> ! n)" using sp_entry_stores [OF sp_entry_at [OF assms(1) n(1)]] n(2) assms(2) by simp
    then show ?thesis using knowsD [OF sp_own [OF assms(1)] n(1)] by simp
  qed
  then show ?thesis by auto
qed

lemma sp_data_same:
  assumes "sp_data T (\<sigma>, \<gamma>)" "pub \<gamma>' = pub \<gamma>" "got \<gamma>' = got \<gamma>"
  shows "sp_data T (\<sigma>, \<gamma>')"
  using assms by (simp add: sp_data_def)

lemma sp_consumer_read:
  assumes wf: "well_arranged T" and c: "c \<in> ar_consumers T" and inv: "sp_inv T (\<sigma>, \<gamma>)"
    and q: "sp_ready T c \<gamma> q" "got \<gamma> c \<le> p" "p \<le> q"
    and \<gamma>': "\<gamma>' = \<gamma>\<lparr>hist := record_access c (Was_Read c (ar_array T) (ar_slot T p)) (hist \<gamma>),
      events := events \<gamma> @ [Read_By c p]\<rparr>"
  shows "guar (sp_protocol T) c (\<sigma>, \<gamma>) (\<sigma>, \<gamma>')" and "sp_ready T c \<gamma>' q"
proof -
  have data: "sp_data T (\<sigma>, \<gamma>)" using inv by (simp add: sp_inv_def)
  have p: "0 \<le> p" "p < pub \<gamma>" "c \<noteq> 0"
    using data c q well_arranged_consumer [OF wf c] by (auto simp: sp_data_def sp_ready_def)
  have more: "goes_on (Collect (sp_settled T \<gamma>)) (events \<gamma>) (events \<gamma>')"
    using q(2) c by (simp add: \<gamma>' goes_on_snoc)
  have "sp_rely T u (\<sigma>, \<gamma>) (\<sigma>, \<gamma>')" if "u \<noteq> c" for u
    using inv
  proof (rule sp_step(2) [where t = c and x = "Was_Read c (ar_array T) (ar_slot T p)" and e = "Read_By c p"])
    show "sp_data T (\<sigma>, \<gamma>')" using data by (rule sp_data_same) (simp_all add: \<gamma>')
  qed (use p c q(2) that in \<open>auto simp: \<gamma>'\<close>)
  then show "guar (sp_protocol T) c (\<sigma>, \<gamma>) (\<sigma>, \<gamma>')" by simp
  show "sp_ready T c \<gamma>' q"
    using q(1) data c wf _ _ more by (rule sp_ready_stable) (auto simp: \<gamma>')
qed

lemma sp_data_give:
  assumes wf: "well_arranged T" and c: "c \<in> ar_consumers T" and inv: "sp_data T (\<sigma>, \<gamma>)"
    and q: "q < pub \<gamma>" "\<And>u. u \<in> ar_upstream T c \<Longrightarrow> q < got \<gamma> u" "got \<gamma> c \<le> q"
    and \<gamma>': "pub \<gamma>' = pub \<gamma>" "got \<gamma>' = (got \<gamma>)(c := q + 1)"
  shows "sp_data T (put (ar_barrier T c) (seq_at q) \<sigma>, \<gamma>')"
  unfolding sp_data_def prod.case
proof (intro conjI ballI)
  have a: "ar_barrier T c \<noteq> ar_cursor T" using wf c by (auto simp: well_arranged_def)
  have b: "ar_barrier T d = ar_barrier T c \<longleftrightarrow> d = c" if "d \<in> ar_consumers T" for d
    using wf c that by (auto simp: well_arranged_def inj_on_def)
  have up: "c \<notin> ar_upstream T c" using q by force
  show "mem (put (ar_barrier T c) (seq_at q) \<sigma>) (ar_cursor T) = seq_at (pub \<gamma>' - 1)"
    "0 \<le> pub \<gamma>'" "pub \<gamma>' \<le> ar_total T" using inv a by (auto simp: sp_data_def \<gamma>')
  fix d assume d: "d \<in> ar_consumers T"
  show "mem (put (ar_barrier T c) (seq_at q) \<sigma>) (ar_barrier T d) = seq_at (got \<gamma>' d - 1)"
    using inv d b [OF d] by (auto simp: sp_data_def \<gamma>')
  show "got \<gamma>' d \<le> pub \<gamma>'" using inv d q by (auto simp: sp_data_def \<gamma>')
  show "0 \<le> got \<gamma>' d" "pub \<gamma>' \<le> got \<gamma>' d + 2 ^ ar_bits T" using inv d c q by (fastforce simp: sp_data_def \<gamma>')+
  show "got \<gamma>' d \<le> got \<gamma>' v" if "v \<in> ar_upstream T d" for v
    using inv d q up that by (force simp: sp_data_def \<gamma>')
  show "\<forall>p. got \<gamma>' d \<le> p \<longrightarrow> p < pub \<gamma>' \<longrightarrow>
      cells (put (ar_barrier T c) (seq_at q) \<sigma>) (ar_array T) (ar_slot T p) = ar_item T p"
    using inv d q by (auto simp: sp_data_def \<gamma>')
qed

lemma sp_consumer_publish:
  assumes wf: "well_arranged T" and c: "c \<in> ar_consumers T" and inv: "sp_inv T (\<sigma>, \<gamma>)"
    and q: "sp_ready T c \<gamma> q" "got \<gamma> c \<le> q"
    and \<gamma>': "\<gamma>' = \<gamma>\<lparr>got := (got \<gamma>)(c := q + 1), hist := store c Release (ar_barrier T c) (seq_at q) (hist \<gamma>),
      events := events \<gamma> @ [Given_By c q]\<rparr>"
  shows "guar (sp_protocol T) c (\<sigma>, \<gamma>) (put (ar_barrier T c) (seq_at q) \<sigma>, \<gamma>')" and "sp_ready T c \<gamma>' q"
proof -
  have data: "sp_data T (\<sigma>, \<gamma>)" using inv by (simp add: sp_inv_def)
  have p: "0 \<le> q" "q < pub \<gamma>" "c \<noteq> 0"
    using data c q well_arranged_consumer [OF wf c] by (auto simp: sp_data_def sp_ready_def)
  have more: "goes_on (Collect (sp_settled T \<gamma>)) (events \<gamma>) (events \<gamma>')"
    using q(2) c by (simp add: \<gamma>' goes_on_snoc)
  define V where "V = insert (length (history (hist \<gamma>))) (seen (hist \<gamma>) c)"
  have "knows (events \<gamma>) V (sp_known T (sp_stage T c) q)"
    using sp_ready_known [OF inv q(1)] by (rule knows_view) (auto simp: V_def)
  then have known: "knows (events \<gamma>') V (sp_known T (sp_stage T c) q)"
    by (simp add: \<gamma>' knows_snoc V_def sp_events_length [OF inv])
  have x: "hist \<gamma>' = record_access c (Stored c (ar_barrier T c) (seq_at q) False V) (hist \<gamma>)"
    by (simp add: \<gamma>' store_def V_def)
  have inj: "ar_barrier T d = ar_barrier T c \<longleftrightarrow> d = c" "ar_barrier T c \<noteq> ar_cursor T" if "d \<in> ar_consumers T" for d
    using wf c that by (auto simp: well_arranged_def inj_on_eq_iff)
  have later: "position e < q" if "e \<in> set (events \<gamma>)" "sp_stores T (ar_barrier T c) e" for e
  proof -
    obtain n where n: "n < length (events \<gamma>)" "events \<gamma> ! n = e" using \<open>e \<in> set (events \<gamma>)\<close> by (auto simp: in_set_conv_nth)
    have x: "sp_entry T \<gamma> e (history (hist \<gamma>) ! n)" using sp_entry_at [OF inv n(1)] n(2) by simp
    show ?thesis
    proof (cases e)
      case (Given_By d p)
      then have d: "d \<in> ar_consumers T" "p < got \<gamma> d" "ar_barrier T c = ar_barrier T d" using x that(2) by simp_all
      with inj(1) [OF d(1)] have "d = c" by metis
      then show ?thesis using Given_By d(2) q(2) by simp
    qed (use that(2) inj(2) [OF c] in simp_all)
  qed
  have "sp_rely T u (\<sigma>, \<gamma>) (put (ar_barrier T c) (seq_at q) \<sigma>, \<gamma>')" if "u \<noteq> c" for u
    using inv
  proof (rule sp_step(2) [where t = c and e = "Given_By c q", OF _ _ x])
    show "sp_data T (put (ar_barrier T c) (seq_at q) \<sigma>, \<gamma>')"
      using wf c data by (rule sp_data_give) (use q in \<open>simp_all add: sp_ready_def \<gamma>'\<close>)
    show "sp_entry T \<gamma>' (Given_By c q) (Stored c (ar_barrier T c) (seq_at q) False V)"
      using known c p by (simp add: \<gamma>')
  qed (use p c q(2) that later in \<open>auto simp: \<gamma>'\<close>)
  then show "guar (sp_protocol T) c (\<sigma>, \<gamma>) (put (ar_barrier T c) (seq_at q) \<sigma>, \<gamma>')" by simp
  show "sp_ready T c \<gamma>' q"
    using q(1) data c wf _ _ more by (rule sp_ready_stable) (use q(2) in \<open>auto simp: \<gamma>' store_def\<close>)
qed

lemma sp_can_read:
  assumes "c \<in> ar_consumers T" "sp_inv T (\<sigma>, \<gamma>)" "sp_ready T c \<gamma> q" "got \<gamma> c \<le> p" "p \<le> q"
  shows "sp_okay T c (Read (ar_array T) (ar_slot T p)) (\<sigma>, \<gamma>) \<and>
    cells \<sigma> (ar_array T) (ar_slot T p) = ar_item T p"
proof
  have p: "p < pub \<gamma>" using assms by (auto simp: sp_ready_def)
  then show "sp_okay T c (Read (ar_array T) (ar_slot T p)) (\<sigma>, \<gamma>)" using assms by auto
  show "cells \<sigma> (ar_array T) (ar_slot T p) = ar_item T p"
    using assms p by (auto simp: sp_inv_def sp_data_def)
qed

lemma sp_can_publish:
  assumes wf: "well_arranged T" and c: "c \<in> ar_consumers T" and inv: "sp_inv T (\<sigma>, \<gamma>)"
    and q: "sp_ready T c \<gamma> q" "got \<gamma> c \<le> q"
  shows "ordered c (Store Release (ar_barrier T c) (seq_at q)) (hist \<gamma>)"
    and "sp_okay T c (Store Release (ar_barrier T c) (seq_at q)) (\<sigma>, \<gamma>)"
proof -
  have data: "sp_data T (\<sigma>, \<gamma>)" using inv by (simp add: sp_inv_def)
  have "sp_does c e" if "sp_stores T (ar_barrier T c) e" for e
    using that wf c by (cases e) (auto simp: well_arranged_def inj_on_eq_iff)
  with inv show "ordered c (Store Release (ar_barrier T c) (seq_at q)) (hist \<gamma>)" by (rule sp_store_ordered)
  have "(2 :: int) ^ ar_bits T \<le> 2 ^ 62" using wf by (intro power_increasing) (auto simp: well_arranged_def)
  then have "seq_at q \<noteq> seq_at (got \<gamma> c - 1)"
    using q data c by (subst seq_at_inject) (auto simp: sp_data_def sp_ready_def)
  then show "sp_okay T c (Store Release (ar_barrier T c) (seq_at q)) (\<sigma>, \<gamma>)"
    using data c well_arranged_consumer [OF wf c] by (simp add: sp_data_def)
qed

lemma sp_reader:
  assumes wf: "well_arranged T" and c: "c \<in> ar_consumers T" and W: "wait_strategy_model W"
    and buffer: "rb_mask buffer = 2 ^ ar_bits T - 1" "rb_data buffer = ar_array T"
    and barrier: "sb_waitStrategy barrier = W" "sb_lastPublished barrier = ar_barrier T c"
  shows "reader (sp_protocol T) hist (\<lambda>\<omega> \<gamma>. \<gamma>\<lparr>hist := \<omega>\<rparr>) W c buffer (ar_bits T) barrier (ar_total T)
    (\<lambda>\<gamma>. got \<gamma> c) (sp_ready T c) (\<lambda>_. ar_item T)"
proof (intro reader.intro reader_axioms.intro sp.weak_protocol_axioms W)
  show "rb_mask buffer = 2 ^ ar_bits T - 1" "sb_waitStrategy barrier = W" by fact+
  show "ar_bits T < 64" "ar_total T < 2 ^ 64" using wf by (auto simp: well_arranged_def)
  fix s s' :: "'a mach \<times> progress" and q p
  show "got (snd s') c = got (snd s) c" if "rely (sp_protocol T) c s s'"
    using that by (simp add: sp_rely_def)
  show "sp_ready T c (snd s') q"
    if r: "rely (sp_protocol T) c s s'" and i: "invar (sp_protocol T) s" "sp_ready T c (snd s) q"
  proof -
    have "sp_data T (fst s, snd s)" using i by (simp add: sp_inv_def)
    with i(2) show ?thesis
      by (rule sp_ready_stable [OF _ _ c wf, where E = "Collect (sp_settled T (snd s))"])
        (use r in \<open>simp_all add: sp_rely_def\<close>)
  qed
  show "q < ar_total T" if "invar (sp_protocol T) s" "sp_ready T c (snd s) q"
    using that by (auto simp: sp_inv_def sp_data_def sp_ready_def)
  show "0 \<le> got (snd s) c" if "invar (sp_protocol T) s"
    using that c by (auto simp: sp_inv_def sp_data_def)
next
  fix \<gamma> :: progress and \<omega> q assume "only_sees c (hist \<gamma>) \<omega>"
  then have sees: "seen (hist \<gamma>) c \<subseteq> seen \<omega> c" by (simp add: only_sees_def)
  have "sp_spotted T (\<gamma>\<lparr>hist := \<omega>\<rparr>) c a q" if "sp_spotted T \<gamma> c a q" for a
    using that by (rule sp_spotted_stable [where E = "{}"]) (simp_all add: goes_on_refl sees)
  then show "got (\<gamma>\<lparr>hist := \<omega>\<rparr>) c = got \<gamma> c \<and> ar_item T = ar_item T \<and>
      (sp_ready T c \<gamma> q \<longrightarrow> sp_ready T c (\<gamma>\<lparr>hist := \<omega>\<rparr>) q)"
    using knows_view [OF _ sees] by (simp add: sp_ready_def)
next
  fix \<sigma> \<gamma> q p
  assume "invar (sp_protocol T) (\<sigma>, \<gamma>)" and q: "sp_ready T c \<gamma> q"
  then have inv: "sp_inv T (\<sigma>, \<gamma>)" by simp
  show "ordered c (Read (rb_data buffer) (nat (p mod 2 ^ ar_bits T)) :: 'a act) (hist \<gamma>) \<and>
      okay (sp_protocol T) c (Read (rb_data buffer) (nat (p mod 2 ^ ar_bits T))) (\<sigma>, \<gamma>) \<and>
      cells \<sigma> (rb_data buffer) (nat (p mod 2 ^ ar_bits T)) = ar_item T p \<and>
      (\<exists>\<gamma>'. hist \<gamma>' = record_access c (Was_Read c (rb_data buffer) (nat (p mod 2 ^ ar_bits T))) (hist \<gamma>) \<and>
        guar (sp_protocol T) c (\<sigma>, \<gamma>) (\<sigma>, \<gamma>') \<and> got \<gamma>' c = got \<gamma> c \<and> sp_ready T c \<gamma>' q \<and> ar_item T = ar_item T)"
    if p: "got \<gamma> c \<le> p" "p \<le> q"
    using sp_read_ordered [OF c inv q p] sp_can_read [OF c inv q p] sp_consumer_read [OF wf c inv q p refl]
    unfolding buffer(2) sp_protocol_select(2) ar_slot_def [symmetric] by (intro conjI exI) simp_all
  show "ordered c (Store Release (sb_lastPublished barrier) (seq_at q) :: 'a act) (hist \<gamma>) \<and>
      okay (sp_protocol T) c (Store Release (sb_lastPublished barrier) (seq_at q)) (\<sigma>, \<gamma>) \<and>
      (\<exists>\<gamma>'. hist \<gamma>' = store c Release (sb_lastPublished barrier) (seq_at q) (hist \<gamma>) \<and>
        guar (sp_protocol T) c (\<sigma>, \<gamma>) (put (sb_lastPublished barrier) (seq_at q) \<sigma>, \<gamma>') \<and>
        got \<gamma>' c = q + 1 \<and> sp_ready T c \<gamma>' q \<and> ar_item T = ar_item T)"
    if g: "got \<gamma> c \<le> q"
  proof -
    define \<gamma>' where "\<gamma>' = \<gamma>\<lparr>got := (got \<gamma>)(c := q + 1),
      hist := store c Release (ar_barrier T c) (seq_at q) (hist \<gamma>), events := events \<gamma> @ [Given_By c q]\<rparr>"
    have "hist \<gamma>' = store c Release (ar_barrier T c) (seq_at q) (hist \<gamma>)" "got \<gamma>' c = q + 1"
      by (simp_all add: \<gamma>'_def)
    with sp_can_publish [OF wf c inv q g] sp_consumer_publish [OF wf c inv q g \<gamma>'_def] show ?thesis
      unfolding barrier(2) sp_protocol_select(2) by blast
  qed
qed simp_all

text \<open>
  A wait that has loaded everything upstream of the consumer returns a position that is ready.
\<close>

text \<open>What has been acquired for a position has been for all before it.\<close>

lemma sp_acquired_mono:
  assumes "sp_acquired T \<gamma> t a x" "y \<le> x"
  shows "sp_acquired T \<gamma> t a y"
  using assms knows_mono [OF _ subset_refl sp_known_mono [OF assms(2)]]
  by (auto simp: sp_acquired_def intro: sp_spotted_mono)

lemma sp_acquired_below:
  assumes wf: "well_arranged T" and c: "c \<in> ar_consumers T" and data: "sp_data T (\<sigma>, \<gamma>)"
    and a: "a \<in> sp_sources T c" "sp_acquired T \<gamma> c a x"
  shows "x < pub \<gamma>"
proof (cases "ar_upstream T c = {}")
  case True
  then show ?thesis using a by (simp add: sp_sources_def sp_acquired_def)
next
  case False
  then obtain u where u: "u \<in> ar_upstream T c" "a = ar_barrier T u" using a(1) by (auto simp: sp_sources_def)
  then have "u \<in> ar_consumers T" using well_arranged_upstream [OF wf c] by blast
  then have "x < got \<gamma> u" "got \<gamma> u \<le> pub \<gamma>" using a(2) u(2) data by (auto simp: sp_acquired_def sp_data_def)
  then show ?thesis by simp
qed

text \<open>A consumer that has acquired a position from all that it waits for is ready to read it.\<close>

lemma sp_sources_ready:
  assumes wf: "well_arranged T" and c: "c \<in> ar_consumers T" and data: "sp_data T (\<sigma>, \<gamma>)"
    and all: "\<And>a. a \<in> sp_sources T c \<Longrightarrow> sp_acquired T \<gamma> c a q"
  shows "sp_ready T c \<gamma> q"
proof -
  have cursor: "knows (events \<gamma>) (seen (hist \<gamma>) c) (sp_known T {} q)" if "ar_upstream T c = {}"
    using all [of "ar_cursor T"] that by (simp add: sp_sources_def sp_acquired_def)
  have barrier: "q < got \<gamma> u" "knows (events \<gamma>) (seen (hist \<gamma>) c) (sp_known T (sp_stage T u) q)"
    if "u \<in> ar_upstream T c" for u
  proof -
    have "ar_barrier T u \<in> sp_sources T c" "u \<in> ar_consumers T"
      using that well_arranged_upstream [OF wf c] by (auto simp: sp_sources_def)
    with all show "q < got \<gamma> u" "knows (events \<gamma>) (seen (hist \<gamma>) c) (sp_known T (sp_stage T u) q)"
      unfolding sp_acquired_def by blast+
  qed
  have "\<exists>a. a \<in> sp_sources T c" by (auto simp: sp_sources_def)
  then have "q < pub \<gamma>" using all sp_acquired_below [OF wf c data] by blast
  moreover have "knows (events \<gamma>) (seen (hist \<gamma>) c) (sp_known T (sp_stage T c - {c}) q)"
    unfolding knows_def
  proof (intro allI impI)
    fix n assume n: "n < length (events \<gamma>)" and e: "events \<gamma> ! n \<in> sp_known T (sp_stage T c - {c}) q"
    show "n \<in> seen (hist \<gamma>) c"
    proof (cases "ar_upstream T c = {}")
      case True
      then have none: "sp_stage T c - {c} = {}" by (auto elim: sp_stage_upstream)
      show ?thesis by (rule knowsD [OF cursor [OF True] n e [unfolded none]])
    next
      case False
      have "\<exists>u \<in> ar_upstream T c. events \<gamma> ! n \<in> sp_known T (sp_stage T u) q"
        using e False by (cases "events \<gamma> ! n") (auto elim: sp_stage_upstream)
      then show ?thesis using barrier(2) n by (auto dest: knowsD)
    qed
  qed
  ultimately show ?thesis using barrier(1) all by (simp add: sp_ready_def sp_acquired_def)
qed

lemma sp_ready_seen:
  assumes wf: "well_arranged T" and c: "c \<in> ar_consumers T" and inv: "sp_inv T (\<sigma>, \<gamma>)" and g: "got \<gamma> c = g"
    and as: "set as = sp_sources T c" and saw: "saw_all as (seq_at g) r l"
    and seen: "\<And>a v. (Load Acquire a, RSeq v) \<in> set l \<Longrightarrow> sp_loaded T c (sp_sources T c) (g - 1) Acquire a v (\<sigma>, \<gamma>)"
  shows "\<exists>q. r = seq_at q \<and> g \<le> q \<and> q - g < 2 ^ 63 \<and> sp_ready T c \<gamma> q"
proof -
  have data: "sp_data T (\<sigma>, \<gamma>)" using inv by (simp add: sp_inv_def)
  have "(2 :: int) ^ ar_bits T \<le> 2 ^ 62"
    using wf by (intro power_increasing) (auto simp: well_arranged_def)
  moreover have "pub \<gamma> \<le> g + 2 ^ ar_bits T" using data c g by (auto simp: sp_data_def)
  ultimately have k: "pub \<gamma> < g + 2 ^ 63" by simp
  have load: "\<exists>x. v = seq_at x \<and> \<bar>x - g\<bar> < 2 ^ 63 \<and> sp_acquired T \<gamma> c a x"
    if a: "a \<in> set as" and l: "(Load Acquire a, RSeq v) \<in> set l" for a v
  proof -
    obtain x where x: "v = seq_at x" "g - 1 \<le> x" "sp_acquired T \<gamma> c a x"
      using seen [OF l] a as by (auto simp: sp_loaded_def)
    then show ?thesis using sp_acquired_below [OF wf c data _ x(3)] a as k by (intro exI [of _ x]) auto
  qed
  obtain q where q: "r = seq_at q" "g \<le> q" "q - g < 2 ^ 63"
    and r: "\<And>a. a \<in> set as \<Longrightarrow> \<exists>x. q \<le> x \<and> sp_acquired T \<gamma> c a x"
    by (rule saw_all_positions [OF saw, where reached = "sp_acquired T \<gamma> c"]) (blast intro: load)+
  have "sp_ready T c \<gamma> q"
    by (rule sp_sources_ready [OF wf c data]) (use r as sp_acquired_mono in blast)
  with q show ?thesis by blast
qed

text \<open>So a consumer that waits for what is upstream of it can go on, and its whole loop is safe.\<close>

lemma sp_safely_consumer_wait:
  fixes T :: "'d arrangement" and buffer :: ring_buffer and barrier :: "'d sequence_barrier"
  assumes wf: "well_arranged T" and c: "c \<in> ar_consumers T" and W: "wait_strategy_model W"
    and buffer: "rb_mask buffer = 2 ^ ar_bits T - 1" "rb_data buffer = ar_array T"
    and barrier: "sb_waitStrategy barrier = W" "sb_lastPublished barrier = ar_barrier T c"
    and as: "set as = sp_sources T c" and wait: "waits_for wait as"
    and at: "at = reader.at (sp_protocol T) (\<lambda>\<gamma>. got \<gamma> c) (sp_ready T c) (\<lambda>_. ar_item T) f a"
    and s: "at g (g - 1) g acc s" "holds_mutexes c {} (fst s)"
  shows "weakly_safe hist (sp_protocol T) c (wait (seq_at g)) (\<lambda>r s. \<exists>q. r = seq_at q \<and> g \<le> q \<and> q - g < 2 ^ 63 \<and>
    at g q g acc s \<and> holds_mutexes c {} (fst s)) s"
proof -
  note rd = sp_reader [OF wf c W buffer barrier]
  have sources: "sp_sources T c \<subseteq> insert (ar_cursor T) (ar_barrier T ` ar_consumers T)"
    using well_arranged_upstream [OF wf c] by (auto simp: sp_sources_def)
  note at_def = reader.at_def [OF rd, of f a, folded at]
  have waits: "waits_only (wait m) {} {}" "\<And>l r. returns (wait m) l r \<Longrightarrow> saw_all as m r l" for m
    using wait by (simp_all add: waits_for_def)
  show ?thesis
  proof (rule sp.safely_waiting [OF waits(1) _ s reader.at_waiting [OF rd, of f a, folded at] sp_loaded_stable])
    show "invar (sp_protocol T) s" using s by (simp add: at_def)
    show "sp_loaded T c (sp_sources T c) (g - 1) ord x (nth_value (hist \<gamma>) x j)
        (\<sigma>, \<gamma>\<lparr>hist := look c ord x j (hist \<gamma>)\<rparr>)"
      if "at g (g - 1) g acc (\<sigma>, \<gamma>)" "visible c (hist \<gamma>) x j" for \<sigma> \<gamma> ord x j
      using wf _ sources _ that(2) by (rule sp_loaded_now) (use that(1) in \<open>simp_all add: at_def sp_ready_def\<close>)
  next
    fix l r s'
    assume r: "returns (wait (seq_at g)) l r" and h': "holds_mutexes c {} (fst s')" and at': "at g (g - 1) g acc s'"
      and seen: "\<And>ord x v. (Load ord x, RSeq v) \<in> set l \<Longrightarrow> sp_loaded T c (sp_sources T c) (g - 1) ord x v s'"
    obtain \<sigma> \<gamma> where s': "s' = (\<sigma>, \<gamma>)" by (cases s')
    have "sp_inv T (\<sigma>, \<gamma>)" "got \<gamma> c = g" using at' by (simp_all add: at_def s')
    then have "\<exists>q. r = seq_at q \<and> g \<le> q \<and> q - g < 2 ^ 63 \<and> sp_ready T c \<gamma> q"
      using waits(2) [OF r] seen unfolding s' by (rule sp_ready_seen [OF wf c _ _ as])
    then show "\<exists>q. r = seq_at q \<and> g \<le> q \<and> q - g < 2 ^ 63 \<and> at g q g acc s' \<and> holds_mutexes c {} (fst s')"
      using h' at' by (auto simp: at_def s')
  qed
qed

lemma sp_safely_consume_loop:
  assumes wf: "well_arranged T" and c: "c \<in> ar_consumers T" and W: "wait_strategy_model W"
    and buffer: "rb_mask buffer = 2 ^ ar_bits T - 1" "rb_data buffer = ar_array T"
    and barrier: "sb_waitStrategy barrier = W" "sb_lastPublished barrier = ar_barrier T c"
    and as: "set as = sp_sources T c" and wait: "waits_for wait as"
    and start: "sp_inv T s" "got (snd s) c = 0" "sp_ready T c (snd s) (- 1)" "holds_mutexes c {} (fst s)"
    and post: "\<And>s. sp_inv T s \<Longrightarrow> got (snd s) c = ar_total T \<Longrightarrow>
      Q (fold_items f a (ar_item T) (ar_total T)) s"
  shows "weakly_safe hist (sp_protocol T) c
    (consume_loop n wait f buffer barrier a (of_int (ar_total T)) 0) Q s"
proof -
  note rd = sp_reader [OF wf c W buffer barrier]
  define at where "at = reader.at (sp_protocol T) (\<lambda>\<gamma>. got \<gamma> c) (sp_ready T c) (\<lambda>_. ar_item T) f a"
  note at_simps = at_def reader.at_def [OF rd]
  have "weakly_safe hist (sp_protocol T) c (consume_loop n wait f buffer barrier a (of_int (ar_total T)) (seq_at 0)) Q s"
  proof (rule reader.safely_consume_loop [OF rd, where g = 0 and f = f and a = a, folded at_def])
    show "at 0 (0 - 1) 0 a s" using start by (simp add: at_simps)
    show "Q acc s" if "at (ar_total T) (ar_total T - 1) (ar_total T) acc s" for acc s
      using that post [of s] by (auto simp: at_simps)
    show "holds_mutexes c {} (fst s)" "of_int (ar_total T) = of_int (ar_total T - 0)" using start by simp_all
  qed (rule sp_safely_consumer_wait [OF wf c W buffer barrier as wait at_def])
  then show ?thesis by (simp add: seq_at_0)
qed

text \<open>
  So is the loop of a reader that ends by what it has read, if it has read what ends it at the last
  item and not before.
\<close>

lemma sp_safely_read_until:
  assumes wf: "well_arranged T" and c: "c \<in> ar_consumers T" and W: "wait_strategy_model W"
    and buffer: "rb_mask buffer = 2 ^ ar_bits T - 1" "rb_data buffer = ar_array T"
    and barrier: "sb_waitStrategy barrier = W" "sb_lastPublished barrier = ar_barrier T c"
    and as: "set as = sp_sources T c" and wait: "waits_for wait as"
    and start: "sp_inv T s" "got (snd s) c = 0" "sp_ready T c (snd s) (- 1)" "holds_mutexes c {} (fst s)"
    and stop: "\<And>g. 0 \<le> g \<Longrightarrow> g \<le> ar_total T \<Longrightarrow> stop (fold_items f a (ar_item T) g) \<longleftrightarrow> g = ar_total T"
    and post: "\<And>s. sp_inv T s \<Longrightarrow> got (snd s) c = ar_total T \<Longrightarrow> Q (seq_at (ar_total T)) s"
  shows "weakly_safe hist (sp_protocol T) c (read_until n stop wait f buffer barrier a 0) Q s"
proof -
  note rd = sp_reader [OF wf c W buffer barrier]
  define at where "at = reader.at (sp_protocol T) (\<lambda>\<gamma>. got \<gamma> c) (sp_ready T c) (\<lambda>_. ar_item T) f a"
  note at_simps = at_def reader.at_def [OF rd]
  have "weakly_safe hist (sp_protocol T) c (read_until n stop wait f buffer barrier a (seq_at 0)) Q s"
  proof (rule reader.safely_read_until [OF rd, where g = 0 and f = f and a = a, folded at_def])
    show "stop acc \<longleftrightarrow> g = ar_total T" if "at g (g - 1) g acc s" for g acc s
      using that stop [of g] c by (auto simp: at_simps sp_inv_def sp_data_def)
    show "at 0 (0 - 1) 0 a s" using start by (simp add: at_simps)
    show "Q (seq_at (ar_total T)) s" if "at (ar_total T) (ar_total T - 1) (ar_total T) acc s" for acc s
      using that post by (simp add: at_simps)
    show "holds_mutexes c {} (fst s)" by fact
  qed (rule sp_safely_consumer_wait [OF wf c W buffer barrier as wait at_def])
  then show ?thesis by (simp add: seq_at_0)
qed

end
