(* ===== verification/Single_Producer_Loop.thy ===== *)
theory Single_Producer_Loop
  imports Single_Producer_Consumers
begin

text \<open>
  The producer of a disruptor that has one, on the weak machine: the wait for room, the write of
  the item and its publication, and the whole loop.
\<close>

section \<open>The producer\<close>

text \<open>The members of the claim strategy when \<open>x\<close> positions have been claimed.\<close>

definition sp_claims :: "'d arrangement \<Rightarrow> 'd wait_strategy \<Rightarrow> 'd single_claim \<Rightarrow> int \<Rightarrow> bool" where
  "sp_claims T W cs x \<longleftrightarrow> st_bufferSize cs = 2 ^ ar_bits T \<and> st_nextSequenceToClaim cs = seq_at x \<and>
     sbg_waitStrategy (st_claimBarrier cs) = W \<and> sbg_sequences (st_claimBarrier cs) \<noteq> [] \<and>
     set (sbg_sequences (st_claimBarrier cs)) = ar_barrier T ` ar_gates T \<and>
     sb_waitStrategy (st_readBarrier cs) = W \<and> sb_lastPublished (st_readBarrier cs) = ar_cursor T"

text \<open>The producer has seen the gates up to position \<open>y\<close>.\<close>

definition sp_seen_gates :: "'d arrangement \<Rightarrow> progress \<Rightarrow> int \<Rightarrow> bool" where
  "sp_seen_gates T \<gamma> y \<longleftrightarrow> (\<forall>g \<in> ar_gates T. sp_spotted T \<gamma> 0 (ar_barrier T g) y)"

definition sp_producing :: "'d arrangement \<Rightarrow> int \<Rightarrow> 'd mach \<times> progress \<Rightarrow> bool" where
  "sp_producing T x s \<longleftrightarrow> sp_inv T s \<and> pub (snd s) = x \<and> sp_seen_gates T (snd s) (x - 1 - 2 ^ ar_bits T)"

text \<open>There is room for the positions \<open>x\<close> to \<open>y\<close>, and the producer knows why.\<close>

definition sp_room :: "'d arrangement \<Rightarrow> int \<Rightarrow> int \<Rightarrow> 'd mach \<times> progress \<Rightarrow> bool" where
  "sp_room T x y s \<longleftrightarrow> sp_producing T x s \<and> x \<le> y \<and> y < x + 2 ^ ar_bits T \<and>
     (\<forall>c \<in> ar_consumers T. y < got (snd s) c + 2 ^ ar_bits T) \<and>
     knows (events (snd s)) (seen (hist (snd s)) 0) (events_upto (ar_consumers T) (y - 2 ^ ar_bits T)) \<and>
     sp_seen_gates T (snd s) (y - 2 ^ ar_bits T)"

lemma sp_room_less:
  assumes "sp_room T x y s" "x \<le> z" "z \<le> y"
  shows "sp_room T x z s"
proof -
  have "events_upto (ar_consumers T) (z - 2 ^ ar_bits T) \<subseteq> events_upto (ar_consumers T) (y - 2 ^ ar_bits T)"
    using assms(3) by (intro events_upto_mono) simp_all
  then show ?thesis
    using assms knows_mono [OF _ subset_refl] sp_spotted_mono [of T "snd s" 0]
    unfolding sp_room_def sp_seen_gates_def by fastforce
qed

lemma sp_seen_gates_stable:
  assumes "sp_seen_gates T \<gamma> y" "goes_on E (events \<gamma>) (events \<gamma>')" "seen (hist \<gamma>) 0 \<subseteq> seen (hist \<gamma>') 0"
  shows "sp_seen_gates T \<gamma>' y"
  using assms(1) sp_spotted_stable [of T, OF _ assms(2,3)] by (simp add: sp_seen_gates_def)

lemma sp_room_settled:
  assumes "sp_room T x y s"
  shows "events_upto (ar_consumers T) (y - 2 ^ ar_bits T) \<subseteq> Collect (sp_settled T (snd s))"
proof
  fix e assume e: "e \<in> events_upto (ar_consumers T) (y - 2 ^ ar_bits T)"
  have less: "q < got (snd s) c" if "c \<in> ar_consumers T" "q \<le> y - 2 ^ ar_bits T" for q c
    using assms that by (fastforce simp: sp_room_def)
  have "q < x" if "q \<le> y - 2 ^ ar_bits T" for q using that assms by (simp add: sp_room_def)
  moreover have "pub (snd s) = x" using assms by (simp add: sp_room_def sp_producing_def)
  ultimately show "e \<in> Collect (sp_settled T (snd s))" using e less by (cases e) auto
qed

lemma sp_producing_rely: "sp_producing T x s \<Longrightarrow> sp_rely T 0 s s' \<Longrightarrow> sp_producing T x s'"
  by (auto simp: sp_producing_def sp_rely_def elim!: sp_seen_gates_stable)

lemma sp_room_rely:
  assumes "sp_room T x y s" "sp_rely T 0 s s'"
  shows "sp_room T x y s'"
proof -
  have more: "goes_on (Collect (sp_settled T (snd s))) (events (snd s)) (events (snd s'))"
    and sees: "seen (hist (snd s')) 0 = seen (hist (snd s)) 0" using assms(2) by (simp_all add: sp_rely_def)
  have "knows (events (snd s')) (seen (hist (snd s')) 0) (events_upto (ar_consumers T) (y - 2 ^ ar_bits T))"
    using goes_on_knows [OF more _ sp_room_settled [OF assms(1)]] assms(1) unfolding sees by (simp add: sp_room_def)
  moreover have "sp_seen_gates T (snd s') (y - 2 ^ ar_bits T)"
    using assms(1) sees by (intro sp_seen_gates_stable [OF _ more]) (simp_all add: sp_room_def)
  moreover have "y < got (snd s') c + 2 ^ ar_bits T" if "c \<in> ar_consumers T" for c
  proof -
    have "y < got (snd s) c + 2 ^ ar_bits T" "got (snd s) c \<le> got (snd s') c"
      using assms that by (simp_all add: sp_room_def sp_rely_def)
    then show ?thesis by simp
  qed
  ultimately show ?thesis using assms sp_producing_rely [of T x s s'] by (simp add: sp_room_def)
qed

lemma sp_producing_waiting: "sp.stable_waiting T 0 (sp_producing T x)"
proof (rule sp.stable_waitingI)
  show "sp_producing T x s'" if "sp_producing T x s" "rely (sp_protocol T) 0 s s'" for s s'
    using that by (auto intro: sp_producing_rely)
  fix \<sigma> \<gamma> \<sigma>' \<omega>
  assume p: "sp_producing T x (\<sigma>, \<gamma>)" and sees: "only_sees 0 (hist \<gamma>) \<omega>"
    and g: "guar (sp_protocol T) 0 (\<sigma>, \<gamma>) (\<sigma>', \<gamma>\<lparr>hist := \<omega>\<rparr>)"
  have "sp_seen_gates T (\<gamma>\<lparr>hist := \<omega>\<rparr>) (x - 1 - 2 ^ ar_bits T)"
    by (rule sp_seen_gates_stable [of T \<gamma> _ "{}"])
      (use p sees in \<open>simp_all add: sp_producing_def only_sees_def goes_on_refl\<close>)
  then show "sp_producing T x (\<sigma>', \<gamma>\<lparr>hist := \<omega>\<rparr>)"
    using sp.guar_inv [OF g] p by (simp add: sp_producing_def)
qed

lemma sp_holds_mutexes_rely:
  "holds_mutexes t h (fst s) \<Longrightarrow> sp_rely T t s s' \<Longrightarrow> holds_mutexes t h (fst s')"
  by (simp add: holds_mutexes_def sp_rely_def)

text \<open>With what it has done itself, the producer knows all that a store of the cursor passes on.\<close>

lemma sp_producer_knows:
  assumes inv: "sp_inv T (\<sigma>, \<gamma>)"
    and k: "knows (events \<gamma>) (seen (hist \<gamma>) 0) (events_upto (ar_consumers T) (x - 2 ^ ar_bits T))"
  shows "knows (events \<gamma>) (seen (hist \<gamma>) 0) (sp_known T {} x)"
  unfolding knows_def
proof (intro allI impI)
  fix n assume n: "n < length (events \<gamma>)" and e: "events \<gamma> ! n \<in> sp_known T {} x"
  show "n \<in> seen (hist \<gamma>) 0"
  proof (cases "sp_does 0 (events \<gamma> ! n)")
    case True
    then show ?thesis using knowsD [OF sp_own [OF inv] n, of 0] by simp
  next
    case False
    then have "events \<gamma> ! n \<in> events_upto (ar_consumers T) (x - 2 ^ ar_bits T)"
      using e by (cases "events \<gamma> ! n") auto
    then show ?thesis using knowsD [OF k n] by simp
  qed
qed

text \<open>When the producer has acquired a number from all gates, every consumer has given it back.\<close>

lemma sp_gates_consumer:
  assumes wf: "well_arranged T" and data: "sp_data T (\<sigma>, \<gamma>)"
    and all: "\<And>g. g \<in> ar_gates T \<Longrightarrow> sp_acquired T \<gamma> 0 (ar_barrier T g) q" and c: "c \<in> ar_consumers T"
  shows "q < got \<gamma> c" "\<exists>U. c \<in> U \<and> knows (events \<gamma>) (seen (hist \<gamma>) 0) (sp_known T U q)"
proof -
  obtain g where g: "g \<in> ar_gates T" "(c, g) \<in> (downstream T)\<^sup>*" using well_arranged_gate [OF wf c] by blast
  then have "g \<in> ar_consumers T" using wf by (auto simp: well_arranged_def)
  then have a: "q < got \<gamma> g" "knows (events \<gamma>) (seen (hist \<gamma>) 0) (sp_known T (sp_stage T g) q)"
    using all [OF g(1)] by (simp_all add: sp_acquired_def)
  then show "q < got \<gamma> c" using sp_gate_behind [OF data g(2)] by simp
  show "\<exists>U. c \<in> U \<and> knows (events \<gamma>) (seen (hist \<gamma>) 0) (sp_known T U q)"
    using a(2) g(2) by (intro exI [of _ "sp_stage T g"]) (simp add: sp_stage_def)
qed

text \<open>So it knows all that has been done with the positions up to there.\<close>

lemma sp_gates_known:
  assumes wf: "well_arranged T" and inv: "sp_inv T (\<sigma>, \<gamma>)"
    and all: "\<And>g. g \<in> ar_gates T \<Longrightarrow> sp_acquired T \<gamma> 0 (ar_barrier T g) q"
  shows "knows (events \<gamma>) (seen (hist \<gamma>) 0) (events_upto (ar_consumers T) q)"
  unfolding knows_def
proof (intro allI impI)
  fix n assume n: "n < length (events \<gamma>)" and e: "events \<gamma> ! n \<in> events_upto (ar_consumers T) q"
  have data: "sp_data T (\<sigma>, \<gamma>)" using inv by (simp add: sp_inv_def)
  show "n \<in> seen (hist \<gamma>) 0"
  proof (cases "sp_does 0 (events \<gamma> ! n)")
    case True
    then show ?thesis using knowsD [OF sp_own [OF inv] n, of 0] by simp
  next
    case False
    then obtain c where "c \<in> ar_consumers T" and in_known: "\<And>U. c \<in> U \<Longrightarrow> events \<gamma> ! n \<in> sp_known T U q"
      using e by (cases "events \<gamma> ! n") auto
    with sp_gates_consumer(2) [OF wf data all] obtain U
      where "c \<in> U" "knows (events \<gamma>) (seen (hist \<gamma>) 0) (sp_known T U q)" by blast
    then show ?thesis using knowsD [OF _ n in_known] by blast
  qed
qed

text \<open>A wait that has loaded all gates has found room, up to a buffer beyond what it returns.\<close>

lemma sp_room_seen:
  assumes wf: "well_arranged T" and p: "sp_producing T x (\<sigma>, \<gamma>)" and some: "ar_gates T \<noteq> {}"
    and as: "set as = ar_barrier T ` ar_gates T" and saw: "saw_all as (seq_at (x - 2 ^ ar_bits T)) r l"
    and seen: "\<And>a v. (Load Acquire a, RSeq v) \<in> set l \<Longrightarrow>
      sp_loaded T 0 (ar_barrier T ` ar_gates T) (x - 1 - 2 ^ ar_bits T) Acquire a v (\<sigma>, \<gamma>)"
  shows "\<exists>y. r = seq_at (y - 2 ^ ar_bits T) \<and> sp_room T x y (\<sigma>, \<gamma>)"
proof -
  have inv: "sp_inv T (\<sigma>, \<gamma>)" and data: "sp_data T (\<sigma>, \<gamma>)" and x: "pub \<gamma> = x"
    using p by (simp_all add: sp_producing_def sp_inv_def)
  have le: "(2 :: int) ^ ar_bits T \<le> 2 ^ 62"
    using wf by (intro power_increasing) (auto simp: well_arranged_def)
  have below: "got \<gamma> g \<le> x" if "g \<in> ar_consumers T" for g using data that x by (auto simp: sp_data_def)
  have gates: "g \<in> ar_consumers T" if "g \<in> ar_gates T" for g using wf that by (auto simp: well_arranged_def)
  have load: "\<exists>q. v = seq_at q \<and> \<bar>q - (x - 2 ^ ar_bits T)\<bar> < 2 ^ 63 \<and> sp_acquired T \<gamma> 0 a q"
    if a: "a \<in> set as" and l: "(Load Acquire a, RSeq v) \<in> set l" for a v
  proof -
    obtain g where g: "g \<in> ar_gates T" "a = ar_barrier T g" using a as by auto
    obtain q where q: "v = seq_at q" "x - 1 - 2 ^ ar_bits T \<le> q" "sp_acquired T \<gamma> 0 a q"
      using seen [OF l] g by (auto simp: sp_loaded_def)
    have "q < got \<gamma> g" using q(3) g gates by (auto simp: sp_acquired_def)
    then show ?thesis using q le below [OF gates [OF g(1)]] by (intro exI [of _ q]) auto
  qed
  obtain q where q: "r = seq_at q" "x - 2 ^ ar_bits T \<le> q"
    and r: "\<And>a. a \<in> set as \<Longrightarrow> \<exists>z. q \<le> z \<and> sp_acquired T \<gamma> 0 a z"
    by (rule saw_all_positions [OF saw, where reached = "sp_acquired T \<gamma> 0"]) (blast intro: load)+
  have all: "sp_acquired T \<gamma> 0 (ar_barrier T g) q" if "g \<in> ar_gates T" for g
    using r [of "ar_barrier T g"] that as by (auto intro: sp_acquired_mono)
  note consumer = sp_gates_consumer(1) [OF wf data all]
  have "sp_seen_gates T \<gamma> q" using all by (simp add: sp_seen_gates_def sp_acquired_def)
  moreover obtain g where "g \<in> ar_consumers T" using some gates by blast
  then have "q < x" using consumer below by fastforce
  ultimately show ?thesis
    using p q consumer sp_gates_known [OF wf inv all]
    by (intro exI [of _ "q + 2 ^ ar_bits T"]) (simp add: sp_room_def)
qed

lemma sp_safely_wait_for_room:
  assumes wf: "well_arranged T" and W: "wait_strategy_model W" and cs: "sp_claims T W cs x"
    and s: "sp_producing T x s" "holds_mutexes 0 {} (fst s)"
    and post: "\<And>y s. sp_room T x y s \<Longrightarrow> holds_mutexes 0 {} (fst s) \<Longrightarrow> Q (seq_at (y - 2 ^ ar_bits T)) s"
  shows "weakly_safe hist (sp_protocol T) 0
    (group_wait_until_published n (st_claimBarrier cs) (st_nextSequenceToClaim cs - st_bufferSize cs)) Q s"
proof -
  let ?gates = "ar_barrier T ` ar_gates T"
  have bits: "ar_bits T < 64" using wf by (auto simp: well_arranged_def)
  have m: "st_nextSequenceToClaim cs - st_bufferSize cs = seq_at (x - 2 ^ ar_bits T)"
    using cs bits by (simp add: sp_claims_def seq_at_sub_word uint_2_power)
  have some: "ar_gates T \<noteq> {}" using cs by (auto simp: sp_claims_def)
  have w: "waits_only (group_wait_until_published n (st_claimBarrier cs) y) {} {}" for y
    using cs by (intro wait_strategy_model.waits_only_group_wait [OF W]) (auto simp: sp_claims_def)
  show ?thesis
    unfolding m
  proof (rule sp.safely_waiting [OF w _ s sp_producing_waiting sp_loaded_stable])
    show "invar (sp_protocol T) s" using s by (simp add: sp_producing_def)
    have gates: "?gates \<subseteq> insert (ar_cursor T) (ar_barrier T ` ar_consumers T)"
      using wf by (auto simp: well_arranged_def)
    show "sp_loaded T 0 ?gates (x - 1 - 2 ^ ar_bits T) ord a (nth_value (hist \<gamma>) a j)
        (\<sigma>, \<gamma>\<lparr>hist := look 0 ord a j (hist \<gamma>)\<rparr>)"
      if "sp_producing T x (\<sigma>, \<gamma>)" "visible 0 (hist \<gamma>) a j" for \<sigma> \<gamma> ord a j
      using wf _ gates _ that(2)
      by (rule sp_loaded_now) (use that(1) in \<open>auto simp: sp_producing_def sp_seen_gates_def\<close>)
    fix l r s'
    assume r: "returns (group_wait_until_published n (st_claimBarrier cs) (seq_at (x - 2 ^ ar_bits T))) l r"
      and p: "sp_producing T x s'" and h: "holds_mutexes 0 {} (fst s')"
      and seen: "\<And>ord a v. (Load ord a, RSeq v) \<in> set l \<Longrightarrow> sp_loaded T 0 ?gates (x - 1 - 2 ^ ar_bits T) ord a v s'"
    obtain \<sigma> \<gamma> where s': "s' = (\<sigma>, \<gamma>)" by (cases s')
    have "saw_all (sbg_sequences (st_claimBarrier cs)) (seq_at (x - 2 ^ ar_bits T)) r l"
      using cs r by (intro wait_strategy_model.returns_group_wait [OF W]) (auto simp: sp_claims_def)
    then have "\<exists>y. r = seq_at (y - 2 ^ ar_bits T) \<and> sp_room T x y (\<sigma>, \<gamma>)"
      using p cs seen some unfolding s' by (intro sp_room_seen [OF wf]) (auto simp: sp_claims_def)
    then show "Q r s'" using h post by (auto simp: s')
  qed
qed

lemma sp_safely_claim_one:
  assumes wf: "well_arranged T" and W: "wait_strategy_model W" and cs: "sp_claims T W cs x"
    and s: "sp_producing T x s" "holds_mutexes 0 {} (fst s)"
    and post: "\<And>s cs'. sp_room T x x s \<Longrightarrow> holds_mutexes 0 {} (fst s) \<Longrightarrow> sp_claims T W cs' (x + 1) \<Longrightarrow>
      Q (seq_at x, cs') s"
  shows "weakly_safe hist (sp_protocol T) 0 (st_claim_one n cs) Q s"
proof -
  have one: "sp_room T x x s" if "sp_room T x y s" for y s
    using that by (rule sp_room_less) (use that in \<open>simp_all add: sp_room_def\<close>)
  show ?thesis
    unfolding st_claim_one_def weakly_safe_bind
    by (rule sp_safely_wait_for_room [OF wf W cs s])
      (use cs post one in \<open>auto simp: sp_claims_def seq_at_add_1\<close>)
qed

text \<open>The producer writes the slot, and publishes it.\<close>

lemma sp_write_ordered:
  assumes "sp_room T x y (\<sigma>, \<gamma>)" "x \<le> z" "z \<le> y"
  shows "ordered 0 (Write (ar_array T) (ar_slot T z) i) (hist \<gamma>)"
  unfolding ordered.simps
proof (intro allI impI)
  have inv: "sp_inv T (\<sigma>, \<gamma>)" and x: "pub \<gamma> = x"
    and k: "knows (events \<gamma>) (seen (hist \<gamma>) 0) (events_upto (ar_consumers T) (z - 2 ^ ar_bits T))"
    using sp_room_less [OF assms] by (simp_all add: sp_room_def sp_producing_def)
  fix n u assume n: "n < length (history (hist \<gamma>))"
    and e: "history (hist \<gamma>) ! n = Written u (ar_array T) (ar_slot T z) \<or>
      history (hist \<gamma>) ! n = Was_Read u (ar_array T) (ar_slot T z)"
  have n': "n < length (events \<gamma>)" using n sp_events_length [OF inv] by simp
  note entry = sp_entry_at [OF inv n']
  show "n \<in> seen (hist \<gamma>) 0"
  proof (cases "events \<gamma> ! n")
    case (Read_By c p)
    then have p: "c \<in> ar_consumers T" "p < x" "ar_slot T p = ar_slot T z" using entry e x by auto
    have "p \<le> z - 2 ^ ar_bits T"
    proof (rule ccontr)
      assume "\<not> p \<le> z - 2 ^ ar_bits T"
      then have "z \<le> p" using p(3) by (intro sp_slot_before [of T]) auto
      with p(2) assms(2) show False by simp
    qed
    then show ?thesis using knowsD [OF k n'] Read_By p(1) by simp
  next
    case (Wrote p)
    then show ?thesis using knowsD [OF sp_own [OF inv] n', of 0] by simp
  qed (use entry e in auto)
qed

lemma sp_producer_write:
  assumes wf: "well_arranged T" and room: "sp_room T x y (\<sigma>, \<gamma>)" and z: "x \<le> z" "z \<le> y"
    and \<sigma>': "\<sigma>' = \<sigma>\<lparr>cells := (cells \<sigma>)(ar_array T := (cells \<sigma> (ar_array T))(ar_slot T z := i))\<rparr>"
    and \<gamma>': "\<gamma>' = \<gamma>\<lparr>hist := record_access 0 (Written 0 (ar_array T) (ar_slot T z)) (hist \<gamma>),
      events := events \<gamma> @ [Wrote z]\<rparr>"
  shows "guar (sp_protocol T) 0 (\<sigma>, \<gamma>) (\<sigma>', \<gamma>')" and "sp_room T x y (\<sigma>', \<gamma>')"
proof -
  have inv: "sp_inv T (\<sigma>, \<gamma>)" and x: "pub \<gamma> = x" and r: "\<And>c. c \<in> ar_consumers T \<Longrightarrow> z < got \<gamma> c + 2 ^ ar_bits T"
    using sp_room_less [OF room z] by (simp_all add: sp_room_def sp_producing_def)
  have data: "sp_data T (\<sigma>, \<gamma>)" using inv by (simp add: sp_inv_def)
  have more: "goes_on (Collect (sp_settled T \<gamma>)) (events \<gamma>) (events \<gamma>')"
    using x z(1) by (simp add: \<gamma>' goes_on_snoc)
  have other: "ar_slot T p \<noteq> ar_slot T z" if "c \<in> ar_consumers T" "got \<gamma> c \<le> p" "p < x" for c p
  proof
    assume "ar_slot T p = ar_slot T z"
    then have "z \<le> p" using r [OF that(1)] that(2) by (intro sp_slot_before [of T]) auto
    with that(3) z(1) show False by simp
  qed
  have data': "sp_data T (\<sigma>', \<gamma>')" using data x other by (auto simp: sp_data_def \<sigma>' \<gamma>')
  have c0: "0 \<notin> ar_consumers T" using wf by (simp add: well_arranged_def)
  note step = sp_step [OF inv data', where t = 0 and e = "Wrote z" and x = "Written 0 (ar_array T) (ar_slot T z)"]
  have pos: "0 \<le> z" using data x z(1) by (auto simp: sp_data_def)
  have inv': "sp_inv T (\<sigma>', \<gamma>')" by (rule step(1)) (use c0 x z r pos in \<open>auto simp: \<gamma>' \<sigma>'\<close>)
  have "sp_rely T u (\<sigma>, \<gamma>) (\<sigma>', \<gamma>')" if "u \<noteq> 0" for u
    by (rule step(2)) (use c0 x z r pos that in \<open>auto simp: \<gamma>' \<sigma>'\<close>)
  then show "guar (sp_protocol T) 0 (\<sigma>, \<gamma>) (\<sigma>', \<gamma>')" by simp
  have sees: "seen (hist \<gamma>) 0 \<subseteq> seen (hist \<gamma>') 0" by (auto simp: \<gamma>')
  have "knows (events \<gamma>') (seen (hist \<gamma>) 0) (events_upto (ar_consumers T) (y - 2 ^ ar_bits T))"
    using goes_on_knows [OF more _ sp_room_settled [OF room, simplified]] room by (simp add: sp_room_def)
  then have "knows (events \<gamma>') (seen (hist \<gamma>') 0) (events_upto (ar_consumers T) (y - 2 ^ ar_bits T))"
    using sees by (rule knows_view)
  then show "sp_room T x y (\<sigma>', \<gamma>')"
    using room inv' sp_seen_gates_stable [of T, OF _ more sees] by (auto simp: sp_room_def sp_producing_def \<gamma>')
qed

text \<open>The positions from \<open>x\<close> to before \<open>z\<close> have been written.\<close>

definition sp_written :: "'d arrangement \<Rightarrow> int \<Rightarrow> int \<Rightarrow> 'd mach \<times> progress \<Rightarrow> bool" where
  "sp_written T x z s \<longleftrightarrow> (\<forall>p. x \<le> p \<longrightarrow> p < z \<longrightarrow> cells (fst s) (ar_array T) (ar_slot T p) = ar_item T p)"

lemma sp_written_none [simp]: "sp_written T x x s"
  by (simp add: sp_written_def)

lemma sp_written_rely: "sp_written T x z s \<Longrightarrow> sp_rely T 0 s s' \<Longrightarrow> sp_written T x z s'"
  by (simp add: sp_written_def sp_rely_def)

lemma sp_written_next:
  assumes "sp_written T x z (\<sigma>, \<gamma>)" "z < x + 2 ^ ar_bits T"
    and \<sigma>': "cells \<sigma>' = (cells \<sigma>)(ar_array T := (cells \<sigma> (ar_array T))(ar_slot T z := ar_item T z))"
  shows "sp_written T x (z + 1) (\<sigma>', \<gamma>')"
  unfolding sp_written_def
proof (intro allI impI)
  fix p assume p: "x \<le> p" "p < z + 1"
  have "ar_slot T p \<noteq> ar_slot T z" if "p \<noteq> z"
  proof
    assume "ar_slot T p = ar_slot T z"
    then have "z \<le> p" using p assms(2) by (intro sp_slot_before [of T]) auto
    with p that show False by simp
  qed
  then show "cells (fst (\<sigma>', \<gamma>')) (ar_array T) (ar_slot T p) = ar_item T p"
    using assms(1) p by (cases "p = z") (auto simp: sp_written_def \<sigma>')
qed

lemma sp_safely_buffer_write:
  assumes wf: "well_arranged T" and buffer: "rb_mask buffer = 2 ^ ar_bits T - 1" "rb_data buffer = ar_array T"
    and s: "sp_room T x y s" "holds_mutexes 0 {} (fst s)" "sp_written T x z s" and z: "x \<le> z" "z \<le> y"
    and item: "i = ar_item T z"
    and post: "\<And>s. sp_room T x y s \<Longrightarrow> holds_mutexes 0 {} (fst s) \<Longrightarrow> sp_written T x (z + 1) s \<Longrightarrow>
      weakly_safe hist (sp_protocol T) 0 p Q s"
  shows "weakly_safe hist (sp_protocol T) 0 (buffer_write buffer (seq_at z) i p) Q s"
proof -
  have bits: "ar_bits T < 64" using wf by (simp add: well_arranged_def)
  have slot: "buffer_slot buffer (seq_at z) = ar_slot T z"
    using buffer_slot_seq_at [OF buffer(1) bits] by (simp add: ar_slot_def)
  show ?thesis
    unfolding buffer_write_def weakly_safe_write slot buffer(2)
  proof (intro allI impI conjI)
    fix \<sigma> \<gamma> assume r: "rely (sp_protocol T) 0 s (\<sigma>, \<gamma>)"
    have room: "sp_room T x y (\<sigma>, \<gamma>)" using s(1) r by (auto intro: sp_room_rely)
    have written: "sp_written T x z (\<sigma>, \<gamma>)" using s(3) r by (auto intro: sp_written_rely)
    have h: "holds_mutexes 0 {} \<sigma>" using sp_holds_mutexes_rely [OF s(2)] r by fastforce
    show "ordered 0 (Write (ar_array T) (ar_slot T z) i) (hist \<gamma>)" using room z by (rule sp_write_ordered)
    show "okay (sp_protocol T) 0 (Write (ar_array T) (ar_slot T z) i) (\<sigma>, \<gamma>)"
      using sp_room_less [OF room z] z(1) by (auto simp: sp_room_def sp_producing_def)
    define \<sigma>' where "\<sigma>' = \<sigma>\<lparr>cells := (cells \<sigma>)(ar_array T := (cells \<sigma> (ar_array T))(ar_slot T z := i))\<rparr>"
    define \<gamma>' where "\<gamma>' = \<gamma>\<lparr>hist := record_access 0 (Written 0 (ar_array T) (ar_slot T z)) (hist \<gamma>),
      events := events \<gamma> @ [Wrote z]\<rparr>"
    note step = sp_producer_write [OF wf room z \<sigma>'_def \<gamma>'_def]
    have "sp_written T x (z + 1) (\<sigma>', \<gamma>')"
      using written by (rule sp_written_next) (use room z item in \<open>auto simp: \<sigma>'_def sp_room_def\<close>)
    then have "weakly_safe hist (sp_protocol T) 0 p Q (\<sigma>', \<gamma>')"
      using step(2) h by (intro post) (auto simp: holds_mutexes_def \<sigma>'_def)
    then show "\<exists>\<gamma>'. hist \<gamma>' = record_access 0 (Written 0 (ar_array T) (ar_slot T z)) (hist \<gamma>) \<and>
        guar (sp_protocol T) 0 (\<sigma>, \<gamma>) (\<sigma>\<lparr>cells := (cells \<sigma>)(ar_array T := (cells \<sigma> (ar_array T))(ar_slot T z := i))\<rparr>, \<gamma>') \<and>
        weakly_safe hist (sp_protocol T) 0 p Q (\<sigma>\<lparr>cells := (cells \<sigma>)(ar_array T := (cells \<sigma> (ar_array T))(ar_slot T z := i))\<rparr>, \<gamma>')"
      using step(1) unfolding \<sigma>'_def by (intro exI [of _ \<gamma>']) (simp add: \<gamma>'_def)
  qed
qed

lemma sp_data_publish:
  assumes data: "sp_data T (\<sigma>, \<gamma>)" and x: "pub \<gamma> = x" "x \<le> y" "y < ar_total T"
    and room: "\<And>c. c \<in> ar_consumers T \<Longrightarrow> y < got \<gamma> c + 2 ^ ar_bits T"
    and written: "sp_written T x (y + 1) (\<sigma>, \<gamma>)"
    and barriers: "\<And>c. c \<in> ar_consumers T \<Longrightarrow> ar_barrier T c \<noteq> ar_cursor T"
    and \<gamma>': "pub \<gamma>' = y + 1" "got \<gamma>' = got \<gamma>"
  shows "sp_data T (put (ar_cursor T) (seq_at y) \<sigma>, \<gamma>')"
  unfolding sp_data_def prod.case
proof (intro conjI ballI)
  fix c assume c: "c \<in> ar_consumers T"
  show "mem (put (ar_cursor T) (seq_at y) \<sigma>) (ar_barrier T c) = seq_at (got \<gamma>' c - 1)"
    using data c barriers [OF c] by (simp add: sp_data_def \<gamma>')
  show "0 \<le> got \<gamma>' c" "got \<gamma>' c \<le> pub \<gamma>'" "pub \<gamma>' \<le> got \<gamma>' c + 2 ^ ar_bits T"
    using data c room [OF c] x by (auto simp: sp_data_def \<gamma>')
  show "got \<gamma>' c \<le> got \<gamma>' u" if "u \<in> ar_upstream T c" for u
    using data c that by (simp add: sp_data_def \<gamma>')
  show "\<forall>p. got \<gamma>' c \<le> p \<longrightarrow> p < pub \<gamma>' \<longrightarrow>
      cells (put (ar_cursor T) (seq_at y) \<sigma>) (ar_array T) (ar_slot T p) = ar_item T p"
  proof (intro allI impI)
    fix p assume "got \<gamma>' c \<le> p" "p < pub \<gamma>'"
    then show "cells (put (ar_cursor T) (seq_at y) \<sigma>) (ar_array T) (ar_slot T p) = ar_item T p"
      using data c written x by (cases "p < x") (auto simp: sp_data_def sp_written_def \<gamma>')
  qed
qed (use data x in \<open>auto simp: sp_data_def \<gamma>'\<close>)

lemma sp_producer_publish:
  assumes wf: "well_arranged T" and room: "sp_room T x y (\<sigma>, \<gamma>)" and total: "y < ar_total T"
    and written: "sp_written T x (y + 1) (\<sigma>, \<gamma>)"
    and \<gamma>': "\<gamma>' = \<gamma>\<lparr>pub := y + 1, hist := store 0 Release (ar_cursor T) (seq_at y) (hist \<gamma>),
      events := events \<gamma> @ [Published y]\<rparr>"
  shows "guar (sp_protocol T) 0 (\<sigma>, \<gamma>) (put (ar_cursor T) (seq_at y) \<sigma>, \<gamma>')"
    and "sp_producing T (y + 1) (put (ar_cursor T) (seq_at y) \<sigma>, \<gamma>')"
proof -
  define \<sigma>' where "\<sigma>' = put (ar_cursor T) (seq_at y) \<sigma>"
  have inv: "sp_inv T (\<sigma>, \<gamma>)" and x: "pub \<gamma> = x" "x \<le> y"
    and r: "\<And>c. c \<in> ar_consumers T \<Longrightarrow> y < got \<gamma> c + 2 ^ ar_bits T"
    using room by (simp_all add: sp_room_def sp_producing_def)
  have data: "sp_data T (\<sigma>, \<gamma>)" using inv by (simp add: sp_inv_def)
  have barriers: "ar_barrier T c \<noteq> ar_cursor T" if "c \<in> ar_consumers T" for c
    using wf that by (simp add: well_arranged_def)
  have more: "goes_on (Collect (sp_settled T \<gamma>)) (events \<gamma>) (events \<gamma>')"
    using x by (simp add: \<gamma>' goes_on_snoc)
  have sees: "seen (hist \<gamma>) 0 \<subseteq> seen (hist \<gamma>') 0" by (auto simp: \<gamma>' store_def)
  define V where "V = insert (length (history (hist \<gamma>))) (seen (hist \<gamma>) 0)"
  have "knows (events \<gamma>) (seen (hist \<gamma>) 0) (sp_known T {} y)"
    using room inv by (intro sp_producer_knows) (simp_all add: sp_room_def)
  then have "knows (events \<gamma>) V (sp_known T {} y)" by (rule knows_view) (auto simp: V_def)
  then have known: "knows (events \<gamma>') V (sp_known T {} y)"
    by (simp add: \<gamma>' knows_snoc V_def sp_events_length [OF inv])
  have h: "hist \<gamma>' = record_access 0 (Stored 0 (ar_cursor T) (seq_at y) False V) (hist \<gamma>)"
    by (simp add: \<gamma>' store_def V_def)
  have data': "sp_data T (\<sigma>', \<gamma>')"
    unfolding \<sigma>'_def using data x total r written barriers by (rule sp_data_publish) (simp_all add: \<gamma>')
  have later: "position e < y" if "e \<in> set (events \<gamma>)" "sp_stores T (ar_cursor T) e" for e
  proof -
    obtain n where n: "n < length (events \<gamma>)" "events \<gamma> ! n = e" using \<open>e \<in> set (events \<gamma>)\<close> by (auto simp: in_set_conv_nth)
    have e: "sp_entry T \<gamma> e (history (hist \<gamma>) ! n)" using sp_entry_at [OF inv n(1)] n(2) by simp
    show ?thesis
    proof (cases e)
      case (Given_By c p)
      then show ?thesis using that(2) barriers [of c] by simp
    qed (use that(2) x e in simp_all)
  qed
  have c0: "0 \<notin> ar_consumers T" using wf by (simp add: well_arranged_def)
  have pos: "0 \<le> y" using data x by (auto simp: sp_data_def)
  have entry: "sp_entry T \<gamma>' (Published y) (Stored 0 (ar_cursor T) (seq_at y) False V)"
    using known pos by (simp add: \<gamma>')
  note step = sp_step [OF inv data' h _ _ entry]
  have inv': "sp_inv T (\<sigma>', \<gamma>')" by (rule step(1)) (use c0 x later in \<open>auto simp: \<gamma>' \<sigma>'_def\<close>)
  have "sp_rely T u (\<sigma>, \<gamma>) (\<sigma>', \<gamma>')" if "u \<noteq> 0" for u
    by (rule step(2)) (use c0 x later that in \<open>auto simp: \<gamma>' \<sigma>'_def\<close>)
  then show "guar (sp_protocol T) 0 (\<sigma>, \<gamma>) (put (ar_cursor T) (seq_at y) \<sigma>, \<gamma>')" by (simp add: \<sigma>'_def)
  have "sp_seen_gates T \<gamma>' (y - 2 ^ ar_bits T)"
    using room by (intro sp_seen_gates_stable [OF _ more sees]) (simp add: sp_room_def)
  then show "sp_producing T (y + 1) (put (ar_cursor T) (seq_at y) \<sigma>, \<gamma>')"
    using inv' by (simp add: sp_producing_def \<gamma>' \<sigma>'_def)
qed

lemma sp_safely_publish:
  assumes wf: "well_arranged T" and W: "wait_strategy_model W" and cs: "sp_claims T W cs z"
    and s: "sp_room T x y s" "holds_mutexes 0 {} (fst s)" "y < ar_total T" "sp_written T x (y + 1) s"
    and post: "\<And>s. sp_producing T (y + 1) s \<Longrightarrow> holds_mutexes 0 {} (fst s) \<Longrightarrow> Q () s"
  shows "weakly_safe hist (sp_protocol T) 0 (st_publish cs (seq_at y)) Q s"
proof -
  have b: "sb_waitStrategy (st_readBarrier cs) = W" "sb_lastPublished (st_readBarrier cs) = ar_cursor T"
    using cs by (simp_all add: sp_claims_def)
  show ?thesis
    unfolding st_publish_def barrier_publish_def weakly_safe_store b
  proof (intro allI impI conjI)
    fix \<sigma> \<gamma> assume r: "rely (sp_protocol T) 0 s (\<sigma>, \<gamma>)"
    have room: "sp_room T x y (\<sigma>, \<gamma>)" using s(1) r by (auto intro: sp_room_rely)
    have h: "holds_mutexes 0 {} \<sigma>" using sp_holds_mutexes_rely [OF s(2)] r by fastforce
    have c: "sp_written T x (y + 1) (\<sigma>, \<gamma>)" using s(4) r by (auto intro: sp_written_rely)
    have inv: "sp_inv T (\<sigma>, \<gamma>)" "pub \<gamma> = x" and y: "x \<le> y" "y < x + 2 ^ ar_bits T"
      using room by (simp_all add: sp_room_def sp_producing_def)
    then have "mem \<sigma> (ar_cursor T) = seq_at (x - 1)" by (auto simp: sp_inv_def sp_data_def)
    moreover have "(2 :: int) ^ ar_bits T \<le> 2 ^ 62" using wf by (intro power_increasing) (auto simp: well_arranged_def)
    ultimately have moves: "mem \<sigma> (ar_cursor T) \<noteq> seq_at y" using y by (simp add: seq_at_inject)
    then show "okay (sp_protocol T) 0 (Store Release (ar_cursor T) (seq_at y)) (\<sigma>, \<gamma>)" by simp
    have "sp_does 0 e" if "sp_stores T (ar_cursor T) e" for e
      using that wf by (cases e) (auto simp: well_arranged_def)
    with inv(1) show "ordered 0 (Store Release (ar_cursor T) (seq_at y)) (hist \<gamma>)" by (rule sp_store_ordered)
    define \<sigma>' where "\<sigma>' = put (ar_cursor T) (seq_at y) \<sigma>"
    define \<gamma>' where "\<gamma>' = \<gamma>\<lparr>pub := y + 1, hist := store 0 Release (ar_cursor T) (seq_at y) (hist \<gamma>),
      events := events \<gamma> @ [Published y]\<rparr>"
    note step = sp_producer_publish [OF wf room s(3) c \<gamma>'_def, folded \<sigma>'_def]
    have h': "holds_mutexes 0 {} (fst (\<sigma>', \<gamma>'))" using h by (simp add: \<sigma>'_def holds_mutexes_def)
    have "weakly_safe hist (sp_protocol T) 0 (ws_signal_all_when_blocking W) Q (\<sigma>', \<gamma>')"
      using post step(2) by (intro sp.safely_waiting [OF wait_strategy_model.signal_waits_only [OF W] _ step(2) h'
          sp_producing_waiting, where K = "\<lambda>_ _ _ _. True"]) (auto simp: sp.stable_waiting_def sp_producing_def)
    then show "\<exists>\<gamma>'. hist \<gamma>' = store 0 Release (ar_cursor T) (seq_at y) (hist \<gamma>) \<and>
        guar (sp_protocol T) 0 (\<sigma>, \<gamma>) (put (ar_cursor T) (seq_at y) \<sigma>, \<gamma>') \<and>
        weakly_safe hist (sp_protocol T) 0 (ws_signal_all_when_blocking W) Q (put (ar_cursor T) (seq_at y) \<sigma>, \<gamma>')"
      using step(1) unfolding \<sigma>'_def by (intro exI [of _ \<gamma>']) (simp add: \<gamma>'_def)
  qed
qed

lemma sp_safely_producer_loop:
  fixes T :: "(64 word) arrangement"
  assumes wf: "well_arranged T" and W: "wait_strategy_model W"
    and buffer: "rb_mask buffer = 2 ^ ar_bits T - 1" "rb_data buffer = ar_array T"
    and items: "ar_item T = word_of_int" and total: "ar_total T = uint iterationCount"
    and "sp_claims T W cs (uint i)" and "i \<le> iterationCount"
    and "sp_producing T (uint i) s" and "holds_mutexes 0 {} (fst s)"
    and post: "\<And>s. sp_producing T (ar_total T) s \<Longrightarrow> Q () s"
  shows "weakly_safe hist (sp_protocol T) 0 (st_producer_loop n cs buffer iterationCount i) Q s"
  using assms(7-10)
proof (induction "unat iterationCount - unat i" arbitrary: i cs s rule: less_induct)
  case less
  note prems = less.prems
  show ?case
  proof (cases "i < iterationCount")
    case False
    then have "i = iterationCount" using prems(2) by simp
    then show ?thesis using prems(3) post total by (simp add: st_producer_loop.simps)
  next
    case True
    have up: "uint (i + 1) = uint i + 1" "i + 1 \<le> iterationCount"
      using arg_cong [OF unat_plus_1 [OF True], of int] inc_le [OF True] by simp_all
    have x: "uint i < ar_total T" using True total by (simp add: word_less_def)
    have "weakly_safe hist (sp_protocol T) 0 (st_claim_one n cs) (\<lambda>y. weakly_safe hist (sp_protocol T) 0 (case y of (seq, cs) \<Rightarrow>
        buffer_write buffer seq i (bind (st_publish cs seq) (\<lambda>_. st_producer_loop n cs buffer iterationCount (i + 1)))) Q) s"
    proof (rule sp_safely_claim_one [OF wf W prems(1,3,4)])
      fix s1 cs1
      assume room: "sp_room T (uint i) (uint i) s1" and h1: "holds_mutexes 0 {} (fst s1)"
        and cs1: "sp_claims T W cs1 (uint i + 1)"
      have "weakly_safe hist (sp_protocol T) 0 (buffer_write buffer (seq_at (uint i)) i
          (bind (st_publish cs1 (seq_at (uint i))) (\<lambda>_. st_producer_loop n cs1 buffer iterationCount (i + 1)))) Q s1"
      proof (rule sp_safely_buffer_write [OF wf buffer room h1 sp_written_none order_refl order_refl])
        show "i = ar_item T (uint i)" by (simp add: items)
        fix s2 assume room2: "sp_room T (uint i) (uint i) s2" and h2: "holds_mutexes 0 {} (fst s2)"
          and c2: "sp_written T (uint i) (uint i + 1) s2"
        have "weakly_safe hist (sp_protocol T) 0 (st_publish cs1 (seq_at (uint i)))
            (\<lambda>_. weakly_safe hist (sp_protocol T) 0 (st_producer_loop n cs1 buffer iterationCount (i + 1)) Q) s2"
        proof (rule sp_safely_publish [OF wf W cs1 room2 h2 x c2])
          fix s3 assume p3: "sp_producing T (uint i + 1) s3" and h3: "holds_mutexes 0 {} (fst s3)"
          show "weakly_safe hist (sp_protocol T) 0 (st_producer_loop n cs1 buffer iterationCount (i + 1)) Q s3"
            using cs1 p3 h3 up unat_count_up [OF True] by (intro less.hyps) simp_all
        qed
        then show "weakly_safe hist (sp_protocol T) 0 (bind (st_publish cs1 (seq_at (uint i)))
            (\<lambda>_. st_producer_loop n cs1 buffer iterationCount (i + 1))) Q s2" by (simp add: weakly_safe_bind)
      qed
      then show "weakly_safe hist (sp_protocol T) 0 (case (seq_at (uint i), cs1) of (seq, cs) \<Rightarrow>
          buffer_write buffer seq i (bind (st_publish cs seq) (\<lambda>_. st_producer_loop n cs buffer iterationCount (i + 1)))) Q s1"
        by simp
    qed
    then show ?thesis
      using True by (simp add: st_producer_loop.simps [of n cs buffer iterationCount i] weakly_safe_bind)
  qed
qed

end
