(* ===== verification/Single_Producer_Setup.thy ===== *)
theory Single_Producer_Setup
  imports Single_Producer_Loop
begin

text \<open>
  The set-up of the benchmarks with one producer: what their set-up code leaves behind, and
  that the threads it starts are one producer and consumers arranged as the protocol of
  theory Single_Producer has them.
\<close>

section \<open>The objects of the benchmarks\<close>

text \<open>
  Consumers \<open>1..m\<close> with their barriers in \<open>Cell 1\<close> to \<open>Cell m\<close>, the producer's in \<open>Cell 0\<close>,
  and items \<open>0, 1, ...\<close>
\<close>

definition arranged :: "nat \<Rightarrow> int \<Rightarrow> nat \<Rightarrow> (nat \<Rightarrow> nat set) \<Rightarrow> nat set \<Rightarrow> (64 word) arrangement" where
  "arranged k items m upstream gates =
     \<lparr>ar_bits = k, ar_array = 0, ar_cursor = Cell 0, ar_barrier = Cell, ar_consumers = {1..m},
      ar_upstream = upstream, ar_gates = gates, ar_total = items, ar_item = word_of_int\<rparr>"

lemma arranged_select [simp]:
  "ar_bits (arranged k items m up gates) = k" "ar_array (arranged k items m up gates) = 0"
  "ar_cursor (arranged k items m up gates) = Cell 0" "ar_barrier (arranged k items m up gates) = Cell"
  "ar_consumers (arranged k items m up gates) = {1..m}" "ar_upstream (arranged k items m up gates) = up"
  "ar_gates (arranged k items m up gates) = gates" "ar_total (arranged k items m up gates) = items"
  "ar_item (arranged k items m up gates) = word_of_int"
  by (simp_all add: arranged_def)

definition new_barrier_at :: "'d wait_strategy \<Rightarrow> addr \<Rightarrow> 'd sequence_barrier" where
  "new_barrier_at W a = \<lparr>sb_waitStrategy = W, sb_lastPublished = a\<rparr>"

definition new_buffer :: "nat \<Rightarrow> ring_buffer" where
  "new_buffer k = \<lparr>rb_size = 2 ^ k, rb_mask = 2 ^ k - 1, rb_data = 0\<rparr>"

text \<open>The claim strategy after set-up, with its gates in the order in which they were added.\<close>

definition new_claims :: "nat \<Rightarrow> 'd wait_strategy \<Rightarrow> nat list \<Rightarrow> 'd single_claim" where
  "new_claims k W gates =
     \<lparr>st_bufferSize = 2 ^ k, st_nextSequenceToClaim = 0,
      st_claimBarrier = \<lparr>sbg_waitStrategy = W, sbg_sequences = map Cell gates\<rparr>,
      st_readBarrier = new_barrier_at W (Cell 0)\<rparr>"

section \<open>The set-up of the benchmarks\<close>

lemma run_new_sequence_barrier:
  "run t alone (bind (new_sequence_barrier W a) f) i \<sigma> =
     (let (out, \<sigma>', l) = run t alone (f (new_barrier_at W a)) (Suc i) (put a (- 1) \<sigma>)
      in (out, \<sigma>', (Init a (- 1), RUnit) # l))"
  by (simp add: new_sequence_barrier_def do_act_def new_barrier_at_def)

lemma run_new_single_claim:
  assumes "run t alone (bind (new_single_claim n W (Cell 0)) f) i \<sigma> = (Returned x, \<sigma>', l)"
  obtains k l' where "k < 64" "n = 2 ^ k"
    "run t alone (f (new_claims k W [])) (Suc i) (put (Cell 0) (- 1) \<sigma>) = (Returned x, \<sigma>', l')"
proof -
  have p: "power_of_two n" using assms
    by (auto simp: new_single_claim_def new_sequence_barrier_def do_act_def assert_def power_of_two_def
        split: prod.splits if_splits)
  then obtain k where k: "k < 64" "n = 2 ^ k" by (auto simp: power_of_two_iff)
  with assms p that [of k] show thesis
    by (auto simp: new_single_claim_def new_sequence_barrier_def do_act_def assert_def power_of_two_def
        new_claims_def new_barrier_at_def new_sequence_barrier_group_def split: prod.splits if_splits)
qed

lemma new_ring_buffer_power: "k < 64 \<Longrightarrow> new_ring_buffer (2 ^ k) 0 = Return (new_buffer k)"
  using power_of_two_iff [of "2 ^ k"]
  by (auto simp: new_ring_buffer_def assert_def new_buffer_def power_of_two_def)

lemma st_add_claim_barrier_new:
  "st_add_claim_barrier (new_claims k W gates) (new_barrier_at W (Cell g)) = Return (new_claims k W (gates @ [g]))"
  by (simp add: st_add_claim_barrier_def group_add_barrier_def assert_def new_claims_def new_barrier_at_def)

text \<open>The atomics of the barriers \<open>is\<close> after their construction.\<close>

definition init_barriers :: "nat list \<Rightarrow> 'd mach \<Rightarrow> 'd mach" where
  "init_barriers is \<sigma> = fold (\<lambda>i. put (Cell (Suc i)) (- 1)) is \<sigma>"

lemma init_barriers_simps [simp]:
  "init_barriers [] \<sigma> = \<sigma>" "init_barriers (i # is) \<sigma> = init_barriers is (put (Cell (Suc i)) (- 1) \<sigma>)"
  by (simp_all add: init_barriers_def)

lemma mem_init_barriers:
  "mem (init_barriers is \<sigma>) a = (if a \<in> (\<lambda>i. Cell (Suc i)) ` set is then - 1 else mem \<sigma> a)"
  "owner (init_barriers is \<sigma>) = owner \<sigma>" "waiting (init_barriers is \<sigma>) = waiting \<sigma>"
  by (induction "is" arbitrary: \<sigma>) auto

lemma mem_init_all:
  "c \<le> m \<Longrightarrow> mem (init_barriers [0..<m] (put (Cell 0) (- 1) \<sigma>)) (Cell c) = - 1"
  "owner (init_barriers [0..<m] (put (Cell 0) (- 1) \<sigma>)) = owner \<sigma>"
  "waiting (init_barriers [0..<m] (put (Cell 0) (- 1) \<sigma>)) = waiting \<sigma>"
  by (cases c) (auto simp: mem_init_barriers)

lemma run_multicast_barriers:
  "\<exists>l. run t alone (multicast_barriers W is (new_claims k W gates)) i \<sigma> =
     (Returned (new_claims k W (gates @ map Suc is), map (\<lambda>i. new_barrier_at W (Cell (Suc i))) is),
      init_barriers is \<sigma>, l)"
proof (induction "is" arbitrary: gates i \<sigma>)
  case (Cons j js)
  obtain l where l: "run t alone (multicast_barriers W js (new_claims k W (gates @ [Suc j]))) (Suc i)
      (put (Cell (Suc j)) (- 1) \<sigma>) =
    (Returned (new_claims k W ((gates @ [Suc j]) @ map Suc js), map (\<lambda>i. new_barrier_at W (Cell (Suc i))) js),
      init_barriers js (put (Cell (Suc j)) (- 1) \<sigma>), l)"
    using Cons.IH by blast
  show ?case by (simp add: run_new_sequence_barrier st_add_claim_barrier_new run_bind [OF l])
qed simp

lemma run_pipeline_barriers:
  "\<exists>l. run t alone (pipeline_barriers W is) i \<sigma> =
     (Returned (map (\<lambda>i. new_barrier_at W (Cell (Suc i))) is), init_barriers is \<sigma>, l)"
proof (induction "is" arbitrary: i \<sigma>)
  case (Cons j js)
  obtain l where l: "run t alone (pipeline_barriers W js) (Suc i) (put (Cell (Suc j)) (- 1) \<sigma>) =
    (Returned (map (\<lambda>i. new_barrier_at W (Cell (Suc i))) js),
      init_barriers js (put (Cell (Suc j)) (- 1) \<sigma>), l)"
    using Cons.IH by blast
  show ?case by (simp add: run_new_sequence_barrier run_bind [OF l])
qed simp

lemma run_diamond_barriers:
  "\<exists>l. run t alone (diamond_barriers W m is \<lparr>sbg_waitStrategy = W, sbg_sequences = map Cell ps\<rparr>) i \<sigma> =
     (Returned (\<lparr>sbg_waitStrategy = W, sbg_sequences = map Cell (ps @ map Suc (filter (\<lambda>i. i + 1 \<noteq> m) is))\<rparr>,
        map (\<lambda>i. new_barrier_at W (Cell (Suc i))) is), init_barriers is \<sigma>, l)"
proof (induction "is" arbitrary: ps i \<sigma>)
  case (Cons j js)
  show ?case
  proof (cases "j + 1 = m")
    case True
    obtain l where l: "run t alone (diamond_barriers W m js \<lparr>sbg_waitStrategy = W, sbg_sequences = map Cell ps\<rparr>) (Suc i) (put (Cell (Suc j)) (- 1) \<sigma>) =
     (Returned (\<lparr>sbg_waitStrategy = W, sbg_sequences = map Cell (ps @ map Suc (filter (\<lambda>i. i + 1 \<noteq> m) js))\<rparr>,
        map (\<lambda>i. new_barrier_at W (Cell (Suc i))) js), init_barriers js (put (Cell (Suc j)) (- 1) \<sigma>), l)"
      using Cons.IH by blast
    have m: "m = Suc j" using True by simp
    show ?thesis unfolding m by (simp add: run_new_sequence_barrier run_bind [OF l [unfolded m, simplified]])
  next
    case False
    obtain l where l: "run t alone (diamond_barriers W m js \<lparr>sbg_waitStrategy = W, sbg_sequences = map Cell (ps @ [Suc j])\<rparr>) (Suc i) (put (Cell (Suc j)) (- 1) \<sigma>) =
     (Returned (\<lparr>sbg_waitStrategy = W, sbg_sequences = map Cell ((ps @ [Suc j]) @ map Suc (filter (\<lambda>i. i + 1 \<noteq> m) js))\<rparr>,
        map (\<lambda>i. new_barrier_at W (Cell (Suc i))) js), init_barriers js (put (Cell (Suc j)) (- 1) \<sigma>), l)"
      using Cons.IH by blast
    have a: "group_add_barrier \<lparr>sbg_waitStrategy = W, sbg_sequences = map Cell ps\<rparr> (new_barrier_at W (Cell (Suc j))) =
      Return \<lparr>sbg_waitStrategy = W, sbg_sequences = map Cell (ps @ [Suc j])\<rparr>"
      by (simp add: group_add_barrier_def assert_def new_barrier_at_def)
    show ?thesis using False a by (simp add: run_new_sequence_barrier run_bind [OF l [simplified]])
  qed
qed simp

lemma run_all_diamond_barriers:
  assumes "0 < m"
  shows "\<exists>l. run t alone (diamond_barriers W m [0..<m] (new_sequence_barrier_group W)) i \<sigma> =
     (Returned (\<lparr>sbg_waitStrategy = W, sbg_sequences = map Cell [1..<m]\<rparr>,
        map (\<lambda>i. new_barrier_at W (Cell (Suc i))) [0..<m]), init_barriers [0..<m] \<sigma>, l)"
proof -
  have f: "map Suc (filter (\<lambda>i. i + 1 \<noteq> m) [0..<m]) = [1..<m]"
  proof -
    have "[0..<m] = [0..<m - 1] @ [m - 1]" using assms by (metis Suc_pred' upt_Suc_append zero_le)
    moreover have "filter (\<lambda>i. i + 1 \<noteq> m) [0..<m - 1] = [0..<m - 1]" by (intro filter_True) auto
    ultimately have "filter (\<lambda>i. i + 1 \<noteq> m) [0..<m] = [0..<m - 1]" using assms by simp
    then show ?thesis using assms by (simp add: map_Suc_upt)
  qed
  show ?thesis
    using run_diamond_barriers [of t W m "[0..<m]" "[]" i \<sigma>]
    unfolding new_sequence_barrier_group_def append_Nil f list.map by blast
qed

text \<open>The four set-ups, when they return.\<close>

lemma small_bits: "(2 :: 64 word) ^ k \<le> 2 ^ 62 \<Longrightarrow> k < 64 \<Longrightarrow> k \<le> 62"
proof -
  assume "(2 :: 64 word) ^ k \<le> 2 ^ 62" "k < 64"
  then have "(2 :: nat) ^ k \<le> 2 ^ 62" using unat_2_power [of k] unat_2_power [of 62] by (simp add: word_le_nat_alt)
  then show "k \<le> 62" by (rule power_le_imp_le_exp [rotated]) simp
qed

lemma unicast_setup_returns:
  assumes "run 0 alone (unicast_setup W bufferSize) 0 \<sigma> = (Returned objects, \<sigma>0, l)" "bufferSize \<le> 2 ^ 62"
  obtains k where "bufferSize = 2 ^ k" "k \<le> 62" "objects = (new_claims k W [1], new_barrier_at W (Cell 1), new_buffer k)"
    "mem \<sigma>0 (Cell 0) = - 1" "mem \<sigma>0 (Cell 1) = - 1" "owner \<sigma>0 = owner \<sigma>" "waiting \<sigma>0 = waiting \<sigma>"
proof -
  obtain k l' where k: "k < 64" "bufferSize = 2 ^ k" and
    "run 0 alone (bind (new_sequence_barrier W (Cell 1)) (\<lambda>consumed.
       bind (st_add_claim_barrier (new_claims k W []) consumed) (\<lambda>claimStrategy.
       bind (new_ring_buffer bufferSize 0) (\<lambda>buffer. Return (claimStrategy, consumed, buffer))))) (Suc 0)
       (put (Cell 0) (- 1) \<sigma>) = (Returned objects, \<sigma>0, l')"
    using assms(1) unfolding unicast_setup_def by (rule run_new_single_claim)
  then show thesis
    using assms(2) small_bits [of k] that [of k]
    by (auto simp: run_new_sequence_barrier st_add_claim_barrier_new [where g = 1, simplified] new_ring_buffer_power)
qed

lemma multicast_setup_returns:
  assumes "run 0 alone (multicast_setup W bufferSize m) 0 \<sigma> = (Returned objects, \<sigma>0, l)" "bufferSize \<le> 2 ^ 62"
  obtains k where "bufferSize = 2 ^ k" "k \<le> 62"
    "objects = (new_claims k W (map Suc [0..<m]), map (\<lambda>i. new_barrier_at W (Cell (Suc i))) [0..<m], new_buffer k)"
    "\<And>c. c \<le> m \<Longrightarrow> mem \<sigma>0 (Cell c) = - 1" "owner \<sigma>0 = owner \<sigma>" "waiting \<sigma>0 = waiting \<sigma>"
proof -
  obtain k l' where k: "k < 64" "bufferSize = 2 ^ k" and
    r: "run 0 alone (bind (new_ring_buffer bufferSize 0) (\<lambda>buffer.
     bind (multicast_barriers W [0..<m] (new_claims k W [])) (\<lambda>(claimStrategy, consumedBarriers).
       Return (claimStrategy, consumedBarriers, buffer)))) (Suc 0)
       (put (Cell 0) (- 1) \<sigma>) = (Returned objects, \<sigma>0, l')"
    using assms(1) unfolding multicast_setup_def by (rule run_new_single_claim)
  obtain l2 where l2: "run 0 alone (multicast_barriers W [0..<m] (new_claims k W [])) (Suc 0) (put (Cell 0) (- 1) \<sigma>) =
     (Returned (new_claims k W ([] @ map Suc [0..<m]), map (\<lambda>i. new_barrier_at W (Cell (Suc i))) [0..<m]),
      init_barriers [0..<m] (put (Cell 0) (- 1) \<sigma>), l2)"
    using run_multicast_barriers by blast
  have "objects = (new_claims k W (map Suc [0..<m]), map (\<lambda>i. new_barrier_at W (Cell (Suc i))) [0..<m], new_buffer k)"
    "\<sigma>0 = init_barriers [0..<m] (put (Cell 0) (- 1) \<sigma>)"
    using r k by (simp_all add: new_ring_buffer_power run_bind [OF l2])
  then show thesis
    using assms(2) k small_bits [of k] by (intro that [of k]) (auto simp: mem_init_all)
qed

lemma pipeline_setup_returns:
  assumes "run 0 alone (pipeline_setup W bufferSize m) 0 \<sigma> = (Returned objects, \<sigma>0, l)" "bufferSize \<le> 2 ^ 62" "0 < m"
  obtains k where "bufferSize = 2 ^ k" "k \<le> 62"
    "objects = (new_claims k W [m], map (\<lambda>i. new_barrier_at W (Cell (Suc i))) [0..<m], new_buffer k)"
    "\<And>c. c \<le> m \<Longrightarrow> mem \<sigma>0 (Cell c) = - 1" "owner \<sigma>0 = owner \<sigma>" "waiting \<sigma>0 = waiting \<sigma>"
proof -
  obtain k l' where k: "k < 64" "bufferSize = 2 ^ k" and
    r: "run 0 alone (bind (new_ring_buffer bufferSize 0) (\<lambda>buffer.
     bind (pipeline_barriers W [0..<m]) (\<lambda>consumedBarriers.
     bind (st_add_claim_barrier (new_claims k W []) (last consumedBarriers)) (\<lambda>claimStrategy.
       Return (claimStrategy, consumedBarriers, buffer))))) (Suc 0)
       (put (Cell 0) (- 1) \<sigma>) = (Returned objects, \<sigma>0, l')"
    using assms(1) unfolding pipeline_setup_def by (rule run_new_single_claim)
  obtain l2 where l2: "run 0 alone (pipeline_barriers W [0..<m]) (Suc 0) (put (Cell 0) (- 1) \<sigma>) =
     (Returned (map (\<lambda>i. new_barrier_at W (Cell (Suc i))) [0..<m]),
      init_barriers [0..<m] (put (Cell 0) (- 1) \<sigma>), l2)"
    using run_pipeline_barriers by blast
  have "last (map (\<lambda>i. new_barrier_at W (Cell (Suc i))) [0..<m]) = new_barrier_at W (Cell m)"
    using assms(3) by (simp add: last_map)
  then have "objects = (new_claims k W [m], map (\<lambda>i. new_barrier_at W (Cell (Suc i))) [0..<m], new_buffer k)"
    "\<sigma>0 = init_barriers [0..<m] (put (Cell 0) (- 1) \<sigma>)"
    using r k by (simp_all add: new_ring_buffer_power run_bind [OF l2] st_add_claim_barrier_new)
  then show thesis
    using assms(2) k small_bits [of k] by (intro that [of k]) (auto simp: mem_init_all)
qed

lemma diamond_setup_returns:
  assumes "run 0 alone (diamond_setup W bufferSize m) 0 \<sigma> = (Returned objects, \<sigma>0, l)" "bufferSize \<le> 2 ^ 62" "0 < m"
  obtains k where "bufferSize = 2 ^ k" "k \<le> 62"
    "objects = (new_claims k W [m], map (\<lambda>i. new_barrier_at W (Cell (Suc i))) [0..<m],
      \<lparr>sbg_waitStrategy = W, sbg_sequences = map Cell [1..<m]\<rparr>, new_buffer k)"
    "\<And>c. c \<le> m \<Longrightarrow> mem \<sigma>0 (Cell c) = - 1" "owner \<sigma>0 = owner \<sigma>" "waiting \<sigma>0 = waiting \<sigma>"
proof -
  obtain k l' where k: "k < 64" "bufferSize = 2 ^ k" and
    r: "run 0 alone (bind (new_ring_buffer bufferSize 0) (\<lambda>buffer.
     bind (diamond_barriers W m [0..<m] (new_sequence_barrier_group W)) (\<lambda>(parallelConsumers, consumedBarriers).
     bind (st_add_claim_barrier (new_claims k W []) (last consumedBarriers)) (\<lambda>claimStrategy.
       Return (claimStrategy, consumedBarriers, parallelConsumers, buffer))))) (Suc 0)
       (put (Cell 0) (- 1) \<sigma>) = (Returned objects, \<sigma>0, l')"
    using assms(1) unfolding diamond_setup_def by (rule run_new_single_claim)
  obtain l2 where l2: "run 0 alone (diamond_barriers W m [0..<m] (new_sequence_barrier_group W)) (Suc 0) (put (Cell 0) (- 1) \<sigma>) =
     (Returned (\<lparr>sbg_waitStrategy = W, sbg_sequences = map Cell [1..<m]\<rparr>,
        map (\<lambda>i. new_barrier_at W (Cell (Suc i))) [0..<m]), init_barriers [0..<m] (put (Cell 0) (- 1) \<sigma>), l2)"
    using run_all_diamond_barriers [OF assms(3)] by blast
  have "last (map (\<lambda>i. new_barrier_at W (Cell (Suc i))) [0..<m]) = new_barrier_at W (Cell m)"
    using assms(3) by (simp add: last_map)
  then have "objects = (new_claims k W [m], map (\<lambda>i. new_barrier_at W (Cell (Suc i))) [0..<m],
      \<lparr>sbg_waitStrategy = W, sbg_sequences = map Cell [1..<m]\<rparr>, new_buffer k)"
    "\<sigma>0 = init_barriers [0..<m] (put (Cell 0) (- 1) \<sigma>)"
    using r k by (simp_all add: new_ring_buffer_power run_bind [OF l2] st_add_claim_barrier_new)
  then show thesis
    using assms(2) k small_bits [of k] by (intro that [of k]) (auto simp: mem_init_all)
qed

section \<open>The arrangements\<close>

lemma well_arranged_arranged:
  fixes n :: "64 word"
  assumes "k \<le> 62" "gates \<subseteq> {1..m}" "\<And>c. c \<in> {1..m} \<Longrightarrow> up c \<subseteq> {1..m}"
    and "\<And>c. c \<in> {1..m} \<Longrightarrow> \<exists>g \<in> gates. (c, g) \<in> (downstream (arranged k (uint n) m up gates))\<^sup>*"
  shows "well_arranged (arranged k (uint n) m up gates)"
proof -
  have "uint n < 2 ^ LENGTH(64)" by (rule uint_lt2p)
  with assms show ?thesis by (simp add: well_arranged_def inj_on_def)
qed

definition pipeline_upstream :: "nat \<Rightarrow> nat set" where
  "pipeline_upstream c = (if c = 1 then {} else {c - 1})"

definition diamond_upstream :: "nat \<Rightarrow> nat \<Rightarrow> nat set" where
  "diamond_upstream m c = (if c = m then {1..<m} else {})"

lemma well_arranged_multicast:
  "k \<le> 62 \<Longrightarrow> well_arranged (arranged k (uint n) m (\<lambda>_. {}) {1..m})" for n :: "64 word"
  by (rule well_arranged_arranged) auto

lemma well_arranged_pipeline:
  fixes n :: "64 word"
  assumes "k \<le> 62" "0 < m"
  shows "well_arranged (arranged k (uint n) m pipeline_upstream {m})"
proof (rule well_arranged_arranged)
  fix c assume c: "c \<in> {1..m}"
  then show "pipeline_upstream c \<subseteq> {1..m}" by (auto simp: pipeline_upstream_def)
  have "(c, d) \<in> (downstream (arranged k (uint n) m pipeline_upstream {m}))\<^sup>*" if "c \<le> d" "d \<le> m" for d
    using that
  proof (induction rule: dec_induct)
    case (step d)
    have "(d, Suc d) \<in> downstream (arranged k (uint n) m pipeline_upstream {m})"
      using step c by (auto simp: downstream_def pipeline_upstream_def)
    with step show ?case by (auto intro: rtrancl_into_rtrancl)
  qed simp
  with c show "\<exists>g \<in> {m}. (c, g) \<in> (downstream (arranged k (uint n) m pipeline_upstream {m}))\<^sup>*" by auto
qed (use assms in auto)

lemma well_arranged_diamond:
  fixes n :: "64 word"
  assumes "k \<le> 62" "0 < m"
  shows "well_arranged (arranged k (uint n) m (diamond_upstream m) {m})"
proof (rule well_arranged_arranged)
  fix c assume c: "c \<in> {1..m}"
  then show "diamond_upstream m c \<subseteq> {1..m}" by (auto simp: diamond_upstream_def)
  have "(c, m) \<in> downstream (arranged k (uint n) m (diamond_upstream m) {m})" if "c \<noteq> m"
    using c that by (auto simp: downstream_def diamond_upstream_def)
  then show "\<exists>g \<in> {m}. (c, g) \<in> (downstream (arranged k (uint n) m (diamond_upstream m) {m}))\<^sup>*"
    by (cases "c = m") auto
qed (use assms in auto)

lemma barrier_nth:
  assumes "Suc 0 \<le> c" "c \<le> m"
  shows "map (\<lambda>i. new_barrier_at W (Cell (Suc i))) [0..<m] ! (c - Suc 0) = new_barrier_at W (Cell c)"
proof -
  have "c - Suc 0 < m" using assms by auto
  then show ?thesis using assms by simp
qed

lemma earlier_barrier_nth:
  assumes "Suc 0 \<le> c" "c \<le> m" "c \<noteq> Suc 0"
  shows "map (\<lambda>i. new_barrier_at W (Cell (Suc i))) [0..<m] ! (c - 2) = new_barrier_at W (Cell (c - 1))"
  using barrier_nth [of "c - Suc 0" m W] assms
  by (simp add: diff_diff_left numeral_2_eq_2)

section \<open>The threads at their start\<close>

text \<open>The waits of the consumers: for one barrier, or for a group of barriers.\<close>

definition library_wait ::
    "'d wait_strategy \<Rightarrow> nat \<Rightarrow> (sequence_t \<Rightarrow> ('d, sequence_t) prog) \<Rightarrow> addr list \<Rightarrow> bool" where
  "library_wait W n wait as \<longleftrightarrow>
     (\<exists>a. as = [a] \<and> wait = barrier_wait_until_published n (new_barrier_at W a)) \<or>
     (as \<noteq> [] \<and> wait = group_wait_until_published n \<lparr>sbg_waitStrategy = W, sbg_sequences = as\<rparr>)"

lemma library_wait_barrier: "library_wait W n (barrier_wait_until_published n (new_barrier_at W a)) [a]"
  by (simp add: library_wait_def)

lemma library_wait_group:
  "as \<noteq> [] \<Longrightarrow> library_wait W n (group_wait_until_published n \<lparr>sbg_waitStrategy = W, sbg_sequences = as\<rparr>) as"
  by (simp add: library_wait_def)

lemma library_wait_claims:
  "library_wait W n
     (\<lambda>nextToRead. st_wait_until_published_known n (new_claims k W gates) nextToRead (nextToRead - 1)) [Cell 0]"
  by (simp add: library_wait_def st_wait_until_published_known_def st_wait_until_published_def new_claims_def)

context wait_strategy_model
begin

lemma waits_for_barrier: "waits_for (barrier_wait_until_published n (new_barrier_at W a)) [a]"
  using returns_barrier_wait [of "new_barrier_at W a"] waits_only_barrier_wait [of "new_barrier_at W a"]
  by (simp add: waits_for_def new_barrier_at_def)

lemma waits_for_group:
  assumes "as \<noteq> []"
  shows "waits_for (group_wait_until_published n \<lparr>sbg_waitStrategy = W, sbg_sequences = as\<rparr>) as"
  using assms returns_group_wait [of "\<lparr>sbg_waitStrategy = W, sbg_sequences = as\<rparr>"]
    waits_only_group_wait [of "\<lparr>sbg_waitStrategy = W, sbg_sequences = as\<rparr>"]
  by (simp add: waits_for_def)

lemma waits_for_library: "library_wait W n wait as \<Longrightarrow> waits_for wait as"
  using waits_for_barrier waits_for_group by (auto simp: library_wait_def)

end

text \<open>
  Thread 0 is the producer, threads \<open>1..m\<close> are consumers that wait for what is upstream of them,
  and nothing has been published.
\<close>

definition sp_started ::
    "nat \<Rightarrow> nat \<Rightarrow> (nat \<Rightarrow> nat set) \<Rightarrow> nat list \<Rightarrow> (64 word) wait_strategy \<Rightarrow> nat \<Rightarrow> 64 word \<Rightarrow>
     (64 word, (64 word) option) pool \<Rightarrow> bool" where
  "sp_started k m up gates W n iterationCount c \<longleftrightarrow>
     well_arranged (arranged k (uint iterationCount) m up (set gates)) \<and>
     gates \<noteq> [] \<and> (\<forall>i \<in> {1..m}. up i \<subseteq> {1..<i}) \<and>
     (\<forall>i \<le> m. mem (fst c) (Cell i) = - 1) \<and> owner (fst c) = (\<lambda>_. None) \<and>
     snd c 0 = st_producer n (new_claims k W gates) (new_buffer k) iterationCount \<and>
     (\<forall>i \<in> {1..m}. \<exists>wait as.
       snd c i = consumer n wait (new_buffer k) (new_barrier_at W (Cell i)) iterationCount \<and>
       library_wait W n wait as \<and> set as = (if up i = {} then {Cell 0} else Cell ` up i)) \<and>
     (\<forall>t > m. snd c t = Return None)"

lemma unicast_started:
  assumes "run 0 alone (unicast_setup W bufferSize) 0 \<sigma> = (Returned objects, \<sigma>0, l)" "bufferSize \<le> 2 ^ 62"
    and "owner \<sigma> = (\<lambda>_. None)"
  obtains k where "bufferSize = 2 ^ k" "k \<le> 62" "waiting \<sigma>0 = waiting \<sigma>"
    "sp_started k 1 (\<lambda>_. {}) [1] W n iterationCount (\<sigma>0, unicast_threads n objects iterationCount)"
proof -
  obtain k where k: "bufferSize = 2 ^ k" "k \<le> 62"
    and o: "objects = (new_claims k W [1], new_barrier_at W (Cell 1), new_buffer k)"
    and mem: "mem \<sigma>0 (Cell 0) = - 1" "mem \<sigma>0 (Cell 1) = - 1" "owner \<sigma>0 = owner \<sigma>" "waiting \<sigma>0 = waiting \<sigma>"
    using assms(1,2) by (rule unicast_setup_returns)
  have "mem \<sigma>0 (Cell i) = - 1" if "i \<le> 1" for i using that mem by (cases i) auto
  moreover have "\<exists>wait as. unicast_threads n objects iterationCount i =
        consumer n wait (new_buffer k) (new_barrier_at W (Cell i)) iterationCount \<and>
        library_wait W n wait as \<and> set as = {Cell 0}" if "i \<in> {1..1}" for i
    using that library_wait_claims [of W n k "[1]"]
    by (intro exI conjI) (auto simp: unicast_threads_def o)
  ultimately have "sp_started k 1 (\<lambda>_. {}) [1] W n iterationCount (\<sigma>0, unicast_threads n objects iterationCount)"
    using well_arranged_multicast [OF k(2), of iterationCount 1] assms(3) mem
    by (auto simp: sp_started_def unicast_threads_def o)
  with k mem show thesis by (intro that)
qed

lemma multicast_started:
  assumes "run 0 alone (multicast_setup W bufferSize m) 0 \<sigma> = (Returned objects, \<sigma>0, l)" "bufferSize \<le> 2 ^ 62"
    and "owner \<sigma> = (\<lambda>_. None)" "0 < m"
  obtains k where "bufferSize = 2 ^ k" "k \<le> 62" "waiting \<sigma>0 = waiting \<sigma>"
    "sp_started k m (\<lambda>_. {}) (map Suc [0..<m]) W n iterationCount (\<sigma>0, multicast_threads n objects iterationCount)"
proof -
  obtain k where k: "bufferSize = 2 ^ k" "k \<le> 62"
    and o: "objects = (new_claims k W (map Suc [0..<m]), map (\<lambda>i. new_barrier_at W (Cell (Suc i))) [0..<m], new_buffer k)"
    and mem: "\<And>c. c \<le> m \<Longrightarrow> mem \<sigma>0 (Cell c) = - 1" "owner \<sigma>0 = owner \<sigma>" "waiting \<sigma>0 = waiting \<sigma>"
    using assms(1,2) by (rule multicast_setup_returns) blast
  have "\<exists>wait as. multicast_threads n objects iterationCount i =
        consumer n wait (new_buffer k) (new_barrier_at W (Cell i)) iterationCount \<and>
        library_wait W n wait as \<and> set as = {Cell 0}" if "i \<in> {1..m}" for i
    using that library_wait_claims [of W n k "map Suc [0..<m]"]
    by (intro exI conjI) (auto simp: multicast_threads_def o barrier_nth)
  moreover have "set (map Suc [0..<m]) = {1..m}"
    by (simp add: image_Suc_atLeastLessThan atLeastLessThanSuc_atLeastAtMost)
  ultimately have "sp_started k m (\<lambda>_. {}) (map Suc [0..<m]) W n iterationCount
      (\<sigma>0, multicast_threads n objects iterationCount)"
    using well_arranged_multicast [OF k(2), of iterationCount m] assms(3,4) mem
    by (auto simp: sp_started_def multicast_threads_def o)
  with k mem show thesis by (intro that)
qed

lemma pipeline_started:
  assumes "run 0 alone (pipeline_setup W bufferSize m) 0 \<sigma> = (Returned objects, \<sigma>0, l)" "bufferSize \<le> 2 ^ 62"
    and "owner \<sigma> = (\<lambda>_. None)" "0 < m"
  obtains k where "bufferSize = 2 ^ k" "k \<le> 62" "waiting \<sigma>0 = waiting \<sigma>"
    "sp_started k m pipeline_upstream [m] W n iterationCount (\<sigma>0, pipeline_threads n objects iterationCount)"
proof -
  obtain k where k: "bufferSize = 2 ^ k" "k \<le> 62"
    and o: "objects = (new_claims k W [m], map (\<lambda>i. new_barrier_at W (Cell (Suc i))) [0..<m], new_buffer k)"
    and mem: "\<And>c. c \<le> m \<Longrightarrow> mem \<sigma>0 (Cell c) = - 1" "owner \<sigma>0 = owner \<sigma>" "waiting \<sigma>0 = waiting \<sigma>"
    using assms(1,2,4) by (rule pipeline_setup_returns) blast
  have "\<exists>wait as. pipeline_threads n objects iterationCount i =
        consumer n wait (new_buffer k) (new_barrier_at W (Cell i)) iterationCount \<and> library_wait W n wait as \<and>
        set as = (if pipeline_upstream i = {} then {Cell 0} else Cell ` pipeline_upstream i)"
    if i: "i \<in> {1..m}" for i
  proof (cases "i = 1")
    case True
    then show ?thesis
      using i library_wait_claims [of W n k "[m]"]
      by (intro exI conjI) (auto simp: pipeline_threads_def pipeline_upstream_def o barrier_nth)
  next
    case False
    then have "map (\<lambda>i. new_barrier_at W (Cell (Suc i))) [0..<m] ! (i - 2) = new_barrier_at W (Cell (i - 1))"
      using i by (intro earlier_barrier_nth) auto
    with False i library_wait_barrier [of W n "Cell (i - 1)"] show ?thesis
      by (intro exI conjI) (auto simp: pipeline_threads_def pipeline_upstream_def o barrier_nth)
  qed
  moreover have "pipeline_upstream i \<subseteq> {1..<i}" if "i \<in> {1..m}" for i
    using that by (auto simp: pipeline_upstream_def)
  ultimately have "sp_started k m pipeline_upstream [m] W n iterationCount (\<sigma>0, pipeline_threads n objects iterationCount)"
    using well_arranged_pipeline [OF k(2) assms(4), of iterationCount] assms(3,4) mem
    by (auto simp: sp_started_def pipeline_threads_def o)
  with k mem show thesis by (intro that)
qed

lemma diamond_started:
  assumes "run 0 alone (diamond_setup W bufferSize m) 0 \<sigma> = (Returned objects, \<sigma>0, l)" "bufferSize \<le> 2 ^ 62"
    and "owner \<sigma> = (\<lambda>_. None)" "1 < m"
  obtains k where "bufferSize = 2 ^ k" "k \<le> 62" "waiting \<sigma>0 = waiting \<sigma>"
    "sp_started k m (diamond_upstream m) [m] W n iterationCount (\<sigma>0, diamond_threads n objects iterationCount)"
proof -
  have pos: "0 < m" using assms(4) by simp
  obtain k where k: "bufferSize = 2 ^ k" "k \<le> 62"
    and o: "objects = (new_claims k W [m], map (\<lambda>i. new_barrier_at W (Cell (Suc i))) [0..<m],
      \<lparr>sbg_waitStrategy = W, sbg_sequences = map Cell [1..<m]\<rparr>, new_buffer k)"
    and mem: "\<And>c. c \<le> m \<Longrightarrow> mem \<sigma>0 (Cell c) = - 1" "owner \<sigma>0 = owner \<sigma>" "waiting \<sigma>0 = waiting \<sigma>"
    using assms(1,2) pos by (rule diamond_setup_returns) blast
  have "\<exists>wait as. diamond_threads n objects iterationCount i =
        consumer n wait (new_buffer k) (new_barrier_at W (Cell i)) iterationCount \<and> library_wait W n wait as \<and>
        set as = (if diamond_upstream m i = {} then {Cell 0} else Cell ` diamond_upstream m i)"
    if i: "i \<in> {1..m}" for i
  proof (cases "i = m")
    case False
    then show ?thesis
      using i library_wait_claims [of W n k "[m]"]
      by (intro exI conjI) (auto simp: diamond_threads_def diamond_upstream_def o barrier_nth)
  next
    case True
    with assms(4) library_wait_group [of "map Cell [1..<m]" W n] show ?thesis
      by (intro exI [of _ "group_wait_until_published n \<lparr>sbg_waitStrategy = W, sbg_sequences = map Cell [1..<m]\<rparr>"]
          exI [of _ "map Cell [1..<m]"] conjI) (auto simp: diamond_threads_def diamond_upstream_def o barrier_nth)
  qed
  moreover have "diamond_upstream m i \<subseteq> {1..<i}" for i by (auto simp: diamond_upstream_def)
  ultimately have "sp_started k m (diamond_upstream m) [m] W n iterationCount (\<sigma>0, diamond_threads n objects iterationCount)"
    using well_arranged_diamond [OF k(2) pos, of iterationCount] assms(3) pos mem
    by (auto simp: sp_started_def diamond_threads_def o)
  with k mem show thesis by (intro that)
qed

end
