(* ===== verification/Single_Producer_Benchmarks.thy ===== *)
theory Single_Producer_Benchmarks
  imports Single_Producer_Setup
begin

text \<open>
  The benchmarks with one producer: unicast, multicast, pipeline and diamond.  In every execution
  of their threads that the memory orders of the code allow, no assertion fails, there is no data
  race, and every consumer that ends has computed the sum of all items.
\<close>

section \<open>The sums\<close>

lemma fold_items_plus:
  "fold_items (+) (0 :: 64 word) word_of_int (int n) = word_of_int (int n * (int n - 1) div 2)"
proof (induction n)
  case (Suc n)
  have d: "(int n + 1) * int n div 2 = int n * (int n - 1) div 2 + int n"
  proof -
    have "(int n + 1) * int n = int n * (int n - 1) + int n * 2" by (simp add: algebra_simps)
    then show ?thesis by simp
  qed
  have "fold_items (+) (0 :: 64 word) word_of_int (int n + 1) =
      word_of_int (int n) + word_of_int (int n * (int n - 1) div 2)"
    using Suc fold_items_Suc [of "int n" "(+)" "0 :: 64 word" word_of_int] by simp
  also have "\<dots> = word_of_int (int n * (int n - 1) div 2 + int n)" by simp
  finally show ?case using d by (simp add: add.commute)
qed simp

lemma consumer_sum:
  "fold_items (+) (0 :: 64 word) word_of_int (uint c) = word_of_int (uint c * (uint c - 1) div 2)"
  for c :: "64 word"
  using fold_items_plus [of "unat c"] by simp

text \<open>The result the benchmarks expect is the sum, as long as the product does not overflow.\<close>

lemma expectedResult_sum:
  assumes "uint c * (uint c - 1) < 2 ^ 64"
  shows "expectedResult c = word_of_int (uint c * (uint c - 1) div 2)"
proof (cases "c = 0")
  case False
  then have "uint c \<noteq> 0" by (simp add: uint_0_iff)
  with uint_ge_0 [of c] have c: "1 \<le> uint c" by linarith
  have "uint c < 2 ^ LENGTH(64)" by (rule uint_lt2p)
  then have u: "uint (c - 1) = uint c - 1"
    using c by (simp add: uint_word_ariths)
  have "uint (c * (c - 1)) = uint c * (uint c - 1)"
    using assms c u by (simp add: uint_word_ariths)
  then show ?thesis by (simp add: expectedResult_def word_div_def)
qed (simp add: expectedResult_def)

section \<open>From the threads to the pool\<close>

text \<open>
  A pool so started has the invariant of the protocol, every thread of it is safe, and a
  consumer can only return the sum of the items.
\<close>

definition sum_of_items :: "64 word \<Rightarrow> (64 word) option" where
  "sum_of_items iterationCount = Some (word_of_int (uint iterationCount * (uint iterationCount - 1) div 2))"

definition no_progress :: "'d mach \<Rightarrow> progress" where
  "no_progress \<sigma> = \<lparr>pub = 0, got = (\<lambda>_. 0), hist = fresh \<sigma>, events = []\<rparr>"

lemma no_progress_simps [simp]:
  "pub (no_progress \<sigma>) = 0" "got (no_progress \<sigma>) = (\<lambda>_. 0)" "hist (no_progress \<sigma>) = fresh \<sigma>"
  "events (no_progress \<sigma>) = []"
  by (simp_all add: no_progress_def)

lemma sp_inv_start:
  assumes "0 \<le> ar_total T" and "mem \<sigma> (ar_cursor T) = - 1"
    and "\<And>c. c \<in> ar_consumers T \<Longrightarrow> mem \<sigma> (ar_barrier T c) = - 1"
  shows "sp_inv T (\<sigma>, no_progress \<sigma>)" and "sp_producing T 0 (\<sigma>, no_progress \<sigma>)"
    and "sp_ready T c (no_progress \<sigma>) (- 1)"
proof -
  have "(- 1 :: int) - 2 ^ ar_bits T < 0" using zero_less_power [of "2 :: int" "ar_bits T"] by linarith
  moreover have "sp_data T (\<sigma>, no_progress \<sigma>)" using assms by (auto simp: sp_data_def seq_at_minus_1)
  moreover have "sp_history T (no_progress \<sigma>)" using assms by (auto simp: sp_history_def knows_def seq_at_minus_1)
  ultimately show "sp_inv T (\<sigma>, no_progress \<sigma>)" "sp_producing T 0 (\<sigma>, no_progress \<sigma>)"
    by (simp_all add: sp_inv_def sp_producing_def sp_seen_gates_def sp_spotted_def coherent_fresh)
  show "sp_ready T c (no_progress \<sigma>) (- 1)" by (simp add: sp_ready_def sp_spotted_def knows_def)
qed

lemma sp_started_safely:
  assumes st: "sp_started k m up gates W n iterationCount (\<sigma>0, ps0)" and W: "wait_strategy_model W"
    and T: "T = arranged k (uint iterationCount) m up (set gates)"
  shows "sp_inv T (\<sigma>0, no_progress \<sigma>0)"
    and "weakly_safe hist (sp_protocol T) t (ps0 t) (\<lambda>x s. t \<in> {1..m} \<longrightarrow> x = sum_of_items iterationCount)
      (\<sigma>0, no_progress \<sigma>0)"
proof -
  let ?\<gamma>0 = "no_progress \<sigma>0"
  let ?safely = "\<lambda>p Q. weakly_safe hist (sp_protocol T) t p Q"
  let ?post = "\<lambda>x s. t \<in> {1..m} \<longrightarrow> x = sum_of_items iterationCount"
  have wf: "well_arranged T" and gates: "gates \<noteq> []" using st by (simp_all add: sp_started_def T)
  have free: "holds_mutexes t {} (fst (\<sigma>0, ?\<gamma>0))" for t using st by (simp add: sp_started_def holds_mutexes_def)
  note start = sp_inv_start [of T \<sigma>0]
  have mem: "mem \<sigma>0 (Cell 0) = - 1" "\<And>c. c \<in> {1..m} \<Longrightarrow> mem \<sigma>0 (Cell c) = - 1"
    using st by (simp_all add: sp_started_def)
  show inv0: "sp_inv T (\<sigma>0, ?\<gamma>0)" by (rule start(1)) (use mem in \<open>simp_all add: T\<close>)
  have claims: "sp_claims T W (new_claims k W gates) (uint (0 :: 64 word))"
    using gates by (simp add: sp_claims_def new_claims_def T seq_at_def new_barrier_at_def)
  have buffer: "rb_mask (new_buffer k) = 2 ^ ar_bits T - 1" "rb_data (new_buffer k) = ar_array T"
    by (simp_all add: new_buffer_def T)
  consider "t = 0" | "t \<in> {1..m}" | "m < t" by fastforce
  then show "?safely (ps0 t) ?post (\<sigma>0, ?\<gamma>0)"
  proof cases
    case 1
    have prod: "sp_producing T 0 (\<sigma>0, ?\<gamma>0)" by (rule start(2)) (use mem in \<open>simp_all add: T\<close>)
    have "weakly_safe hist (sp_protocol T) 0 (st_producer_loop n (new_claims k W gates) (new_buffer k) iterationCount 0)
        (\<lambda>x. weakly_safe hist (sp_protocol T) 0 (Return None) ?post) (\<sigma>0, ?\<gamma>0)"
      by (rule sp_safely_producer_loop [OF wf W buffer _ _ claims _ _ free])
        (use prod 1 in \<open>simp_all add: T\<close>)
    then show ?thesis using 1 st by (simp add: sp_started_def st_producer_def weakly_safe_bind)
  next
    case 2
    then obtain wait as where ps: "ps0 t = consumer n wait (new_buffer k) (new_barrier_at W (Cell t)) iterationCount"
      and w: "waits_for wait as" and as: "set as = (if up t = {} then {Cell 0} else Cell ` up t)"
      using st wait_strategy_model.waits_for_library [OF W] unfolding sp_started_def by fastforce
    have c: "t \<in> ar_consumers T" using 2 by (simp add: T)
    have src: "set as = sp_sources T t" by (simp add: as sp_sources_def T)
    have "?safely
        (consume_loop n wait (+) (new_buffer k) (new_barrier_at W (Cell t)) 0 (of_int (ar_total T)) 0)
        (\<lambda>x. ?safely (Return (Some x)) ?post) (\<sigma>0, ?\<gamma>0)"
    proof (rule sp_safely_consume_loop [OF wf c W buffer _ _ src])
      show "?safely (Return (Some (fold_items (+) 0 (ar_item T) (ar_total T)))) ?post s" for s
        using consumer_sum by (simp add: T sum_of_items_def)
      show "sp_ready T t (snd (\<sigma>0, ?\<gamma>0)) (- 1)" using start(3) [of t] mem by (simp add: T)
    qed (use inv0 free w in \<open>auto simp: new_barrier_at_def T\<close>)
    then show ?thesis by (simp add: ps consumer_def weakly_safe_bind T)
  next
    case 3
    then show ?thesis using st by (simp add: sp_started_def)
  qed
qed

lemma sp_started_safe:
  assumes "sp_started k m up gates W n iterationCount (\<sigma>0, ps0)" and "wait_strategy_model W"
    and "T = arranged k (uint iterationCount) m up (set gates)"
  shows "sp_inv T (\<sigma>0, no_progress \<sigma>0)"
    and "safe (sp_protocol T) t (ps0 t) (\<lambda>x s. t \<in> {1..m} \<longrightarrow> x = sum_of_items iterationCount) (\<sigma>0, no_progress \<sigma>0)"
  using sp_started_safely [OF assms] weakly_safe_safe by blast+

lemma sp_started_weakly_sound:
  assumes "sp_started k m up gates W n iterationCount (\<sigma>0, ps0)" and "wait_strategy_model W"
    and "weak_run ((\<sigma>0, fresh \<sigma>0), ps0) ((\<sigma>, \<omega>), ps)"
  shows "sound_pool {1..m} (sum_of_items iterationCount) ps \<and> race_free \<omega> ps"
  using assms(3) sp_started_safely [OF assms(1,2) refl]
  by (intro sp_pool.weak_sound_run [of \<sigma>0 "no_progress \<sigma>0"]) simp_all

lemma sp_started_sound:
  assumes "sp_started k m up gates W n iterationCount (\<sigma>0, ps0)" and "wait_strategy_model W"
    and "pool_run (\<sigma>0, ps0) (\<sigma>, ps)"
  shows "sound_pool {1..m} (sum_of_items iterationCount) ps"
  using sp_started_weakly_sound [OF assms(1,2)] pool_run_weak_run [OF assms(3), of "fresh \<sigma>0"] by auto

lemma sp_started_inv:
  assumes "sp_started k m up gates W n iterationCount (\<sigma>0, ps0)" and "wait_strategy_model W"
    and "weak_run ((\<sigma>0, fresh \<sigma>0), ps0) ((\<sigma>, \<omega>), ps)"
  obtains \<gamma> where "sp_data (arranged k (uint iterationCount) m up (set gates)) (\<sigma>, \<gamma>)"
  using sp.weak_pool_safe [of \<sigma>0 "no_progress \<sigma>0" ps0 "((\<sigma>, \<omega>), ps)"
      "arranged k (uint iterationCount) m up (set gates)" "\<lambda>t x s. t \<in> {1..m} \<longrightarrow> x = sum_of_items iterationCount"]
    assms(3) sp_started_safely [OF assms(1,2) refl] that by (auto simp: sp_inv_def)

section \<open>Runs to completion\<close>

lemmas run_setup_defs = unicast_setup_def multicast_setup_def pipeline_setup_def diamond_setup_def
  new_single_claim_def new_sequence_barrier_def st_add_claim_barrier_def group_add_barrier_def
  new_ring_buffer_def new_sequence_barrier_group_def prog_defs
  new_claims_def new_barrier_at_def new_buffer_def

lemmas run_thread_defs = unicast_threads_def multicast_threads_def pipeline_threads_def diamond_threads_def
  st_producer_def consumer_def st_producer_loop.simps st_claim_one_def st_publish_def
  group_wait_until_published_def minimum_sequence_after_def difference_def
  st_wait_until_published_known_def st_wait_until_published_def barrier_wait_until_published_def
  barrier_last_published_def barrier_publish_def buffer_write_def buffer_read_def buffer_slot_def
  read_batch.simps spin_wait_strategy_def spin_signal_all_when_blocking_def prog_defs
  new_claims_def new_barrier_at_def new_buffer_def

text \<open>The machine after the set-up with \<open>m\<close> consumers.\<close>

definition set_up :: "nat \<Rightarrow> (64 word) mach" where
  "set_up m = init_barriers [0..<m] (put (Cell 0) (- 1) (at_rest 0))"

lemma unicast_run:
  fixes W :: "(64 word) wait_strategy" defines "W \<equiv> spin_wait_strategy 7"
  obtains l \<sigma> ps where
    "run 0 alone (unicast_setup W 1) 0 (at_rest 0) =
       (Returned (new_claims 0 W [1], new_barrier_at W (Cell 1), new_buffer 0), set_up 1, l)"
    "pool_exec [(0, 0), (0, 0), (0, 0), (1, 0), (1, 0), (1, 0)]
       (set_up 1, unicast_threads 1 (new_claims 0 W [1], new_barrier_at W (Cell 1), new_buffer 0) 1) = Some (\<sigma>, ps)"
    "ps 1 = Return (Some 0)"
  unfolding W_def by (simp_all add: run_setup_defs run_thread_defs set_up_def)

lemma multicast_run:
  fixes W :: "(64 word) wait_strategy" defines "W \<equiv> spin_wait_strategy 7"
  obtains l \<sigma> ps where
    "run 0 alone (multicast_setup W 1 2) 0 (at_rest 0) =
       (Returned (new_claims 0 W [1, 2], map (\<lambda>c. new_barrier_at W (Cell c)) [1, 2], new_buffer 0), set_up 2, l)"
    "pool_exec [(0, 0), (0, 0), (0, 0), (0, 0), (1, 0), (2, 0), (2, 0), (1, 0), (1, 0), (2, 0)]
       (set_up 2, multicast_threads 1
         (new_claims 0 W [1, 2], map (\<lambda>c. new_barrier_at W (Cell c)) [1, 2], new_buffer 0) 1) = Some (\<sigma>, ps)"
    "ps 1 = Return (Some 0)" "ps 2 = Return (Some 0)"
  unfolding W_def by (simp_all add: run_setup_defs run_thread_defs set_up_def upt_rec numeral_2_eq_2)

lemma pipeline_run:
  fixes W :: "(64 word) wait_strategy" defines "W \<equiv> spin_wait_strategy 7"
  obtains l \<sigma> ps where
    "run 0 alone (pipeline_setup W 1 2) 0 (at_rest 0) =
       (Returned (new_claims 0 W [2], map (\<lambda>c. new_barrier_at W (Cell c)) [1, 2], new_buffer 0), set_up 2, l)"
    "pool_exec [(0, 0), (0, 0), (0, 0), (1, 0), (1, 0), (1, 0), (2, 0), (2, 0), (2, 0)]
       (set_up 2, pipeline_threads 1
         (new_claims 0 W [2], map (\<lambda>c. new_barrier_at W (Cell c)) [1, 2], new_buffer 0) 1) = Some (\<sigma>, ps)"
    "ps 1 = Return (Some 0)" "ps 2 = Return (Some 0)"
  unfolding W_def by (simp_all add: run_setup_defs run_thread_defs set_up_def upt_rec numeral_2_eq_2)

lemma diamond_run:
  fixes W :: "(64 word) wait_strategy" defines "W \<equiv> spin_wait_strategy 7"
  obtains l \<sigma> ps where
    "run 0 alone (diamond_setup W 1 2) 0 (at_rest 0) =
       (Returned (new_claims 0 W [2], map (\<lambda>c. new_barrier_at W (Cell c)) [1, 2],
          \<lparr>sbg_waitStrategy = W, sbg_sequences = [Cell 1]\<rparr>, new_buffer 0), set_up 2, l)"
    "pool_exec [(0, 0), (0, 0), (0, 0), (1, 0), (1, 0), (1, 0), (2, 0), (2, 0), (2, 0)]
       (set_up 2, diamond_threads 1
         (new_claims 0 W [2], map (\<lambda>c. new_barrier_at W (Cell c)) [1, 2],
          \<lparr>sbg_waitStrategy = W, sbg_sequences = [Cell 1]\<rparr>, new_buffer 0) 1) = Some (\<sigma>, ps)"
    "ps 1 = Return (Some 0)" "ps 2 = Return (Some 0)"
  unfolding W_def by (simp_all add: run_setup_defs run_thread_defs set_up_def upt_rec numeral_2_eq_2)

section \<open>The benchmarks\<close>

text \<open>
  C1.  The unicast benchmark: one producer, one consumer, single-threaded claim strategy,
  either wait strategy.  In every execution of the two threads on the weak machine, where a load
  may return any value that its memory order does not forbid, and whatever the buffer size and
  the number of items are, no assertion fails, every access to a slot happens after those that it
  conflicts with, and the consumer, when it ends, has the expected result.
\<close>

theorem unicast_correct:
  assumes "W \<in> library_strategies" and "bufferSize \<le> 2 ^ 62"
    and "uint iterationCount * (uint iterationCount - 1) < 2 ^ 64"
    and "run 0 alone (unicast_setup W bufferSize) 0 \<sigma> = (Returned objects, \<sigma>0, l)"
    and "owner \<sigma> = (\<lambda>_. None)"
    and "weak_run ((\<sigma>0, fresh \<sigma>0), unicast_threads n objects iterationCount) ((\<sigma>', \<omega>), ps)"
  shows "sound_pool {1} (Some (expectedResult iterationCount)) ps \<and> race_free \<omega> ps"
proof -
  obtain k where st: "sp_started k 1 (\<lambda>_. {}) [1] W n iterationCount (\<sigma>0, unicast_threads n objects iterationCount)"
    using assms(4,2,5) by (rule unicast_started)
  have "sound_pool {1..1} (sum_of_items iterationCount) ps \<and> race_free \<omega> ps"
    by (rule sp_started_weakly_sound [OF st library_strategy_model [OF assms(1)] assms(6)])
  then show ?thesis by (simp add: expectedResult_sum [OF assms(3)] sum_of_items_def)
qed

lemma unicast_correct_witness:
  "\<exists>objects \<sigma>0 l \<sigma>' \<omega> ps.
     run 0 alone (unicast_setup (spin_wait_strategy 7) 1) 0 (at_rest 0) = (Returned objects, \<sigma>0, l) \<and>
     pool_exec [(0, 0), (0, 0), (0, 0), (1, 0), (1, 0), (1, 0)] (\<sigma>0, unicast_threads 1 objects 1) = Some (\<sigma>', ps) \<and>
     ps 1 = Return (Some 0) \<and>
     weak_run ((\<sigma>0, fresh \<sigma>0), unicast_threads 1 objects 1) ((\<sigma>', \<omega>), ps) \<and> sound_pool {1} (Some (expectedResult 1)) ps \<and> race_free \<omega> ps"
proof -
  obtain l \<sigma>' ps where
    r: "run 0 alone (unicast_setup (spin_wait_strategy 7) 1) 0 (at_rest 0) =
       (Returned (new_claims 0 (spin_wait_strategy 7) [1], new_barrier_at (spin_wait_strategy 7) (Cell 1), new_buffer 0), set_up 1, l)"
    and p: "pool_exec [(0, 0), (0, 0), (0, 0), (1, 0), (1, 0), (1, 0)]
       (set_up 1, unicast_threads 1 (new_claims 0 (spin_wait_strategy 7) [1],
          new_barrier_at (spin_wait_strategy 7) (Cell 1), new_buffer 0) 1) = Some (\<sigma>', ps)"
    and x: "ps 1 = Return (Some 0)" by (rule unicast_run)
  obtain \<omega> where w: "weak_run ((set_up 1, fresh (set_up 1)), unicast_threads 1 (new_claims 0 (spin_wait_strategy 7) [1],
          new_barrier_at (spin_wait_strategy 7) (Cell 1), new_buffer 0) 1)
    ((\<sigma>', \<omega>), ps)"
    using pool_run_weak_run [OF pool_exec_run [OF p], of "fresh (set_up 1)"] by auto
  have "sound_pool {1} (Some (expectedResult 1)) ps \<and> race_free \<omega> ps"
    by (rule unicast_correct [OF _ _ _ r _ w]) (simp_all add: at_rest_def)
  with r p x w show ?thesis by blast
qed

text \<open>
  C2.  The multicast benchmark: every one of the parallel consumers that ends has the
  expected result; no assertion fails and there is no data race, in any weak execution.
\<close>

theorem multicast_correct:
  assumes "W \<in> library_strategies" and "bufferSize \<le> 2 ^ 62" and "0 < consumerCount"
    and "uint iterationCount * (uint iterationCount - 1) < 2 ^ 64"
    and "run 0 alone (multicast_setup W bufferSize consumerCount) 0 \<sigma> = (Returned objects, \<sigma>0, l)"
    and "owner \<sigma> = (\<lambda>_. None)"
    and "weak_run ((\<sigma>0, fresh \<sigma>0), multicast_threads n objects iterationCount) ((\<sigma>', \<omega>), ps)"
  shows "sound_pool {1..consumerCount} (Some (expectedResult iterationCount)) ps \<and> race_free \<omega> ps"
proof -
  obtain k where st: "sp_started k consumerCount (\<lambda>_. {}) (map Suc [0..<consumerCount]) W n iterationCount (\<sigma>0, multicast_threads n objects iterationCount)"
    using assms(5,2,6,3) by (rule multicast_started)
  have "sound_pool {1..consumerCount} (sum_of_items iterationCount) ps \<and> race_free \<omega> ps"
    by (rule sp_started_weakly_sound [OF st library_strategy_model [OF assms(1)] assms(7)])
  then show ?thesis by (simp add: expectedResult_sum [OF assms(4)] sum_of_items_def)
qed

lemma multicast_correct_witness:
  "\<exists>objects \<sigma>0 l \<sigma>' \<omega> ps.
     run 0 alone (multicast_setup (spin_wait_strategy 7) 1 2) 0 (at_rest 0) = (Returned objects, \<sigma>0, l) \<and>
     pool_exec [(0, 0), (0, 0), (0, 0), (0, 0), (1, 0), (2, 0), (2, 0), (1, 0), (1, 0), (2, 0)] (\<sigma>0, multicast_threads 1 objects 1) = Some (\<sigma>', ps) \<and>
     ps 1 = Return (Some 0) \<and> ps 2 = Return (Some 0) \<and>
     weak_run ((\<sigma>0, fresh \<sigma>0), multicast_threads 1 objects 1) ((\<sigma>', \<omega>), ps) \<and> sound_pool {1..2} (Some (expectedResult 1)) ps \<and> race_free \<omega> ps"
proof -
  obtain l \<sigma>' ps where
    r: "run 0 alone (multicast_setup (spin_wait_strategy 7) 1 2) 0 (at_rest 0) = (Returned (new_claims 0 (spin_wait_strategy 7) [1, 2], map (\<lambda>c. new_barrier_at (spin_wait_strategy 7) (Cell c)) [1, 2], new_buffer 0), set_up 2, l)"
    and p: "pool_exec [(0, 0), (0, 0), (0, 0), (0, 0), (1, 0), (2, 0), (2, 0), (1, 0), (1, 0), (2, 0)] (set_up 2, multicast_threads 1 (new_claims 0 (spin_wait_strategy 7) [1, 2], map (\<lambda>c. new_barrier_at (spin_wait_strategy 7) (Cell c)) [1, 2], new_buffer 0) 1) = Some (\<sigma>', ps)"
    and x: "ps 1 = Return (Some 0)" "ps 2 = Return (Some 0)" by (rule multicast_run)
  obtain \<omega> where w: "weak_run ((set_up 2, fresh (set_up 2)), multicast_threads 1 (new_claims 0 (spin_wait_strategy 7) [1, 2], map (\<lambda>c. new_barrier_at (spin_wait_strategy 7) (Cell c)) [1, 2], new_buffer 0) 1)
    ((\<sigma>', \<omega>), ps)"
    using pool_run_weak_run [OF pool_exec_run [OF p], of "fresh (set_up 2)"] by auto
  have "sound_pool {1..2} (Some (expectedResult 1)) ps \<and> race_free \<omega> ps"
    by (rule multicast_correct [OF _ _ _ _ r _ w]) (simp_all add: at_rest_def)
  with r p x w show ?thesis by blast
qed

text \<open>
  C3.  The pipeline benchmark, where each consumer waits for the one before it and the
  producer for the last one: the same guarantees for every stage, although the producer
  learns of the earlier stages only by way of the last.
\<close>

theorem pipeline_correct:
  assumes "W \<in> library_strategies" and "bufferSize \<le> 2 ^ 62" and "0 < consumerCount"
    and "uint iterationCount * (uint iterationCount - 1) < 2 ^ 64"
    and "run 0 alone (pipeline_setup W bufferSize consumerCount) 0 \<sigma> = (Returned objects, \<sigma>0, l)"
    and "owner \<sigma> = (\<lambda>_. None)"
    and "weak_run ((\<sigma>0, fresh \<sigma>0), pipeline_threads n objects iterationCount) ((\<sigma>', \<omega>), ps)"
  shows "sound_pool {1..consumerCount} (Some (expectedResult iterationCount)) ps \<and> race_free \<omega> ps"
proof -
  obtain k where st: "sp_started k consumerCount pipeline_upstream [consumerCount] W n iterationCount (\<sigma>0, pipeline_threads n objects iterationCount)"
    using assms(5,2,6,3) by (rule pipeline_started)
  have "sound_pool {1..consumerCount} (sum_of_items iterationCount) ps \<and> race_free \<omega> ps"
    by (rule sp_started_weakly_sound [OF st library_strategy_model [OF assms(1)] assms(7)])
  then show ?thesis by (simp add: expectedResult_sum [OF assms(4)] sum_of_items_def)
qed

lemma pipeline_correct_witness:
  "\<exists>objects \<sigma>0 l \<sigma>' \<omega> ps.
     run 0 alone (pipeline_setup (spin_wait_strategy 7) 1 2) 0 (at_rest 0) = (Returned objects, \<sigma>0, l) \<and>
     pool_exec [(0, 0), (0, 0), (0, 0), (1, 0), (1, 0), (1, 0), (2, 0), (2, 0), (2, 0)] (\<sigma>0, pipeline_threads 1 objects 1) = Some (\<sigma>', ps) \<and>
     ps 1 = Return (Some 0) \<and> ps 2 = Return (Some 0) \<and>
     weak_run ((\<sigma>0, fresh \<sigma>0), pipeline_threads 1 objects 1) ((\<sigma>', \<omega>), ps) \<and> sound_pool {1..2} (Some (expectedResult 1)) ps \<and> race_free \<omega> ps"
proof -
  obtain l \<sigma>' ps where
    r: "run 0 alone (pipeline_setup (spin_wait_strategy 7) 1 2) 0 (at_rest 0) = (Returned (new_claims 0 (spin_wait_strategy 7) [2], map (\<lambda>c. new_barrier_at (spin_wait_strategy 7) (Cell c)) [1, 2], new_buffer 0), set_up 2, l)"
    and p: "pool_exec [(0, 0), (0, 0), (0, 0), (1, 0), (1, 0), (1, 0), (2, 0), (2, 0), (2, 0)] (set_up 2, pipeline_threads 1 (new_claims 0 (spin_wait_strategy 7) [2], map (\<lambda>c. new_barrier_at (spin_wait_strategy 7) (Cell c)) [1, 2], new_buffer 0) 1) = Some (\<sigma>', ps)"
    and x: "ps 1 = Return (Some 0)" "ps 2 = Return (Some 0)" by (rule pipeline_run)
  obtain \<omega> where w: "weak_run ((set_up 2, fresh (set_up 2)), pipeline_threads 1 (new_claims 0 (spin_wait_strategy 7) [2], map (\<lambda>c. new_barrier_at (spin_wait_strategy 7) (Cell c)) [1, 2], new_buffer 0) 1)
    ((\<sigma>', \<omega>), ps)"
    using pool_run_weak_run [OF pool_exec_run [OF p], of "fresh (set_up 2)"] by auto
  have "sound_pool {1..2} (Some (expectedResult 1)) ps \<and> race_free \<omega> ps"
    by (rule pipeline_correct [OF _ _ _ _ r _ w]) (simp_all add: at_rest_def)
  with r p x w show ?thesis by blast
qed

text \<open>
  C4.  The diamond benchmark, where the last consumer waits for the group of all others
  and the producer for the last one: the same guarantees for every consumer.
\<close>

theorem diamond_correct:
  assumes "W \<in> library_strategies" and "bufferSize \<le> 2 ^ 62" and "1 < consumerCount"
    and "uint iterationCount * (uint iterationCount - 1) < 2 ^ 64"
    and "run 0 alone (diamond_setup W bufferSize consumerCount) 0 \<sigma> = (Returned objects, \<sigma>0, l)"
    and "owner \<sigma> = (\<lambda>_. None)"
    and "weak_run ((\<sigma>0, fresh \<sigma>0), diamond_threads n objects iterationCount) ((\<sigma>', \<omega>), ps)"
  shows "sound_pool {1..consumerCount} (Some (expectedResult iterationCount)) ps \<and> race_free \<omega> ps"
proof -
  obtain k where st: "sp_started k consumerCount (diamond_upstream consumerCount) [consumerCount] W n iterationCount (\<sigma>0, diamond_threads n objects iterationCount)"
    using assms(5,2,6,3) by (rule diamond_started)
  have "sound_pool {1..consumerCount} (sum_of_items iterationCount) ps \<and> race_free \<omega> ps"
    by (rule sp_started_weakly_sound [OF st library_strategy_model [OF assms(1)] assms(7)])
  then show ?thesis by (simp add: expectedResult_sum [OF assms(4)] sum_of_items_def)
qed

lemma diamond_correct_witness:
  "\<exists>objects \<sigma>0 l \<sigma>' \<omega> ps.
     run 0 alone (diamond_setup (spin_wait_strategy 7) 1 2) 0 (at_rest 0) = (Returned objects, \<sigma>0, l) \<and>
     pool_exec [(0, 0), (0, 0), (0, 0), (1, 0), (1, 0), (1, 0), (2, 0), (2, 0), (2, 0)] (\<sigma>0, diamond_threads 1 objects 1) = Some (\<sigma>', ps) \<and>
     ps 1 = Return (Some 0) \<and> ps 2 = Return (Some 0) \<and>
     weak_run ((\<sigma>0, fresh \<sigma>0), diamond_threads 1 objects 1) ((\<sigma>', \<omega>), ps) \<and> sound_pool {1..2} (Some (expectedResult 1)) ps \<and> race_free \<omega> ps"
proof -
  obtain l \<sigma>' ps where
    r: "run 0 alone (diamond_setup (spin_wait_strategy 7) 1 2) 0 (at_rest 0) = (Returned (new_claims 0 (spin_wait_strategy 7) [2], map (\<lambda>c. new_barrier_at (spin_wait_strategy 7) (Cell c)) [1, 2], \<lparr>sbg_waitStrategy = (spin_wait_strategy 7), sbg_sequences = [Cell 1]\<rparr>, new_buffer 0), set_up 2, l)"
    and p: "pool_exec [(0, 0), (0, 0), (0, 0), (1, 0), (1, 0), (1, 0), (2, 0), (2, 0), (2, 0)] (set_up 2, diamond_threads 1 (new_claims 0 (spin_wait_strategy 7) [2], map (\<lambda>c. new_barrier_at (spin_wait_strategy 7) (Cell c)) [1, 2], \<lparr>sbg_waitStrategy = (spin_wait_strategy 7), sbg_sequences = [Cell 1]\<rparr>, new_buffer 0) 1) = Some (\<sigma>', ps)"
    and x: "ps 1 = Return (Some 0)" "ps 2 = Return (Some 0)" by (rule diamond_run)
  obtain \<omega> where w: "weak_run ((set_up 2, fresh (set_up 2)), diamond_threads 1 (new_claims 0 (spin_wait_strategy 7) [2], map (\<lambda>c. new_barrier_at (spin_wait_strategy 7) (Cell c)) [1, 2], \<lparr>sbg_waitStrategy = (spin_wait_strategy 7), sbg_sequences = [Cell 1]\<rparr>, new_buffer 0) 1)
    ((\<sigma>', \<omega>), ps)"
    using pool_run_weak_run [OF pool_exec_run [OF p], of "fresh (set_up 2)"] by auto
  have "sound_pool {1..2} (Some (expectedResult 1)) ps \<and> race_free \<omega> ps"
    by (rule diamond_correct [OF _ _ _ _ r _ w]) (simp_all add: at_rest_def)
  with r p x w show ?thesis by blast
qed

text \<open>
  C13.  The invariant of the pipeline, in every state that a weak execution reaches: the newest
  values of the barriers are the numbers
  before the positions \<open>taken\<close> by the stages, no stage is ahead of the one before it, the first not
  ahead of the producer, and the producer not more than the buffer ahead of the last; every
  item published and not yet taken by the last stage is in its slot.
\<close>

theorem pipeline_window:
  assumes "W \<in> library_strategies" and "bufferSize \<le> 2 ^ 62" and "0 < consumerCount"
    and "run 0 alone (pipeline_setup W bufferSize consumerCount) 0 \<sigma> = (Returned objects, \<sigma>0, l)"
    and "owner \<sigma> = (\<lambda>_. None)"
    and "weak_run ((\<sigma>0, fresh \<sigma>0), pipeline_threads n objects iterationCount) ((\<sigma>', \<omega>), ps)"
  shows "\<exists>published taken. mem \<sigma>' (Cell 0) = seq_at (published - 1) \<and>
    (\<forall>c \<in> {1..consumerCount}. mem \<sigma>' (Cell c) = seq_at (taken c - 1)) \<and>
    (\<forall>c \<in> {1..<consumerCount}. taken (Suc c) \<le> taken c) \<and>
    0 \<le> taken consumerCount \<and> taken 1 \<le> published \<and> published \<le> uint iterationCount \<and>
    published \<le> taken consumerCount + uint bufferSize \<and>
    (\<forall>p. taken consumerCount \<le> p \<longrightarrow> p < published \<longrightarrow>
       cells \<sigma>' 0 (nat (p mod uint bufferSize)) = word_of_int p)"
proof -
  obtain k where k: "bufferSize = 2 ^ k" "k \<le> 62"
    and st: "sp_started k consumerCount pipeline_upstream [consumerCount] W n iterationCount
      (\<sigma>0, pipeline_threads n objects iterationCount)"
    using assms(4,2,5,3) by (rule pipeline_started) blast
  obtain \<gamma> where inv: "sp_data (arranged k (uint iterationCount) consumerCount pipeline_upstream (set [consumerCount])) (\<sigma>', \<gamma>)"
    by (rule sp_started_inv [OF st library_strategy_model [OF assms(1)] assms(6)])
  have size: "uint bufferSize = 2 ^ k" using k by (simp add: uint_2_power)
  have "got \<gamma> (Suc c) \<le> got \<gamma> c" if "c \<in> {1..<consumerCount}" for c
    using inv that by (auto simp: sp_data_def pipeline_upstream_def)
  then show ?thesis
    using inv assms(3) unfolding size
    by (intro exI [of _ "pub \<gamma>"] exI [of _ "got \<gamma>"]) (auto simp: sp_data_def ar_slot_def)
qed

lemma pipeline_window_witness:
  "\<exists>objects \<sigma>0 l \<sigma>' ps.
     run 0 alone (pipeline_setup (spin_wait_strategy 7) 1 2) 0 (at_rest 0) = (Returned objects, \<sigma>0, l) \<and>
     pool_exec [(0, 0), (0, 0), (0, 0), (1, 0), (1, 0), (1, 0), (2, 0), (2, 0), (2, 0)] (\<sigma>0, pipeline_threads 1 objects 1) = Some (\<sigma>', ps) \<and>
     (\<exists>published taken :: nat \<Rightarrow> int. mem \<sigma>' (Cell 0) = seq_at (published - 1) \<and>
        mem \<sigma>' (Cell 2) = seq_at (taken 2 - 1) \<and> taken 2 \<le> taken 1 \<and> taken 1 \<le> published)"
proof -
  obtain l \<sigma>' ps where
    r: "run 0 alone (pipeline_setup (spin_wait_strategy 7) 1 2) 0 (at_rest 0) = (Returned (new_claims 0 (spin_wait_strategy 7) [2], map (\<lambda>c. new_barrier_at (spin_wait_strategy 7) (Cell c)) [1, 2], new_buffer 0), set_up 2, l)"
    and p: "pool_exec [(0, 0), (0, 0), (0, 0), (1, 0), (1, 0), (1, 0), (2, 0), (2, 0), (2, 0)] (set_up 2, pipeline_threads 1 (new_claims 0 (spin_wait_strategy 7) [2], map (\<lambda>c. new_barrier_at (spin_wait_strategy 7) (Cell c)) [1, 2], new_buffer 0) 1) = Some (\<sigma>', ps)"
    by (rule pipeline_run)
  obtain \<omega> where w: "weak_run ((set_up 2, fresh (set_up 2)), pipeline_threads 1 (new_claims 0 (spin_wait_strategy 7) [2],
      map (\<lambda>c. new_barrier_at (spin_wait_strategy 7) (Cell c)) [1, 2], new_buffer 0) 1) ((\<sigma>', \<omega>), ps)"
    using pool_run_weak_run [OF pool_exec_run [OF p], of "fresh (set_up 2)"] by auto
  obtain published and taken :: "nat \<Rightarrow> int" where "mem \<sigma>' (Cell 0) = seq_at (published - 1)"
    "\<forall>c \<in> {1..2}. mem \<sigma>' (Cell c) = seq_at (taken c - 1)"
    "\<forall>c \<in> {1..<2}. taken (Suc c) \<le> taken c" "taken 1 \<le> published"
    using pipeline_window [OF _ _ _ r _ w] by (auto simp: at_rest_def)
  then have "\<exists>published taken :: nat \<Rightarrow> int. mem \<sigma>' (Cell 0) = seq_at (published - 1) \<and>
        mem \<sigma>' (Cell 2) = seq_at (taken 2 - 1) \<and> taken 2 \<le> taken 1 \<and> taken 1 \<le> published"
    by (intro exI [of _ published] exI [of _ taken]) (auto simp: numeral_2_eq_2)
  with r p show ?thesis by blast
qed

end
