(* ===== verification/Single_Producer_Batches.thy ===== *)
theory Single_Producer_Batches
  imports Single_Producer_Loop
begin

text \<open>
  A producer that claims, writes and publishes several positions at a time, on the weak machine:
  the writer of src/test/benchmark.cpp with the single-threaded claim strategy.
\<close>

section \<open>The claim of a batch\<close>

text \<open>
  A claim of \<open>count\<close> positions gives the positions from \<open>x\<close> to some \<open>y\<close>, at least one and at most
  \<open>count\<close> of them, and there is room for all.
\<close>

lemma sp_safely_claim:
  assumes wf: "well_arranged T" and W: "wait_strategy_model W" and cs: "sp_claims T W cs x"
    and s: "sp_producing T x s" "holds_mutexes 0 {} (fst s)" and count: "0 < count"
    and post: "\<And>y s cs'. sp_room T x y s \<Longrightarrow> holds_mutexes 0 {} (fst s) \<Longrightarrow> sp_claims T W cs' (y + 1) \<Longrightarrow>
      y + 1 - x \<le> uint count \<Longrightarrow> Q (sequence_range (seq_at x) (word_of_int (y + 1 - x)), cs') s"
  shows "weakly_safe hist (sp_protocol T) 0 (st_claim n cs count) Q s"
proof -
  have bits: "ar_bits T < 64" using wf by (simp add: well_arranged_def)
  have N: "(2 :: int) ^ ar_bits T \<le> 2 ^ 62"
    using wf by (intro power_increasing) (auto simp: well_arranged_def)
  have next_is: "st_nextSequenceToClaim cs = seq_at x" "st_bufferSize cs = 2 ^ ar_bits T"
    using cs by (simp_all add: sp_claims_def)
  have c1: "1 \<le> uint count" using count by (simp add: word_less_def)
  show ?thesis
    unfolding st_claim_def weakly_safe_bind
  proof (rule sp_safely_wait_for_room [OF wf W cs s])
    fix y0 s' assume room: "sp_room T x y0 s'" and h: "holds_mutexes 0 {} (fst s')"
    have y0: "x \<le> y0" "y0 - x < 2 ^ 62" using room N by (simp_all add: sp_room_def)
    have claimable: "seq_at (y0 - 2 ^ ar_bits T) + st_bufferSize cs = seq_at y0"
      using bits by (simp add: next_is seq_at_add_word uint_2_power)
    have d: "difference (seq_at y0) (seq_at x) = y0 - x" using y0 by (intro difference_seq_at) auto
    define y where "y = x + min (uint count) (y0 - x + 1) - 1"
    have u: "uint (word_of_int (y0 - x + 1) :: 64 word) = y0 - x + 1"
      using y0 by (simp add: unsigned_of_int take_bit_int_eq_self del: of_int_add)
    have m: "min count (word_of_int (y0 - x + 1)) = word_of_int (y + 1 - x)"
      using u by (simp add: y_def min_def word_le_def del: of_int_add)
    have y: "x \<le> y" "y \<le> y0" "y + 1 - x \<le> uint count" using c1 y0 by (auto simp: y_def)
    have "seq_at x + word_of_int (y + 1 - x) = seq_at (y + 1)" by (simp add: seq_at_def)
    then have take: "st_take cs count (y0 - x) = (sequence_range (seq_at x) (word_of_int (y + 1 - x)),
        cs\<lparr>st_nextSequenceToClaim := seq_at (y + 1)\<rparr>)"
      by (simp only: st_take_def Let_def m next_is)
    have "Q (sequence_range (seq_at x) (word_of_int (y + 1 - x)), cs\<lparr>st_nextSequenceToClaim := seq_at (y + 1)\<rparr>) s'"
      using cs h y(3) by (intro post sp_room_less [OF room y(1,2)]) (simp_all add: sp_claims_def)
    then show "weakly_safe hist (sp_protocol T) 0 (let claimable = seq_at (y0 - 2 ^ ar_bits T) + st_bufferSize cs;
        diff = difference claimable (st_nextSequenceToClaim cs)
      in assert (0 \<le> diff) (Return (st_take cs count diff))) Q s'"
      using y0 d unfolding Let_def claimable next_is(1) by (simp add: assert_def take)
  qed
qed

lemma sp_safely_claim_batch:
  assumes wf: "well_arranged T" and W: "wait_strategy_model W" and cs: "sp_claims T W cs x"
    and s: "sp_producing T x s" "holds_mutexes 0 {} (fst s)" and size: "0 < writerBatchSize" "0 < remaining"
    and post: "\<And>y s cs'. sp_room T x y s \<Longrightarrow> holds_mutexes 0 {} (fst s) \<Longrightarrow> sp_claims T W cs' (y + 1) \<Longrightarrow>
      y + 1 - x \<le> uint remaining \<Longrightarrow> Q (sequence_range (seq_at x) (word_of_int (y + 1 - x)), cs') s"
  shows "weakly_safe hist (sp_protocol T) 0 (st_claim_batch n cs writerBatchSize remaining) Q s"
proof (cases "writerBatchSize = 1")
  case True
  have "1 \<le> uint remaining" using size(2) by (simp add: word_less_def)
  then have "weakly_safe hist (sp_protocol T) 0 (st_claim_one n cs) (\<lambda>r. weakly_safe hist (sp_protocol T) 0 (case r of
      (seq, cs) \<Rightarrow> Return (sequence_range seq 1, cs)) Q) s"
    using post [of x] by (intro sp_safely_claim_one [OF wf W cs s]) simp
  with True show ?thesis by (simp add: st_claim_batch_def weakly_safe_bind)
next
  case False
  have "uint (min writerBatchSize remaining) \<le> uint remaining" by (simp add: min_def word_le_def)
  then have "weakly_safe hist (sp_protocol T) 0 (st_claim n cs (min writerBatchSize remaining)) Q s"
    using size post by (intro sp_safely_claim [OF wf W cs s]) auto
  with False show ?thesis by (simp add: st_claim_batch_def)
qed

section \<open>The writer\<close>

lemma sp_safely_write_items:
  assumes wf: "well_arranged T" and buffer: "rb_mask buffer = 2 ^ ar_bits T - 1" "rb_data buffer = ar_array T"
    and s: "sp_room T x y s" "holds_mutexes 0 {} (fst s)" "sp_written T x z s" and z: "x \<le> z" "z \<le> y + 1"
    and item: "\<And>p. x \<le> p \<Longrightarrow> p \<le> y \<Longrightarrow> ar_item T p = \<lparr>m_type = 0\<rparr>"
    and post: "\<And>s. sp_room T x y s \<Longrightarrow> holds_mutexes 0 {} (fst s) \<Longrightarrow> sp_written T x (y + 1) s \<Longrightarrow>
      weakly_safe hist (sp_protocol T) 0 p Q s"
  shows "weakly_safe hist (sp_protocol T) 0 (write_items buffer (seq_at z) (seq_at (y + 1)) p) Q s"
  using s z
proof (induction "nat (y + 1 - z)" arbitrary: z s rule: less_induct)
  case less
  note prems = less.prems
  have "(2 :: int) ^ ar_bits T \<le> 2 ^ 62" using wf by (intro power_increasing) (auto simp: well_arranged_def)
  then have "y < x + 2 ^ 62" using prems(1) by (simp add: sp_room_def)
  then have eq: "seq_at z = seq_at (y + 1) \<longleftrightarrow> z = y + 1" using prems(4,5) by (intro seq_at_inject) auto
  show ?case
  proof (cases "z = y + 1")
    case True
    then show ?thesis using prems post by (simp add: write_items.simps)
  next
    case False
    then have z: "z \<le> y" using prems(5) by simp
    have "weakly_safe hist (sp_protocol T) 0
        (buffer_write buffer (seq_at z) \<lparr>m_type = 0\<rparr> (write_items buffer (seq_at (z + 1)) (seq_at (y + 1)) p)) Q s"
    proof (rule sp_safely_buffer_write [OF wf buffer prems(1-4) z])
      show "\<lparr>m_type = 0\<rparr> = ar_item T z" using item prems(4) z by simp
      fix s' assume "sp_room T x y s'" "holds_mutexes 0 {} (fst s')" "sp_written T x (z + 1) s'"
      then show "weakly_safe hist (sp_protocol T) 0 (write_items buffer (seq_at (z + 1)) (seq_at (y + 1)) p) Q s'"
        using prems(4) z by (intro less.hyps) auto
    qed
    then show ?thesis using False eq by (simp add: write_items.simps [of buffer "seq_at z"] seq_at_add_1)
  qed
qed

text \<open>One batch is claimed, written and published, and something done after it.\<close>

lemma sp_safely_batch:
  assumes wf: "well_arranged T" and W: "wait_strategy_model W"
    and buffer: "rb_mask buffer = 2 ^ ar_bits T - 1" "rb_data buffer = ar_array T"
    and items: "\<And>p. x \<le> p \<Longrightarrow> p < x + uint remaining \<Longrightarrow> ar_item T p = \<lparr>m_type = 0\<rparr>"
    and total: "x + uint remaining < ar_total T" and size: "0 < writerBatchSize" "0 < remaining"
    and s: "sp_claims T W cs x" "sp_producing T x s" "holds_mutexes 0 {} (fst s)"
    and post: "\<And>y cs s. x \<le> y \<Longrightarrow> y < x + uint remaining \<Longrightarrow> sp_claims T W cs (y + 1) \<Longrightarrow> sp_producing T (y + 1) s \<Longrightarrow>
      holds_mutexes 0 {} (fst s) \<Longrightarrow> weakly_safe hist (sp_protocol T) 0 (rest cs (of_int (y + 1 - x))) Q s"
  shows "weakly_safe hist (sp_protocol T) 0 (bind (st_claim_batch n cs writerBatchSize remaining) (\<lambda>(rng, cs).
      write_items buffer (range_first rng) (range_end rng)
     (bind (st_publish cs (range_last rng)) (\<lambda>_. rest cs (range_size rng))))) Q s"
  unfolding weakly_safe_bind
proof (rule sp_safely_claim_batch [OF wf W s size])
  fix y s1 cs1
  assume room: "sp_room T x y s1" and h1: "holds_mutexes 0 {} (fst s1)"
    and cs1: "sp_claims T W cs1 (y + 1)" and le: "y + 1 - x \<le> uint remaining"
  define rng where "rng = sequence_range (seq_at x) (word_of_int (y + 1 - x))"
  have y: "x \<le> y" "y < x + uint remaining" "y < ar_total T" using room le total by (simp_all add: sp_room_def)
  have r: "range_first rng = seq_at x" "range_end rng = seq_at (y + 1)" "range_last rng = seq_at y"
    "range_size rng = of_int (y + 1 - x)"
    by (simp_all add: rng_def sequence_range_defs seq_at_def)
  let ?rest = "rest cs1 (range_size rng)"
  have "weakly_safe hist (sp_protocol T) 0 (write_items buffer (seq_at x) (seq_at (y + 1))
      (bind (st_publish cs1 (seq_at y)) (\<lambda>_. ?rest))) Q s1"
  proof (rule sp_safely_write_items [OF wf buffer room h1 sp_written_none order_refl])
    show "x \<le> y + 1" using y by simp
    show "ar_item T p = \<lparr>m_type = 0\<rparr>" if "x \<le> p" "p \<le> y" for p using items that y by simp
    fix s2 assume s2: "sp_room T x y s2" "holds_mutexes 0 {} (fst s2)" "sp_written T x (y + 1) s2"
    have "weakly_safe hist (sp_protocol T) 0 (st_publish cs1 (seq_at y)) (\<lambda>_. weakly_safe hist (sp_protocol T) 0 ?rest Q) s2"
      by (rule sp_safely_publish [OF wf W cs1 s2(1,2) y(3) s2(3)]) (unfold r(4), rule post [OF y(1,2) cs1])
    then show "weakly_safe hist (sp_protocol T) 0 (bind (st_publish cs1 (seq_at y)) (\<lambda>_. ?rest)) Q s2"
      by (simp add: weakly_safe_bind)
  qed
  then show "weakly_safe hist (sp_protocol T) 0 (case (sequence_range (seq_at x) (word_of_int (y + 1 - x)), cs1) of
      (rng, cs) \<Rightarrow> write_items buffer (range_first rng) (range_end rng)
        (bind (st_publish cs (range_last rng)) (\<lambda>_. rest cs (range_size rng)))) Q s1"
    unfolding prod.case rng_def [symmetric] r(1-3) .
qed

lemma sp_safely_writer_loop:
  assumes wf: "well_arranged T" and W: "wait_strategy_model W"
    and buffer: "rb_mask buffer = 2 ^ ar_bits T - 1" "rb_data buffer = ar_array T"
    and items: "\<And>p. 0 \<le> p \<Longrightarrow> p < items \<Longrightarrow> ar_item T p = \<lparr>m_type = 0\<rparr>" and total: "items < ar_total T"
    and size: "0 < writerBatchSize"
    and "sp_claims T W cs x" and "0 \<le> x" "x \<le> items" and "remaining = of_int (items - x)"
    and "sp_producing T x s" and "holds_mutexes 0 {} (fst s)"
    and post: "\<And>cs s. sp_claims T W cs items \<Longrightarrow> sp_producing T items s \<Longrightarrow> holds_mutexes 0 {} (fst s) \<Longrightarrow> Q cs s"
  shows "weakly_safe hist (sp_protocol T) 0 (st_writer_loop n m cs buffer writerBatchSize remaining) Q s"
  using assms(8-13)
proof (induction m arbitrary: cs x remaining s)
  have rem: "uint remaining = items - x" if "0 \<le> x" "x \<le> items" "remaining = of_int (items - x)"
    for x and remaining :: "64 word"
  proof -
    have "items < 2 ^ 64" using wf total by (simp add: well_arranged_def)
    then show ?thesis using that by (simp add: unsigned_of_int take_bit_int_eq_self del: of_int_diff)
  qed
  {
    case 0
    then show ?case using rem [OF 0(2-4)] post by (cases "x = items") (simp_all add: word_less_def)
  next
    case (Suc m)
    note prems = Suc.prems and u = rem [OF Suc.prems(2-4)]
    show ?case
    proof (cases "x = items")
      case True
      then show ?thesis using prems post u by (simp add: word_less_def)
    next
      case False
      then have pos: "0 < remaining" using u prems(3) by (simp add: word_less_def)
      have rem': "remaining - of_int (y + 1 - x) = of_int (items - (y + 1))" for y
        unfolding prems(4) by (simp add: algebra_simps)
      have "weakly_safe hist (sp_protocol T) 0 (bind (st_claim_batch n cs writerBatchSize remaining) (\<lambda>(rng, cs).
          write_items buffer (range_first rng) (range_end rng)
         (bind (st_publish cs (range_last rng)) (\<lambda>_.
            st_writer_loop n m cs buffer writerBatchSize (remaining - range_size rng))))) Q s"
        by (rule sp_safely_batch [OF wf W buffer _ _ size pos prems(1,5,6)])
          (use items total u prems(2) rem' in \<open>auto intro!: Suc.IH\<close>)
      then show ?thesis using pos by simp
    qed
  }
qed

text \<open>The whole writer: all batches, and the last message.\<close>

lemma sp_safely_writer:
  assumes wf: "well_arranged T" and W: "wait_strategy_model W" and cs: "sp_claims T W cs 0"
    and buffer: "rb_mask buffer = 2 ^ ar_bits T - 1" "rb_data buffer = ar_array T"
    and items: "\<And>p. 0 \<le> p \<Longrightarrow> p < uint itemCount \<Longrightarrow> ar_item T p = \<lparr>m_type = 0\<rparr>"
      "ar_item T (uint itemCount) = dead" and total: "ar_total T = uint itemCount + 1"
    and size: "0 < writerBatchSize" and s: "sp_producing T 0 s" "holds_mutexes 0 {} (fst s)"
    and post: "\<And>s. Q None s"
  shows "weakly_safe hist (sp_protocol T) 0 (st_writer n cs buffer writerBatchSize itemCount) Q s"
  unfolding st_writer_def weakly_safe_bind
proof (rule sp_safely_writer_loop [OF wf W buffer items(1) _ size cs order_refl _ _ s])
  show "uint itemCount < ar_total T" "0 \<le> uint itemCount" "itemCount = of_int (uint itemCount - 0)"
    using total by simp_all
  fix cs1 s1
  let ?x = "uint itemCount"
  assume "sp_claims T W cs1 ?x" "sp_producing T ?x s1" "holds_mutexes 0 {} (fst s1)"
  then show "weakly_safe hist (sp_protocol T) 0 (st_claim_one n cs1) (\<lambda>r. weakly_safe hist (sp_protocol T) 0
      (case r of (seq, cs) \<Rightarrow> buffer_write buffer seq dead (bind (st_publish cs seq) (\<lambda>_. Return None))) Q) s1"
  proof (rule sp_safely_claim_one [OF wf W])
    fix s2 cs2
    assume room: "sp_room T ?x ?x s2" and h2: "holds_mutexes 0 {} (fst s2)" and cs2: "sp_claims T W cs2 (?x + 1)"
    have "weakly_safe hist (sp_protocol T) 0
        (buffer_write buffer (seq_at ?x) dead (bind (st_publish cs2 (seq_at ?x)) (\<lambda>_. Return None))) Q s2"
    proof (rule sp_safely_buffer_write [OF wf buffer room h2 sp_written_none order_refl order_refl])
      show "dead = ar_item T ?x" using items(2) by simp
      fix s3 assume s3: "sp_room T ?x ?x s3" "holds_mutexes 0 {} (fst s3)" "sp_written T ?x (?x + 1) s3"
      have "weakly_safe hist (sp_protocol T) 0 (st_publish cs2 (seq_at ?x))
          (\<lambda>_. weakly_safe hist (sp_protocol T) 0 (Return None) Q) s3"
        by (rule sp_safely_publish [OF wf W cs2 s3(1,2) _ s3(3)]) (use total post in simp_all)
      then show "weakly_safe hist (sp_protocol T) 0 (bind (st_publish cs2 (seq_at ?x)) (\<lambda>_. Return None)) Q s3"
        by (simp add: weakly_safe_bind)
    qed
    then show "weakly_safe hist (sp_protocol T) 0 (case (seq_at ?x, cs2) of
        (seq, cs) \<Rightarrow> buffer_write buffer seq dead (bind (st_publish cs seq) (\<lambda>_. Return None))) Q s2"
      by simp
  qed
qed

end
