(* ===== verification/Single_Producer_Tests.thy ===== *)
theory Single_Producer_Tests
  imports Single_Producer_Benchmarks Single_Producer_Batches
begin

text \<open>
  The test program with one writer of batches and one reader: a run of it on the single-threaded
  claim strategy, in every execution that the memory orders of the code allow.
\<close>

section \<open>The arrangement\<close>

text \<open>The messages of one writer: \<open>items\<close> of type 0, and the last one.\<close>

definition messages :: "nat \<Rightarrow> int \<Rightarrow> message arrangement" where
  "messages k items =
     \<lparr>ar_bits = k, ar_array = 0, ar_cursor = Cell 0, ar_barrier = Cell, ar_consumers = {1},
      ar_upstream = (\<lambda>_. {}), ar_gates = {1}, ar_total = items + 1,
      ar_item = (\<lambda>p. if p = items then dead else \<lparr>m_type = 0\<rparr>)\<rparr>"

lemma messages_select [simp]:
  "ar_bits (messages k items) = k" "ar_array (messages k items) = 0" "ar_cursor (messages k items) = Cell 0"
  "ar_barrier (messages k items) = Cell" "ar_consumers (messages k items) = {1}"
  "ar_upstream (messages k items) = (\<lambda>_. {})" "ar_gates (messages k items) = {1}"
  "ar_total (messages k items) = items + 1"
  "ar_item (messages k items) = (\<lambda>p. if p = items then dead else \<lparr>m_type = 0\<rparr>)"
  by (simp_all add: messages_def)

lemma well_arranged_messages: "k \<le> 62 \<Longrightarrow> items + 1 < 2 ^ 64 \<Longrightarrow> well_arranged (messages k items)"
  by (simp add: well_arranged_def)

text \<open>The reader has seen the end when it has seen all messages, and not before.\<close>

lemma seen_exit:
  assumes "0 \<le> items" "0 \<le> g" "g \<le> items + 1"
  shows "fold_items see_exit False (ar_item (messages k items)) g \<longleftrightarrow> g = items + 1"
  using assms(2,3)
proof (induction g rule: int_ge_induct)
  case (step g)
  then show ?case by (auto simp: fold_items_Suc see_exit_def dead_def)
qed (use assms(1) in simp)

section \<open>The set-up\<close>

lemma single_test_setup_returns:
  assumes "run 0 alone (single_test_setup W bufferSize) 0 \<sigma> = (Returned objects, \<sigma>0, l)" "bufferSize \<le> 2 ^ 62"
  obtains k where "bufferSize = 2 ^ k" "k \<le> 62" "objects = (new_claims k W [1], new_barrier_at W (Cell 1), new_buffer k)"
    "mem \<sigma>0 (Cell 0) = - 1" "mem \<sigma>0 (Cell 1) = - 1" "owner \<sigma>0 = owner \<sigma>"
proof -
  obtain k l' where k: "k < 64" "bufferSize = 2 ^ k" and
    "run 0 alone (bind (new_sequence_barrier W (Cell 1)) (\<lambda>finishedReading.
       bind (st_add_claim_barrier (new_claims k W []) finishedReading) (\<lambda>claimStrategy.
       bind (new_ring_buffer bufferSize 0) (\<lambda>buffer. Return (claimStrategy, finishedReading, buffer))))) (Suc 0)
       (put (Cell 0) (- 1) \<sigma>) = (Returned objects, \<sigma>0, l')"
    using assms(1) unfolding single_test_setup_def by (rule run_new_single_claim)
  then show thesis
    using assms(2) small_bits [of k] that [of k]
    by (auto simp: run_new_sequence_barrier st_add_claim_barrier_new [where g = 1, simplified] new_ring_buffer_power)
qed

text \<open>Every thread is safe from the start.\<close>

lemma single_test_safely:
  assumes W: "wait_strategy_model W" and k: "k \<le> 62" and size: "0 < writerBatchSize" and count: "uint itemCount + 1 < 2 ^ 64"
    and mem: "mem \<sigma> (Cell 0) = - 1" "mem \<sigma> (Cell 1) = - 1" and free: "owner \<sigma> = (\<lambda>_. None)"
    and T: "T = messages k (uint itemCount)"
  shows "weakly_safe hist (sp_protocol T) t
    (single_test_threads n (new_claims k W [1], new_barrier_at W (Cell 1), new_buffer k) writerBatchSize itemCount t)
    (\<lambda>x s. t \<in> {1} \<longrightarrow> x = Some (0, itemCount + 1)) (\<sigma>, no_progress \<sigma>)"
proof -
  let ?post = "\<lambda>x s. t \<in> {1} \<longrightarrow> x = Some (0, itemCount + 1)"
  have wf: "well_arranged T" unfolding T using k count by (rule well_arranged_messages)
  have buffer: "rb_mask (new_buffer k) = 2 ^ ar_bits T - 1" "rb_data (new_buffer k) = ar_array T"
    by (simp_all add: new_buffer_def T)
  have h: "holds_mutexes t {} (fst (\<sigma>, no_progress \<sigma>))" for t using free by (simp add: holds_mutexes_def)
  have start: "sp_inv T (\<sigma>, no_progress \<sigma>)" "sp_producing T 0 (\<sigma>, no_progress \<sigma>)" "sp_ready T c (no_progress \<sigma>) (- 1)" for c
    using mem sp_inv_start [of T \<sigma>] by (simp_all add: T)
  have claims: "sp_claims T W (new_claims k W [1]) 0"
    by (simp add: sp_claims_def new_claims_def T seq_at_def new_barrier_at_def)
  consider "t = 0" | "t = 1" | "1 < t" by linarith
  then show ?thesis
  proof cases
    case 1
    have "weakly_safe hist (sp_protocol T) 0 (st_writer n (new_claims k W [1]) (new_buffer k) writerBatchSize itemCount)
        ?post (\<sigma>, no_progress \<sigma>)"
      by (rule sp_safely_writer [OF wf W claims buffer _ _ _ size start(2) h]) (use 1 in \<open>simp_all add: T\<close>)
    then show ?thesis using 1 by (simp add: single_test_threads_def)
  next
    case 2
    have one: "1 \<in> ar_consumers T" by (simp add: T)
    have "st_wait_until_published n (new_claims k W [1]) = barrier_wait_until_published n (new_barrier_at W (Cell 0))"
      by (simp add: fun_eq_iff st_wait_until_published_def new_claims_def)
    then have wait: "waits_for (st_wait_until_published n (new_claims k W [1])) [Cell 0]"
      using wait_strategy_model.waits_for_barrier [OF W, of n "Cell 0"] by simp
    have "weakly_safe hist (sp_protocol T) 1 (read_until n (\<lambda>exit. exit) (st_wait_until_published n (new_claims k W [1]))
        see_exit (new_buffer k) (new_barrier_at W (Cell 1)) False 0)
        (\<lambda>x. weakly_safe hist (sp_protocol T) 1 (let sum = 0 in Return (Some (sum, x))) ?post) (\<sigma>, no_progress \<sigma>)"
    proof (rule sp_safely_read_until [OF wf one W buffer _ _ _ wait])
      show "fold_items see_exit False (ar_item T) g \<longleftrightarrow> g = ar_total T" if "0 \<le> g" "g \<le> ar_total T" for g
        using that seen_exit [of "uint itemCount" g k] by (simp add: T)
      show "weakly_safe hist (sp_protocol T) 1 (let sum = 0 in Return (Some (sum, seq_at (ar_total T)))) ?post s" for s
        by (simp add: Let_def T seq_at_def)
    qed (use start h in \<open>simp_all add: new_barrier_at_def sp_sources_def T\<close>)
    then show ?thesis using 2 by (simp add: single_test_threads_def st_reader_def weakly_safe_bind)
  next
    case 3
    then show ?thesis by (simp add: single_test_threads_def)
  qed
qed

section \<open>A run to completion\<close>

lemma single_test_run:
  fixes W :: "message wait_strategy" defines "W \<equiv> spin_wait_strategy 7"
  obtains \<sigma>0 l \<sigma> ps where
    "run 0 alone (single_test_setup W 4) 0 (at_rest dead) =
       (Returned (new_claims 2 W [1], new_barrier_at W (Cell 1), new_buffer 2), \<sigma>0, l)"
    "pool_exec [(0, 0), (0, 0), (0, 0), (0, 0), (0, 0), (0, 0), (0, 0), (1, 0), (1, 0), (1, 0), (1, 0), (1, 0)]
       (\<sigma>0, single_test_threads 1 (new_claims 2 W [1], new_barrier_at W (Cell 1), new_buffer 2) 3 2) = Some (\<sigma>, ps)"
    "ps 1 = Return (Some (0, 3))"
  unfolding W_def
  by (simp add: run_setup_defs single_test_setup_def single_test_threads_def st_writer_def st_reader_def
      st_claim_batch_def st_claim_def st_take_def sequence_range_defs write_items.simps read_messages.simps
      see_exit_def dead_def run_thread_defs)

section \<open>The test\<close>

text \<open>
  C9.  The test program with a batch-claiming writer and a reader on the single-threaded claim
  strategy, with either wait strategy, any buffer size, any batch size and any number of items: in every
  execution on the weak machine no assertion fails (among them the reader's own, that a wait never
  returns a number before the one asked for), every access to a slot happens after those it
  conflicts with, and the reader, when it ends, has read the messages up to the writer's last, and
  none beyond it.
\<close>

theorem batches_correct:
  assumes "W \<in> library_strategies" and "bufferSize \<le> 2 ^ 62"
    and "0 < writerBatchSize" and "uint itemCount + 1 < 2 ^ 64"
    and "run 0 alone (single_test_setup W bufferSize) 0 \<sigma> = (Returned objects, \<sigma>0, l)"
    and "owner \<sigma> = (\<lambda>_. None)"
    and "weak_run ((\<sigma>0, fresh \<sigma>0), single_test_threads n objects writerBatchSize itemCount) ((\<sigma>', \<omega>), ps)"
  shows "sound_pool {1} (Some (0, itemCount + 1)) ps \<and> race_free \<omega> ps"
proof -
  obtain k where k: "k \<le> 62" and o: "objects = (new_claims k W [1], new_barrier_at W (Cell 1), new_buffer k)"
    and mem: "mem \<sigma>0 (Cell 0) = - 1" "mem \<sigma>0 (Cell 1) = - 1" "owner \<sigma>0 = owner \<sigma>"
    using assms(5,2) by (rule single_test_setup_returns)
  let ?T = "messages k (uint itemCount)"
  have free: "owner \<sigma>0 = (\<lambda>_. None)" using mem(3) assms(6) by simp
  show ?thesis
  proof (rule sp_pool.weak_sound_run)
    show "weak_run ((\<sigma>0, hist (no_progress \<sigma>0)), single_test_threads n objects writerBatchSize itemCount) ((\<sigma>', \<omega>), ps)"
      using assms(7) by simp
    show "invar (sp_protocol ?T) (\<sigma>0, no_progress \<sigma>0)"
      using mem sp_inv_start(1) [of ?T \<sigma>0] by simp
    show "weakly_safe hist (sp_protocol ?T) t (single_test_threads n objects writerBatchSize itemCount t)
        (\<lambda>x s. t \<in> {1} \<longrightarrow> x = Some (0, itemCount + 1)) (\<sigma>0, no_progress \<sigma>0)" for t
      unfolding o
      by (rule single_test_safely [OF library_strategy_model [OF assms(1)] k assms(3,4) mem(1,2) free refl])
  qed
qed

lemma batches_correct_witness:
  "\<exists>objects \<sigma>0 l \<sigma>' \<omega> ps.
     run 0 alone (single_test_setup (spin_wait_strategy 7) 4) 0 (at_rest dead) = (Returned objects, \<sigma>0, l) \<and>
     weak_run ((\<sigma>0, fresh \<sigma>0), single_test_threads 1 objects 3 2) ((\<sigma>', \<omega>), ps) \<and>
     ps 1 = Return (Some (0, 3)) \<and> sound_pool {1} (Some (0, 2 + 1)) ps \<and> race_free \<omega> ps"
proof -
  obtain \<sigma>0 l \<sigma>' ps where
    r: "run 0 alone (single_test_setup (spin_wait_strategy 7) 4) 0 (at_rest dead) =
       (Returned (new_claims 2 (spin_wait_strategy 7) [1], new_barrier_at (spin_wait_strategy 7) (Cell 1), new_buffer 2), \<sigma>0, l)"
    and p: "pool_exec [(0, 0), (0, 0), (0, 0), (0, 0), (0, 0), (0, 0), (0, 0), (1, 0), (1, 0), (1, 0), (1, 0), (1, 0)]
       (\<sigma>0, single_test_threads 1 (new_claims 2 (spin_wait_strategy 7) [1], new_barrier_at (spin_wait_strategy 7) (Cell 1),
         new_buffer 2) 3 2) = Some (\<sigma>', ps)"
    and x: "ps 1 = Return (Some (0, 3))" by (rule single_test_run)
  obtain \<omega> where w: "weak_run ((\<sigma>0, fresh \<sigma>0), single_test_threads 1 (new_claims 2 (spin_wait_strategy 7) [1],
      new_barrier_at (spin_wait_strategy 7) (Cell 1), new_buffer 2) 3 2) ((\<sigma>', \<omega>), ps)"
    using pool_run_weak_run [OF pool_exec_run [OF p], of "fresh \<sigma>0"] by auto
  have "sound_pool {1} (Some (0, 2 + 1)) ps \<and> race_free \<omega> ps"
    by (rule batches_correct [OF _ _ _ _ r _ w]) (simp_all add: at_rest_def)
  with r x w show ?thesis by blast
qed

end
