(* ===== verification/Multi_Producer.thy ===== *)
theory Multi_Producer
  imports Message_Reader Happens_Before
begin

text \<open>
  The protocol of a disruptor with several producers that share a multi-threaded claim
  strategy, and any acyclic arrangement of consumers.  The ghost state holds the
  number of positions claimed, who claimed each and for its how-many-eth item, the position
  last published in each slot, the progress of each consumer and the number of claims of
  each producer; and the history of the weak machine with the event that each entry of it is.
\<close>

section \<open>The arrangement, the invariant and the protocol\<close>

text \<open>
  A consumer waits for the consumers \<open>upstream\<close> of it, or for the producers when there are none;
  the producers wait for the \<open>gates\<close>.
\<close>

record 'd multi_arrangement =
  mp_bits :: nat
  mp_array :: nat
  mp_entries :: nat
  mp_counter :: addr
  mp_barrier :: "nat \<Rightarrow> addr"
  mp_consumers :: "nat set"
  mp_upstream :: "nat \<Rightarrow> nat set"
  mp_gates :: "nat set"
  mp_producers :: "nat set"
  mp_quota :: int
  mp_item :: "int \<Rightarrow> 'd"

definition mp_total :: "'d multi_arrangement \<Rightarrow> int" where
  "mp_total T = int (card (mp_producers T)) * mp_quota T"

definition mp_downstream :: "'d multi_arrangement \<Rightarrow> (nat \<times> nat) set" where
  "mp_downstream T = {(u, c). c \<in> mp_consumers T \<and> u \<in> mp_upstream T c}"

text \<open>
  Positions stay below \<open>2 ^ 62\<close>: the items are fewer than that.  Every consumer has a gate
  downstream of it, so that the producers wait for all of them.
\<close>

definition mp_well_arranged :: "'d multi_arrangement \<Rightarrow> bool" where
  "mp_well_arranged T \<longleftrightarrow> mp_bits T \<le> 62 \<and> finite (mp_producers T) \<and> 0 \<le> mp_quota T \<and>
     mp_total T < 2 ^ 62 \<and> mp_consumers T \<noteq> {} \<and> mp_producers T \<inter> mp_consumers T = {} \<and>
     (\<forall>c \<in> mp_consumers T. mp_upstream T c \<subseteq> mp_consumers T) \<and> mp_gates T \<subseteq> mp_consumers T \<and>
     (\<forall>c \<in> mp_consumers T. \<exists>g \<in> mp_gates T. (c, g) \<in> (mp_downstream T)\<^sup>*) \<and>
     inj_on (mp_barrier T) (mp_consumers T) \<and> (\<forall>i. mp_counter T \<noteq> Elem (mp_entries T) i) \<and>
     (\<forall>c \<in> mp_consumers T. mp_barrier T c \<noteq> mp_counter T \<and> (\<forall>i. mp_barrier T c \<noteq> Elem (mp_entries T) i))"

record claims =
  g_next :: int
  g_own :: "int \<Rightarrow> nat"
  g_idx :: "int \<Rightarrow> int"
  g_ent :: "nat \<Rightarrow> int"
  g_got :: "nat \<Rightarrow> int"
  g_cnt :: "nat \<Rightarrow> int"
  g_hist :: memory
  g_events :: "event list"

definition mp_slot :: "'d multi_arrangement \<Rightarrow> int \<Rightarrow> nat" where
  "mp_slot T p = nat (p mod 2 ^ mp_bits T)"

definition mp_pubd :: "'d multi_arrangement \<Rightarrow> claims \<Rightarrow> int \<Rightarrow> bool" where
  "mp_pubd T \<gamma> p \<longleftrightarrow> p \<le> g_ent \<gamma> (mp_slot T p)"

definition mp_room :: "'d multi_arrangement \<Rightarrow> claims \<Rightarrow> int \<Rightarrow> bool" where
  "mp_room T \<gamma> p \<longleftrightarrow> (\<forall>c \<in> mp_consumers T. p < g_got \<gamma> c + 2 ^ mp_bits T)"

text \<open>Position \<open>p\<close> has been claimed by thread \<open>t\<close> and is not published.\<close>

definition mp_mine :: "'d multi_arrangement \<Rightarrow> claims \<Rightarrow> nat \<Rightarrow> int \<Rightarrow> bool" where
  "mp_mine T \<gamma> t p \<longleftrightarrow> 0 \<le> p \<and> p < g_next \<gamma> \<and> g_own \<gamma> p = t \<and> \<not> mp_pubd T \<gamma> p"

text \<open>
  The positions claimed are the items of the producers, and each claims the positions of its items
  in order.
\<close>

definition mp_claimed :: "'d multi_arrangement \<Rightarrow> claims \<Rightarrow> bool" where
  "mp_claimed T \<gamma> \<longleftrightarrow> 0 \<le> g_next \<gamma> \<and> (\<forall>j \<in> mp_producers T. 0 \<le> g_cnt \<gamma> j \<and> g_cnt \<gamma> j \<le> mp_quota T) \<and>
     bij_betw (\<lambda>p. (g_own \<gamma> p, g_idx \<gamma> p)) {0..<g_next \<gamma>}
       (SIGMA j : mp_producers T. {0..<g_cnt \<gamma> j}) \<and>
     (\<forall>p q. 0 \<le> p \<longrightarrow> p < q \<longrightarrow> q < g_next \<gamma> \<longrightarrow> g_own \<gamma> p = g_own \<gamma> q \<longrightarrow> g_idx \<gamma> p < g_idx \<gamma> q)"

lemma mp_claim_owner:
  assumes "mp_claimed T \<gamma>" "0 \<le> p" "p < g_next \<gamma>"
  shows "g_own \<gamma> p \<in> mp_producers T" "0 \<le> g_idx \<gamma> p" "g_idx \<gamma> p < g_cnt \<gamma> (g_own \<gamma> p)"
proof -
  have "(g_own \<gamma> p, g_idx \<gamma> p) \<in> (SIGMA j : mp_producers T. {0..<g_cnt \<gamma> j})"
    using assms by (auto simp: mp_claimed_def dest!: bij_betwE)
  then show "g_own \<gamma> p \<in> mp_producers T" "0 \<le> g_idx \<gamma> p" "g_idx \<gamma> p < g_cnt \<gamma> (g_own \<gamma> p)" by auto
qed

text \<open>
  The first part of the invariant: the atomics hold the progress; every slot holds a position
  that was claimed and for which there was room; a consumer gives back what is published, and
  is not ahead of those upstream of it; a published item not given back is still in its slot.
\<close>

definition mp_data :: "'d multi_arrangement \<Rightarrow> 'd mach \<times> claims \<Rightarrow> bool" where
  "mp_data T s \<longleftrightarrow> (case s of (\<sigma>, \<gamma>) \<Rightarrow>
     mp_claimed T \<gamma> \<and> mem \<sigma> (mp_counter T) = seq_at (g_next \<gamma>) \<and>
     (\<forall>i < 2 ^ mp_bits T. mem \<sigma> (Elem (mp_entries T) i) = seq_at (g_ent \<gamma> i) \<and>
        mp_slot T (g_ent \<gamma> i) = i \<and> - (2 ^ mp_bits T) \<le> g_ent \<gamma> i \<and> g_ent \<gamma> i < g_next \<gamma> \<and>
        (\<forall>c \<in> mp_consumers T. g_ent \<gamma> i < g_got \<gamma> c + 2 ^ mp_bits T)) \<and>
     (\<forall>c \<in> mp_consumers T. mem \<sigma> (mp_barrier T c) = seq_at (g_got \<gamma> c - 1) \<and> 0 \<le> g_got \<gamma> c \<and>
        (\<forall>u \<in> mp_upstream T c. g_got \<gamma> c \<le> g_got \<gamma> u) \<and>
        (\<forall>p. 0 \<le> p \<longrightarrow> p < g_got \<gamma> c \<longrightarrow> mp_pubd T \<gamma> p) \<and>
        (\<forall>p. g_got \<gamma> c \<le> p \<longrightarrow> mp_pubd T \<gamma> p \<longrightarrow>
           cells \<sigma> (mp_array T) (mp_slot T p) = mp_item T (g_idx \<gamma> p))))"

text \<open>
  What a thread \<open>t\<close> can count on when others act: all goes forward, its own counts stay, and nobody
  publishes or overwrites what it has claimed.
\<close>

definition mp_evolves :: "'d multi_arrangement \<Rightarrow> nat \<Rightarrow> 'd mach \<times> claims \<Rightarrow> 'd mach \<times> claims \<Rightarrow> bool" where
  "mp_evolves T t s s' \<longleftrightarrow> g_next (snd s) \<le> g_next (snd s') \<and>
     (\<forall>p < g_next (snd s). g_own (snd s') p = g_own (snd s) p \<and> g_idx (snd s') p = g_idx (snd s) p) \<and>
     (\<forall>i. g_ent (snd s) i \<le> g_ent (snd s') i) \<and> (\<forall>c. g_got (snd s) c \<le> g_got (snd s') c) \<and>
     g_cnt (snd s') t = g_cnt (snd s) t \<and> g_got (snd s') t = g_got (snd s) t \<and>
     (\<forall>p. mp_mine T (snd s) t p \<longrightarrow> \<not> mp_pubd T (snd s') p \<and>
        (mp_room T (snd s) p \<longrightarrow>
           cells (fst s') (mp_array T) (mp_slot T p) = cells (fst s) (mp_array T) (mp_slot T p))) \<and>
     (\<forall>m. owner (fst s') m = Some t \<longleftrightarrow> owner (fst s) m = Some t)"

lemma mp_room_mono: "mp_room T \<gamma> p \<Longrightarrow> (\<And>c. g_got \<gamma> c \<le> g_got \<gamma>' c) \<Longrightarrow> mp_room T \<gamma>' p"
  unfolding mp_room_def by (meson add_right_mono less_le_trans)

lemma mp_pubd_mono: "mp_pubd T \<gamma> p \<Longrightarrow> (\<And>i. g_ent \<gamma> i \<le> g_ent \<gamma>' i) \<Longrightarrow> mp_pubd T \<gamma>' p"
  unfolding mp_pubd_def by (meson order_trans)

lemma mp_mine_evolves: "mp_mine T (snd s) t p \<Longrightarrow> mp_evolves T t s s' \<Longrightarrow> mp_mine T (snd s') t p"
  by (auto simp: mp_mine_def mp_evolves_def)

lemma mp_evolves_trans:
  assumes 1: "mp_evolves T t s s'" and 2: "mp_evolves T t s' s''"
  shows "mp_evolves T t s s''"
  unfolding mp_evolves_def
proof (intro conjI allI impI)
  show "g_ent (snd s) i \<le> g_ent (snd s'') i" for i
    using 1 2 order_trans [of "g_ent (snd s) i" "g_ent (snd s') i" "g_ent (snd s'') i"] by (simp add: mp_evolves_def)
  show "g_got (snd s) c \<le> g_got (snd s'') c" for c
    using 1 2 order_trans [of "g_got (snd s) c" "g_got (snd s') c" "g_got (snd s'') c"] by (simp add: mp_evolves_def)
  fix p assume m: "mp_mine T (snd s) t p"
  then have m': "mp_mine T (snd s') t p" using 1 by (rule mp_mine_evolves)
  then show "\<not> mp_pubd T (snd s'') p" using 2 by (simp add: mp_evolves_def)
  assume r: "mp_room T (snd s) p"
  then have "mp_room T (snd s') p" using 1 by (auto simp: mp_evolves_def intro: mp_room_mono)
  with m m' r 1 2 show "cells (fst s'') (mp_array T) (mp_slot T p) = cells (fst s) (mp_array T) (mp_slot T p)"
    by (simp add: mp_evolves_def)
qed (use 1 2 in \<open>simp_all add: mp_evolves_def\<close>)

section \<open>Facts of the invariant\<close>

lemma mp_slot_less: "mp_slot T p < 2 ^ mp_bits T"
proof -
  have "p mod 2 ^ mp_bits T < 2 ^ mp_bits T" by simp
  then have "nat (p mod 2 ^ mp_bits T) < nat (2 ^ mp_bits T)" by (subst nat_less_eq_zless) simp_all
  then show ?thesis by (simp add: mp_slot_def nat_power_eq)
qed

lemma mp_slot_eq:
  assumes "mp_slot T p = mp_slot T q" and "\<bar>p - q\<bar> < 2 ^ mp_bits T"
  shows "p = q"
proof -
  have "p mod 2 ^ mp_bits T = q mod 2 ^ mp_bits T"
    using assms(1) by (auto simp: mp_slot_def nat_eq_iff2 split: if_splits)
  then show ?thesis using assms(2) by (rule mod_window_inj)
qed

lemma mp_next_bound:
  assumes "mp_well_arranged T" "mp_claimed T \<gamma>"
  shows "g_next \<gamma> \<le> mp_total T"
    and "g_next \<gamma> = mp_total T \<Longrightarrow> j \<in> mp_producers T \<Longrightarrow> g_cnt \<gamma> j = mp_quota T"
    and "(\<And>j. j \<in> mp_producers T \<Longrightarrow> g_cnt \<gamma> j = mp_quota T) \<Longrightarrow> g_next \<gamma> = mp_total T"
proof -
  have fin: "finite (mp_producers T)" using assms(1) by (simp add: mp_well_arranged_def)
  have "card {0..<g_next \<gamma>} = card (SIGMA j : mp_producers T. {0..<g_cnt \<gamma> j})"
    using assms(2) unfolding mp_claimed_def by (blast intro: bij_betw_same_card)
  then have "nat (g_next \<gamma>) = (\<Sum>j \<in> mp_producers T. nat (g_cnt \<gamma> j))"
    using fin by (simp add: card_SigmaI)
  then have "int (nat (g_next \<gamma>)) = (\<Sum>j \<in> mp_producers T. int (nat (g_cnt \<gamma> j)))" by simp
  then have n: "g_next \<gamma> = (\<Sum>j \<in> mp_producers T. g_cnt \<gamma> j)"
    using assms(2) by (simp add: mp_claimed_def)
  have le: "g_cnt \<gamma> j \<le> mp_quota T" if "j \<in> mp_producers T" for j
    using assms(2) that by (simp add: mp_claimed_def)
  have t: "mp_total T = (\<Sum>j \<in> mp_producers T. mp_quota T)" by (simp add: mp_total_def)
  show "g_next \<gamma> \<le> mp_total T" unfolding n t using le by (rule sum_mono)
  show "(\<And>j. j \<in> mp_producers T \<Longrightarrow> g_cnt \<gamma> j = mp_quota T) \<Longrightarrow> g_next \<gamma> = mp_total T"
    unfolding n t by (rule sum.cong) simp_all
  show "g_cnt \<gamma> j = mp_quota T" if "g_next \<gamma> = mp_total T" "j \<in> mp_producers T"
  proof (rule ccontr)
    assume "g_cnt \<gamma> j \<noteq> mp_quota T"
    with le [OF that(2)] have "g_cnt \<gamma> j < mp_quota T" by simp
    with fin le that(2) have "(\<Sum>j \<in> mp_producers T. g_cnt \<gamma> j) < (\<Sum>j \<in> mp_producers T. mp_quota T)"
      by (intro sum_strict_mono_ex1) auto
    with that(1) n t show False by simp
  qed
qed

lemma mp_pubd_less:
  assumes "mp_data T (\<sigma>, \<gamma>)" "mp_pubd T \<gamma> p"
  shows "p < g_next \<gamma>" and "c \<in> mp_consumers T \<Longrightarrow> p < g_got \<gamma> c + 2 ^ mp_bits T"
  using assms mp_slot_less [of T p] by (auto simp: mp_data_def mp_pubd_def intro: le_less_trans)

lemma mp_got_le_next:
  assumes "mp_data T (\<sigma>, \<gamma>)" "c \<in> mp_consumers T"
  shows "0 \<le> g_got \<gamma> c" "g_got \<gamma> c \<le> g_next \<gamma>"
proof -
  show "0 \<le> g_got \<gamma> c" using assms by (auto simp: mp_data_def)
  show "g_got \<gamma> c \<le> g_next \<gamma>"
  proof (cases "g_got \<gamma> c = 0")
    case True
    then show ?thesis using assms(1) by (auto simp: mp_data_def mp_claimed_def)
  next
    case False
    then have "mp_pubd T \<gamma> (g_got \<gamma> c - 1)" using assms by (auto simp: mp_data_def)
    then have "g_got \<gamma> c - 1 < g_next \<gamma>" by (rule mp_pubd_less(1) [OF assms(1)])
    then show ?thesis by simp
  qed
qed

text \<open>A position that is claimed but not published has been given back by nobody.\<close>

lemma mp_mine_not_got:
  assumes "mp_data T (\<sigma>, \<gamma>)" "mp_mine T \<gamma> t p" "c \<in> mp_consumers T"
  shows "g_got \<gamma> c \<le> p"
  using assms by (force simp: mp_data_def mp_mine_def)

text \<open>The entry of such a position, once there is room, is that of one buffer before it.\<close>

lemma mp_mine_entry:
  assumes wf: "mp_well_arranged T" and inv: "mp_data T (\<sigma>, \<gamma>)" and m: "mp_mine T \<gamma> t p"
    and room: "mp_room T \<gamma> p"
  shows "g_ent \<gamma> (mp_slot T p) = p - 2 ^ mp_bits T"
proof -
  define N :: int where "N = 2 ^ mp_bits T"
  define e where "e = g_ent \<gamma> (mp_slot T p)"
  obtain c where c: "c \<in> mp_consumers T" using wf by (auto simp: mp_well_arranged_def)
  have e: "mp_slot T e = mp_slot T p" "- N \<le> e" "e < p"
    using inv m mp_slot_less [of T p] by (auto simp: mp_data_def mp_mine_def mp_pubd_def e_def N_def)
  have s: "mp_slot T (p - N) = mp_slot T p" by (simp add: mp_slot_def N_def)
  have "p - N \<le> e"
  proof (cases "0 \<le> p - N")
    case True
    have "p - N < g_got \<gamma> c" using room c by (auto simp: mp_room_def N_def)
    then have "mp_pubd T \<gamma> (p - N)" using inv c True by (auto simp: mp_data_def)
    then show ?thesis using s by (simp add: mp_pubd_def e_def)
  next
    case False
    show ?thesis
    proof (rule ccontr)
      assume "\<not> p - N \<le> e"
      then have "\<bar>e - (p - N)\<bar> < N" using e(2) False by simp
      then have "e = p - N" using e(1) s by (intro mp_slot_eq) (auto simp: N_def)
      with \<open>\<not> p - N \<le> e\<close> show False by simp
    qed
  qed
  moreover have "\<bar>e - (p - N)\<bar> < N" using e(3) \<open>p - N \<le> e\<close> by simp
  ultimately show ?thesis using e(1) s mp_slot_eq [of T e "p - N"] by (simp add: N_def e_def)
qed

text \<open>No two threads can be about to access the same slot when one of them writes.\<close>

lemma mp_slot_before:
  assumes "mp_slot T p = mp_slot T q" "p < q + 2 ^ mp_bits T"
  shows "p \<le> q"
  using assms mp_slot_eq [OF assms(1)] by (cases "p \<le> q") auto

lemma mp_mine_alone:
  assumes wf: "mp_well_arranged T" and data: "mp_data T (\<sigma>, \<gamma>)"
    and p: "mp_mine T \<gamma> t p" "mp_room T \<gamma> p" and s: "mp_slot T q = mp_slot T p"
  shows "mp_pubd T \<gamma> q \<Longrightarrow> q \<le> p - 2 ^ mp_bits T"
    and "mp_room T \<gamma> q \<Longrightarrow> q \<noteq> p \<Longrightarrow> q \<le> p - 2 ^ mp_bits T"
proof -
  obtain c where c: "c \<in> mp_consumers T" using wf by (auto simp: mp_well_arranged_def)
  have g: "g_got \<gamma> c \<le> p" by (rule mp_mine_not_got [OF data p(1) c])
  have far: "q \<le> p - 2 ^ mp_bits T" if "q < g_got \<gamma> c + 2 ^ mp_bits T" "q \<noteq> p"
  proof (rule ccontr)
    assume "\<not> q \<le> p - 2 ^ mp_bits T"
    then have "p \<le> q" using s by (intro mp_slot_before [of T p q]) auto
    moreover have "q \<le> p" using s that(1) g by (intro mp_slot_before [of T q p]) auto
    ultimately show False using that(2) by simp
  qed
  show "q \<le> p - 2 ^ mp_bits T" if "mp_pubd T \<gamma> q"
    using mp_pubd_less(2) [OF data that c] that p(1) by (intro far) (auto simp: mp_mine_def)
  show "q \<le> p - 2 ^ mp_bits T" if "mp_room T \<gamma> q" "q \<noteq> p"
    using that c by (intro far) (auto simp: mp_room_def)
qed

lemma mp_no_race:
  assumes wf: "mp_well_arranged T" and data: "mp_data T (\<sigma>, \<gamma>)"
    and p: "mp_mine T \<gamma> t p" "mp_room T \<gamma> p" and s: "mp_slot T q = mp_slot T p"
  shows "c \<in> mp_consumers T \<Longrightarrow> g_got \<gamma> c \<le> q \<Longrightarrow> \<not> mp_pubd T \<gamma> q"
    and "mp_mine T \<gamma> u q \<Longrightarrow> mp_room T \<gamma> q \<Longrightarrow> u = t"
proof -
  show "\<not> mp_pubd T \<gamma> q" if c: "c \<in> mp_consumers T" "g_got \<gamma> c \<le> q"
  proof
    assume "mp_pubd T \<gamma> q"
    then have "q \<le> p - 2 ^ mp_bits T" by (rule mp_mine_alone(1) [OF wf data p s])
    moreover have "p < g_got \<gamma> c + 2 ^ mp_bits T" using p(2) c(1) by (simp add: mp_room_def)
    ultimately show False using c(2) by simp
  qed
  show "u = t" if q: "mp_mine T \<gamma> u q" "mp_room T \<gamma> q"
  proof (cases "q = p")
    case True
    then show ?thesis using q(1) p(1) by (simp add: mp_mine_def)
  next
    case False
    obtain c where c: "c \<in> mp_consumers T" using wf by (auto simp: mp_well_arranged_def)
    have "q \<le> p - 2 ^ mp_bits T" by (rule mp_mine_alone(2) [OF wf data p s q(2) False])
    moreover have "p < g_got \<gamma> c + 2 ^ mp_bits T" using p(2) c by (simp add: mp_room_def)
    ultimately show ?thesis using mp_mine_not_got [OF data q(1) c] by simp
  qed
qed

lemma mp_next_less:
  assumes "mp_well_arranged T" "mp_data T (\<sigma>, \<gamma>)"
  shows "g_next \<gamma> < 4611686018427387904"
proof -
  have "g_next \<gamma> \<le> mp_total T" by (rule mp_next_bound(1) [OF assms(1)]) (use assms(2) in \<open>simp add: mp_data_def\<close>)
  also have "\<dots> < 2 ^ 62" using assms(1) by (simp add: mp_well_arranged_def)
  finally show ?thesis by simp
qed

lemma mp_bits_less:
  assumes "mp_well_arranged T"
  shows "mp_bits T < 64" "(2 :: int) ^ mp_bits T \<le> 4611686018427387904" "(0 :: int) < 2 ^ mp_bits T"
  using assms power_increasing [of "mp_bits T" 62 "2 :: int"] by (simp_all add: mp_well_arranged_def)

text \<open>A consumer is never behind the gate downstream of it.\<close>

lemma mp_well_arranged_gate:
  "mp_well_arranged T \<Longrightarrow> c \<in> mp_consumers T \<Longrightarrow> \<exists>g \<in> mp_gates T. (c, g) \<in> (mp_downstream T)\<^sup>*"
  by (simp add: mp_well_arranged_def)

lemma mp_gate_behind:
  assumes "mp_data T (\<sigma>, \<gamma>)" "(c, g) \<in> (mp_downstream T)\<^sup>*"
  shows "g_got \<gamma> g \<le> g_got \<gamma> c"
  using assms(2)
proof (induction rule: rtrancl_induct)
  case (step u d)
  then have "g_got \<gamma> d \<le> g_got \<gamma> u" using assms(1) by (auto simp: mp_downstream_def mp_data_def)
  with step.IH show ?case by simp
qed simp

section \<open>The steps of the producers and the consumers\<close>

text \<open>The next \<open>n\<close> positions go to thread \<open>j\<close>, for its next items.\<close>

definition mp_take :: "claims \<Rightarrow> nat \<Rightarrow> int \<Rightarrow> claims" where
  "mp_take \<gamma> j n = \<gamma>\<lparr>g_next := g_next \<gamma> + n,
     g_own := (\<lambda>p. if g_next \<gamma> \<le> p \<and> p < g_next \<gamma> + n then j else g_own \<gamma> p),
     g_idx := (\<lambda>p. if g_next \<gamma> \<le> p \<and> p < g_next \<gamma> + n then g_cnt \<gamma> j + (p - g_next \<gamma>) else g_idx \<gamma> p),
     g_cnt := (g_cnt \<gamma>)(j := g_cnt \<gamma> j + n)\<rparr>"

lemma mp_take_simps [simp]:
  "g_next (mp_take \<gamma> j n) = g_next \<gamma> + n" "g_ent (mp_take \<gamma> j n) = g_ent \<gamma>" "g_got (mp_take \<gamma> j n) = g_got \<gamma>"
  "g_cnt (mp_take \<gamma> j n) = (g_cnt \<gamma>)(j := g_cnt \<gamma> j + n)"
  "p < g_next \<gamma> \<Longrightarrow> g_own (mp_take \<gamma> j n) p = g_own \<gamma> p" "p < g_next \<gamma> \<Longrightarrow> g_idx (mp_take \<gamma> j n) p = g_idx \<gamma> p"
  "g_next \<gamma> \<le> p \<Longrightarrow> p < g_next \<gamma> + n \<Longrightarrow> g_own (mp_take \<gamma> j n) p = j"
  "g_next \<gamma> \<le> p \<Longrightarrow> p < g_next \<gamma> + n \<Longrightarrow> g_idx (mp_take \<gamma> j n) p = g_cnt \<gamma> j + (p - g_next \<gamma>)"
  "mp_pubd T (mp_take \<gamma> j n) p = mp_pubd T \<gamma> p" "mp_room T (mp_take \<gamma> j n) p = mp_room T \<gamma> p"
  by (simp_all add: mp_take_def mp_pubd_def mp_room_def)

lemma mp_claimed_take:
  assumes cl: "mp_claimed T \<gamma>" and j: "j \<in> mp_producers T" "0 \<le> n" "g_cnt \<gamma> j + n \<le> mp_quota T"
  shows "mp_claimed T (mp_take \<gamma> j n)"
proof -
  let ?\<gamma> = "mp_take \<gamma> j n"
  define f where "f = (\<lambda>p. (g_own ?\<gamma> p, g_idx ?\<gamma> p))"
  have n: "0 \<le> g_next \<gamma>" and c: "0 \<le> g_cnt \<gamma> j" using assms by (auto simp: mp_claimed_def)
  have "bij_betw (\<lambda>p. (g_own \<gamma> p, g_idx \<gamma> p)) {0..<g_next \<gamma>} (SIGMA j : mp_producers T. {0..<g_cnt \<gamma> j})"
    using cl by (simp add: mp_claimed_def)
  then have old: "bij_betw f {0..<g_next \<gamma>} (SIGMA j : mp_producers T. {0..<g_cnt \<gamma> j})"
    by (rule bij_betw_cong [THEN iffD1, rotated]) (simp add: f_def)
  have new: "bij_betw f {g_next \<gamma>..<g_next \<gamma> + n} ({j} \<times> {g_cnt \<gamma> j..<g_cnt \<gamma> j + n})"
    by (rule bij_betw_byWitness [where f' = "\<lambda>x. snd x - g_cnt \<gamma> j + g_next \<gamma>"]) (auto simp: f_def)
  have "bij_betw f ({0..<g_next \<gamma>} \<union> {g_next \<gamma>..<g_next \<gamma> + n})
      ((SIGMA j : mp_producers T. {0..<g_cnt \<gamma> j}) \<union> {j} \<times> {g_cnt \<gamma> j..<g_cnt \<gamma> j + n})"
    using old new by (rule bij_betw_combine) auto
  moreover have "{0..<g_next \<gamma>} \<union> {g_next \<gamma>..<g_next \<gamma> + n} = {0..<g_next ?\<gamma>}" using n j(2) by auto
  moreover have "(SIGMA j : mp_producers T. {0..<g_cnt \<gamma> j}) \<union> {j} \<times> {g_cnt \<gamma> j..<g_cnt \<gamma> j + n} =
      (SIGMA i : mp_producers T. {0..<g_cnt ?\<gamma> i})"
    using j c by (auto split: if_splits)
  ultimately have "bij_betw f {0..<g_next ?\<gamma>} (SIGMA i : mp_producers T. {0..<g_cnt ?\<gamma> i})" by simp
  moreover have "g_idx ?\<gamma> p < g_idx ?\<gamma> q"
    if p: "0 \<le> p" "p < q" "q < g_next ?\<gamma>" and own: "g_own ?\<gamma> p = g_own ?\<gamma> q" for p q
  proof (cases "q < g_next \<gamma>")
    case True
    then show ?thesis using cl p own by (simp add: mp_claimed_def)
  next
    case q: False
    show ?thesis
    proof (cases "p < g_next \<gamma>")
      case True
      with q p own have "g_own \<gamma> p = j" by simp
      with True q p mp_claim_owner(3) [OF cl p(1) True] show ?thesis by simp
    qed (use q p in simp)
  qed
  ultimately show ?thesis
    using cl n j by (auto simp: mp_claimed_def f_def)
qed

lemma mp_take_step:
  assumes wf: "mp_well_arranged T" and inv: "mp_data T (\<sigma>, \<gamma>)"
    and j: "j \<in> mp_producers T" "g_cnt \<gamma> j + uint v \<le> mp_quota T"
    and \<sigma>': "\<sigma>' = put (mp_counter T) (mem \<sigma> (mp_counter T) + v) \<sigma>"
  shows "mp_data T (\<sigma>', mp_take \<gamma> j (uint v))"
    and "u \<noteq> j \<Longrightarrow> mp_evolves T u (\<sigma>, \<gamma>) (\<sigma>', mp_take \<gamma> j (uint v))"
proof -
  have a: "mp_barrier T c \<noteq> mp_counter T" if "c \<in> mp_consumers T" for c
    using wf that by (simp add: mp_well_arranged_def)
  have b: "Elem (mp_entries T) i \<noteq> mp_counter T" for i
    using wf by (simp add: mp_well_arranged_def) metis
  have "mp_claimed T \<gamma>" using inv by (simp add: mp_data_def)
  then have cl: "mp_claimed T (mp_take \<gamma> j (uint v))" using j by (intro mp_claimed_take) simp_all
  have idx: "g_idx (mp_take \<gamma> j (uint v)) p = g_idx \<gamma> p" if "mp_pubd T \<gamma> p" for p
    using mp_pubd_less(1) [OF inv that] by simp
  have up: "p < g_next \<gamma> + uint v" if "p < g_next \<gamma>" for p using that uint_ge_0 [of v] by linarith
  show "mp_data T (\<sigma>', mp_take \<gamma> j (uint v))"
    using inv cl a b idx up by (fastforce simp: mp_data_def \<sigma>' seq_at_add_word)
  show "mp_evolves T u (\<sigma>, \<gamma>) (\<sigma>', mp_take \<gamma> j (uint v))" if "u \<noteq> j"
    using that by (auto simp: mp_evolves_def mp_mine_def \<sigma>')
qed

lemma mp_write_step:
  assumes wf: "mp_well_arranged T" and data: "mp_data T (\<sigma>, \<gamma>)"
    and p: "mp_mine T \<gamma> j p" "mp_room T \<gamma> p"
    and \<sigma>': "\<sigma>' = \<sigma>\<lparr>cells := (cells \<sigma>)(mp_array T := (cells \<sigma> (mp_array T))(mp_slot T p := x))\<rparr>"
  shows "mp_data T (\<sigma>', \<gamma>)" and "u \<noteq> j \<Longrightarrow> mp_evolves T u (\<sigma>, \<gamma>) (\<sigma>', \<gamma>)"
proof -
  note alone = mp_no_race [OF wf data p]
  show "mp_data T (\<sigma>', \<gamma>)" using data alone(1) by (auto simp: mp_data_def \<sigma>')
  show "mp_evolves T u (\<sigma>, \<gamma>) (\<sigma>', \<gamma>)" if "u \<noteq> j"
    using alone(2) that by (auto simp: mp_evolves_def mp_mine_def \<sigma>')
qed

lemma mp_publish_step:
  assumes wf: "mp_well_arranged T" and inv: "mp_data T (\<sigma>, \<gamma>)"
    and p: "mp_mine T \<gamma> j p" "mp_room T \<gamma> p"
    and c: "cells \<sigma> (mp_array T) (mp_slot T p) = mp_item T (g_idx \<gamma> p)"
    and \<sigma>'_def: "\<sigma>' = put (Elem (mp_entries T) (mp_slot T p)) (seq_at p) \<sigma>"
    and \<gamma>'_def: "\<gamma>' = \<gamma>\<lparr>g_ent := (g_ent \<gamma>)(mp_slot T p := p)\<rparr>"
  shows "mp_data T (\<sigma>', \<gamma>')" and "u \<noteq> j \<Longrightarrow> mp_evolves T u (\<sigma>, \<gamma>) (\<sigma>', \<gamma>')"
proof -
  have ent: "g_ent \<gamma> (mp_slot T p) = p - 2 ^ mp_bits T" by (rule mp_mine_entry [OF wf inv p])
  have sel [simp]: "g_next \<gamma>' = g_next \<gamma>" "g_own \<gamma>' = g_own \<gamma>" "g_idx \<gamma>' = g_idx \<gamma>" "g_got \<gamma>' = g_got \<gamma>"
    "g_cnt \<gamma>' = g_cnt \<gamma>" "g_ent \<gamma>' = (g_ent \<gamma>)(mp_slot T p := p)" "mp_room T \<gamma>' q = mp_room T \<gamma> q" for q
    by (simp_all add: \<gamma>'_def mp_room_def)
  have p0: "0 \<le> p" "p < g_next \<gamma>" using p(1) by (auto simp: mp_mine_def)
  have mono: "g_ent \<gamma> i \<le> g_ent \<gamma>' i" for i using ent by simp
  have pub': "q = p \<or> mp_pubd T \<gamma> q" if "mp_pubd T \<gamma>' q" "p - 2 ^ mp_bits T < q" for q
  proof (cases "mp_slot T q = mp_slot T p")
    case True
    then have "q \<le> p" using that(1) by (simp add: mp_pubd_def)
    then have "q = p" using True that(2) by (intro mp_slot_eq [of T]) auto
    then show ?thesis by simp
  next
    case False
    then show ?thesis using that(1) by (simp add: mp_pubd_def)
  qed
  have a: "mp_barrier T c \<noteq> Elem (mp_entries T) i" if "c \<in> mp_consumers T" for c i
    using wf that by (simp add: mp_well_arranged_def)
  have b: "mp_counter T \<noteq> Elem (mp_entries T) i" for i
    using wf by (simp add: mp_well_arranged_def)
  show "mp_data T (\<sigma>', \<gamma>')"
    unfolding mp_data_def prod.case
  proof (intro conjI ballI allI impI)
    show "mp_claimed T \<gamma>'" using inv by (simp add: mp_data_def mp_claimed_def)
    show "mem \<sigma>' (mp_counter T) = seq_at (g_next \<gamma>')" using inv b by (simp add: mp_data_def \<sigma>'_def)
    fix i :: nat assume i: "i < 2 ^ mp_bits T"
    show "mem \<sigma>' (Elem (mp_entries T) i) = seq_at (g_ent \<gamma>' i)" using inv i by (simp add: mp_data_def \<sigma>'_def)
    show "mp_slot T (g_ent \<gamma>' i) = i" using inv i by (simp add: mp_data_def)
    have "0 < (2 :: int) ^ mp_bits T" by simp
    then have "- (2 ^ mp_bits T) \<le> p" using p0 by linarith
    then show "- (2 ^ mp_bits T) \<le> g_ent \<gamma>' i" using inv i by (simp add: mp_data_def)
    show "g_ent \<gamma>' i < g_next \<gamma>'" using inv i p0 by (simp add: mp_data_def)
    show "g_ent \<gamma>' i < g_got \<gamma>' c + 2 ^ mp_bits T" if "c \<in> mp_consumers T" for c
      using inv i p(2) that by (simp add: mp_data_def mp_room_def)
  next
    fix c assume cc: "c \<in> mp_consumers T"
    show "mem \<sigma>' (mp_barrier T c) = seq_at (g_got \<gamma>' c - 1)" using inv cc a by (simp add: mp_data_def \<sigma>'_def)
    show "0 \<le> g_got \<gamma>' c" using inv cc by (simp add: mp_data_def)
    show "g_got \<gamma>' c \<le> g_got \<gamma>' d" if "d \<in> mp_upstream T c" for d using inv cc that by (simp add: mp_data_def)
    show "mp_pubd T \<gamma>' q" if "0 \<le> q" "q < g_got \<gamma>' c" for q
    proof -
      have "mp_pubd T \<gamma> q" using inv cc that by (simp add: mp_data_def)
      then show ?thesis using mono by (rule mp_pubd_mono)
    qed
    fix q assume q: "g_got \<gamma>' c \<le> q" "mp_pubd T \<gamma>' q"
    have "p - 2 ^ mp_bits T < q" using p(2) cc q(1) by (force simp: mp_room_def)
    with q(2) have "q = p \<or> mp_pubd T \<gamma> q" by (rule pub')
    then show "cells \<sigma>' (mp_array T) (mp_slot T q) = mp_item T (g_idx \<gamma>' q)"
      using inv cc q(1) c by (auto simp: mp_data_def \<sigma>'_def)
  qed
  have "\<not> mp_pubd T \<gamma>' q" if u: "u \<noteq> j" and q: "mp_mine T \<gamma> u q" for q
  proof
    assume pub: "mp_pubd T \<gamma>' q"
    have "q \<noteq> p" using q p(1) u by (auto simp: mp_mine_def)
    obtain d where d: "d \<in> mp_consumers T" using wf by (auto simp: mp_well_arranged_def)
    have "g_got \<gamma> d \<le> q" by (rule mp_mine_not_got [OF inv q d])
    then have "p - 2 ^ mp_bits T < q" using p(2) d by (force simp: mp_room_def)
    with pub' [OF pub] \<open>q \<noteq> p\<close> q show False by (simp add: mp_mine_def)
  qed
  then show "mp_evolves T u (\<sigma>, \<gamma>) (\<sigma>', \<gamma>')" if "u \<noteq> j"
    using mono that by (simp add: mp_evolves_def \<sigma>'_def)
qed

text \<open>
  What consumer \<open>c\<close> may read: positions published, with all those before them, and given back by
  all upstream of it.  When it has read up to \<open>q\<close> it gives that back.
\<close>

definition mp_readable :: "'d multi_arrangement \<Rightarrow> nat \<Rightarrow> claims \<Rightarrow> int \<Rightarrow> bool" where
  "mp_readable T c \<gamma> q \<longleftrightarrow> (\<forall>p. 0 \<le> p \<longrightarrow> p \<le> q \<longrightarrow> mp_pubd T \<gamma> p) \<and> q < g_next \<gamma> \<and>
     (\<forall>u \<in> mp_upstream T c. q < g_got \<gamma> u)"

lemma mp_consumer_step:
  assumes wf: "mp_well_arranged T" and inv: "mp_data T (\<sigma>, \<gamma>)" and c: "c \<in> mp_consumers T"
    and q: "mp_readable T c \<gamma> q" "g_got \<gamma> c \<le> q"
    and \<sigma>'_def: "\<sigma>' = put (mp_barrier T c) (seq_at q) \<sigma>"
    and \<gamma>'_def: "\<gamma>' = \<gamma>\<lparr>g_got := (g_got \<gamma>)(c := q + 1)\<rparr>"
  shows "mp_data T (\<sigma>', \<gamma>')" and "u \<noteq> c \<Longrightarrow> mp_evolves T u (\<sigma>, \<gamma>) (\<sigma>', \<gamma>')"
proof -
  have sel [simp]: "g_next \<gamma>' = g_next \<gamma>" "g_own \<gamma>' = g_own \<gamma>" "g_idx \<gamma>' = g_idx \<gamma>"
    "g_got \<gamma>' = (g_got \<gamma>)(c := q + 1)" "g_cnt \<gamma>' = g_cnt \<gamma>" "g_ent \<gamma>' = g_ent \<gamma>"
    "mp_pubd T \<gamma>' p = mp_pubd T \<gamma> p" for p
    by (simp_all add: \<gamma>'_def mp_pubd_def)
  have a: "mp_barrier T c \<noteq> mp_counter T" "mp_counter T \<noteq> mp_barrier T c"
    "Elem (mp_entries T) i \<noteq> mp_barrier T c" for i
    using wf c by (auto simp: mp_well_arranged_def) metis+
  have b: "mp_barrier T d = mp_barrier T c \<longleftrightarrow> d = c" if "d \<in> mp_consumers T" for d
    using wf c that by (auto simp: mp_well_arranged_def inj_on_eq_iff)
  have mono: "g_got \<gamma> d \<le> g_got \<gamma>' d" for d using q(2) by simp
  have up: "c \<notin> mp_upstream T c" using q by (auto simp: mp_readable_def)
  show "mp_data T (\<sigma>', \<gamma>')"
    unfolding mp_data_def prod.case
  proof (intro conjI ballI allI impI)
    show "mp_claimed T \<gamma>'" using inv by (simp add: mp_data_def mp_claimed_def)
    show "mem \<sigma>' (mp_counter T) = seq_at (g_next \<gamma>')" using inv a by (simp add: mp_data_def \<sigma>'_def)
    fix i :: nat assume i: "i < 2 ^ mp_bits T"
    show "mem \<sigma>' (Elem (mp_entries T) i) = seq_at (g_ent \<gamma>' i)" using inv i a by (simp add: mp_data_def \<sigma>'_def)
    show "mp_slot T (g_ent \<gamma>' i) = i" "- (2 ^ mp_bits T) \<le> g_ent \<gamma>' i" "g_ent \<gamma>' i < g_next \<gamma>'"
      using inv i by (simp_all add: mp_data_def)
    fix d assume d: "d \<in> mp_consumers T"
    have "g_ent \<gamma> i < g_got \<gamma> d + 2 ^ mp_bits T" using inv i d by (simp add: mp_data_def)
    with mono [of d] show "g_ent \<gamma>' i < g_got \<gamma>' d + 2 ^ mp_bits T" by simp
  next
    fix d assume d: "d \<in> mp_consumers T"
    show "mem \<sigma>' (mp_barrier T d) = seq_at (g_got \<gamma>' d - 1)" using inv d b [OF d] by (auto simp: mp_data_def \<sigma>'_def)
    show "0 \<le> g_got \<gamma>' d" using inv d q(2) c by (fastforce simp: mp_data_def)
    show "g_got \<gamma>' d \<le> g_got \<gamma>' v" if "v \<in> mp_upstream T d" for v
      using inv d q up that mono [of v] by (cases "d = c") (force simp: mp_data_def mp_readable_def)+
    show "mp_pubd T \<gamma>' p" if "0 \<le> p" "p < g_got \<gamma>' d" for p
      using inv d q(1) that by (cases "d = c") (auto simp: mp_data_def mp_readable_def)
    show "cells \<sigma>' (mp_array T) (mp_slot T p) = mp_item T (g_idx \<gamma>' p)"
      if "g_got \<gamma>' d \<le> p" "mp_pubd T \<gamma>' p" for p
      using inv d mono [of d] that by (auto simp: mp_data_def \<sigma>'_def)
  qed
  show "mp_evolves T u (\<sigma>, \<gamma>) (\<sigma>', \<gamma>')" if "u \<noteq> c"
    using mono that by (auto simp: mp_evolves_def \<sigma>'_def mp_mine_def)
qed

end
