(* ===== verification/Multi_Producer_History.thy ===== *)
theory Multi_Producer_History
  imports Multi_Producer
begin

text \<open>
  The history of a disruptor with several producers: what each access of the weak machine has
  been, what the stores pass on, and the protocol of the threads that keeps this up.
\<close>

section \<open>The events\<close>

text \<open>
  The consumers up to a stage: those that a consumer is downstream of, and itself.  The entry of
  a position passes on that its item is written, and all that was done up to one buffer before.
\<close>

definition mp_stage :: "'d multi_arrangement \<Rightarrow> nat \<Rightarrow> nat set" where
  "mp_stage T c = {d. (d, c) \<in> (mp_downstream T)\<^sup>*}"

definition mp_known :: "'d multi_arrangement \<Rightarrow> nat set \<Rightarrow> int \<Rightarrow> event set" where
  "mp_known T U p = known_at (mp_consumers T) (2 ^ mp_bits T) U p"

definition mp_promise :: "'d multi_arrangement \<Rightarrow> int \<Rightarrow> event set" where
  "mp_promise T p = {Wrote p, Published p} \<union> events_upto (mp_consumers T) (p - 2 ^ mp_bits T)"

fun mp_entry :: "'d multi_arrangement \<Rightarrow> claims \<Rightarrow> event \<Rightarrow> access \<Rightarrow> bool" where
  "mp_entry T \<gamma> (Wrote p) x \<longleftrightarrow> x = Written (g_own \<gamma> p) (mp_array T) (mp_slot T p) \<and>
     0 \<le> p \<and> p < g_next \<gamma> \<and> mp_room T \<gamma> p"
| "mp_entry T \<gamma> (Read_By c p) x \<longleftrightarrow> x = Was_Read c (mp_array T) (mp_slot T p) \<and>
     c \<in> mp_consumers T \<and> 0 \<le> p \<and> mp_pubd T \<gamma> p"
| "mp_entry T \<gamma> (Published p) x \<longleftrightarrow> 0 \<le> p \<and> p < g_next \<gamma> \<and> mp_pubd T \<gamma> p \<and>
     (\<exists>V. x = Stored (g_own \<gamma> p) (Elem (mp_entries T) (mp_slot T p)) (seq_at p) False V \<and>
        knows (g_events \<gamma>) V (mp_promise T p))"
| "mp_entry T \<gamma> (Given_By c p) x \<longleftrightarrow> c \<in> mp_consumers T \<and> 0 \<le> p \<and> p < g_got \<gamma> c \<and>
     (\<exists>V. x = Stored c (mp_barrier T c) (seq_at p) False V \<and>
        knows (g_events \<gamma>) V (mp_known T (mp_stage T c) p))"
| "mp_entry T \<gamma> (Taken p) x \<longleftrightarrow> 0 \<le> p \<and> p < g_next \<gamma> \<and>
     (\<exists>V. x = Stored (g_own \<gamma> p) (mp_counter T) (seq_at (p + 1)) True V)"

fun mp_doer :: "claims \<Rightarrow> event \<Rightarrow> nat" where
  "mp_doer \<gamma> (Wrote p) = g_own \<gamma> p"
| "mp_doer \<gamma> (Published p) = g_own \<gamma> p"
| "mp_doer \<gamma> (Read_By c p) = c"
| "mp_doer \<gamma> (Given_By c p) = c"
| "mp_doer \<gamma> (Taken p) = g_own \<gamma> p"

text \<open>The second part of the invariant: every access has been one of these events.\<close>

definition mp_history :: "'d multi_arrangement \<Rightarrow> claims \<Rightarrow> bool" where
  "mp_history T \<gamma> \<longleftrightarrow> list_all2 (mp_entry T \<gamma>) (g_events \<gamma>) (history (g_hist \<gamma>)) \<and>
     (\<forall>i < 2 ^ mp_bits T. base (g_hist \<gamma>) (Elem (mp_entries T) i) = seq_at (int i - 2 ^ mp_bits T)) \<and>
     (\<forall>c \<in> mp_consumers T. base (g_hist \<gamma>) (mp_barrier T c) = seq_at (- 1))"

definition mp_inv :: "'d multi_arrangement \<Rightarrow> 'd mach \<times> claims \<Rightarrow> bool" where
  "mp_inv T s \<longleftrightarrow> mp_data T s \<and> coherent (fst s) (g_hist (snd s)) \<and> mp_history T (snd s)"

text \<open>What will not happen any more.\<close>

fun mp_settled :: "'d multi_arrangement \<Rightarrow> claims \<Rightarrow> event \<Rightarrow> bool" where
  "mp_settled T \<gamma> (Wrote p) \<longleftrightarrow> p < 0 \<or> mp_pubd T \<gamma> p"
| "mp_settled T \<gamma> (Published p) \<longleftrightarrow> p < 0 \<or> mp_pubd T \<gamma> p"
| "mp_settled T \<gamma> (Read_By c p) \<longleftrightarrow> (c \<in> mp_consumers T \<longrightarrow> p < g_got \<gamma> c)"
| "mp_settled T \<gamma> (Given_By c p) \<longleftrightarrow> (c \<in> mp_consumers T \<longrightarrow> p < g_got \<gamma> c)"
| "mp_settled T \<gamma> (Taken p) \<longleftrightarrow> False"

definition mp_rely :: "'d multi_arrangement \<Rightarrow> nat \<Rightarrow> 'd mach \<times> claims \<Rightarrow> 'd mach \<times> claims \<Rightarrow> bool" where
  "mp_rely T t s s' \<longleftrightarrow> (mp_inv T s \<longrightarrow> mp_inv T s') \<and> mp_evolves T t s s' \<and>
     goes_on (Collect (mp_settled T (snd s))) (g_events (snd s)) (g_events (snd s')) \<and>
     seen (g_hist (snd s')) t = seen (g_hist (snd s)) t"

section \<open>The protocol\<close>

text \<open>
  The accesses that are allowed: a consumer reads published items it has not given back and
  publishes its own progress; a producer takes the next positions while it has items left for them,
  writes the slot of a position of its own for which there is room, and stores that
  position in the entry of the slot.
\<close>

fun mp_okay :: "'d multi_arrangement \<Rightarrow> nat \<Rightarrow> 'd act \<Rightarrow> 'd mach \<times> claims \<Rightarrow> bool" where
  "mp_okay T t (Read b i) (\<sigma>, \<gamma>) \<longleftrightarrow> b = mp_array T \<and> t \<in> mp_consumers T \<and>
     (\<exists>p. i = mp_slot T p \<and> g_got \<gamma> t \<le> p \<and> mp_pubd T \<gamma> p)"
| "mp_okay T t (Write b i x) (\<sigma>, \<gamma>) \<longleftrightarrow> b = mp_array T \<and>
     (\<exists>p. i = mp_slot T p \<and> mp_mine T \<gamma> t p \<and> mp_room T \<gamma> p)"
| "mp_okay T t (Store ord a v) (\<sigma>, \<gamma>) \<longleftrightarrow> ord = Release \<and>
     (t \<in> mp_consumers T \<and> a = mp_barrier T t \<and> v \<noteq> mem \<sigma> a \<or>
      (\<exists>p. a = Elem (mp_entries T) (mp_slot T p) \<and> v = seq_at p \<and> mp_mine T \<gamma> t p \<and> mp_room T \<gamma> p))"
| "mp_okay T t (Fetch_Add ord a v) (\<sigma>, \<gamma>) \<longleftrightarrow> a = mp_counter T \<and> 0 < v \<and> t \<in> mp_producers T \<and>
     g_cnt \<gamma> t + uint v \<le> mp_quota T"
| "mp_okay T t (Init a v) s \<longleftrightarrow> False"
| "mp_okay T t (Cas_Weak o1 o2 a e d) s \<longleftrightarrow> False"
| "mp_okay T t c s \<longleftrightarrow> True"

definition mp_protocol :: "'d multi_arrangement \<Rightarrow> ('d, claims) protocol" where
  "mp_protocol T = \<lparr>rely = mp_rely T, guar = (\<lambda>t s s'. \<forall>u. u \<noteq> t \<longrightarrow> mp_rely T u s s'),
     okay = mp_okay T, invar = mp_inv T\<rparr>"

lemma mp_protocol_select [simp]:
  "rely (mp_protocol T) = mp_rely T" "okay (mp_protocol T) = mp_okay T" "invar (mp_protocol T) = mp_inv T"
  "guar (mp_protocol T) t s s' \<longleftrightarrow> (\<forall>u. u \<noteq> t \<longrightarrow> mp_rely T u s s')"
  by (simp_all add: mp_protocol_def)

text \<open>The history and its events do not matter for the data.\<close>

lemma mp_same [simp]:
  "mp_pubd T (\<gamma>\<lparr>g_hist := \<omega>\<rparr>) p = mp_pubd T \<gamma> p" "mp_pubd T (\<gamma>\<lparr>g_events := es\<rparr>) p = mp_pubd T \<gamma> p"
  "mp_room T (\<gamma>\<lparr>g_hist := \<omega>\<rparr>) p = mp_room T \<gamma> p" "mp_room T (\<gamma>\<lparr>g_events := es\<rparr>) p = mp_room T \<gamma> p"
  "mp_mine T (\<gamma>\<lparr>g_hist := \<omega>\<rparr>) t p = mp_mine T \<gamma> t p" "mp_mine T (\<gamma>\<lparr>g_events := es\<rparr>) t p = mp_mine T \<gamma> t p"
  "mp_claimed T (\<gamma>\<lparr>g_hist := \<omega>\<rparr>) = mp_claimed T \<gamma>" "mp_claimed T (\<gamma>\<lparr>g_events := es\<rparr>) = mp_claimed T \<gamma>"
  "mp_readable T c (\<gamma>\<lparr>g_hist := \<omega>\<rparr>) q = mp_readable T c \<gamma> q"
  "mp_readable T c (\<gamma>\<lparr>g_events := es\<rparr>) q = mp_readable T c \<gamma> q"
  by (simp_all add: mp_pubd_def mp_room_def mp_mine_def mp_claimed_def mp_readable_def)

lemma mp_data_same [simp]:
  "mp_data T (\<sigma>, \<gamma>\<lparr>g_hist := \<omega>\<rparr>) = mp_data T (\<sigma>, \<gamma>)" "mp_data T (\<sigma>, \<gamma>\<lparr>g_events := es\<rparr>) = mp_data T (\<sigma>, \<gamma>)"
  by (simp_all add: mp_data_def)

lemma mp_evolves_same [simp]:
  "mp_evolves T t s (\<sigma>, \<gamma>\<lparr>g_hist := \<omega>\<rparr>) = mp_evolves T t s (\<sigma>, \<gamma>)"
  "mp_evolves T t s (\<sigma>, \<gamma>\<lparr>g_events := es\<rparr>) = mp_evolves T t s (\<sigma>, \<gamma>)"
  by (simp_all add: mp_evolves_def)

lemma mp_data_sync: "mem \<sigma>' = mem \<sigma> \<Longrightarrow> cells \<sigma>' = cells \<sigma> \<Longrightarrow> mp_data T (\<sigma>', \<gamma>) \<longleftrightarrow> mp_data T (\<sigma>, \<gamma>)"
  by (simp add: mp_data_def)

lemma mp_inv_sync:
  assumes "mp_inv T (\<sigma>, \<gamma>)" "mem \<sigma>' = mem \<sigma>" "cells \<sigma>' = cells \<sigma>" "only_sees t (g_hist \<gamma>) \<omega>"
  shows "mp_inv T (\<sigma>', \<gamma>\<lparr>g_hist := \<omega>\<rparr>)"
proof -
  have "mp_entry T (\<gamma>\<lparr>g_hist := \<omega>\<rparr>) e x \<longleftrightarrow> mp_entry T \<gamma> e x" for e x by (cases e) simp_all
  then have e: "mp_entry T (\<gamma>\<lparr>g_hist := \<omega>\<rparr>) = mp_entry T \<gamma>" by (simp add: fun_eq_iff)
  have "base \<omega> = base (g_hist \<gamma>)" "history \<omega> = history (g_hist \<gamma>)" using assms(4) by (simp_all add: only_sees_def)
  then have "mp_history T (\<gamma>\<lparr>g_hist := \<omega>\<rparr>)"
    using assms(1) unfolding mp_history_def mp_inv_def e by simp
  then show ?thesis
    using assms mp_data_sync [OF assms(2,3), of T \<gamma>] coherent_only_sees [of \<sigma> "g_hist \<gamma>" t \<omega> \<sigma>']
    by (simp add: mp_inv_def)
qed

lemma mp_okay_waiting: "waiting_act c h = Some h' \<Longrightarrow> mp_okay T t c s"
  by (cases c; cases s) (auto split: if_splits)

lemma mp_evolves_mono:
  assumes "mp_evolves T t s s'"
  shows "g_next (snd s) \<le> g_next (snd s')" and "p < g_next (snd s) \<Longrightarrow> g_own (snd s') p = g_own (snd s) p"
    and "p < g_next (snd s) \<Longrightarrow> g_idx (snd s') p = g_idx (snd s) p"
    and "g_ent (snd s) i \<le> g_ent (snd s') i" and "g_got (snd s) c \<le> g_got (snd s') c"
    and "mp_pubd T (snd s) p \<Longrightarrow> mp_pubd T (snd s') p" and "mp_room T (snd s) p \<Longrightarrow> mp_room T (snd s') p"
    and "mp_settled T (snd s) e \<Longrightarrow> mp_settled T (snd s') e"
proof -
  have got: "g_got (snd s) c \<le> g_got (snd s') c" for c using assms by (simp add: mp_evolves_def)
  have pub: "mp_pubd T (snd s') p" if "mp_pubd T (snd s) p" for p
    using that by (rule mp_pubd_mono) (use assms in \<open>simp add: mp_evolves_def\<close>)
  show "g_got (snd s) c \<le> g_got (snd s') c" by (rule got)
  show "mp_room T (snd s') p" if "mp_room T (snd s) p" using that got by (rule mp_room_mono)
  show "mp_pubd T (snd s) p \<Longrightarrow> mp_pubd T (snd s') p" by (rule pub)
  show "mp_settled T (snd s) e \<Longrightarrow> mp_settled T (snd s') e"
    using pub less_le_trans [OF _ got] by (cases e) auto
qed (use assms in \<open>simp_all add: mp_evolves_def\<close>)

lemma mp_rely_trans:
  assumes 1: "mp_rely T t s s'" and 2: "mp_rely T t s' s''"
  shows "mp_rely T t s s''"
proof -
  have "Collect (mp_settled T (snd s)) \<subseteq> Collect (mp_settled T (snd s'))"
    using mp_evolves_mono(8) [of T t s s'] 1 by (auto simp: mp_rely_def)
  then show ?thesis
    using 1 2 mp_evolves_trans [of T t s s' s'']
    by (auto simp: mp_rely_def intro: goes_on_trans)
qed

interpretation mp: weak_protocol "mp_protocol T" g_hist "\<lambda>\<omega> \<gamma>. \<gamma>\<lparr>g_hist := \<omega>\<rparr>" for T :: "'d multi_arrangement"
proof unfold_locales
  fix t s s' s'' and u :: nat
  show "rely (mp_protocol T) t s s" by (simp add: mp_rely_def goes_on_refl mp_evolves_def mp_mine_def)
  show "rely (mp_protocol T) t s s''" if "rely (mp_protocol T) t s s'" "rely (mp_protocol T) t s' s''"
    using that by (auto intro: mp_rely_trans)
  show "invar (mp_protocol T) s'" if "rely (mp_protocol T) t s s'" "invar (mp_protocol T) s"
    using that by (simp add: mp_rely_def)
  show "invar (mp_protocol T) s'" if g: "guar (mp_protocol T) t s s'" and i: "invar (mp_protocol T) s"
  proof -
    have "mp_rely T (Suc t) s s'" using g by simp
    with i show ?thesis by (simp add: mp_rely_def)
  qed
  show "rely (mp_protocol T) u s s'" if "t \<noteq> u" "guar (mp_protocol T) t s s'"
    using that by simp
next
  show "g_hist (\<gamma>\<lparr>g_hist := \<omega>\<rparr>) = \<omega>" for \<omega> and \<gamma> :: claims by simp
  show "coherent \<sigma> (g_hist \<gamma>)" if "invar (mp_protocol T) (\<sigma>, \<gamma>)" for \<sigma> \<gamma>
    using that by (simp add: mp_inv_def)
next
  fix \<sigma> \<gamma> t \<sigma>' \<omega>
  assume "invar (mp_protocol T) (\<sigma>, \<gamma>)" and o: "only_sync t \<sigma> \<sigma>'" "only_sees t (g_hist \<gamma>) \<omega>"
  then have "mp_inv T (\<sigma>', \<gamma>\<lparr>g_hist := \<omega>\<rparr>)"
    by (intro mp_inv_sync) (simp_all add: only_sync_def)
  then show "guar (mp_protocol T) t (\<sigma>, \<gamma>) (\<sigma>', \<gamma>\<lparr>g_hist := \<omega>\<rparr>)"
    using o by (simp add: mp_rely_def mp_evolves_def only_sync_def only_sees_def goes_on_refl mp_mine_def)
next
  fix c h h' t s
  show "okay (mp_protocol T) t c s" if "waiting_act c h = Some h'"
    using mp_okay_waiting [OF that] by simp
next
  fix t s s' m
  show "owner (fst s') m = Some t \<longleftrightarrow> owner (fst s) m = Some t" if "rely (mp_protocol T) t s s'"
    using that by (simp add: mp_rely_def mp_evolves_def)
qed

lemma mp_race_free:
  fixes T :: "'d multi_arrangement"
  assumes "mp_well_arranged T"
  shows "weak_race_free_protocol (mp_protocol T) g_hist (\<lambda>\<omega> \<gamma>. \<gamma>\<lparr>g_hist := \<omega>\<rparr>)"
proof (intro weak_race_free_protocol.intro race_free_protocol.intro mp.weak_protocol_axioms
    mp.sound_protocol_axioms race_free_protocol_axioms.intro)
  fix t u b i x y and s :: "'d mach \<times> claims"
  obtain \<sigma> \<gamma> where s: "s = (\<sigma>, \<gamma>)" by (cases s)
  assume inv: "invar (mp_protocol T) s" and "t \<noteq> u" and w: "okay (mp_protocol T) t (Write b i x) s"
  then obtain p where p: "b = mp_array T" "i = mp_slot T p" "mp_mine T \<gamma> t p" "mp_room T \<gamma> p" by (auto simp: s)
  have data: "mp_data T (\<sigma>, \<gamma>)" using inv by (simp add: s mp_inv_def)
  show "\<not> okay (mp_protocol T) u (Read b i) s \<and> \<not> okay (mp_protocol T) u (Write b i y) s"
    using mp_no_race [OF assms data p(3,4)] \<open>t \<noteq> u\<close> unfolding s p(2) by (simp, metis)
qed

section \<open>What is known\<close>

lemma in_mp_known [simp]:
  "Read_By c q \<in> mp_known T U p \<longleftrightarrow> c \<in> U \<and> q \<le> p \<or> c \<in> mp_consumers T \<and> q \<le> p - 2 ^ mp_bits T"
  "Given_By c q \<in> mp_known T U p \<longleftrightarrow> c \<in> U \<and> q \<le> p \<or> c \<in> mp_consumers T \<and> q \<le> p - 2 ^ mp_bits T"
  "Wrote q \<in> mp_known T U p \<longleftrightarrow> q \<le> p" "Published q \<in> mp_known T U p \<longleftrightarrow> q \<le> p" "Taken q \<notin> mp_known T U p"
proof -
  have "(0 :: int) < 2 ^ mp_bits T" by simp
  then show "Wrote q \<in> mp_known T U p \<longleftrightarrow> q \<le> p" "Published q \<in> mp_known T U p \<longleftrightarrow> q \<le> p"
    unfolding mp_known_def in_known_at by linarith+
qed (simp_all add: mp_known_def)

lemma mp_known_mono: "p \<le> p' \<Longrightarrow> mp_known T U p \<subseteq> mp_known T U p'"
  unfolding mp_known_def by (intro known_at_mono) simp_all

lemma in_mp_promise [simp]:
  "Read_By c q \<in> mp_promise T p \<longleftrightarrow> c \<in> mp_consumers T \<and> q \<le> p - 2 ^ mp_bits T"
  "Given_By c q \<in> mp_promise T p \<longleftrightarrow> c \<in> mp_consumers T \<and> q \<le> p - 2 ^ mp_bits T"
  "Wrote q \<in> mp_promise T p \<longleftrightarrow> q = p \<or> q \<le> p - 2 ^ mp_bits T"
  "Published q \<in> mp_promise T p \<longleftrightarrow> q = p \<or> q \<le> p - 2 ^ mp_bits T" "Taken q \<notin> mp_promise T p"
  by (simp_all add: mp_promise_def)

text \<open>It is settled.\<close>

lemma mp_upto_settled:
  assumes wf: "mp_well_arranged T" and data: "mp_data T (\<sigma>, \<gamma>)"
    and got: "\<And>c. c \<in> mp_consumers T \<Longrightarrow> y < g_got \<gamma> c"
  shows "events_upto (mp_consumers T) y \<subseteq> Collect (mp_settled T \<gamma>)"
proof
  fix e assume e: "e \<in> events_upto (mp_consumers T) y"
  obtain c where c: "c \<in> mp_consumers T" using wf by (auto simp: mp_well_arranged_def)
  have "p < 0 \<or> mp_pubd T \<gamma> p" if "p \<le> y" for p
    using data c got [OF c] that by (cases "p < 0") (simp_all add: mp_data_def)
  then show "e \<in> Collect (mp_settled T \<gamma>)" using e got by (cases e) (auto intro: le_less_trans)
qed

lemma mp_room_settled:
  assumes "mp_well_arranged T" "mp_data T (\<sigma>, \<gamma>)" "mp_room T \<gamma> p"
  shows "events_upto (mp_consumers T) (p - 2 ^ mp_bits T) \<subseteq> Collect (mp_settled T \<gamma>)"
proof (rule mp_upto_settled [OF assms(1,2)])
  fix c assume "c \<in> mp_consumers T"
  then have "p < g_got \<gamma> c + 2 ^ mp_bits T" using assms(3) by (simp add: mp_room_def)
  then show "p - 2 ^ mp_bits T < g_got \<gamma> c" by simp
qed

lemma mp_promise_settled:
  assumes "mp_well_arranged T" "mp_data T (\<sigma>, \<gamma>)" "mp_pubd T \<gamma> p"
  shows "mp_promise T p \<subseteq> Collect (mp_settled T \<gamma>)"
  using mp_room_settled [OF assms(1,2), of p] mp_pubd_less(2) [OF assms(2,3)] assms(3)
  by (auto simp: mp_promise_def mp_room_def)

lemma mp_known_settled:
  assumes data: "mp_data T (\<sigma>, \<gamma>)" and pub: "\<And>p. 0 \<le> p \<Longrightarrow> p \<le> q \<Longrightarrow> mp_pubd T \<gamma> p"
    and got: "\<And>d. d \<in> U \<Longrightarrow> d \<in> mp_consumers T \<Longrightarrow> q < g_got \<gamma> d"
  shows "mp_known T U q \<subseteq> Collect (mp_settled T \<gamma>)"
proof
  have N: "(0 :: int) < 2 ^ mp_bits T" by simp
  have lag: "p < g_got \<gamma> d" if "d \<in> mp_consumers T" "p \<le> q - 2 ^ mp_bits T" for d p
  proof (cases "0 \<le> q")
    case True
    then show ?thesis using mp_pubd_less(2) [OF data pub that(1), of q] that(2) by simp
  next
    case False
    then show ?thesis using mp_got_le_next(1) [OF data that(1)] that(2) N by linarith
  qed
  have "p < 0 \<or> mp_pubd T \<gamma> p" if "p \<le> q" for p using pub that by (cases "p < 0") simp_all
  moreover fix e assume "e \<in> mp_known T U q"
  ultimately show "e \<in> Collect (mp_settled T \<gamma>)"
    using lag got by (cases e) (auto intro: le_less_trans)
qed

lemma mp_stage_behind:
  assumes "mp_data T (\<sigma>, \<gamma>)" "d \<in> mp_stage T c"
  shows "g_got \<gamma> c \<le> g_got \<gamma> d"
  using assms by (auto simp: mp_stage_def intro: mp_gate_behind)

lemma mp_given_settled:
  assumes data: "mp_data T (\<sigma>, \<gamma>)" and c: "c \<in> mp_consumers T" "q < g_got \<gamma> c"
  shows "mp_known T (mp_stage T c) q \<subseteq> Collect (mp_settled T \<gamma>)"
  using data c mp_stage_behind [OF data, of _ c]
  by (intro mp_known_settled [OF data]) (auto simp: mp_data_def intro: less_le_trans)

section \<open>The history goes on\<close>

lemma mp_entry_mono:
  assumes wf: "mp_well_arranged T" and entry: "mp_entry T \<gamma> e x" and data: "mp_data T (\<sigma>, \<gamma>)"
    and ev: "mp_evolves T u (\<sigma>, \<gamma>) (\<sigma>', \<gamma>')"
    and more: "goes_on (Collect (mp_settled T \<gamma>)) (g_events \<gamma>) (g_events \<gamma>')"
  shows "mp_entry T \<gamma>' e x"
proof -
  note mono = mp_evolves_mono [OF ev, unfolded snd_conv]
  have less: "p < g_next \<gamma>'" if "p < g_next \<gamma>" for p using that mono(1) by simp
  have got: "p < g_got \<gamma>' c" if "p < g_got \<gamma> c" for p c using that mono(5) by (rule less_le_trans)
  show ?thesis
  proof (cases e)
    case (Wrote p)
    then show ?thesis using entry mono(2,7) less by auto
  next
    case (Published p)
    then have "mp_promise T p \<subseteq> Collect (mp_settled T \<gamma>)" using entry by (intro mp_promise_settled [OF wf data]) simp
    then show ?thesis using Published entry mono(2,6) less goes_on_knows [OF more] by auto
  next
    case (Read_By c p)
    then show ?thesis using entry mono(6) by simp
  next
    case (Given_By c p)
    then have "mp_known T (mp_stage T c) p \<subseteq> Collect (mp_settled T \<gamma>)"
      using entry by (intro mp_given_settled [OF data]) auto
    then show ?thesis using Given_By entry got goes_on_knows [OF more] by auto
  next
    case (Taken p)
    then show ?thesis using entry mono(2) less by auto
  qed
qed

lemma mp_entry_at:
  assumes "mp_inv T (\<sigma>, \<gamma>)" "n < length (g_events \<gamma>)"
  shows "mp_entry T \<gamma> (g_events \<gamma> ! n) (history (g_hist \<gamma>) ! n)"
  using assms by (auto simp: mp_inv_def mp_history_def list_all2_conv_all_nth)

lemma mp_events_length: "mp_inv T (\<sigma>, \<gamma>) \<Longrightarrow> length (g_events \<gamma>) = length (history (g_hist \<gamma>))"
  by (auto simp: mp_inv_def mp_history_def list_all2_lengthD)

text \<open>A thread knows what it has done.\<close>

lemma mp_entry_actor: "mp_entry T \<gamma> e x \<Longrightarrow> actor x = mp_doer \<gamma> e"
  by (cases e) auto

lemma mp_own:
  assumes "mp_inv T (\<sigma>, \<gamma>)" "n < length (g_events \<gamma>)" "mp_doer \<gamma> (g_events \<gamma> ! n) = t"
  shows "n \<in> seen (g_hist \<gamma>) t"
  using mp_entry_actor [OF mp_entry_at [OF assms(1,2)]] assms mp_events_length [OF assms(1)]
  by (auto simp: mp_inv_def coherent_def)

text \<open>One more access that is an event.\<close>

lemma mp_step:
  assumes wf: "mp_well_arranged T" and inv: "mp_inv T (\<sigma>, \<gamma>)"
    and data: "mp_data T (\<sigma>', \<gamma>1)" and ev: "\<And>u. u \<noteq> t \<Longrightarrow> mp_evolves T u (\<sigma>, \<gamma>) (\<sigma>', \<gamma>1)"
    and \<gamma>': "\<gamma>' = \<gamma>1\<lparr>g_hist := record_access t x \<omega>, g_events := g_events \<gamma> @ [e]\<rparr>"
    and sees: "only_sees t (g_hist \<gamma>) \<omega>"
    and new: "\<not> mp_settled T \<gamma> e" and entry: "mp_entry T \<gamma>' e x" and x: "actor x = t"
    and mem: "mem \<sigma>' = (\<lambda>a. if stores_to a x then value_stored x else mem \<sigma> a)"
  shows "guar (mp_protocol T) t (\<sigma>, \<gamma>) (\<sigma>', \<gamma>')"
proof -
  have data0: "mp_data T (\<sigma>, \<gamma>)" and hi: "mp_history T \<gamma>" using inv by (simp_all add: mp_inv_def)
  have more: "goes_on (Collect (mp_settled T \<gamma>)) (g_events \<gamma>) (g_events \<gamma>')"
    using new by (simp add: \<gamma>' goes_on_snoc)
  have ev': "mp_evolves T u (\<sigma>, \<gamma>) (\<sigma>', \<gamma>')" if "u \<noteq> t" for u using ev [OF that] by (simp add: \<gamma>')
  have b: "base \<omega> = base (g_hist \<gamma>)" "history \<omega> = history (g_hist \<gamma>)" using sees by (simp_all add: only_sees_def)
  have "mp_entry T \<gamma>' e' x'" if "mp_entry T \<gamma> e' x'" for e' x'
    by (rule mp_entry_mono [OF wf that data0 ev' [of "Suc t"] more]) simp
  then have "list_all2 (mp_entry T \<gamma>') (g_events \<gamma>) (history (g_hist \<gamma>))"
    using hi by (auto simp: mp_history_def elim: list_all2_mono)
  then have "list_all2 (mp_entry T \<gamma>') (g_events \<gamma>') (history (g_hist \<gamma>'))"
    using entry by (simp add: \<gamma>' b list_all2_appendI)
  then have "mp_history T \<gamma>'" using hi by (simp add: mp_history_def \<gamma>' b)
  moreover have "coherent \<sigma> \<omega>"
    by (rule coherent_only_sees [OF _ sees refl]) (use inv in \<open>simp add: mp_inv_def\<close>)
  then have "coherent \<sigma>' (record_access t x \<omega>)" using x mem by (rule coherent_record)
  then have "coherent \<sigma>' (g_hist \<gamma>')" by (simp add: \<gamma>')
  moreover have "mp_data T (\<sigma>', \<gamma>')" using data by (simp add: \<gamma>')
  ultimately have inv': "mp_inv T (\<sigma>', \<gamma>')" by (simp add: mp_inv_def)
  have "seen (g_hist \<gamma>') u = seen (g_hist \<gamma>) u" if "u \<noteq> t" for u
    using that sees by (simp add: \<gamma>' only_sees_def)
  then show ?thesis using inv' ev' more by (simp add: mp_rely_def)
qed

section \<open>The loads\<close>

lemma mp_entry_position: "mp_entry T \<gamma> e x \<Longrightarrow> 0 \<le> position e"
  by (cases e) auto

lemma mp_knows_nothing:
  assumes "mp_inv T (\<sigma>, \<gamma>)" "\<And>e. e \<in> E \<Longrightarrow> position e < 0"
  shows "knows (g_events \<gamma>) V E"
  unfolding knows_def
proof (intro allI impI)
  fix n assume n: "n < length (g_events \<gamma>)" "g_events \<gamma> ! n \<in> E"
  then show "n \<in> V" using mp_entry_position [OF mp_entry_at [OF assms(1) n(1)]] assms(2) by force
qed

lemma mp_nothing_known:
  assumes "mp_inv T (\<sigma>, \<gamma>)" "p < 0"
  shows "knows (g_events \<gamma>) V (mp_known T U p)" and "knows (g_events \<gamma>) V (mp_promise T p)"
proof -
  have "(0 :: int) < 2 ^ mp_bits T" by simp
  then have q: "q < 0" if "q \<le> p - 2 ^ mp_bits T" for q using that assms(2) by linarith
  have "position e < 0" if "e \<in> mp_known T U p" for e using that q assms(2) by (cases e) auto
  with assms(1) show "knows (g_events \<gamma>) V (mp_known T U p)" by (rule mp_knows_nothing)
  have "position e < 0" if "e \<in> mp_promise T p" for e using that q assms(2) by (cases e) auto
  with assms(1) show "knows (g_events \<gamma>) V (mp_promise T p)" by (rule mp_knows_nothing)
qed

text \<open>
  What thread \<open>t\<close> has acquired when it has loaded the value \<open>v\<close> from an atomic: the position that
  an entry held has been published, the progress that a barrier showed has been made, and the
  thread knows what was passed on with them.
\<close>

definition mp_seen :: "'d multi_arrangement \<Rightarrow> nat \<Rightarrow> addr \<Rightarrow> sequence_t \<Rightarrow> claims \<Rightarrow> bool" where
  "mp_seen T t a v \<gamma> \<longleftrightarrow> (\<forall>i < 2 ^ mp_bits T. a = Elem (mp_entries T) i \<longrightarrow>
     (\<exists>x. v = seq_at x \<and> x \<le> g_ent \<gamma> i \<and> mp_slot T x = i \<and> - (2 ^ mp_bits T) \<le> x \<and>
        knows (g_events \<gamma>) (seen (g_hist \<gamma>) t) (mp_promise T x))) \<and>
     (\<forall>c \<in> mp_consumers T. a = mp_barrier T c \<longrightarrow>
       (\<exists>x. v = seq_at x \<and> - 1 \<le> x \<and> x < g_got \<gamma> c \<and>
          knows (g_events \<gamma>) (seen (g_hist \<gamma>) t) (mp_known T (mp_stage T c) x)))"

definition mp_loaded :: "'d multi_arrangement \<Rightarrow> nat \<Rightarrow> memory_order \<Rightarrow> addr \<Rightarrow> sequence_t \<Rightarrow>
    'd mach \<times> claims \<Rightarrow> bool" where
  "mp_loaded T t ord a v s \<longleftrightarrow> mp_inv T s \<and> (ord = Acquire \<longrightarrow> mp_seen T t a v (snd s))"

lemma mp_seen_stable:
  assumes wf: "mp_well_arranged T" and seen: "mp_seen T t a v \<gamma>" and data: "mp_data T (\<sigma>, \<gamma>)"
    and mono: "\<And>i. g_ent \<gamma> i \<le> g_ent \<gamma>' i" "\<And>c. g_got \<gamma> c \<le> g_got \<gamma>' c"
    and more: "goes_on (Collect (mp_settled T \<gamma>)) (g_events \<gamma>) (g_events \<gamma>')"
    and sees: "seen (g_hist \<gamma>) t \<subseteq> seen (g_hist \<gamma>') t"
  shows "mp_seen T t a v \<gamma>'"
proof -
  have known: "knows (g_events \<gamma>') (seen (g_hist \<gamma>') t) E"
    if "knows (g_events \<gamma>) (seen (g_hist \<gamma>) t) E" "E \<subseteq> Collect (mp_settled T \<gamma>)" for E
    using goes_on_knows [OF more that] sees by (rule knows_view)
  show ?thesis
    unfolding mp_seen_def
  proof (intro conjI allI ballI impI)
    fix i :: nat assume "i < 2 ^ mp_bits T" "a = Elem (mp_entries T) i"
    then obtain x where x: "v = seq_at x" "x \<le> g_ent \<gamma> i" "mp_slot T x = i" "- (2 ^ mp_bits T) \<le> x"
      "knows (g_events \<gamma>) (seen (g_hist \<gamma>) t) (mp_promise T x)" using seen unfolding mp_seen_def by blast
    then have "mp_promise T x \<subseteq> Collect (mp_settled T \<gamma>)"
      by (intro mp_promise_settled [OF wf data]) (simp add: mp_pubd_def)
    with x known order_trans [OF x(2) mono(1)]
    show "\<exists>x. v = seq_at x \<and> x \<le> g_ent \<gamma>' i \<and> mp_slot T x = i \<and> - (2 ^ mp_bits T) \<le> x \<and>
        knows (g_events \<gamma>') (seen (g_hist \<gamma>') t) (mp_promise T x)" by blast
  next
    fix c assume c: "c \<in> mp_consumers T" "a = mp_barrier T c"
    then obtain x where x: "v = seq_at x" "- 1 \<le> x" "x < g_got \<gamma> c"
      "knows (g_events \<gamma>) (seen (g_hist \<gamma>) t) (mp_known T (mp_stage T c) x)" using seen unfolding mp_seen_def by blast
    then have "mp_known T (mp_stage T c) x \<subseteq> Collect (mp_settled T \<gamma>)" by (intro mp_given_settled [OF data c(1)])
    with x known less_le_trans [OF x(3) mono(2)]
    show "\<exists>x. v = seq_at x \<and> - 1 \<le> x \<and> x < g_got \<gamma>' c \<and>
        knows (g_events \<gamma>') (seen (g_hist \<gamma>') t) (mp_known T (mp_stage T c) x)" by blast
  qed
qed

lemma mp_loaded_stable:
  assumes wf: "mp_well_arranged T"
  shows "mp.stable_waiting T t (mp_loaded T t ord a v)"
proof (rule mp.stable_waitingI)
  fix s s' assume l: "mp_loaded T t ord a v s" and r: "rely (mp_protocol T) t s s'"
  have "mp_seen T t a v (snd s')" if "mp_seen T t a v (snd s)"
    using l r by (intro mp_seen_stable [OF wf that, of "fst s"])
      (simp_all add: mp_loaded_def mp_inv_def mp_rely_def mp_evolves_def)
  with l r show "mp_loaded T t ord a v s'" by (auto simp: mp_loaded_def mp_rely_def)
next
  fix \<sigma> \<gamma> \<sigma>' \<omega>
  assume l: "mp_loaded T t ord a v (\<sigma>, \<gamma>)" and sees: "only_sees t (g_hist \<gamma>) \<omega>"
    and g: "guar (mp_protocol T) t (\<sigma>, \<gamma>) (\<sigma>', \<gamma>\<lparr>g_hist := \<omega>\<rparr>)"
  have "mp_seen T t a v (\<gamma>\<lparr>g_hist := \<omega>\<rparr>)" if "mp_seen T t a v \<gamma>"
    using l sees by (intro mp_seen_stable [OF wf that, of \<sigma>])
      (simp_all add: mp_loaded_def mp_inv_def only_sees_def goes_on_refl)
  moreover have "mp_inv T (\<sigma>', \<gamma>\<lparr>g_hist := \<omega>\<rparr>)" using mp.guar_inv [OF g] l by (simp add: mp_loaded_def)
  ultimately show "mp_loaded T t ord a v (\<sigma>', \<gamma>\<lparr>g_hist := \<omega>\<rparr>)" using l by (auto simp: mp_loaded_def)
qed

text \<open>A load that is visible, and the event of the store that it reads.\<close>

lemma mp_load:
  assumes inv: "mp_inv T (\<sigma>, \<gamma>)" and v: "visible t (g_hist \<gamma>) a j"
  obtains "nth_value (g_hist \<gamma>) a j = base (g_hist \<gamma>) a"
  | n where "n < length (g_events \<gamma>)" "mp_entry T \<gamma> (g_events \<gamma> ! n) (history (g_hist \<gamma>) ! n)"
      "stores_to a (history (g_hist \<gamma>) ! n)" "nth_value (g_hist \<gamma>) a j = value_stored (history (g_hist \<gamma>) ! n)"
      "nth_passed (g_hist \<gamma>) a j = passed_on (history (g_hist \<gamma>) ! n)"
proof (cases "j < length (stores (g_hist \<gamma>) a)")
  case False
  then show thesis by (intro that(1)) (simp add: nth_value_def)
next
  case True
  define n where "n = stores (g_hist \<gamma>) a ! j"
  have n: "n < length (g_events \<gamma>)" "stores_to a (history (g_hist \<gamma>) ! n)"
    using stores_nth [OF True] mp_events_length [OF inv] by (simp_all add: n_def)
  then show thesis using mp_entry_at [OF inv n(1)] True
    by (intro that(2) [of n]) (simp_all add: nth_value_def nth_passed_def n_def)
qed

lemma mp_addresses:
  assumes "mp_well_arranged T"
  shows "Elem (mp_entries T) i \<noteq> mp_counter T" "c \<in> mp_consumers T \<Longrightarrow> mp_barrier T c \<noteq> Elem (mp_entries T) i"
    and "c \<in> mp_consumers T \<Longrightarrow> mp_barrier T c \<noteq> mp_counter T"
    and "c \<in> mp_consumers T \<Longrightarrow> d \<in> mp_consumers T \<Longrightarrow> mp_barrier T d = mp_barrier T c \<Longrightarrow> d = c"
  using assms by (auto simp: mp_well_arranged_def inj_on_eq_iff) metis

lemma mp_seen_entry_now:
  assumes wf: "mp_well_arranged T" and inv: "mp_inv T (\<sigma>, \<gamma>)" and i: "i < 2 ^ mp_bits T" and a: "a = Elem (mp_entries T) i"
    and v: "visible t (g_hist \<gamma>) a j" and sees: "nth_passed (g_hist \<gamma>) a j \<subseteq> V'"
  shows "\<exists>x. nth_value (g_hist \<gamma>) a j = seq_at x \<and> x \<le> g_ent \<gamma> i \<and> mp_slot T x = i \<and> - (2 ^ mp_bits T) \<le> x \<and>
    knows (g_events \<gamma>) V' (mp_promise T x)"
  using inv v
proof (cases rule: mp_load)
  case 1
  have data: "mp_data T (\<sigma>, \<gamma>)" and hi: "mp_history T \<gamma>" using inv by (simp_all add: mp_inv_def)
  define x where "x = int i - 2 ^ mp_bits T"
  have x: "- (2 ^ mp_bits T) \<le> x" "x < 0" using i by (simp_all add: x_def)
  have slot: "mp_slot T x = i" using i by (simp add: mp_slot_def x_def)
  have "mp_slot T (g_ent \<gamma> i) = i" "- (2 ^ mp_bits T) \<le> g_ent \<gamma> i" using data i by (simp_all add: mp_data_def)
  then have "x \<le> g_ent \<gamma> i" using slot x(2) by (intro mp_slot_before [of T x]) auto
  moreover have "nth_value (g_hist \<gamma>) a j = seq_at x" using 1 hi i by (simp add: a x_def mp_history_def)
  ultimately show ?thesis using slot x mp_nothing_known(2) [OF inv x(2)] by blast
next
  case (2 n)
  note elem = mp_addresses [OF wf]
  obtain p V where p: "g_events \<gamma> ! n = Published p" "mp_slot T p = i" "0 \<le> p" "mp_pubd T \<gamma> p"
    and e: "history (g_hist \<gamma>) ! n = Stored (g_own \<gamma> p) (Elem (mp_entries T) i) (seq_at p) False V"
    "knows (g_events \<gamma>) V (mp_promise T p)"
    using 2 elem(1,2) elem(1) [symmetric] by (cases "g_events \<gamma> ! n") (auto simp: a)
  have "knows (g_events \<gamma>) V' (mp_promise T p)"
    using e(2) by (rule knows_view) (use sees 2(5) e(1) in simp)
  moreover have "- (2 ^ mp_bits T) \<le> p" using p(3) by (rule order_trans [rotated]) simp
  ultimately show ?thesis using p 2(4) e(1) by (intro exI [of _ p]) (simp add: mp_pubd_def)
qed

lemma mp_seen_barrier_now:
  assumes wf: "mp_well_arranged T" and inv: "mp_inv T (\<sigma>, \<gamma>)" and c: "c \<in> mp_consumers T" and a: "a = mp_barrier T c"
    and v: "visible t (g_hist \<gamma>) a j" and sees: "nth_passed (g_hist \<gamma>) a j \<subseteq> V'"
  shows "\<exists>x. nth_value (g_hist \<gamma>) a j = seq_at x \<and> - 1 \<le> x \<and> x < g_got \<gamma> c \<and>
    knows (g_events \<gamma>) V' (mp_known T (mp_stage T c) x)"
  using inv v
proof (cases rule: mp_load)
  case 1
  have data: "mp_data T (\<sigma>, \<gamma>)" and hi: "mp_history T \<gamma>" using inv by (simp_all add: mp_inv_def)
  have "nth_value (g_hist \<gamma>) a j = seq_at (- 1)" using 1 hi c by (simp add: a mp_history_def)
  then show ?thesis
    using mp_got_le_next(1) [OF data c] mp_nothing_known(1) [OF inv, of "- 1"] by (intro exI [of _ "- 1"]) simp
next
  case (2 n)
  note elem = mp_addresses(2,3) [OF wf c] and inj = mp_addresses(4) [OF wf c]
  obtain p V where p: "g_events \<gamma> ! n = Given_By c p" "0 \<le> p" "p < g_got \<gamma> c"
    and e: "history (g_hist \<gamma>) ! n = Stored c (mp_barrier T c) (seq_at p) False V"
    "knows (g_events \<gamma>) V (mp_known T (mp_stage T c) p)"
  proof (cases "g_events \<gamma> ! n")
    case (Given_By d p)
    then have "d = c" using 2(2,3) by (intro inj) (auto simp: a)
    then show thesis using Given_By 2(2) that by auto
  qed (use 2(2,3) elem elem(1) [symmetric] in \<open>auto simp: a\<close>)
  have "knows (g_events \<gamma>) V' (mp_known T (mp_stage T c) p)"
    using e(2) by (rule knows_view) (use sees 2(5) e(1) in simp)
  then show ?thesis using p 2(4) e(1) by (intro exI [of _ p]) simp
qed

lemma mp_seen_now:
  assumes wf: "mp_well_arranged T" and inv: "mp_inv T (\<sigma>, \<gamma>)" and v: "visible t (g_hist \<gamma>) a j"
    and \<gamma>': "\<gamma>' = \<gamma>\<lparr>g_hist := look t Acquire a j (g_hist \<gamma>)\<rparr>"
  shows "mp_seen T t a (nth_value (g_hist \<gamma>) a j) \<gamma>'"
proof -
  have sees: "nth_passed (g_hist \<gamma>) a j \<subseteq> seen (g_hist \<gamma>') t" by (auto simp: \<gamma>' seen_look)
  have sel: "g_ent \<gamma>' = g_ent \<gamma>" "g_got \<gamma>' = g_got \<gamma>" "g_events \<gamma>' = g_events \<gamma>" by (simp_all add: \<gamma>')
  show ?thesis
    unfolding mp_seen_def sel using mp_seen_entry_now [OF wf inv _ _ v sees] mp_seen_barrier_now [OF wf inv _ _ v sees]
    by blast
qed

lemma mp_loaded_now:
  assumes "mp_well_arranged T" "mp_inv T (\<sigma>, \<gamma>)" "visible t (g_hist \<gamma>) a j"
  shows "mp_loaded T t ord a (nth_value (g_hist \<gamma>) a j) (\<sigma>, \<gamma>\<lparr>g_hist := look t ord a j (g_hist \<gamma>)\<rparr>)"
  using mp_seen_now [OF assms refl] mp_inv_sync [OF assms(2) refl refl only_sees_look] by (auto simp: mp_loaded_def)

text \<open>A thread that knows all the stores to an atomic loads the newest, and may store to it.\<close>

lemma mp_newest_known:
  assumes inv: "mp_inv T (\<sigma>, \<gamma>)"
    and known: "\<And>n. n < length (g_events \<gamma>) \<Longrightarrow> mp_entry T \<gamma> (g_events \<gamma> ! n) (history (g_hist \<gamma>) ! n) \<Longrightarrow>
      stores_to a (history (g_hist \<gamma>) ! n) \<Longrightarrow> n \<in> seen (g_hist \<gamma>) t"
  shows "ordered t (Store ord a v :: 'd act) (g_hist \<gamma>)" and "visible t (g_hist \<gamma>) a j \<Longrightarrow> j = 0"
proof -
  have all: "n \<in> seen (g_hist \<gamma>) t" if "n \<in> set (stores (g_hist \<gamma>) a)" for n
  proof -
    have n: "n < length (g_events \<gamma>)" "stores_to a (history (g_hist \<gamma>) ! n)"
      using that mp_events_length [OF inv] by (simp_all add: in_stores)
    show ?thesis using known [OF n(1) mp_entry_at [OF inv n(1)] n(2)] .
  qed
  then show "ordered t (Store ord a v :: 'd act) (g_hist \<gamma>)" by (auto simp: nth_store_def)
  show "j = 0" if v: "visible t (g_hist \<gamma>) a j"
  proof (rule ccontr)
    assume "j \<noteq> 0"
    then have j: "0 < length (stores (g_hist \<gamma>) a)" "stores (g_hist \<gamma>) a ! 0 \<in> set (take j (stores (g_hist \<gamma>) a))"
      using v by (auto simp: visible_def in_set_conv_nth)
    then show False using v all [OF nth_mem] by (auto simp: visible_def)
  qed
qed

end
