(* ===== verification/Multi_Producer_Consumers.thy ===== *)
theory Multi_Producer_Consumers
  imports Multi_Producer_History
begin

text \<open>
  The consumers of a disruptor with several producers, on the weak machine: what a wait for the
  producers or for the consumers upstream tells a consumer, and the safety of its whole loop.
\<close>

section \<open>The consumers\<close>

text \<open>What consumer \<open>c\<close> may read, with the knowledge of what has been done there.\<close>

definition mp_ready :: "'d multi_arrangement \<Rightarrow> nat \<Rightarrow> claims \<Rightarrow> int \<Rightarrow> bool" where
  "mp_ready T c \<gamma> q \<longleftrightarrow> mp_readable T c \<gamma> q \<and>
     knows (g_events \<gamma>) (seen (g_hist \<gamma>) c) (mp_known T (mp_stage T c - {c}) q)"

lemma mp_stage_upstream:
  assumes "d \<in> mp_stage T c" "d \<noteq> c"
  obtains u where "u \<in> mp_upstream T c" "d \<in> mp_stage T u"
  using assms by (auto simp: mp_stage_def mp_downstream_def elim: rtranclE)

lemma mp_readable_pubd: "mp_readable T c \<gamma> q \<Longrightarrow> 0 \<le> p \<Longrightarrow> p \<le> q \<Longrightarrow> mp_pubd T \<gamma> p"
  by (simp add: mp_readable_def)

lemma mp_readable_mono:
  assumes "mp_readable T c \<gamma> q" "g_next \<gamma> \<le> g_next \<gamma>'" "\<And>i. g_ent \<gamma> i \<le> g_ent \<gamma>' i" "\<And>c. g_got \<gamma> c \<le> g_got \<gamma>' c"
  shows "mp_readable T c \<gamma>' q"
  using assms mp_pubd_mono [of T \<gamma> _ \<gamma>'] by (auto simp: mp_readable_def intro: less_le_trans)

lemma mp_ready_settled:
  assumes data: "mp_data T (\<sigma>, \<gamma>)" and r: "mp_readable T c \<gamma> q"
  shows "mp_known T (mp_stage T c - {c}) q \<subseteq> Collect (mp_settled T \<gamma>)"
proof (rule mp_known_settled [OF data mp_readable_pubd [OF r]])
  fix d assume "d \<in> mp_stage T c - {c}"
  then obtain u where u: "u \<in> mp_upstream T c" "d \<in> mp_stage T u" by (blast elim: mp_stage_upstream)
  have "q < g_got \<gamma> u" using r u(1) by (simp add: mp_readable_def)
  then show "q < g_got \<gamma> d" using mp_stage_behind [OF data u(2)] by simp
qed

lemma mp_ready_stable:
  assumes "mp_ready T c \<gamma> q" and "mp_readable T c \<gamma>' q"
    and more: "goes_on E (g_events \<gamma>) (g_events \<gamma>')" and E: "mp_known T (mp_stage T c - {c}) q \<subseteq> E"
    and sees: "seen (g_hist \<gamma>) c \<subseteq> seen (g_hist \<gamma>') c"
  shows "mp_ready T c \<gamma>' q"
  using assms(1,2) knows_view [OF goes_on_knows [OF more _ E] sees] by (simp add: mp_ready_def)

text \<open>With what it has done itself, a consumer knows all up to its own stage.\<close>

lemma mp_ready_known:
  assumes inv: "mp_inv T (\<sigma>, \<gamma>)" and r: "mp_ready T c \<gamma> q"
  shows "knows (g_events \<gamma>) (seen (g_hist \<gamma>) c) (mp_known T (mp_stage T c) q)"
  unfolding knows_def
proof (intro allI impI)
  fix n assume n: "n < length (g_events \<gamma>)" "g_events \<gamma> ! n \<in> mp_known T (mp_stage T c) q"
  show "n \<in> seen (g_hist \<gamma>) c"
  proof (cases "mp_doer \<gamma> (g_events \<gamma> ! n) = c")
    case True
    then show ?thesis by (rule mp_own [OF inv n(1)])
  next
    case False
    then have "g_events \<gamma> ! n \<in> mp_known T (mp_stage T c - {c}) q" using n(2) by (cases "g_events \<gamma> ! n") auto
    then show ?thesis using r n(1) by (auto simp: mp_ready_def dest: knowsD)
  qed
qed

text \<open>The accesses of a consumer are in order.\<close>

lemma mp_read_ordered:
  assumes inv: "mp_inv T (\<sigma>, \<gamma>)" and c: "c \<in> mp_consumers T" and q: "mp_ready T c \<gamma> q" "g_got \<gamma> c \<le> p" "p \<le> q"
  shows "ordered c (Read (mp_array T) (mp_slot T p)) (g_hist \<gamma>)"
  unfolding ordered.simps
proof (intro allI impI)
  fix n u assume n: "n < length (history (g_hist \<gamma>))" "history (g_hist \<gamma>) ! n = Written u (mp_array T) (mp_slot T p)"
  then have n': "n < length (g_events \<gamma>)" using mp_events_length [OF inv] by simp
  with n(2) mp_entry_at [OF inv n'] obtain p' where p': "g_events \<gamma> ! n = Wrote p'" "mp_slot T p' = mp_slot T p"
    "mp_room T \<gamma> p'" by (cases "g_events \<gamma> ! n") auto
  have "p' < g_got \<gamma> c + 2 ^ mp_bits T" using p'(3) c by (simp add: mp_room_def)
  then have "p' \<le> p" using p'(2) q(2) by (intro mp_slot_before [of T]) auto
  then show "n \<in> seen (g_hist \<gamma>) c" using q n' p'(1) by (auto simp: mp_ready_def dest: knowsD)
qed

lemma mp_barrier_ordered:
  assumes wf: "mp_well_arranged T" and inv: "mp_inv T (\<sigma>, \<gamma>)" and c: "c \<in> mp_consumers T"
  shows "ordered c (Store ord (mp_barrier T c) v :: 'd act) (g_hist \<gamma>)"
proof (rule mp_newest_known(1) [OF inv])
  have elem: "Elem (mp_entries T) i \<noteq> mp_barrier T c" "mp_counter T \<noteq> mp_barrier T c" for i
    using wf c by (auto simp: mp_well_arranged_def) metis+
  fix n assume n: "n < length (g_events \<gamma>)" and e: "mp_entry T \<gamma> (g_events \<gamma> ! n) (history (g_hist \<gamma>) ! n)"
    and s: "stores_to (mp_barrier T c) (history (g_hist \<gamma>) ! n)"
  have "mp_doer \<gamma> (g_events \<gamma> ! n) = c"
  proof (cases "g_events \<gamma> ! n")
    case (Given_By d p)
    then show ?thesis using wf c e s by (auto simp: mp_well_arranged_def inj_on_eq_iff)
  qed (use e s elem in auto)
  then show "n \<in> seen (g_hist \<gamma>) c" by (rule mp_own [OF inv n])
qed

text \<open>Reading an item, and giving back what has been read.\<close>

lemma mp_consumer_read:
  assumes wf: "mp_well_arranged T" and c: "c \<in> mp_consumers T" and inv: "mp_inv T (\<sigma>, \<gamma>)"
    and q: "mp_ready T c \<gamma> q" "g_got \<gamma> c \<le> p" "p \<le> q"
    and \<gamma>': "\<gamma>' = \<gamma>\<lparr>g_hist := record_access c (Was_Read c (mp_array T) (mp_slot T p)) (g_hist \<gamma>),
      g_events := g_events \<gamma> @ [Read_By c p]\<rparr>"
  shows "guar (mp_protocol T) c (\<sigma>, \<gamma>) (\<sigma>, \<gamma>')" and "mp_ready T c \<gamma>' q"
proof -
  have data: "mp_data T (\<sigma>, \<gamma>)" and r: "mp_readable T c \<gamma> q" using inv q by (simp_all add: mp_inv_def mp_ready_def)
  have p: "0 \<le> p" "mp_pubd T \<gamma> p" using mp_got_le_next(1) [OF data c] q mp_readable_pubd [OF r] by simp_all
  show "guar (mp_protocol T) c (\<sigma>, \<gamma>) (\<sigma>, \<gamma>')"
  proof (rule mp_step [OF wf inv data _ \<gamma>'])
    show "mp_evolves T u (\<sigma>, \<gamma>) (\<sigma>, \<gamma>)" for u by (simp add: mp_evolves_def mp_mine_def)
  qed (use c p q(2) in \<open>auto simp: \<gamma>' only_sees_def\<close>)
  show "mp_ready T c \<gamma>' q"
    using q(1) _ _ mp_ready_settled [OF data r]
    by (rule mp_ready_stable) (use r q(2) c in \<open>auto simp: \<gamma>' goes_on_snoc\<close>)
qed

lemma mp_consumer_publish:
  assumes wf: "mp_well_arranged T" and c: "c \<in> mp_consumers T" and inv: "mp_inv T (\<sigma>, \<gamma>)"
    and q: "mp_ready T c \<gamma> q" "g_got \<gamma> c \<le> q"
    and \<gamma>': "\<gamma>' = \<gamma>\<lparr>g_got := (g_got \<gamma>)(c := q + 1), g_hist := store c Release (mp_barrier T c) (seq_at q) (g_hist \<gamma>),
      g_events := g_events \<gamma> @ [Given_By c q]\<rparr>"
  shows "guar (mp_protocol T) c (\<sigma>, \<gamma>) (put (mp_barrier T c) (seq_at q) \<sigma>, \<gamma>')" and "mp_ready T c \<gamma>' q"
proof -
  have data: "mp_data T (\<sigma>, \<gamma>)" and r: "mp_readable T c \<gamma> q" using inv q by (simp_all add: mp_inv_def mp_ready_def)
  define V where "V = insert (length (history (g_hist \<gamma>))) (seen (g_hist \<gamma>) c)"
  have q0: "0 \<le> q" using mp_got_le_next(1) [OF data c] q(2) by simp
  have "knows (g_events \<gamma>) V (mp_known T (mp_stage T c) q)"
    using mp_ready_known [OF inv q(1)] by (rule knows_view) (auto simp: V_def)
  then have known: "knows (g_events \<gamma>') V (mp_known T (mp_stage T c) q)"
    by (simp add: \<gamma>' knows_snoc V_def mp_events_length [OF inv])
  note step = mp_consumer_step [OF wf data c r q(2) refl refl]
  show "guar (mp_protocol T) c (\<sigma>, \<gamma>) (put (mp_barrier T c) (seq_at q) \<sigma>, \<gamma>')"
  proof (rule mp_step [OF wf inv step])
    show "\<gamma>' = \<gamma>\<lparr>g_got := (g_got \<gamma>)(c := q + 1)\<rparr>
        \<lparr>g_hist := record_access c (Stored c (mp_barrier T c) (seq_at q) False V) (g_hist \<gamma>),
         g_events := g_events \<gamma> @ [Given_By c q]\<rparr>" by (simp add: \<gamma>' store_def V_def)
    show "mp_entry T \<gamma>' (Given_By c q) (Stored c (mp_barrier T c) (seq_at q) False V)"
      using known c q0 by (simp add: \<gamma>')
  qed (use c q(2) in \<open>auto simp: only_sees_def\<close>)
  have "mp_readable T c \<gamma>' q" using r by (rule mp_readable_mono) (use q(2) in \<open>auto simp: \<gamma>'\<close>)
  with q(1) show "mp_ready T c \<gamma>' q"
    by (rule mp_ready_stable [OF _ _ _ mp_ready_settled [OF data r]])
      (use q(2) c in \<open>auto simp: \<gamma>' goes_on_snoc store_def\<close>)
qed

lemma mp_reader_read:
  fixes T :: "'d multi_arrangement"
  assumes wf: "mp_well_arranged T" and c: "c \<in> mp_consumers T" and inv: "mp_inv T (\<sigma>, \<gamma>)"
    and q: "mp_ready T c \<gamma> q" and p: "g_got \<gamma> c \<le> p" "p \<le> q"
  shows "ordered c (Read (mp_array T) (mp_slot T p) :: 'd act) (g_hist \<gamma>) \<and>
      mp_okay T c (Read (mp_array T) (mp_slot T p)) (\<sigma>, \<gamma>) \<and>
      cells \<sigma> (mp_array T) (mp_slot T p) = mp_item T (g_idx \<gamma> p) \<and>
      (\<exists>\<gamma>'. g_hist \<gamma>' = record_access c (Was_Read c (mp_array T) (mp_slot T p)) (g_hist \<gamma>) \<and>
        guar (mp_protocol T) c (\<sigma>, \<gamma>) (\<sigma>, \<gamma>') \<and> g_got \<gamma>' c = g_got \<gamma> c \<and> mp_ready T c \<gamma>' q \<and>
        (\<lambda>p. mp_item T (g_idx \<gamma>' p)) = (\<lambda>p. mp_item T (g_idx \<gamma> p)))"
proof -
  have data: "mp_data T (\<sigma>, \<gamma>)" and r: "mp_readable T c \<gamma> q"
    using inv q by (simp_all add: mp_inv_def mp_ready_def)
  have "mp_pubd T \<gamma> p" using mp_readable_pubd [OF r _ p(2)] p mp_got_le_next(1) [OF data c] by simp
  then have "mp_okay T c (Read (mp_array T) (mp_slot T p)) (\<sigma>, \<gamma>)"
    "cells \<sigma> (mp_array T) (mp_slot T p) = mp_item T (g_idx \<gamma> p)"
    using data c p by (auto simp: mp_data_def)
  moreover define \<gamma>' where "\<gamma>' = \<gamma>\<lparr>g_hist := record_access c (Was_Read c (mp_array T) (mp_slot T p)) (g_hist \<gamma>),
    g_events := g_events \<gamma> @ [Read_By c p]\<rparr>"
  moreover have "g_hist \<gamma>' = record_access c (Was_Read c (mp_array T) (mp_slot T p)) (g_hist \<gamma>)"
    "g_got \<gamma>' c = g_got \<gamma> c" "g_idx \<gamma>' = g_idx \<gamma>" by (simp_all add: \<gamma>'_def)
  ultimately show ?thesis
    using mp_read_ordered [OF inv c q p] mp_consumer_read [OF wf c inv q p \<gamma>'_def]
    by (intro conjI exI [of _ \<gamma>']) (assumption | simp only:)+
qed

lemma mp_reader_publish:
  fixes T :: "'d multi_arrangement"
  assumes wf: "mp_well_arranged T" and c: "c \<in> mp_consumers T" and inv: "mp_inv T (\<sigma>, \<gamma>)"
    and q: "mp_ready T c \<gamma> q" and g: "g_got \<gamma> c \<le> q"
  shows "ordered c (Store Release (mp_barrier T c) (seq_at q) :: 'd act) (g_hist \<gamma>) \<and>
      mp_okay T c (Store Release (mp_barrier T c) (seq_at q)) (\<sigma>, \<gamma>) \<and>
      (\<exists>\<gamma>'. g_hist \<gamma>' = store c Release (mp_barrier T c) (seq_at q) (g_hist \<gamma>) \<and>
        guar (mp_protocol T) c (\<sigma>, \<gamma>) (put (mp_barrier T c) (seq_at q) \<sigma>, \<gamma>') \<and>
        g_got \<gamma>' c = q + 1 \<and> mp_ready T c \<gamma>' q \<and>
        (\<lambda>p. mp_item T (g_idx \<gamma>' p)) = (\<lambda>p. mp_item T (g_idx \<gamma> p)))"
proof -
  have data: "mp_data T (\<sigma>, \<gamma>)" using inv by (simp add: mp_inv_def)
  have "mem \<sigma> (mp_barrier T c) = seq_at (g_got \<gamma> c - 1)" "0 \<le> g_got \<gamma> c" "q < g_next \<gamma>"
    using data c q by (simp_all add: mp_data_def mp_ready_def mp_readable_def)
  moreover from this have "seq_at q = seq_at (g_got \<gamma> c - 1) \<longleftrightarrow> q = g_got \<gamma> c - 1"
    using g mp_next_less [OF wf data] by (intro seq_at_inject) simp
  ultimately have ok: "mp_okay T c (Store Release (mp_barrier T c) (seq_at q)) (\<sigma>, \<gamma>)" using c g by simp
  define \<gamma>' where "\<gamma>' = \<gamma>\<lparr>g_got := (g_got \<gamma>)(c := q + 1),
    g_hist := store c Release (mp_barrier T c) (seq_at q) (g_hist \<gamma>), g_events := g_events \<gamma> @ [Given_By c q]\<rparr>"
  have "g_hist \<gamma>' = store c Release (mp_barrier T c) (seq_at q) (g_hist \<gamma>)" "g_got \<gamma>' c = q + 1" "g_idx \<gamma>' = g_idx \<gamma>"
    by (simp_all add: \<gamma>'_def)
  with ok mp_barrier_ordered [OF wf inv c] mp_consumer_publish [OF wf c inv q g \<gamma>'_def] show ?thesis
    by (intro conjI exI [of _ \<gamma>']) (assumption | simp only:)+
qed

lemma mp_reader:
  fixes T :: "'d multi_arrangement"
  assumes wf: "mp_well_arranged T" and c: "c \<in> mp_consumers T" and W: "wait_strategy_model W"
    and buffer: "rb_mask buffer = 2 ^ mp_bits T - 1" "rb_data buffer = mp_array T"
    and barrier: "sb_waitStrategy barrier = W" "sb_lastPublished barrier = mp_barrier T c"
  shows "reader (mp_protocol T) g_hist (\<lambda>\<omega> \<gamma>. \<gamma>\<lparr>g_hist := \<omega>\<rparr>) W c buffer (mp_bits T) barrier (mp_total T)
    (\<lambda>\<gamma>. g_got \<gamma> c) (mp_ready T c) (\<lambda>\<gamma> p. mp_item T (g_idx \<gamma> p))"
proof (intro reader.intro reader_axioms.intro mp.weak_protocol_axioms W)
  show "rb_mask buffer = 2 ^ mp_bits T - 1" "sb_waitStrategy barrier = W" by fact+
  show "mp_bits T < 64" "mp_total T < 2 ^ 64" using wf by (auto simp: mp_well_arranged_def)
  fix s s' :: "'d mach \<times> claims" and q p
  show "g_got (snd s') c = g_got (snd s) c" if "rely (mp_protocol T) c s s'"
    using that by (simp add: mp_rely_def mp_evolves_def)
  show "mp_ready T c (snd s') q"
    if r: "rely (mp_protocol T) c s s'" and i: "invar (mp_protocol T) s" "mp_ready T c (snd s) q"
  proof -
    have data: "mp_data T (fst s, snd s)" and q: "mp_readable T c (snd s) q" using i by (simp_all add: mp_inv_def mp_ready_def)
    have q': "mp_readable T c (snd s') q"
      using q by (rule mp_readable_mono) (use r in \<open>simp_all add: mp_rely_def mp_evolves_def\<close>)
    show ?thesis
      by (rule mp_ready_stable [OF i(2) q' _ mp_ready_settled [OF data q]]) (use r in \<open>simp_all add: mp_rely_def\<close>)
  qed
  show "mp_item T (g_idx (snd s') p) = (mp_item T (g_idx (snd s) p))"
    if "rely (mp_protocol T) c s s'" "mp_ready T c (snd s) q" "p \<le> q"
    using that by (simp add: mp_rely_def mp_evolves_def mp_ready_def mp_readable_def)
  show "q < mp_total T" if "invar (mp_protocol T) s" "mp_ready T c (snd s) q"
    using that mp_next_bound(1) [OF wf, of "snd s"] by (cases s) (auto simp: mp_inv_def mp_data_def mp_ready_def mp_readable_def)
  show "0 \<le> g_got (snd s) c" if "invar (mp_protocol T) s"
    using that c mp_got_le_next(1) [of T "fst s" "snd s" c] by (simp add: mp_inv_def)
next
  fix \<gamma> :: claims and \<omega> q assume "only_sees c (g_hist \<gamma>) \<omega>"
  then have sees: "seen (g_hist \<gamma>) c \<subseteq> seen \<omega> c" by (simp add: only_sees_def)
  show "g_got (\<gamma>\<lparr>g_hist := \<omega>\<rparr>) c = g_got \<gamma> c \<and>
      (\<lambda>p. mp_item T (g_idx (\<gamma>\<lparr>g_hist := \<omega>\<rparr>) p)) = (\<lambda>p. mp_item T (g_idx \<gamma> p)) \<and>
      (mp_ready T c \<gamma> q \<longrightarrow> mp_ready T c (\<gamma>\<lparr>g_hist := \<omega>\<rparr>) q)"
    using knows_view [OF _ sees] by (simp add: mp_ready_def)
next
  fix \<sigma> \<gamma> q p
  assume i: "invar (mp_protocol T) (\<sigma>, \<gamma>)" and q: "mp_ready T c \<gamma> q"
  have inv: "mp_inv T (\<sigma>, \<gamma>)" using i by simp
  show "ordered c (Read (rb_data buffer) (nat (p mod 2 ^ mp_bits T)) :: 'd act) (g_hist \<gamma>) \<and>
      okay (mp_protocol T) c (Read (rb_data buffer) (nat (p mod 2 ^ mp_bits T))) (\<sigma>, \<gamma>) \<and>
      cells \<sigma> (rb_data buffer) (nat (p mod 2 ^ mp_bits T)) = mp_item T (g_idx \<gamma> p) \<and>
      (\<exists>\<gamma>'. g_hist \<gamma>' = record_access c (Was_Read c (rb_data buffer) (nat (p mod 2 ^ mp_bits T))) (g_hist \<gamma>) \<and>
        guar (mp_protocol T) c (\<sigma>, \<gamma>) (\<sigma>, \<gamma>') \<and> g_got \<gamma>' c = g_got \<gamma> c \<and> mp_ready T c \<gamma>' q \<and>
        (\<lambda>p. mp_item T (g_idx \<gamma>' p)) = (\<lambda>p. mp_item T (g_idx \<gamma> p)))"
    if p: "g_got \<gamma> c \<le> p" "p \<le> q"
    using mp_reader_read [OF wf c inv q p] unfolding buffer(2) mp_protocol_select(2) mp_slot_def [symmetric] .
  show "ordered c (Store Release (sb_lastPublished barrier) (seq_at q) :: 'd act) (g_hist \<gamma>) \<and>
      okay (mp_protocol T) c (Store Release (sb_lastPublished barrier) (seq_at q)) (\<sigma>, \<gamma>) \<and>
      (\<exists>\<gamma>'. g_hist \<gamma>' = store c Release (sb_lastPublished barrier) (seq_at q) (g_hist \<gamma>) \<and>
        guar (mp_protocol T) c (\<sigma>, \<gamma>) (put (sb_lastPublished barrier) (seq_at q) \<sigma>, \<gamma>') \<and>
        g_got \<gamma>' c = q + 1 \<and> mp_ready T c \<gamma>' q \<and>
        (\<lambda>p. mp_item T (g_idx \<gamma>' p)) = (\<lambda>p. mp_item T (g_idx \<gamma> p)))"
    if g: "g_got \<gamma> c \<le> q"
    using mp_reader_publish [OF wf c inv q g] unfolding barrier(2) mp_protocol_select(2) .
qed

text \<open>The members of the claim strategy.\<close>

definition mp_strategy :: "'d multi_arrangement \<Rightarrow> 'd wait_strategy \<Rightarrow> 'd multi_claim \<Rightarrow> bool" where
  "mp_strategy T W cs \<longleftrightarrow> mt_indexMask cs = 2 ^ mp_bits T - 1 \<and> mt_bufferSize cs = 2 ^ mp_bits T \<and>
     mt_waitStrategy cs = W \<and> mt_published cs = mp_entries T \<and> mt_nextClaimable cs = mp_counter T \<and>
     sbg_waitStrategy (mt_claimBarrier cs) = W \<and> sbg_sequences (mt_claimBarrier cs) \<noteq> [] \<and>
     set (sbg_sequences (mt_claimBarrier cs)) = mp_barrier T ` mp_gates T"

lemma mp_entry_slot:
  assumes "mp_strategy T W cs" "mp_bits T < 64"
  shows "mt_entry cs (seq_at p) = Elem (mp_entries T) (mp_slot T p)"
  using assms seq_at_and_mask [OF refl assms(2)] by (simp add: mt_entry_def mp_strategy_def mp_slot_def)

lemma mp_entry_loaded:
  assumes wf: "mp_well_arranged T" and c: "c \<in> mp_consumers T" and data: "mp_data T (\<sigma>, \<gamma>)"
    and cs: "mp_strategy T W cs" and l: "mp_loaded T c Acquire (mt_entry cs (seq_at p)) v (\<sigma>, \<gamma>)"
  obtains x where "v = seq_at x" "x \<le> g_ent \<gamma> (mp_slot T p)" "mp_slot T x = mp_slot T p"
    "- (2 ^ mp_bits T) \<le> x" "x < g_got \<gamma> c + 2 ^ mp_bits T"
    "knows (g_events \<gamma>) (seen (g_hist \<gamma>) c) (mp_promise T x)"
proof -
  have "mp_seen T c (Elem (mp_entries T) (mp_slot T p)) v \<gamma>"
    using l by (simp add: mp_loaded_def mp_entry_slot [OF cs mp_bits_less(1) [OF wf]])
  then obtain x where x: "v = seq_at x" "x \<le> g_ent \<gamma> (mp_slot T p)" "mp_slot T x = mp_slot T p"
    "- (2 ^ mp_bits T) \<le> x" "knows (g_events \<gamma>) (seen (g_hist \<gamma>) c) (mp_promise T x)"
    using mp_slot_less [of T p] unfolding mp_seen_def by blast
  moreover have "g_ent \<gamma> (mp_slot T p) < g_got \<gamma> c + 2 ^ mp_bits T"
    using data c mp_slot_less [of T p] by (auto simp: mp_data_def)
  ultimately show thesis by (intro that [of x]) simp_all
qed

text \<open>A position is published, and the consumer knows what the producer promised with it.\<close>

abbreviation mp_promised :: "'d multi_arrangement \<Rightarrow> claims \<Rightarrow> nat \<Rightarrow> int \<Rightarrow> bool" where
  "mp_promised T \<gamma> c p \<equiv> mp_pubd T \<gamma> p \<and> knows (g_events \<gamma>) (seen (g_hist \<gamma>) c) (mp_promise T p)"

lemma mp_promised_first:
  assumes wf: "mp_well_arranged T" and c: "c \<in> mp_consumers T" and data: "mp_data T (\<sigma>, \<gamma>)"
    and cs: "mp_strategy T W cs" and l: "mp_loaded T c Acquire (mt_entry cs (seq_at (g_got \<gamma> c))) v (\<sigma>, \<gamma>)"
    and v: "0 \<le> difference v (seq_at (g_got \<gamma> c))"
  shows "mp_promised T \<gamma> c (g_got \<gamma> c)"
proof -
  obtain x where x: "v = seq_at x" "x \<le> g_ent \<gamma> (mp_slot T (g_got \<gamma> c))" "mp_slot T x = mp_slot T (g_got \<gamma> c)"
    "- (2 ^ mp_bits T) \<le> x" "x < g_got \<gamma> c + 2 ^ mp_bits T"
    "knows (g_events \<gamma>) (seen (g_hist \<gamma>) c) (mp_promise T x)"
    by (rule mp_entry_loaded [OF wf c data cs l])
  have "difference v (seq_at (g_got \<gamma> c)) = x - g_got \<gamma> c"
    unfolding x(1) using x(4,5) mp_got_le_next [OF data c] mp_bits_less [OF wf] mp_next_less [OF wf data]
    by (intro difference_seq_at) auto
  then have "x = g_got \<gamma> c" using v x(3,5) by (intro mp_slot_eq [of T]) auto
  then show ?thesis using x(2,6) by (simp add: mp_pubd_def)
qed

lemma mp_promised_entry:
  assumes wf: "mp_well_arranged T" and c: "c \<in> mp_consumers T" and data: "mp_data T (\<sigma>, \<gamma>)"
    and cs: "mp_strategy T W cs" and l: "mp_loaded T c Acquire (mt_entry cs (seq_at p)) (seq_at p) (\<sigma>, \<gamma>)"
    and p: "0 \<le> p" "p < 4611686018427387904"
  shows "mp_promised T \<gamma> c p"
proof -
  obtain x where x: "seq_at p = seq_at x" "x \<le> g_ent \<gamma> (mp_slot T p)"
    "- (2 ^ mp_bits T) \<le> x" "x < g_got \<gamma> c + 2 ^ mp_bits T" "knows (g_events \<gamma>) (seen (g_hist \<gamma>) c) (mp_promise T x)"
    by (rule mp_entry_loaded [OF wf c data cs l])
  have "p = x"
    using x(1) by (rule seq_at_inject [THEN iffD1, rotated])
      (use x(3,4) p mp_got_le_next [OF data c] mp_bits_less [OF wf] mp_next_less [OF wf data] in auto)
  then show ?thesis using x(2,5) by (simp add: mp_pubd_def)
qed

text \<open>With what it knew of the positions before \<open>g\<close>, it knows all up to \<open>q\<close>.\<close>

lemma mp_known_upto:
  assumes "knows es S (mp_known T {} (g - 1))" and "\<And>p. g \<le> p \<Longrightarrow> p \<le> q \<Longrightarrow> knows es S (mp_promise T p)"
  shows "knows es S (mp_known T {} q)"
  unfolding knows_def
proof (intro allI impI)
  fix n assume n: "n < length es" and e: "es ! n \<in> mp_known T {} q"
  consider p where "es ! n \<in> mp_promise T p" "g \<le> p" "p \<le> q" | "es ! n \<in> mp_known T {} (g - 1)"
    using e by (cases "es ! n") (fastforce simp: not_le [symmetric])+
  then show "n \<in> S" using assms n by cases (blast dest: knowsD)+
qed

lemma mp_ready_seen:
  assumes wf: "mp_well_arranged T" and c: "c \<in> mp_consumers T" and inv: "mp_inv T (\<sigma>, \<gamma>)"
    and cs: "mp_strategy T W cs" and W: "wait_strategy_model W" and up: "mp_upstream T c = {}"
    and g: "mp_ready T c \<gamma> (g - 1)" "g_got \<gamma> c = g"
    and r: "returns (mt_wait_until_published n cs (seq_at g) (seq_at g - 1)) l r"
    and seen: "\<And>a v. (Load Acquire a, RSeq v) \<in> set l \<Longrightarrow> mp_loaded T c Acquire a v (\<sigma>, \<gamma>)"
  shows "\<exists>q. r = seq_at q \<and> g \<le> q \<and> q - g < 2 ^ 63 \<and> mp_ready T c \<gamma> q"
proof -
  have data: "mp_data T (\<sigma>, \<gamma>)" using inv by (simp add: mp_inv_def)
  note next_le = mp_next_less [OF wf data]
  have g0: "0 \<le> g" "g \<le> g_next \<gamma>" using mp_got_le_next [OF data c] g(2) by simp_all
  have mtW: "mt_waitStrategy cs = W" using cs by (simp add: mp_strategy_def)
  have r': "returns (mt_wait_until_published n cs (seq_at g) (seq_at (g - 1))) l r"
    using r by (simp add: seq_at_diff_1)
  obtain j where j: "r = seq_at (g + int j)"
    and first: "\<exists>v. (Load Acquire (mt_entry cs (seq_at g)), RSeq v) \<in> set l \<and> 0 \<le> difference v (seq_at g)"
    and rest: "\<And>i. 1 \<le> i \<Longrightarrow> i \<le> j \<Longrightarrow>
       (Load Acquire (mt_entry cs (seq_at (g + int i))), RSeq (seq_at (g + int i))) \<in> set l"
    by (rule wait_strategy_model.returns_mt_wait [OF W mtW r']) (auto intro: that)
  have pub: "mp_promised T \<gamma> c (g + int i)" if "i \<le> j" for i
    using that
  proof (induction i)
    case 0
    from first seen show ?case using mp_promised_first [OF wf c data cs] g(2) by auto
  next
    case (Suc i)
    then have "g + int i < g_next \<gamma>" by (intro mp_pubd_less(1) [OF data]) simp
    then show ?case using Suc.prems next_le g0 by (intro mp_promised_entry [OF wf c data cs] seen rest) auto
  qed
  have here: "mp_promised T \<gamma> c p" if "g \<le> p" "p \<le> g + int j" for p
    using pub [of "nat (p - g)"] that by simp
  have old: "mp_readable T c \<gamma> (g - 1)" using g(1) by (simp add: mp_ready_def)
  have "mp_pubd T \<gamma> p" if "0 \<le> p" "p \<le> g + int j" for p
    using here [OF _ that(2)] mp_readable_pubd [OF old that(1)] by (cases "p < g") simp_all
  moreover have less: "g + int j < g_next \<gamma>" by (rule mp_pubd_less(1) [OF data]) (use here in simp)
  ultimately have readable: "mp_readable T c \<gamma> (g + int j)" using up by (simp add: mp_readable_def)
  have none: "mp_stage T c - {c} = {}" using up by (auto elim: mp_stage_upstream)
  have "knows (g_events \<gamma>) (seen (g_hist \<gamma>) c) (mp_known T {} (g + int j))"
    by (rule mp_known_upto [where g = g]) (use g(1) here in \<open>simp_all add: mp_ready_def none\<close>)
  then show ?thesis using j g0 next_le less here [of "g + int j"] readable by (auto simp: mp_ready_def none)
qed

text \<open>A wait for the consumers upstream.\<close>

lemma mp_ready_seen_upstream:
  assumes wf: "mp_well_arranged T" and c: "c \<in> mp_consumers T" and inv: "mp_inv T (\<sigma>, \<gamma>)"
    and as: "set as = mp_barrier T ` mp_upstream T c" and up: "mp_upstream T c \<noteq> {}"
    and g: "0 \<le> g" "g \<le> g_next \<gamma>" and saw: "saw_all as (seq_at g) r l"
    and seen: "\<And>a v. (Load Acquire a, RSeq v) \<in> set l \<Longrightarrow> mp_loaded T c Acquire a v (\<sigma>, \<gamma>)"
  shows "\<exists>q. r = seq_at q \<and> g \<le> q \<and> q - g < 2 ^ 63 \<and> mp_ready T c \<gamma> q"
proof -
  have data: "mp_data T (\<sigma>, \<gamma>)" using inv by (simp add: mp_inv_def)
  have ups: "u \<in> mp_consumers T" if "u \<in> mp_upstream T c" for u using wf c that by (auto simp: mp_well_arranged_def)
  define reached where "reached a x \<longleftrightarrow> (\<forall>u \<in> mp_upstream T c. a = mp_barrier T u \<longrightarrow> x < g_got \<gamma> u \<and>
    knows (g_events \<gamma>) (seen (g_hist \<gamma>) c) (mp_known T (mp_stage T u) x))" for a x
  have inj: "mp_barrier T u = mp_barrier T v \<Longrightarrow> u \<in> mp_upstream T c \<Longrightarrow> v \<in> mp_upstream T c \<Longrightarrow> u = v" for u v
    using wf ups by (auto simp: mp_well_arranged_def inj_on_def)
  have load: "\<exists>x. v = seq_at x \<and> \<bar>x - g\<bar> < 2 ^ 63 \<and> reached a x"
    if "a \<in> set as" and l: "(Load Acquire a, RSeq v) \<in> set l" for a v
  proof -
    obtain u where u: "u \<in> mp_upstream T c" "a = mp_barrier T u" using as \<open>a \<in> set as\<close> by auto
    obtain x where x: "v = seq_at x" "- 1 \<le> x" "x < g_got \<gamma> u"
      "knows (g_events \<gamma>) (seen (g_hist \<gamma>) c) (mp_known T (mp_stage T u) x)"
      using seen [OF l] u ups [OF u(1)] by (auto simp: mp_loaded_def mp_seen_def)
    have "x < g_next \<gamma>" using x(3) mp_got_le_next(2) [OF data ups [OF u(1)]] by simp
    then have "\<bar>x - g\<bar> < 2 ^ 63" using x(2) g mp_next_less [OF wf data] by simp
    then show ?thesis using x u inj [of u] unfolding reached_def by blast
  qed
  obtain q where q: "r = seq_at q" "g \<le> q" "q - g < 2 ^ 63"
    and r: "\<And>a. a \<in> set as \<Longrightarrow> \<exists>x. q \<le> x \<and> reached a x"
    by (rule saw_all_positions [OF saw, where reached = reached]) (blast intro: load)+
  have below: "q < g_got \<gamma> u" and known: "knows (g_events \<gamma>) (seen (g_hist \<gamma>) c) (mp_known T (mp_stage T u) q)"
    if u: "u \<in> mp_upstream T c" for u
  proof -
    obtain x where x: "q \<le> x" "reached (mp_barrier T u) x" using r [of "mp_barrier T u"] as u by auto
    then show "q < g_got \<gamma> u" "knows (g_events \<gamma>) (seen (g_hist \<gamma>) c) (mp_known T (mp_stage T u) q)"
      using u knows_mono [OF _ subset_refl mp_known_mono [OF x(1), of T "mp_stage T u"]] by (auto simp: reached_def)
  qed
  obtain u where u: "u \<in> mp_upstream T c" using up by blast
  then have "mp_pubd T \<gamma> p" if "0 \<le> p" "p \<le> q" for p
    using data ups [OF u] below [OF u] that by (auto simp: mp_data_def)
  moreover have "q < g_next \<gamma>" using mp_got_le_next(2) [OF data ups [OF u]] below [OF u] by simp
  moreover have "knows (g_events \<gamma>) (seen (g_hist \<gamma>) c) (mp_known T (mp_stage T c - {c}) q)"
    unfolding knows_def
  proof (intro allI impI)
    fix n assume n: "n < length (g_events \<gamma>)" and e: "g_events \<gamma> ! n \<in> mp_known T (mp_stage T c - {c}) q"
    have "\<exists>u \<in> mp_upstream T c. g_events \<gamma> ! n \<in> mp_known T (mp_stage T u) q"
      using e u by (cases "g_events \<gamma> ! n") (auto elim: mp_stage_upstream)
    then show "n \<in> seen (g_hist \<gamma>) c" using known n by (auto dest: knowsD)
  qed
  ultimately show ?thesis using q below by (auto simp: mp_ready_def mp_readable_def)
qed

lemma mp_ready_start:
  assumes "mp_inv T (\<sigma>, \<gamma>)" "c \<in> mp_consumers T" "g_got \<gamma> c = 0"
  shows "mp_ready T c \<gamma> (- 1)"
proof -
  have data: "mp_data T (\<sigma>, \<gamma>)" using assms(1) by (simp add: mp_inv_def)
  have "- 1 < g_got \<gamma> u" if "u \<in> mp_upstream T c" for u
    using data assms(2,3) that by (fastforce simp: mp_data_def)
  moreover have "- 1 < g_next \<gamma>" using mp_got_le_next(2) [OF data assms(2)] assms(3) by simp
  ultimately show ?thesis using mp_nothing_known(1) [OF assms(1)] by (simp add: mp_ready_def mp_readable_def)
qed

text \<open>
  The wait of a consumer: on the claim strategy when nobody is upstream of it, otherwise a wait
  for the barriers upstream.
\<close>

definition mp_wait :: "'d multi_arrangement \<Rightarrow> 'd wait_strategy \<Rightarrow> nat \<Rightarrow> nat \<Rightarrow>
    (sequence_t \<Rightarrow> ('d, sequence_t) prog) \<Rightarrow> bool" where
  "mp_wait T W n c wait \<longleftrightarrow> (if mp_upstream T c = {}
     then \<exists>cs. mp_strategy T W cs \<and> wait = (\<lambda>nextToRead. mt_wait_until_published n cs nextToRead (nextToRead - 1))
     else \<exists>as. set as = mp_barrier T ` mp_upstream T c \<and> waits_for wait as)"

lemma mp_wait_waits_only:
  assumes "mp_wait T W n c wait" "wait_strategy_model W"
  shows "waits_only (wait m) {} {}"
  using assms wait_strategy_model.waits_only_mt_wait [OF assms(2)]
  by (auto simp: mp_wait_def waits_for_def mp_strategy_def difference_def split: if_splits)

lemma mp_wait_ready:
  assumes "mp_well_arranged T" and c: "c \<in> mp_consumers T" and inv: "mp_inv T (\<sigma>, \<gamma>)"
    and "mp_wait T W n c wait" and "wait_strategy_model W"
    and g: "mp_ready T c \<gamma> (g - 1)" "g_got \<gamma> c = g"
    and r: "returns (wait (seq_at g)) l r"
    and "\<And>a v. (Load Acquire a, RSeq v) \<in> set l \<Longrightarrow> mp_loaded T c Acquire a v (\<sigma>, \<gamma>)"
  shows "\<exists>q. r = seq_at q \<and> g \<le> q \<and> q - g < 2 ^ 63 \<and> mp_ready T c \<gamma> q"
proof (cases "mp_upstream T c = {}")
  case True
  then obtain cs where "mp_strategy T W cs"
    and "wait = (\<lambda>nextToRead. mt_wait_until_published n cs nextToRead (nextToRead - 1))"
    using assms(4) by (auto simp: mp_wait_def)
  then show ?thesis using assms True by (intro mp_ready_seen [where W = W and cs = cs and n = n and l = l]) auto
next
  case False
  then obtain as where "set as = mp_barrier T ` mp_upstream T c"
    and all: "\<And>m l r. returns (wait m) l r \<Longrightarrow> saw_all as m r l"
    using assms(4) unfolding mp_wait_def waits_for_def by auto
  moreover have "mp_data T (\<sigma>, \<gamma>)" using inv by (simp add: mp_inv_def)
  then have "0 \<le> g" "g \<le> g_next \<gamma>" using mp_got_le_next [of T \<sigma> \<gamma> c] c g(2) by simp_all
  ultimately show ?thesis
    using assms False all [OF r] by (intro mp_ready_seen_upstream [where as = as and l = l]) auto
qed

text \<open>So a consumer can go on after its wait, and its whole loop is safe.\<close>

lemma mp_safely_consumer_wait:
  fixes T :: "'d multi_arrangement" and buffer :: ring_buffer and barrier :: "'d sequence_barrier"
  assumes wf: "mp_well_arranged T" and c: "c \<in> mp_consumers T" and W: "wait_strategy_model W"
    and wait: "mp_wait T W m c wait"
    and buffer: "rb_mask buffer = 2 ^ mp_bits T - 1" "rb_data buffer = mp_array T"
    and barrier: "sb_waitStrategy barrier = W" "sb_lastPublished barrier = mp_barrier T c"
    and at: "at = reader.at (mp_protocol T) (\<lambda>\<gamma>. g_got \<gamma> c) (mp_ready T c) (\<lambda>\<gamma> p. mp_item T (g_idx \<gamma> p)) f a"
    and s: "at g (g - 1) g acc s" "holds_mutexes c {} (fst s)"
  shows "weakly_safe g_hist (mp_protocol T) c (wait (seq_at g))
    (\<lambda>r s. \<exists>q. r = seq_at q \<and> g \<le> q \<and> q - g < 2 ^ 63 \<and> at g q g acc s \<and> holds_mutexes c {} (fst s)) s"
proof -
  note rd = mp_reader [OF wf c W buffer barrier]
  note at_def = reader.at_def [OF rd, of f a, folded at]
  show ?thesis
  proof (rule mp.safely_waiting [OF mp_wait_waits_only [OF wait W] _ s
        reader.at_waiting [OF rd, of f a, folded at] mp_loaded_stable [OF wf]])
    show "invar (mp_protocol T) s" using s by (simp add: at_def)
    show "mp_loaded T c ord x (nth_value (g_hist \<gamma>) x j) (\<sigma>, \<gamma>\<lparr>g_hist := look c ord x j (g_hist \<gamma>)\<rparr>)"
      if "invar (mp_protocol T) (\<sigma>, \<gamma>)" "visible c (g_hist \<gamma>) x j" for \<sigma> \<gamma> ord x j
      using that by (intro mp_loaded_now [OF wf]) simp_all
  next
    fix l r s'
    assume r: "returns (wait (seq_at g)) l r"
      and h': "holds_mutexes c {} (fst s')" and at': "at g (g - 1) g acc s'"
      and seen: "\<And>ord x v. (Load ord x, RSeq v) \<in> set l \<Longrightarrow> mp_loaded T c ord x v s'"
    obtain \<sigma> \<gamma> where s': "s' = (\<sigma>, \<gamma>)" by (cases s')
    have "mp_inv T (\<sigma>, \<gamma>)" "mp_ready T c \<gamma> (g - 1)" "g_got \<gamma> c = g"
      using at' by (simp_all add: at_def s')
    then have "\<exists>q. r = seq_at q \<and> g \<le> q \<and> q - g < 2 ^ 63 \<and> mp_ready T c \<gamma> q"
      using seen by (intro mp_wait_ready [OF wf c _ wait W _ _ r]) (auto simp: s')
    then show "\<exists>q. r = seq_at q \<and> g \<le> q \<and> q - g < 2 ^ 63 \<and> at g q g acc s' \<and> holds_mutexes c {} (fst s')"
      using h' at' by (auto simp: at_def s')
  qed
qed

lemma mp_safely_consume_loop:
  assumes wf: "mp_well_arranged T" and c: "c \<in> mp_consumers T" and W: "wait_strategy_model W"
    and wait: "mp_wait T W m c wait"
    and buffer: "rb_mask buffer = 2 ^ mp_bits T - 1" "rb_data buffer = mp_array T"
    and barrier: "sb_waitStrategy barrier = W" "sb_lastPublished barrier = mp_barrier T c"
    and start: "mp_inv T s" "g_got (snd s) c = 0" "holds_mutexes c {} (fst s)"
    and post: "\<And>s. mp_inv T s \<Longrightarrow> g_got (snd s) c = mp_total T \<Longrightarrow>
      Q (fold_items f a (\<lambda>p. mp_item T (g_idx (snd s) p)) (mp_total T)) s"
  shows "weakly_safe g_hist (mp_protocol T) c (consume_loop n wait f buffer barrier a (of_int (mp_total T)) 0) Q s"
proof -
  note rd = mp_reader [OF wf c W buffer barrier]
  define at where "at = reader.at (mp_protocol T) (\<lambda>\<gamma>. g_got \<gamma> c) (mp_ready T c)
    (\<lambda>\<gamma> p. mp_item T (g_idx \<gamma> p)) f a"
  note at_simps = at_def reader.at_def [OF rd]
  have "weakly_safe g_hist (mp_protocol T) c
    (consume_loop n wait f buffer barrier a (of_int (mp_total T)) (seq_at 0)) Q s"
  proof (rule reader.safely_consume_loop [OF rd, where g = 0 and f = f and a = a, folded at_def])
    show "at 0 (0 - 1) 0 a s"
      using start mp_ready_start [of T "fst s" "snd s" c] c by (simp add: at_simps)
    show "Q acc s" if "at (mp_total T) (mp_total T - 1) (mp_total T) acc s" for acc s
      using that post [of s] by (auto simp: at_simps)
    show "holds_mutexes c {} (fst s)" "of_int (mp_total T) = of_int (mp_total T - 0)" using start by simp_all
  qed (rule mp_safely_consumer_wait [OF wf c W wait buffer barrier at_def])
  then show ?thesis by (simp add: seq_at_0)
qed

text \<open>
  So is the loop of a reader that ends by what it has read, if it has read what ends it with the
  last of all items and not before.
\<close>

lemma mp_safely_read_until:
  assumes wf: "mp_well_arranged T" and c: "c \<in> mp_consumers T" and W: "wait_strategy_model W"
    and wait: "mp_wait T W m c wait"
    and buffer: "rb_mask buffer = 2 ^ mp_bits T - 1" "rb_data buffer = mp_array T"
    and barrier: "sb_waitStrategy barrier = W" "sb_lastPublished barrier = mp_barrier T c"
    and start: "mp_inv T s" "g_got (snd s) c = 0" "holds_mutexes c {} (fst s)"
    and stop: "\<And>s. mp_inv T s \<Longrightarrow>
      stop (fold_items f a (\<lambda>p. mp_item T (g_idx (snd s) p)) (g_got (snd s) c)) \<longleftrightarrow> g_got (snd s) c = mp_total T"
    and post: "\<And>s. mp_inv T s \<Longrightarrow> g_got (snd s) c = mp_total T \<Longrightarrow> Q (seq_at (mp_total T)) s"
  shows "weakly_safe g_hist (mp_protocol T) c (read_until n stop wait f buffer barrier a 0) Q s"
proof -
  note rd = mp_reader [OF wf c W buffer barrier]
  define at where "at = reader.at (mp_protocol T) (\<lambda>\<gamma>. g_got \<gamma> c) (mp_ready T c)
    (\<lambda>\<gamma> p. mp_item T (g_idx \<gamma> p)) f a"
  note at_simps = at_def reader.at_def [OF rd]
  have "weakly_safe g_hist (mp_protocol T) c (read_until n stop wait f buffer barrier a (seq_at 0)) Q s"
  proof (rule reader.safely_read_until [OF rd, where g = 0 and f = f and a = a, folded at_def])
    show "at 0 (0 - 1) 0 a s"
      using start mp_ready_start [of T "fst s" "snd s" c] c by (simp add: at_simps)
    show "stop acc \<longleftrightarrow> g = mp_total T" if "at g (g - 1) g acc s" for g acc s
      using that stop [of s] by (auto simp: at_simps)
    show "Q (seq_at (mp_total T)) s" if "at (mp_total T) (mp_total T - 1) (mp_total T) acc s" for acc s
      using that post by (simp add: at_simps)
    show "holds_mutexes c {} (fst s)" by fact
  qed (rule mp_safely_consumer_wait [OF wf c W wait buffer barrier at_def])
  then show ?thesis by (simp add: seq_at_0)
qed

end
