(* ===== verification/Multi_Producer_Producers.thy ===== *)
theory Multi_Producer_Producers
  imports Multi_Producer_Consumers
begin

text \<open>
  The producers of a disruptor with several of them, on the weak machine: the claim of one or
  more positions, the wait for room, the writes of the items and their publication, and the loop
  of a producer of the benchmarks.
\<close>

section \<open>The producers\<close>

text \<open>Producer \<open>j\<close> has made \<open>i\<close> claims.\<close>

definition mp_producing :: "'d multi_arrangement \<Rightarrow> nat \<Rightarrow> int \<Rightarrow> 'd mach \<times> claims \<Rightarrow> bool" where
  "mp_producing T j i s \<longleftrightarrow> mp_inv T s \<and> g_cnt (snd s) j = i"

text \<open>Position \<open>p\<close> is its \<open>i\<close>-th claim, and it has not published it.\<close>

definition mp_holding :: "'d multi_arrangement \<Rightarrow> nat \<Rightarrow> int \<Rightarrow> int \<Rightarrow> 'd mach \<times> claims \<Rightarrow> bool" where
  "mp_holding T j i p s \<longleftrightarrow> mp_inv T s \<and> mp_mine T (snd s) j p \<and> g_idx (snd s) p = i"

text \<open>There is room for it, and the producer knows why.\<close>

definition mp_cleared :: "'d multi_arrangement \<Rightarrow> nat \<Rightarrow> int \<Rightarrow> int \<Rightarrow> 'd mach \<times> claims \<Rightarrow> bool" where
  "mp_cleared T j i p s \<longleftrightarrow> mp_holding T j i p s \<and> mp_room T (snd s) p \<and>
     knows (g_events (snd s)) (seen (g_hist (snd s)) j) (events_upto (mp_consumers T) (p - 2 ^ mp_bits T))"

text \<open>The item is in the slot.\<close>

definition mp_written :: "'d multi_arrangement \<Rightarrow> nat \<Rightarrow> int \<Rightarrow> int \<Rightarrow> 'd mach \<times> claims \<Rightarrow> bool" where
  "mp_written T j i p s \<longleftrightarrow> mp_cleared T j i p s \<and> cells (fst s) (mp_array T) (mp_slot T p) = mp_item T i"

lemma mp_producing_rely: "mp_producing T j i s \<Longrightarrow> mp_rely T j s s' \<Longrightarrow> mp_producing T j i s'"
  by (simp add: mp_producing_def mp_rely_def mp_evolves_def)

lemma mp_holding_rely:
  assumes "mp_holding T j i p s" "mp_rely T j s s'"
  shows "mp_holding T j i p s'"
proof -
  have ev: "mp_evolves T j s s'" using assms(2) by (simp add: mp_rely_def)
  have m: "mp_mine T (snd s) j p" using assms(1) by (simp add: mp_holding_def)
  then have "p < g_next (snd s)" by (simp add: mp_mine_def)
  then have "g_idx (snd s') p = g_idx (snd s) p" using mp_evolves_mono(3) [OF ev] by simp
  with mp_mine_evolves [OF m ev] assms show ?thesis by (simp add: mp_holding_def mp_rely_def)
qed

text \<open>What an access of its own, or of others, leaves of it.\<close>

lemma mp_cleared_stable:
  assumes wf: "mp_well_arranged T" and c: "mp_cleared T j i p (\<sigma>, \<gamma>)" and hold: "mp_holding T j i p (\<sigma>', \<gamma>')"
    and got: "\<And>c. g_got \<gamma> c \<le> g_got \<gamma>' c" and more: "goes_on (Collect (mp_settled T \<gamma>)) (g_events \<gamma>) (g_events \<gamma>')"
    and sees: "seen (g_hist \<gamma>) j \<subseteq> seen (g_hist \<gamma>') j"
  shows "mp_cleared T j i p (\<sigma>', \<gamma>')"
proof -
  have data: "mp_data T (\<sigma>, \<gamma>)" and room: "mp_room T \<gamma> p"
    using c by (simp_all add: mp_cleared_def mp_holding_def mp_inv_def)
  have "knows (g_events \<gamma>') (seen (g_hist \<gamma>) j) (events_upto (mp_consumers T) (p - 2 ^ mp_bits T))"
    using goes_on_knows [OF more _ mp_room_settled [OF wf data room]] c by (simp add: mp_cleared_def)
  then have "knows (g_events \<gamma>') (seen (g_hist \<gamma>') j) (events_upto (mp_consumers T) (p - 2 ^ mp_bits T))"
    using sees by (rule knows_view)
  then show ?thesis using hold mp_room_mono [OF room got] by (simp add: mp_cleared_def)
qed

lemma mp_cleared_rely:
  assumes "mp_well_arranged T" "mp_cleared T j i p s" "mp_rely T j s s'"
  shows "mp_cleared T j i p s'"
proof -
  have "mp_holding T j i p s'" using assms(2,3) mp_holding_rely [of T j i p s s'] by (simp add: mp_cleared_def)
  then show ?thesis
    using mp_cleared_stable [OF assms(1), of j i p "fst s" "snd s" "fst s'" "snd s'"] assms(2,3)
    by (simp add: mp_rely_def mp_evolves_def)
qed

lemma mp_written_rely:
  assumes "mp_well_arranged T" "mp_written T j i p s" "mp_rely T j s s'"
  shows "mp_written T j i p s'"
proof -
  have c: "mp_cleared T j i p s" using assms(2) by (simp add: mp_written_def)
  then have "mp_mine T (snd s) j p" "mp_room T (snd s) p" by (simp_all add: mp_cleared_def mp_holding_def)
  then have "cells (fst s') (mp_array T) (mp_slot T p) = cells (fst s) (mp_array T) (mp_slot T p)"
    using assms(3) by (simp add: mp_rely_def mp_evolves_def)
  with mp_cleared_rely [OF assms(1) c assms(3)] assms(2) show ?thesis by (simp add: mp_written_def)
qed

text \<open>With room for a later position there is room for those before it.\<close>

lemma mp_cleared_less:
  assumes c: "mp_cleared T j i' q s" and h: "mp_holding T j i p s" and le: "p \<le> q"
  shows "mp_cleared T j i p s"
proof -
  have sub: "events_upto (mp_consumers T) (p - 2 ^ mp_bits T) \<subseteq> events_upto (mp_consumers T) (q - 2 ^ mp_bits T)"
    using le by (intro events_upto_mono) simp_all
  have "knows (g_events (snd s)) (seen (g_hist (snd s)) j) (events_upto (mp_consumers T) (q - 2 ^ mp_bits T))"
    using c by (simp add: mp_cleared_def)
  then have "knows (g_events (snd s)) (seen (g_hist (snd s)) j) (events_upto (mp_consumers T) (p - 2 ^ mp_bits T))"
    using subset_refl sub by (rule knows_mono)
  moreover have "mp_room T (snd s) p" using c le by (auto simp: mp_cleared_def mp_room_def intro: le_less_trans)
  ultimately show ?thesis using h by (simp add: mp_cleared_def)
qed

text \<open>
  A producer with the positions \<open>p\<close> to \<open>q\<close>, claimed at once, of which those before \<open>z\<close> are written;
  position \<open>y\<close> is for its item \<open>y + d\<close>.
\<close>

definition mp_claiming :: "'d multi_arrangement \<Rightarrow> nat \<Rightarrow> int \<Rightarrow> int \<Rightarrow> int \<Rightarrow> 'd mach \<times> claims \<Rightarrow> bool" where
  "mp_claiming T j d p q s \<longleftrightarrow> mp_producing T j (q + 1 + d) s \<and>
     (\<forall>y. p \<le> y \<longrightarrow> y \<le> q \<longrightarrow> mp_holding T j (y + d) y s)"

definition mp_batch :: "'d multi_arrangement \<Rightarrow> nat \<Rightarrow> int \<Rightarrow> int \<Rightarrow> int \<Rightarrow> int \<Rightarrow> 'd mach \<times> claims \<Rightarrow> bool" where
  "mp_batch T j d p q z s \<longleftrightarrow> mp_producing T j (q + 1 + d) s \<and>
     (\<forall>y. p \<le> y \<longrightarrow> y \<le> q \<longrightarrow> mp_cleared T j (y + d) y s) \<and>
     (\<forall>y. p \<le> y \<longrightarrow> y < z \<longrightarrow> mp_written T j (y + d) y s)"

lemma mp_batch_rely:
  assumes wf: "mp_well_arranged T" and "mp_batch T j d p q z s" "mp_rely T j s s'"
  shows "mp_batch T j d p q z s'"
  using assms(2,3) mp_producing_rely [of T j _ s s'] mp_cleared_rely [OF wf] mp_written_rely [OF wf]
  unfolding mp_batch_def by blast

lemma mp_producer_waiting:
  "mp.stable_waiting T j (mp_producing T j i)" "mp.stable_waiting T j (mp_claiming T j d p q)"
proof -
  have inv: "mp_inv T (\<sigma>', \<gamma>\<lparr>g_hist := \<omega>\<rparr>)"
    if "mp_inv T (\<sigma>, \<gamma>)" "guar (mp_protocol T) j (\<sigma>, \<gamma>) (\<sigma>', \<gamma>\<lparr>g_hist := \<omega>\<rparr>)" for \<sigma> \<gamma> \<sigma>' \<omega>
    using mp.guar_inv [OF that(2)] that(1) by simp
  show "mp.stable_waiting T j (mp_producing T j i)"
  proof (rule mp.stable_waitingI)
    show "mp_producing T j i s'" if "mp_producing T j i s" "rely (mp_protocol T) j s s'" for s s'
      using that(1) by (rule mp_producing_rely) (use that(2) in simp)
  qed (use inv in \<open>auto simp: mp_producing_def\<close>)
  show "mp.stable_waiting T j (mp_claiming T j d p q)"
  proof (rule mp.stable_waitingI)
    show "mp_claiming T j d p q s'" if "mp_claiming T j d p q s" "rely (mp_protocol T) j s s'" for s s'
      using that mp_producing_rely [of T j _ s s'] mp_holding_rely [of T j _ _ s s'] by (simp add: mp_claiming_def)
  qed (use inv in \<open>auto simp: mp_claiming_def mp_holding_def mp_producing_def\<close>)
qed

lemma mp_holds_mutexes_rely:
  "holds_mutexes t h (fst s) \<Longrightarrow> mp_rely T t s s' \<Longrightarrow> holds_mutexes t h (fst s')"
  by (simp add: holds_mutexes_def mp_rely_def mp_evolves_def)

text \<open>A wait that has loaded all gates has found room.\<close>

lemma mp_room_seen:
  assumes wf: "mp_well_arranged T" and hold: "mp_holding T j i p (\<sigma>, \<gamma>)"
    and as: "set as = mp_barrier T ` mp_gates T" and saw: "saw_all as (seq_at (p - 2 ^ mp_bits T)) r l"
    and seen: "\<And>a v. (Load Acquire a, RSeq v) \<in> set l \<Longrightarrow> mp_loaded T j Acquire a v (\<sigma>, \<gamma>)"
  shows "mp_cleared T j i p (\<sigma>, \<gamma>)"
proof -
  have inv: "mp_inv T (\<sigma>, \<gamma>)" and p: "0 \<le> p" "p < g_next \<gamma>"
    using hold by (auto simp: mp_holding_def mp_mine_def)
  have data: "mp_data T (\<sigma>, \<gamma>)" using inv by (simp add: mp_inv_def)
  note N = mp_bits_less(2) [OF wf] and N0 = mp_bits_less(3) [OF wf] and next_le = mp_next_less [OF wf data]
  have gates: "g \<in> mp_consumers T" if "g \<in> mp_gates T" for g using wf that by (auto simp: mp_well_arranged_def)
  let ?y = "p - 2 ^ mp_bits T"
  have gate: "?y < g_got \<gamma> g \<and> knows (g_events \<gamma>) (seen (g_hist \<gamma>) j) (mp_known T (mp_stage T g) ?y)"
    if g: "g \<in> mp_gates T" for g
  proof -
    obtain v where v: "(Load Acquire (mp_barrier T g), RSeq v) \<in> set l" "0 \<le> difference v (seq_at ?y)"
      using saw_allD [OF saw, of "mp_barrier T g"] as g by auto
    then obtain x where x: "v = seq_at x" "- 1 \<le> x" "x < g_got \<gamma> g"
      "knows (g_events \<gamma>) (seen (g_hist \<gamma>) j) (mp_known T (mp_stage T g) x)"
      using seen [OF v(1)] gates [OF g] by (auto simp: mp_loaded_def mp_seen_def)
    have "x < 4611686018427387904" using x(3) mp_got_le_next(2) [OF data gates [OF g]] next_le by simp
    then have "- 9223372036854775808 \<le> x - ?y" "x - ?y < 9223372036854775808"
      using x(2) p next_le N N0 by linarith+
    then have "difference v (seq_at ?y) = x - ?y" unfolding x(1) by (intro difference_seq_at) simp_all
    with v(2) have y: "?y \<le> x" by simp
    then show ?thesis using x(3) knows_mono [OF x(4) subset_refl mp_known_mono [OF y]] by simp
  qed
  have consumer: "?y < g_got \<gamma> c \<and>
      (\<exists>U. c \<in> U \<and> knows (g_events \<gamma>) (seen (g_hist \<gamma>) j) (mp_known T U ?y))" if c: "c \<in> mp_consumers T" for c
  proof -
    obtain g where g: "g \<in> mp_gates T" "(c, g) \<in> (mp_downstream T)\<^sup>*"
      using mp_well_arranged_gate [OF wf c] by blast
    then have "c \<in> mp_stage T g" by (simp add: mp_stage_def)
    then show ?thesis using gate [OF g(1)] mp_gate_behind [OF data g(2)] by force
  qed
  have "knows (g_events \<gamma>) (seen (g_hist \<gamma>) j) (events_upto (mp_consumers T) ?y)"
    unfolding knows_def
  proof (intro allI impI)
    fix n assume n: "n < length (g_events \<gamma>)" and e: "g_events \<gamma> ! n \<in> events_upto (mp_consumers T) ?y"
    obtain d where d: "d \<in> mp_consumers T" using wf by (auto simp: mp_well_arranged_def)
    obtain c where c: "c \<in> mp_consumers T" and in_known: "\<And>U. c \<in> U \<Longrightarrow> g_events \<gamma> ! n \<in> mp_known T U ?y"
      using e d by (cases "g_events \<gamma> ! n") auto
    with consumer [OF c] obtain U where "c \<in> U" "knows (g_events \<gamma>) (seen (g_hist \<gamma>) j) (mp_known T U ?y)" by blast
    then show "n \<in> seen (g_hist \<gamma>) j" using knowsD [OF _ n in_known] by blast
  qed
  moreover have "mp_room T \<gamma> p" using consumer by (force simp: mp_room_def)
  ultimately show ?thesis using hold by (simp add: mp_cleared_def)
qed

text \<open>The claim of the next positions.\<close>

lemma mp_counter_ordered:
  assumes wf: "mp_well_arranged T" and inv: "mp_inv T (\<sigma>, \<gamma>)"
  shows "ordered j (Fetch_Add ord (mp_counter T) v :: 'd act) (g_hist \<gamma>)"
  unfolding ordered.simps
proof (intro ballI impI)
  fix n assume "n \<in> set (stores (g_hist \<gamma>) (mp_counter T))"
  then have n: "n < length (g_events \<gamma>)" "stores_to (mp_counter T) (history (g_hist \<gamma>) ! n)"
    using mp_events_length [OF inv] by (simp_all add: in_stores)
  show "is_rmw (history (g_hist \<gamma>) ! n)"
    using mp_entry_at [OF inv n(1)] n(2) wf by (cases "g_events \<gamma> ! n") (auto simp: mp_well_arranged_def, metis)
qed

lemma mp_claim_step:
  assumes wf: "mp_well_arranged T" and inv: "mp_inv T (\<sigma>, \<gamma>)"
    and j: "j \<in> mp_producers T" "g_cnt \<gamma> j + uint v \<le> mp_quota T" and v: "0 < v"
    and \<sigma>': "\<sigma>' = put (mp_counter T) (mem \<sigma> (mp_counter T) + v) \<sigma>"
    and \<gamma>': "\<gamma>' = mp_take \<gamma> j (uint v)\<lparr>g_hist := modify j Relaxed (mp_counter T) (mem \<sigma> (mp_counter T) + v) (g_hist \<gamma>),
      g_events := g_events \<gamma> @ [Taken (g_next \<gamma> + uint v - 1)]\<rparr>"
  shows "guar (mp_protocol T) j (\<sigma>, \<gamma>) (\<sigma>', \<gamma>')"
    and "mp_claiming T j (g_cnt \<gamma> j - g_next \<gamma>) (g_next \<gamma>) (g_next \<gamma> + uint v - 1) (\<sigma>', \<gamma>')"
proof -
  have data: "mp_data T (\<sigma>, \<gamma>)" using inv by (simp add: mp_inv_def)
  have n0: "0 \<le> g_next \<gamma>" and m: "mem \<sigma> (mp_counter T) + v = seq_at (g_next \<gamma> + uint v)"
    using data by (simp_all add: mp_data_def mp_claimed_def seq_at_add_word)
  have v1: "1 \<le> uint v" using v by (simp add: word_less_def)
  define \<omega> where "\<omega> = look j Relaxed (mp_counter T) 0 (g_hist \<gamma>)"
  define V where "V = nth_store (g_hist \<gamma>) (mp_counter T) 0 \<union> nth_passed (g_hist \<gamma>) (mp_counter T) 0"
  note step = mp_take_step [OF wf data j \<sigma>']
  show g: "guar (mp_protocol T) j (\<sigma>, \<gamma>) (\<sigma>', \<gamma>')"
  proof (rule mp_step [OF wf inv step])
    show "\<gamma>' = mp_take \<gamma> j (uint v)\<lparr>g_hist := record_access j (Stored j (mp_counter T) (seq_at (g_next \<gamma> + uint v)) True V) \<omega>,
        g_events := g_events \<gamma> @ [Taken (g_next \<gamma> + uint v - 1)]\<rparr>"
      by (simp add: \<gamma>' modify_def Let_def \<omega>_def V_def m)
    show "only_sees j (g_hist \<gamma>) \<omega>" unfolding \<omega>_def by (rule only_sees_look)
  qed (use n0 m v1 in \<open>auto simp: \<gamma>' \<sigma>' fun_eq_iff\<close>)
  have inv': "mp_inv T (\<sigma>', \<gamma>')" using mp.guar_inv [OF g] inv by simp
  have "\<not> mp_pubd T \<gamma> y" if "g_next \<gamma> \<le> y" for y using mp_pubd_less(1) [OF data, of y] that by auto
  with inv' n0 show "mp_claiming T j (g_cnt \<gamma> j - g_next \<gamma>) (g_next \<gamma>) (g_next \<gamma> + uint v - 1) (\<sigma>', \<gamma>')"
    by (simp add: mp_claiming_def mp_holding_def mp_producing_def mp_mine_def \<gamma>')
qed

lemma mp_safely_wait_for_room:
  assumes wf: "mp_well_arranged T" and W: "wait_strategy_model W" and cs: "mp_strategy T W cs"
    and s: "mp_claiming T j d p q s" "holds_mutexes j {} (fst s)" and le: "p \<le> q"
    and post: "\<And>r s. mp_batch T j d p q p s \<Longrightarrow> holds_mutexes j {} (fst s) \<Longrightarrow> Q r s"
  shows "weakly_safe g_hist (mp_protocol T) j
    (group_wait_until_published n (mt_claimBarrier cs) (seq_at (q - 2 ^ mp_bits T))) Q s"
proof -
  have w: "waits_only (group_wait_until_published n (mt_claimBarrier cs) (seq_at (q - 2 ^ mp_bits T))) {} {}"
    using cs by (intro wait_strategy_model.waits_only_group_wait [OF W]) (auto simp: mp_strategy_def)
  show ?thesis
  proof (rule mp.safely_waiting [OF w _ s mp_producer_waiting(2) mp_loaded_stable [OF wf]])
    show "invar (mp_protocol T) s" using s by (simp add: mp_claiming_def mp_producing_def)
    show "mp_loaded T j ord x (nth_value (g_hist \<gamma>) x k) (\<sigma>, \<gamma>\<lparr>g_hist := look j ord x k (g_hist \<gamma>)\<rparr>)"
      if "invar (mp_protocol T) (\<sigma>, \<gamma>)" "visible j (g_hist \<gamma>) x k" for \<sigma> \<gamma> ord x k
      using that by (intro mp_loaded_now [OF wf]) simp_all
    fix l r s'
    assume r: "returns (group_wait_until_published n (mt_claimBarrier cs) (seq_at (q - 2 ^ mp_bits T))) l r"
      and c: "mp_claiming T j d p q s'" and h: "holds_mutexes j {} (fst s')"
      and seen: "\<And>ord a v. (Load ord a, RSeq v) \<in> set l \<Longrightarrow> mp_loaded T j ord a v s'"
    have saw: "saw_all (sbg_sequences (mt_claimBarrier cs)) (seq_at (q - 2 ^ mp_bits T)) r l"
      using cs r by (intro wait_strategy_model.returns_group_wait [OF W]) (auto simp: mp_strategy_def)
    have hold: "mp_holding T j (y + d) y s'" if "p \<le> y" "y \<le> q" for y
      using c that by (simp add: mp_claiming_def)
    have last: "mp_cleared T j (q + d) q s'"
      using mp_room_seen [OF wf, of j "q + d" q "fst s'" "snd s'", OF _ _ saw] hold [OF le] cs seen
      by (simp add: mp_strategy_def)
    then have "mp_batch T j d p q p s'"
      using c hold mp_cleared_less [OF last] by (simp add: mp_batch_def mp_claiming_def)
    then show "Q r s'" using h by (rule post)
  qed
qed

lemma mp_safely_claim:
  assumes wf: "mp_well_arranged T" and W: "wait_strategy_model W" and cs: "mp_strategy T W cs"
    and j: "j \<in> mp_producers T" "i + uint v \<le> mp_quota T" and v: "0 < v"
    and s: "mp_producing T j i s" "holds_mutexes j {} (fst s)"
    and m: "\<And>x. m x = x + v - 1 - mt_bufferSize cs"
    and post: "\<And>s p. mp_batch T j (i - p) p (p + uint v - 1) p s \<Longrightarrow> holds_mutexes j {} (fst s) \<Longrightarrow> Q (f (seq_at p)) s"
  shows "weakly_safe g_hist (mp_protocol T) j (fetch_add Relaxed (mt_nextClaimable cs) v (\<lambda>x.
    bind (group_wait_until_published n (mt_claimBarrier cs) (m x)) (\<lambda>_. Return (f x)))) Q s"
proof -
  have a: "mt_nextClaimable cs = mp_counter T" using cs by (simp add: mp_strategy_def)
  have v1: "1 \<le> uint v" using v by (simp add: word_less_def)
  have to: "m (seq_at p) = seq_at (p + uint v - 1 - 2 ^ mp_bits T)" for p
    using cs mp_bits_less(1) [OF wf] by (simp add: m mp_strategy_def seq_at_sub_word seq_at_add_word seq_at_diff_1 uint_2_power)
  show ?thesis
    unfolding a weakly_safe_fetch_add
  proof (intro allI impI conjI)
    fix \<sigma> \<gamma> assume r: "rely (mp_protocol T) j s (\<sigma>, \<gamma>)"
    have p: "mp_producing T j i (\<sigma>, \<gamma>)" using s(1) r by (auto intro: mp_producing_rely)
    then have inv: "mp_inv T (\<sigma>, \<gamma>)" and cnt: "g_cnt \<gamma> j = i" by (simp_all add: mp_producing_def)
    have h: "holds_mutexes j {} \<sigma>" using mp_holds_mutexes_rely [OF s(2)] r by fastforce
    show "ordered j (Fetch_Add Relaxed (mp_counter T) v :: 'a act) (g_hist \<gamma>)"
      by (rule mp_counter_ordered [OF wf inv])
    show "okay (mp_protocol T) j (Fetch_Add Relaxed (mp_counter T) v) (\<sigma>, \<gamma>)" using j v cnt by simp
    define \<sigma>' where "\<sigma>' = put (mp_counter T) (mem \<sigma> (mp_counter T) + v) \<sigma>"
    define \<gamma>' where "\<gamma>' = mp_take \<gamma> j (uint v)\<lparr>g_hist := modify j Relaxed (mp_counter T) (mem \<sigma> (mp_counter T) + v) (g_hist \<gamma>),
      g_events := g_events \<gamma> @ [Taken (g_next \<gamma> + uint v - 1)]\<rparr>"
    have "g_cnt \<gamma> j + uint v \<le> mp_quota T" using cnt j by simp
    note step = mp_claim_step [OF wf inv j(1) this v \<sigma>'_def \<gamma>'_def, unfolded cnt]
    have h': "holds_mutexes j {} (fst (\<sigma>', \<gamma>'))" using h by (simp add: \<sigma>'_def holds_mutexes_def)
    have x: "mem \<sigma> (mp_counter T) = seq_at (g_next \<gamma>)" using inv by (simp add: mp_inv_def mp_data_def)
    have "weakly_safe g_hist (mp_protocol T) j (group_wait_until_published n (mt_claimBarrier cs)
        (seq_at (g_next \<gamma> + uint v - 1 - 2 ^ mp_bits T))) (\<lambda>_. Q (f (seq_at (g_next \<gamma>)))) (\<sigma>', \<gamma>')"
      using post v1 by (intro mp_safely_wait_for_room [OF wf W cs step(2) h']) auto
    then have "weakly_safe g_hist (mp_protocol T) j (bind (group_wait_until_published n (mt_claimBarrier cs)
        (m (mem \<sigma> (mp_counter T)))) (\<lambda>_. Return (f (mem \<sigma> (mp_counter T))))) Q (\<sigma>', \<gamma>')"
      by (simp add: weakly_safe_bind x to)
    moreover have "g_hist \<gamma>' = modify j Relaxed (mp_counter T) (mem \<sigma> (mp_counter T) + v) (g_hist \<gamma>)"
      by (simp add: \<gamma>'_def)
    ultimately show "\<exists>\<gamma>'. g_hist \<gamma>' = modify j Relaxed (mp_counter T) (mem \<sigma> (mp_counter T) + v) (g_hist \<gamma>) \<and>
        guar (mp_protocol T) j (\<sigma>, \<gamma>) (put (mp_counter T) (mem \<sigma> (mp_counter T) + v) \<sigma>, \<gamma>') \<and>
        weakly_safe g_hist (mp_protocol T) j (bind (group_wait_until_published n (mt_claimBarrier cs)
        (m (mem \<sigma> (mp_counter T)))) (\<lambda>_. Return (f (mem \<sigma> (mp_counter T))))) Q
        (put (mp_counter T) (mem \<sigma> (mp_counter T) + v) \<sigma>, \<gamma>')"
      using step(1) unfolding \<sigma>'_def by (intro exI [of _ \<gamma>'] conjI)
  qed
qed

lemma mp_safely_claim_one:
  assumes "mp_well_arranged T" "wait_strategy_model W" "mp_strategy T W cs" "j \<in> mp_producers T" "i < mp_quota T"
    and "mp_producing T j i s" "holds_mutexes j {} (fst s)"
    and "\<And>s p. mp_batch T j (i - p) p p p s \<Longrightarrow> holds_mutexes j {} (fst s) \<Longrightarrow> Q (seq_at p) s"
  shows "weakly_safe g_hist (mp_protocol T) j (mt_claim_one n cs) Q s"
  unfolding mt_claim_one_def
  by (rule mp_safely_claim [OF assms(1-4) _ _ assms(6,7), where f = "\<lambda>x. x"]) (use assms(5,8) in simp_all)

text \<open>Others that use the slot of a position that is held have done so one buffer before.\<close>

lemma mp_slot_known:
  assumes wf: "mp_well_arranged T" and c: "mp_cleared T j i p (\<sigma>, \<gamma>)" and n: "n < length (g_events \<gamma>)"
    and e: "g_events \<gamma> ! n \<in> {Wrote q, Published q, Read_By d q}" and s: "mp_slot T q = mp_slot T p"
  shows "n \<in> seen (g_hist \<gamma>) j"
proof -
  have inv: "mp_inv T (\<sigma>, \<gamma>)" and m: "mp_mine T \<gamma> j p" and room: "mp_room T \<gamma> p"
    and k: "knows (g_events \<gamma>) (seen (g_hist \<gamma>) j) (events_upto (mp_consumers T) (p - 2 ^ mp_bits T))"
    using c by (simp_all add: mp_cleared_def mp_holding_def)
  have data: "mp_data T (\<sigma>, \<gamma>)" using inv by (simp add: mp_inv_def)
  note alone = mp_mine_alone [OF wf data m room s]
  note entry = mp_entry_at [OF inv n]
  show ?thesis
  proof (cases "g_events \<gamma> ! n = Wrote q \<and> q = p")
    case True
    then show ?thesis using m by (intro mp_own [OF inv n]) (simp add: mp_mine_def)
  next
    case False
    then have "mp_pubd T \<gamma> q \<or> mp_room T \<gamma> q \<and> q \<noteq> p" using e entry by auto
    then have "q \<le> p - 2 ^ mp_bits T" using alone by blast
    then have "g_events \<gamma> ! n \<in> events_upto (mp_consumers T) (p - 2 ^ mp_bits T)" using e entry by auto
    then show ?thesis using knowsD [OF k n] by simp
  qed
qed

lemma mp_write_ordered:
  assumes wf: "mp_well_arranged T" and c: "mp_cleared T j i p (\<sigma>, \<gamma>)"
  shows "ordered j (Write (mp_array T) (mp_slot T p) x) (g_hist \<gamma>)"
  unfolding ordered.simps
proof (intro allI impI)
  have inv: "mp_inv T (\<sigma>, \<gamma>)" using c by (simp add: mp_cleared_def mp_holding_def)
  fix n u assume n: "n < length (history (g_hist \<gamma>))"
    and e: "history (g_hist \<gamma>) ! n = Written u (mp_array T) (mp_slot T p) \<or>
      history (g_hist \<gamma>) ! n = Was_Read u (mp_array T) (mp_slot T p)"
  have n': "n < length (g_events \<gamma>)" using n mp_events_length [OF inv] by simp
  obtain q d where "g_events \<gamma> ! n \<in> {Wrote q, Published q, Read_By d q}" "mp_slot T q = mp_slot T p"
    using mp_entry_at [OF inv n'] e by (cases "g_events \<gamma> ! n") auto
  then show "n \<in> seen (g_hist \<gamma>) j" by (rule mp_slot_known [OF wf c n'])
qed

lemma mp_entry_known:
  assumes wf: "mp_well_arranged T" and c: "mp_cleared T j i p (\<sigma>, \<gamma>)"
  shows "ordered j (Store ord (Elem (mp_entries T) (mp_slot T p)) v :: 'd act) (g_hist \<gamma>)"
    and "visible j (g_hist \<gamma>) (Elem (mp_entries T) (mp_slot T p)) k \<Longrightarrow> k = 0"
proof -
  have inv: "mp_inv T (\<sigma>, \<gamma>)" using c by (simp add: mp_cleared_def mp_holding_def)
  have elem: "mp_counter T \<noteq> Elem (mp_entries T) i" "d \<in> mp_consumers T \<Longrightarrow> mp_barrier T d \<noteq> Elem (mp_entries T) i" for i d
    using wf by (auto simp: mp_well_arranged_def)
  have "n \<in> seen (g_hist \<gamma>) j" if n: "n < length (g_events \<gamma>)"
    and e: "mp_entry T \<gamma> (g_events \<gamma> ! n) (history (g_hist \<gamma>) ! n)"
    and s: "stores_to (Elem (mp_entries T) (mp_slot T p)) (history (g_hist \<gamma>) ! n)" for n
  proof -
    obtain q where q: "g_events \<gamma> ! n = Published q" "mp_slot T q = mp_slot T p"
      using e s elem by (cases "g_events \<gamma> ! n") auto
    then show ?thesis by (intro mp_slot_known [OF wf c n, of q 0]) simp_all
  qed
  note known = mp_newest_known [OF inv this]
  show "ordered j (Store ord (Elem (mp_entries T) (mp_slot T p)) v :: 'd act) (g_hist \<gamma>)" by (rule known(1))
  show "visible j (g_hist \<gamma>) (Elem (mp_entries T) (mp_slot T p)) k \<Longrightarrow> k = 0" by (rule known(2))
qed

text \<open>What the producer holds besides has slots of its own.\<close>

lemma mp_slots_apart:
  assumes wf: "mp_well_arranged T" and p: "mp_cleared T j i p (\<sigma>, \<gamma>)" and y: "mp_cleared T j i' y (\<sigma>, \<gamma>)" and "y \<noteq> p"
  shows "mp_slot T y \<noteq> mp_slot T p"
proof
  assume slot: "mp_slot T y = mp_slot T p"
  have data: "mp_data T (\<sigma>, \<gamma>)" and m: "mp_mine T \<gamma> j p" "mp_room T \<gamma> p" "mp_mine T \<gamma> j y" "mp_room T \<gamma> y"
    using p y by (simp_all add: mp_cleared_def mp_holding_def mp_inv_def)
  have "y \<le> p - 2 ^ mp_bits T" by (rule mp_mine_alone(2) [OF wf data m(1,2) slot m(4) \<open>y \<noteq> p\<close>])
  moreover have "p \<le> y - 2 ^ mp_bits T"
    by (rule mp_mine_alone(2) [OF wf data m(3,4) slot [symmetric] m(2)]) (use \<open>y \<noteq> p\<close> in simp)
  ultimately show False using mp_bits_less(3) [OF wf] by linarith
qed

text \<open>The items are written.\<close>

lemma mp_batch_write:
  assumes wf: "mp_well_arranged T" and b: "mp_batch T j d p q z (\<sigma>, \<gamma>)" and z: "p \<le> z" "z \<le> q"
    and \<sigma>': "\<sigma>' = \<sigma>\<lparr>cells := (cells \<sigma>)(mp_array T := (cells \<sigma> (mp_array T))(mp_slot T z := mp_item T (z + d)))\<rparr>"
    and \<gamma>': "\<gamma>' = \<gamma>\<lparr>g_hist := record_access j (Written j (mp_array T) (mp_slot T z)) (g_hist \<gamma>),
      g_events := g_events \<gamma> @ [Wrote z]\<rparr>"
  shows "guar (mp_protocol T) j (\<sigma>, \<gamma>) (\<sigma>', \<gamma>')" and "mp_batch T j d p q (z + 1) (\<sigma>', \<gamma>')"
proof -
  have cz: "mp_cleared T j (z + d) z (\<sigma>, \<gamma>)" using b z by (simp add: mp_batch_def)
  then have inv: "mp_inv T (\<sigma>, \<gamma>)" and m: "mp_mine T \<gamma> j z" and room: "mp_room T \<gamma> z"
    by (simp_all add: mp_cleared_def mp_holding_def)
  have data: "mp_data T (\<sigma>, \<gamma>)" using inv by (simp add: mp_inv_def)
  note step = mp_write_step [OF wf data m room \<sigma>']
  show g: "guar (mp_protocol T) j (\<sigma>, \<gamma>) (\<sigma>', \<gamma>')"
    by (rule mp_step [OF wf inv step \<gamma>']) (use m room in \<open>auto simp: \<gamma>' \<sigma>' mp_mine_def only_sees_def\<close>)
  have inv': "mp_inv T (\<sigma>', \<gamma>')" using mp.guar_inv [OF g] inv by simp
  have clear: "mp_cleared T j i y (\<sigma>', \<gamma>')" if c: "mp_cleared T j i y (\<sigma>, \<gamma>)" for i y
  proof (rule mp_cleared_stable [OF wf c])
    show "mp_holding T j i y (\<sigma>', \<gamma>')" using c inv' by (simp add: mp_cleared_def mp_holding_def \<gamma>')
  qed (use m in \<open>auto simp: \<gamma>' goes_on_snoc mp_mine_def\<close>)
  have "mp_written T j (y + d) y (\<sigma>', \<gamma>')" if y: "p \<le> y" "y < z + 1" for y
  proof (cases "y = z")
    case True
    then show ?thesis using clear [OF cz] by (simp add: mp_written_def \<sigma>')
  next
    case False
    then have w: "mp_written T j (y + d) y (\<sigma>, \<gamma>)" using b y by (simp add: mp_batch_def)
    then have c: "mp_cleared T j (y + d) y (\<sigma>, \<gamma>)" by (simp add: mp_written_def)
    show ?thesis using w clear [OF c] mp_slots_apart [OF wf cz c False] by (simp add: mp_written_def \<sigma>')
  qed
  with b clear inv' show "mp_batch T j d p q (z + 1) (\<sigma>', \<gamma>')" by (simp add: mp_batch_def mp_producing_def \<gamma>')
qed

lemma mp_safely_buffer_write:
  assumes wf: "mp_well_arranged T" and buffer: "rb_mask buffer = 2 ^ mp_bits T - 1" "rb_data buffer = mp_array T"
    and s: "mp_batch T j d p q z s" "holds_mutexes j {} (fst s)" and z: "p \<le> z" "z \<le> q" and item: "x = mp_item T (z + d)"
    and post: "\<And>s. mp_batch T j d p q (z + 1) s \<Longrightarrow> holds_mutexes j {} (fst s) \<Longrightarrow>
      weakly_safe g_hist (mp_protocol T) j prg Q s"
  shows "weakly_safe g_hist (mp_protocol T) j (buffer_write buffer (seq_at z) x prg) Q s"
proof -
  have bits: "mp_bits T < 64" using wf by (simp add: mp_well_arranged_def)
  have slot: "buffer_slot buffer (seq_at z) = mp_slot T z"
    using buffer_slot_seq_at [OF buffer(1) bits] by (simp add: mp_slot_def)
  show ?thesis
    unfolding buffer_write_def weakly_safe_write slot buffer(2) item
  proof (intro allI impI conjI)
    fix \<sigma> \<gamma> assume r: "rely (mp_protocol T) j s (\<sigma>, \<gamma>)"
    have b: "mp_batch T j d p q z (\<sigma>, \<gamma>)" using mp_batch_rely [OF wf s(1)] r by simp
    then have c: "mp_cleared T j (z + d) z (\<sigma>, \<gamma>)" using z by (simp add: mp_batch_def)
    have h: "holds_mutexes j {} \<sigma>" using mp_holds_mutexes_rely [OF s(2)] r by fastforce
    show "ordered j (Write (mp_array T) (mp_slot T z) (mp_item T (z + d))) (g_hist \<gamma>)" by (rule mp_write_ordered [OF wf c])
    show "okay (mp_protocol T) j (Write (mp_array T) (mp_slot T z) (mp_item T (z + d))) (\<sigma>, \<gamma>)"
      using c by (auto simp: mp_cleared_def mp_holding_def)
    define \<sigma>' where "\<sigma>' = \<sigma>\<lparr>cells := (cells \<sigma>)(mp_array T := (cells \<sigma> (mp_array T))(mp_slot T z := mp_item T (z + d)))\<rparr>"
    define \<gamma>' where "\<gamma>' = \<gamma>\<lparr>g_hist := record_access j (Written j (mp_array T) (mp_slot T z)) (g_hist \<gamma>),
      g_events := g_events \<gamma> @ [Wrote z]\<rparr>"
    note step = mp_batch_write [OF wf b z \<sigma>'_def \<gamma>'_def]
    have "weakly_safe g_hist (mp_protocol T) j prg Q (\<sigma>', \<gamma>')"
      using step(2) h by (intro post) (simp_all add: holds_mutexes_def \<sigma>'_def)
    then show "\<exists>\<gamma>'. g_hist \<gamma>' = record_access j (Written j (mp_array T) (mp_slot T z)) (g_hist \<gamma>) \<and>
        guar (mp_protocol T) j (\<sigma>, \<gamma>)
          (\<sigma>\<lparr>cells := (cells \<sigma>)(mp_array T := (cells \<sigma> (mp_array T))(mp_slot T z := mp_item T (z + d)))\<rparr>, \<gamma>') \<and>
        weakly_safe g_hist (mp_protocol T) j prg Q
          (\<sigma>\<lparr>cells := (cells \<sigma>)(mp_array T := (cells \<sigma> (mp_array T))(mp_slot T z := mp_item T (z + d)))\<rparr>, \<gamma>')"
      using step(1) unfolding \<sigma>'_def by (intro exI [of _ \<gamma>'] conjI) (simp_all add: \<gamma>'_def)
  qed
qed

text \<open>They are published, from the first on.\<close>

lemma mp_batch_publish:
  assumes wf: "mp_well_arranged T" and b: "mp_batch T j d p q (q + 1) (\<sigma>, \<gamma>)" and le: "p \<le> q"
    and \<sigma>': "\<sigma>' = put (Elem (mp_entries T) (mp_slot T p)) (seq_at p) \<sigma>"
    and \<gamma>': "\<gamma>' = \<gamma>\<lparr>g_ent := (g_ent \<gamma>)(mp_slot T p := p),
      g_hist := store j Release (Elem (mp_entries T) (mp_slot T p)) (seq_at p) (g_hist \<gamma>),
      g_events := g_events \<gamma> @ [Published p]\<rparr>"
  shows "guar (mp_protocol T) j (\<sigma>, \<gamma>) (\<sigma>', \<gamma>')" and "mp_batch T j d (p + 1) q (q + 1) (\<sigma>', \<gamma>')"
proof -
  have w: "mp_written T j (p + d) p (\<sigma>, \<gamma>)" using b le by (simp add: mp_batch_def)
  then have c: "mp_cleared T j (p + d) p (\<sigma>, \<gamma>)" and inv: "mp_inv T (\<sigma>, \<gamma>)"
    and m: "mp_mine T \<gamma> j p" and room: "mp_room T \<gamma> p"
    and k: "knows (g_events \<gamma>) (seen (g_hist \<gamma>) j) (events_upto (mp_consumers T) (p - 2 ^ mp_bits T))"
    and cell: "cells \<sigma> (mp_array T) (mp_slot T p) = mp_item T (g_idx \<gamma> p)"
    by (simp_all add: mp_written_def mp_cleared_def mp_holding_def)
  have data: "mp_data T (\<sigma>, \<gamma>)" using inv by (simp add: mp_inv_def)
  define V where "V = insert (length (history (g_hist \<gamma>))) (seen (g_hist \<gamma>) j)"
  have "knows (g_events \<gamma>) V (mp_promise T p)"
    unfolding knows_def
  proof (intro allI impI)
    fix n assume n: "n < length (g_events \<gamma>)" and e: "g_events \<gamma> ! n \<in> mp_promise T p"
    have "n \<in> seen (g_hist \<gamma>) j"
    proof (cases "g_events \<gamma> ! n \<in> events_upto (mp_consumers T) (p - 2 ^ mp_bits T)")
      case True
      then show ?thesis using knowsD [OF k n] by simp
    next
      case False
      then have "g_events \<gamma> ! n \<in> {Wrote p, Published p, Read_By 0 p}" using e by (auto simp: mp_promise_def)
      then show ?thesis by (rule mp_slot_known [OF wf c n]) simp
    qed
    then show "n \<in> V" by (simp add: V_def)
  qed
  then have known: "knows (g_events \<gamma>') V (mp_promise T p)"
    by (simp add: \<gamma>' knows_snoc V_def mp_events_length [OF inv])
  note step = mp_publish_step [OF wf data m room cell \<sigma>' refl]
  show g: "guar (mp_protocol T) j (\<sigma>, \<gamma>) (\<sigma>', \<gamma>')"
  proof (rule mp_step [OF wf inv step])
    show "\<gamma>' = \<gamma>\<lparr>g_ent := (g_ent \<gamma>)(mp_slot T p := p)\<rparr>
        \<lparr>g_hist := record_access j (Stored j (Elem (mp_entries T) (mp_slot T p)) (seq_at p) False V) (g_hist \<gamma>),
         g_events := g_events \<gamma> @ [Published p]\<rparr>" by (simp add: \<gamma>' store_def V_def)
    show "mp_entry T \<gamma>' (Published p) (Stored j (Elem (mp_entries T) (mp_slot T p)) (seq_at p) False V)"
      using known m by (simp add: \<gamma>' mp_mine_def mp_pubd_def)
  qed (use m in \<open>auto simp: \<sigma>' fun_eq_iff mp_mine_def only_sees_def\<close>)
  have inv': "mp_inv T (\<sigma>', \<gamma>')" using mp.guar_inv [OF g] inv by simp
  have other: "mp_cleared T j i y (\<sigma>', \<gamma>')" if cy: "mp_cleared T j i y (\<sigma>, \<gamma>)" and "y \<noteq> p" for i y
  proof (rule mp_cleared_stable [OF wf cy])
    show "mp_holding T j i y (\<sigma>', \<gamma>')"
      using cy inv' mp_slots_apart [OF wf c cy \<open>y \<noteq> p\<close>]
      by (simp add: mp_cleared_def mp_holding_def mp_mine_def mp_pubd_def \<gamma>')
  qed (use m in \<open>auto simp: \<gamma>' goes_on_snoc mp_mine_def store_def\<close>)
  have "mp_written T j (y + d) y (\<sigma>', \<gamma>')" if y: "p + 1 \<le> y" "y < q + 1" for y
  proof -
    have "mp_written T j (y + d) y (\<sigma>, \<gamma>)" using b y by (simp add: mp_batch_def)
    then show ?thesis using other [of "y + d" y] y by (simp add: mp_written_def \<sigma>')
  qed
  with b other inv' show "mp_batch T j d (p + 1) q (q + 1) (\<sigma>', \<gamma>')" by (simp add: mp_batch_def mp_producing_def \<gamma>')
qed

text \<open>
  Publishing never fails its assertion: the entry holds the position one buffer before, and the
  relaxed load can return nothing older, for the producer knows of that store.
\<close>

lemma mp_safely_store:
  assumes wf: "mp_well_arranged T" and b: "mp_batch T j d p q (q + 1) s" and le: "p \<le> q" and h: "holds_mutexes j {} (fst s)"
    and post: "\<And>s. mp_batch T j d (p + 1) q (q + 1) s \<Longrightarrow> holds_mutexes j {} (fst s) \<Longrightarrow> Q () s"
  shows "weakly_safe g_hist (mp_protocol T) j (do_act (Store Release (Elem (mp_entries T) (mp_slot T p)) (seq_at p)) (Return ())) Q s"
  unfolding weakly_safe_store
proof (intro allI impI conjI)
  fix \<sigma> \<gamma> assume r: "rely (mp_protocol T) j s (\<sigma>, \<gamma>)"
  have b: "mp_batch T j d p q (q + 1) (\<sigma>, \<gamma>)" using mp_batch_rely [OF wf b] r by simp
  have h: "holds_mutexes j {} \<sigma>" using mp_holds_mutexes_rely [OF h] r by fastforce
  have c: "mp_cleared T j (p + d) p (\<sigma>, \<gamma>)" using b le by (simp add: mp_batch_def)
  show "ordered j (Store Release (Elem (mp_entries T) (mp_slot T p)) (seq_at p) :: 'a act) (g_hist \<gamma>)"
    by (rule mp_entry_known(1) [OF wf c])
  show "okay (mp_protocol T) j (Store Release (Elem (mp_entries T) (mp_slot T p)) (seq_at p)) (\<sigma>, \<gamma>)"
    using c by (auto simp: mp_cleared_def mp_holding_def)
  define \<sigma>' where "\<sigma>' = put (Elem (mp_entries T) (mp_slot T p)) (seq_at p) \<sigma>"
  define \<gamma>' where "\<gamma>' = \<gamma>\<lparr>g_ent := (g_ent \<gamma>)(mp_slot T p := p),
    g_hist := store j Release (Elem (mp_entries T) (mp_slot T p)) (seq_at p) (g_hist \<gamma>),
    g_events := g_events \<gamma> @ [Published p]\<rparr>"
  note step = mp_batch_publish [OF wf b le \<sigma>'_def \<gamma>'_def]
  have "weakly_safe g_hist (mp_protocol T) j (Return ()) Q (\<sigma>', \<gamma>')"
    using post [OF step(2)] h by (simp add: \<sigma>'_def holds_mutexes_def)
  then show "\<exists>\<gamma>'. g_hist \<gamma>' = store j Release (Elem (mp_entries T) (mp_slot T p)) (seq_at p) (g_hist \<gamma>) \<and>
      guar (mp_protocol T) j (\<sigma>, \<gamma>) (put (Elem (mp_entries T) (mp_slot T p)) (seq_at p) \<sigma>, \<gamma>') \<and>
      weakly_safe g_hist (mp_protocol T) j (Return ()) Q (put (Elem (mp_entries T) (mp_slot T p)) (seq_at p) \<sigma>, \<gamma>')"
    using step(1) unfolding \<sigma>'_def by (intro exI [of _ \<gamma>'] conjI) (simp_all add: \<gamma>'_def)
qed

lemma mp_safely_set_published:
  assumes wf: "mp_well_arranged T" and cs: "mp_strategy T W cs"
    and s: "mp_batch T j d p q (q + 1) s" "holds_mutexes j {} (fst s)" and le: "p \<le> q"
    and post: "\<And>s. mp_batch T j d (p + 1) q (q + 1) s \<Longrightarrow> holds_mutexes j {} (fst s) \<Longrightarrow> Q () s"
  shows "weakly_safe g_hist (mp_protocol T) j (mt_set_published cs (seq_at p)) Q s"
proof -
  have bits: "mp_bits T < 64" using wf by (simp add: mp_well_arranged_def)
  let ?e = "Elem (mp_entries T) (mp_slot T p)"
  have e: "mt_entry cs (seq_at p) = ?e" using cs bits by (rule mp_entry_slot)
  have m: "seq_at p - mt_bufferSize cs = seq_at (p - 2 ^ mp_bits T)"
    using cs bits by (simp add: mp_strategy_def seq_at_sub_word uint_2_power)
  show ?thesis
    unfolding mt_set_published_def e m
  proof (rule mp.safely_load, intro conjI allI impI)
    fix \<sigma> \<gamma> assume r: "rely (mp_protocol T) j s (\<sigma>, \<gamma>)"
    have b: "mp_batch T j d p q (q + 1) (\<sigma>, \<gamma>)" using mp_batch_rely [OF wf s(1)] r by simp
    have h: "holds_mutexes j {} \<sigma>" using mp_holds_mutexes_rely [OF s(2)] r by fastforce
    have c: "mp_cleared T j (p + d) p (\<sigma>, \<gamma>)" using b le by (simp add: mp_batch_def)
    then have inv: "mp_inv T (\<sigma>, \<gamma>)" and mine: "mp_mine T \<gamma> j p" and room: "mp_room T \<gamma> p"
      by (simp_all add: mp_cleared_def mp_holding_def)
    have data: "mp_data T (\<sigma>, \<gamma>)" using inv by (simp add: mp_inv_def)
    show "invar (mp_protocol T) (\<sigma>, \<gamma>)" "okay (mp_protocol T) j (Load Relaxed ?e) (\<sigma>, \<gamma>)" using inv by simp_all
    fix k assume "visible j (g_hist \<gamma>) ?e k"
    then have k: "k = 0" by (rule mp_entry_known(2) [OF wf c])
    have "nth_value (g_hist \<gamma>) ?e 0 = mem \<sigma> ?e" using inv by (simp add: mp_inv_def coherent_def)
    then have v: "nth_value (g_hist \<gamma>) ?e k = seq_at (p - 2 ^ mp_bits T)"
      using data mp_slot_less [of T p] mp_mine_entry [OF wf data mine room] by (simp add: mp_data_def k)
    define \<gamma>' where "\<gamma>' = \<gamma>\<lparr>g_hist := look j Relaxed ?e k (g_hist \<gamma>)\<rparr>"
    have inv': "mp_inv T (\<sigma>, \<gamma>')" unfolding \<gamma>'_def by (rule mp_inv_sync [OF inv refl refl only_sees_look])
    have "mp_cleared T j i y (\<sigma>, \<gamma>')" if cy: "mp_cleared T j i y (\<sigma>, \<gamma>)" for i y
    proof (rule mp_cleared_stable [OF wf cy])
      show "mp_holding T j i y (\<sigma>, \<gamma>')" using cy inv' by (simp add: mp_cleared_def mp_holding_def \<gamma>'_def)
    qed (auto simp: \<gamma>'_def goes_on_refl seen_look)
    then have b': "mp_batch T j d p q (q + 1) (\<sigma>, \<gamma>')"
      using b inv' by (simp add: mp_batch_def mp_written_def mp_producing_def \<gamma>'_def)
    have h': "holds_mutexes j {} (fst (\<sigma>, \<gamma>'))" using h by simp
    show "weakly_safe g_hist (mp_protocol T) j (assert (nth_value (g_hist \<gamma>) ?e k = seq_at (p - 2 ^ mp_bits T))
        (do_act (Store Release ?e (seq_at p)) (Return ()))) Q (\<sigma>, \<gamma>\<lparr>g_hist := look j Relaxed ?e k (g_hist \<gamma>)\<rparr>)"
      using mp_safely_store [OF wf b' le h', of Q] post v by (simp add: \<gamma>'_def assert_def)
  qed
qed

lemma mp_safely_signal:
  assumes W: "wait_strategy_model W" and s: "mp_producing T j i s" "holds_mutexes j {} (fst s)"
    and post: "\<And>s. mp_producing T j i s \<Longrightarrow> holds_mutexes j {} (fst s) \<Longrightarrow> Q () s"
  shows "weakly_safe g_hist (mp_protocol T) j (ws_signal_all_when_blocking W) Q s"
  using s post by (intro mp.safely_waiting [OF wait_strategy_model.signal_waits_only [OF W] _ s
      mp_producer_waiting(1), where K = "\<lambda>_ _ _ _. True"]) (auto simp: mp.stable_waiting_def mp_producing_def)

lemma mp_safely_publish:
  assumes wf: "mp_well_arranged T" and W: "wait_strategy_model W" and cs: "mp_strategy T W cs"
    and s: "mp_batch T j d p p (p + 1) s" "holds_mutexes j {} (fst s)"
    and post: "\<And>s. mp_producing T j (p + 1 + d) s \<Longrightarrow> holds_mutexes j {} (fst s) \<Longrightarrow> Q () s"
  shows "weakly_safe g_hist (mp_protocol T) j (mt_publish cs (seq_at p)) Q s"
proof -
  have w: "mt_waitStrategy cs = W" using cs by (simp add: mp_strategy_def)
  show ?thesis
    unfolding mt_publish_def weakly_safe_bind w
    by (intro mp_safely_set_published [OF wf cs s]) (auto simp: mp_batch_def intro!: mp_safely_signal [OF W] post)
qed

section \<open>The loop of a producer\<close>

lemma mp_safely_producer_loop:
  fixes T :: "(64 word) multi_arrangement"
  assumes wf: "mp_well_arranged T" and W: "wait_strategy_model W" and cs: "mp_strategy T W cs"
    and buffer: "rb_mask buffer = 2 ^ mp_bits T - 1" "rb_data buffer = mp_array T"
    and items: "mp_item T = word_of_int"
    and j: "j \<in> mp_producers T" and quota: "mp_quota T = uint iterationCount"
    and "i \<le> iterationCount" and "mp_producing T j (uint i) s" and "holds_mutexes j {} (fst s)"
    and post: "\<And>s. mp_producing T j (mp_quota T) s \<Longrightarrow> Q () s"
  shows "weakly_safe g_hist (mp_protocol T) j (mt_producer_loop n cs buffer iterationCount i) Q s"
  using assms(9-11)
proof (induction "unat iterationCount - unat i" arbitrary: i s rule: less_induct)
  case less
  note prems = less.prems
  show ?case
  proof (cases "i < iterationCount")
    case False
    then have "i = iterationCount" using prems(1) by simp
    then show ?thesis using prems(2) post quota by (simp add: mt_producer_loop.simps)
  next
    case True
    have up: "uint (i + 1) = uint i + 1" "i + 1 \<le> iterationCount"
      using arg_cong [OF unat_plus_1 [OF True], of int] inc_le [OF True] by simp_all
    have q: "uint i < mp_quota T" using True quota by (simp add: word_less_def)
    have "weakly_safe g_hist (mp_protocol T) j (mt_claim_one n cs) (\<lambda>seq. weakly_safe g_hist (mp_protocol T) j
        (buffer_write buffer seq i (bind (mt_publish cs seq) (\<lambda>_. mt_producer_loop n cs buffer iterationCount (i + 1)))) Q) s"
    proof (rule mp_safely_claim_one [OF wf W cs j q prems(2,3)])
      fix s1 p assume s1: "mp_batch T j (uint i - p) p p p s1" "holds_mutexes j {} (fst s1)"
      show "weakly_safe g_hist (mp_protocol T) j (buffer_write buffer (seq_at p) i
          (bind (mt_publish cs (seq_at p)) (\<lambda>_. mt_producer_loop n cs buffer iterationCount (i + 1)))) Q s1"
      proof (rule mp_safely_buffer_write [OF wf buffer s1 order_refl order_refl])
        show "i = mp_item T (p + (uint i - p))" by (simp add: items)
        fix s2 assume s2: "mp_batch T j (uint i - p) p p (p + 1) s2" "holds_mutexes j {} (fst s2)"
        have "weakly_safe g_hist (mp_protocol T) j (mt_publish cs (seq_at p))
            (\<lambda>_. weakly_safe g_hist (mp_protocol T) j (mt_producer_loop n cs buffer iterationCount (i + 1)) Q) s2"
        proof (rule mp_safely_publish [OF wf W cs s2])
          fix s3 assume "mp_producing T j (p + 1 + (uint i - p)) s3" "holds_mutexes j {} (fst s3)"
          then show "weakly_safe g_hist (mp_protocol T) j (mt_producer_loop n cs buffer iterationCount (i + 1)) Q s3"
            using up unat_count_up [OF True] by (intro less.hyps) (simp_all add: algebra_simps)
        qed
        then show "weakly_safe g_hist (mp_protocol T) j (bind (mt_publish cs (seq_at p))
            (\<lambda>_. mt_producer_loop n cs buffer iterationCount (i + 1))) Q s2" by (simp add: weakly_safe_bind)
      qed
    qed
    then show ?thesis
      using True by (simp add: mt_producer_loop.simps [of n cs buffer iterationCount i] weakly_safe_bind)
  qed
qed

end
