(* ===== verification/Multi_Producer_Setup.thy ===== *)
theory Multi_Producer_Setup
  imports Single_Producer_Setup Multi_Producer_Producers
begin

text \<open>
  The set-up of the benchmarks on the multi-threaded claim strategy: what their set-up code
  leaves behind, and that the threads it starts are producers and consumers arranged as the
  protocol of theory Multi_Producer has them.
\<close>

section \<open>The objects of the benchmarks\<close>

text \<open>
  The claim counter is \<open>Cell 0\<close>, the arrays have number 0, consumer \<open>c\<close> has its barrier in
  \<open>Cell (f c)\<close>.
\<close>

definition mp_arranged :: "nat \<Rightarrow> int \<Rightarrow> nat set \<Rightarrow> nat set \<Rightarrow> (nat \<Rightarrow> nat set) \<Rightarrow> nat set \<Rightarrow> (nat \<Rightarrow> nat) \<Rightarrow>
    (64 word) multi_arrangement" where
  "mp_arranged k q producers consumers upstream gates f =
     \<lparr>mp_bits = k, mp_array = 0, mp_entries = 0, mp_counter = Cell 0, mp_barrier = (\<lambda>c. Cell (f c)),
      mp_consumers = consumers, mp_upstream = upstream, mp_gates = gates, mp_producers = producers, mp_quota = q,
      mp_item = word_of_int\<rparr>"

lemma mp_arranged_select [simp]:
  "mp_bits (mp_arranged k q P C up G f) = k" "mp_array (mp_arranged k q P C up G f) = 0"
  "mp_entries (mp_arranged k q P C up G f) = 0" "mp_counter (mp_arranged k q P C up G f) = Cell 0"
  "mp_barrier (mp_arranged k q P C up G f) = (\<lambda>c. Cell (f c))" "mp_consumers (mp_arranged k q P C up G f) = C"
  "mp_upstream (mp_arranged k q P C up G f) = up" "mp_gates (mp_arranged k q P C up G f) = G"
  "mp_producers (mp_arranged k q P C up G f) = P" "mp_quota (mp_arranged k q P C up G f) = q"
  "mp_item (mp_arranged k q P C up G f) = word_of_int" "mp_total (mp_arranged k q P C up G f) = int (card P) * q"
  by (simp_all add: mp_arranged_def mp_total_def)

text \<open>The claim strategy after the set-up.\<close>

definition new_multi :: "nat \<Rightarrow> 'd wait_strategy \<Rightarrow> nat list \<Rightarrow> 'd multi_claim" where
  "new_multi k W gates = \<lparr>mt_indexMask = 2 ^ k - 1, mt_bufferSize = 2 ^ k, mt_waitStrategy = W,
     mt_claimBarrier = \<lparr>sbg_waitStrategy = W, sbg_sequences = map Cell gates\<rparr>,
     mt_published = 0, mt_nextClaimable = Cell 0\<rparr>"

text \<open>The ghost state at the start: nothing claimed, each entry holds its position one buffer before.\<close>

definition no_claims :: "nat \<Rightarrow> 'd mach \<Rightarrow> claims" where
  "no_claims k \<sigma> = \<lparr>g_next = 0, g_own = (\<lambda>_. 0), g_idx = (\<lambda>_. 0), g_ent = (\<lambda>i. int i - 2 ^ k),
     g_got = (\<lambda>_. 0), g_cnt = (\<lambda>_. 0), g_hist = fresh \<sigma>, g_events = []\<rparr>"

lemma hist_no_claims [simp]: "g_hist (no_claims k \<sigma>) = fresh \<sigma>"
  by (simp add: no_claims_def)

lemma mp_inv_start:
  assumes "mem \<sigma> (mp_counter T) = 0"
    and "\<And>i. i < 2 ^ mp_bits T \<Longrightarrow> mem \<sigma> (Elem (mp_entries T) i) = seq_at (int i - 2 ^ mp_bits T)"
    and "\<And>c. c \<in> mp_consumers T \<Longrightarrow> mem \<sigma> (mp_barrier T c) = - 1" and "0 \<le> mp_quota T"
  shows "mp_inv T (\<sigma>, no_claims (mp_bits T) \<sigma>)"
proof -
  let ?k = "mp_bits T"
  have "mp_slot T (int i - 2 ^ ?k) = i" if "i < 2 ^ ?k" for i
    using that by (simp add: mp_slot_def nat_eq_iff)
  moreover have "\<not> mp_pubd T (no_claims ?k \<sigma>) p" if "0 \<le> p" for p
  proof -
    have "p mod 2 ^ ?k < 2 ^ ?k" by simp
    with that have "p mod 2 ^ ?k - 2 ^ ?k < p" by linarith
    then show ?thesis by (simp add: mp_pubd_def no_claims_def mp_slot_def)
  qed
  moreover have "int i < 2 * 2 ^ ?k" "int i < 2 ^ ?k" if "i < 2 ^ ?k" for i
  proof -
    show "int i < 2 ^ ?k" using that by simp
    moreover have "0 < (2 :: int) ^ ?k" by simp
    ultimately show "int i < 2 * 2 ^ ?k" by linarith
  qed
  ultimately have "mp_data T (\<sigma>, no_claims ?k \<sigma>)"
    using assms by (auto simp: mp_data_def no_claims_def mp_claimed_def seq_at_minus_1 seq_at_0 bij_betw_def)
  moreover have "mp_history T (no_claims ?k \<sigma>)"
    using assms by (simp add: mp_history_def no_claims_def seq_at_minus_1)
  ultimately show ?thesis by (simp add: mp_inv_def coherent_fresh)
qed

section \<open>Setting up\<close>

text \<open>The entries of \<open>m_published\<close> from \<open>i\<close> on after their initialisation.\<close>

definition init_entries :: "size_t \<Rightarrow> nat \<Rightarrow> nat \<Rightarrow> 'd mach \<Rightarrow> 'd mach" where
  "init_entries bufferSize array i \<sigma> = \<sigma>\<lparr>mem := (\<lambda>a. case a of
     Cell c \<Rightarrow> mem \<sigma> a
   | Elem b x \<Rightarrow> if b = array \<and> i \<le> x \<and> x < unat bufferSize then of_nat x - bufferSize else mem \<sigma> a)\<rparr>"

lemma init_entries_simps [simp]:
  "mem (init_entries N array i \<sigma>) (Cell c) = mem \<sigma> (Cell c)" "owner (init_entries N array i \<sigma>) = owner \<sigma>"
  "waiting (init_entries N array i \<sigma>) = waiting \<sigma>"
  "mem (init_entries N array i \<sigma>) (Elem array x) =
     (if i \<le> x \<and> x < unat N then of_nat x - N else mem \<sigma> (Elem array x))"
  by (simp_all add: init_entries_def)

lemma init_entries_step:
  assumes "i < N"
  shows "init_entries N array (unat (i + 1)) (put (Elem array (unat i)) (i - N) \<sigma>) = init_entries N array (unat i) \<sigma>"
proof -
  have u: "unat (i + 1) = Suc (unat i)" using unat_plus_1 [OF assms] by simp
  have "unat i < unat N" using assms by (simp add: word_less_nat_alt)
  then show ?thesis
    by (auto simp: init_entries_def put_def u fun_eq_iff split: addr.splits)
qed

lemma run_mt_init_published:
  "\<exists>l. run t alone (mt_init_published N array i) j \<sigma> = (Returned (), init_entries N array (unat i) \<sigma>, l)"
proof (induction "unat N - unat i" arbitrary: i j \<sigma> rule: less_induct)
  case less
  show ?case
  proof (cases "i < N")
    case True
    obtain l where "run t alone (mt_init_published N array (i + 1)) (Suc j) (put (Elem array (unat i)) (i - N) \<sigma>) =
        (Returned (), init_entries N array (unat (i + 1)) (put (Elem array (unat i)) (i - N) \<sigma>), l)"
      using less.hyps [OF unat_count_up [OF True]] by blast
    then show ?thesis
      by (subst mt_init_published.simps) (simp add: True do_act_def init_entries_step)
  next
    case False
    then have "unat N \<le> unat i" by (simp add: not_less word_le_nat_alt)
    then have "mem (init_entries N array (unat i) \<sigma>) = mem \<sigma>"
      by (auto simp: init_entries_def fun_eq_iff split: addr.splits)
    then have "init_entries N array (unat i) \<sigma> = \<sigma>" by (cases \<sigma>) (simp add: init_entries_def)
    then show ?thesis using False by (subst mt_init_published.simps) simp
  qed
qed

lemma run_new_multi_claim:
  assumes "run t alone (bind (new_multi_claim n W 0 (Cell 0)) f) i \<sigma> = (Returned x, \<sigma>', l)"
  obtains k j l' where "k < 64" "n = 2 ^ k"
    "run t alone (f (new_multi k W [])) j (init_entries n 0 0 (put (Cell 0) 0 \<sigma>)) = (Returned x, \<sigma>', l')"
proof -
  have p: "power_of_two n" using assms
    by (auto simp: new_multi_claim_def do_act_def assert_def power_of_two_def split: prod.splits if_splits)
  then obtain k where k: "k < 64" "n = 2 ^ k" by (auto simp: power_of_two_iff)
  obtain l1 where l1: "run t alone (mt_init_published n 0 0) (Suc i) (put (Cell 0) 0 \<sigma>) =
      (Returned (), init_entries n 0 0 (put (Cell 0) 0 \<sigma>), l1)"
    using run_mt_init_published [of t n 0 0 "Suc i" "put (Cell 0) 0 \<sigma>"] by auto
  have "new_multi_claim n W 0 (Cell 0) = do_act (Init (Cell 0) 0)
      (bind (mt_init_published n 0 0) (\<lambda>_. Return (new_multi k W [])))"
    using p k by (simp add: new_multi_claim_def assert_def power_of_two_def new_multi_def new_sequence_barrier_group_def)
  with assms have "run t alone (bind (mt_init_published n 0 0) (\<lambda>_. f (new_multi k W []))) (Suc i)
      (put (Cell 0) 0 \<sigma>) = (Returned x, \<sigma>', tl l)"
    by (auto simp: do_act_def bind_assoc split: prod.splits)
  then obtain l2 where "run t alone (f (new_multi k W [])) (Suc i + length l1)
      (init_entries n 0 0 (put (Cell 0) 0 \<sigma>)) = (Returned x, \<sigma>', l2)"
    by (auto simp: run_bind [OF l1] split: prod.splits)
  with k show thesis by (intro that) auto
qed

lemma mt_add_claim_barrier_new:
  "mt_add_claim_barrier (new_multi k W gates) (new_barrier_at W (Cell g)) = Return (new_multi k W (gates @ [g]))"
  by (simp add: mt_add_claim_barrier_def group_add_barrier_def assert_def new_multi_def new_barrier_at_def)

text \<open>The machine after the construction of the claim strategy.\<close>

lemma mem_init_entries:
  assumes "k < 64"
  shows "mem (init_entries (2 ^ k) 0 0 (put (Cell 0) 0 \<sigma>)) (Cell 0) = 0"
    and "i < 2 ^ k \<Longrightarrow> mem (init_entries (2 ^ k) 0 0 (put (Cell 0) 0 \<sigma>)) (Elem 0 i) = seq_at (int i - 2 ^ k)"
  using assms unat_2_power [of k] by (simp_all add: mem_put seq_at_def)

text \<open>The machine after the construction of the claim strategy and \<open>m\<close> barriers.\<close>

lemma mem_mt_init:
  fixes \<sigma> :: "'d mach" and m :: nat
  assumes "k < 64"
  defines "\<sigma>0 \<equiv> init_barriers [0..<m] (init_entries (2 ^ k) 0 0 (put (Cell 0) 0 \<sigma>))"
  shows "mem \<sigma>0 (Cell 0) = 0" "i < 2 ^ k \<Longrightarrow> mem \<sigma>0 (Elem 0 i) = seq_at (int i - 2 ^ k)"
    and "0 < c \<Longrightarrow> c \<le> m \<Longrightarrow> mem \<sigma>0 (Cell c) = - 1" "owner \<sigma>0 = owner \<sigma>" "waiting \<sigma>0 = waiting \<sigma>"
proof -
  have "Cell c \<in> (\<lambda>x. Cell (Suc x)) ` {0..<m}" if "0 < c" "c \<le> m" using that by (cases c) auto
  then show "0 < c \<Longrightarrow> c \<le> m \<Longrightarrow> mem \<sigma>0 (Cell c) = - 1" by (auto simp: mem_init_barriers \<sigma>0_def)
qed (use mem_init_entries [OF assms(1), where \<sigma> = \<sigma>] in \<open>auto simp: mem_init_barriers \<sigma>0_def\<close>)

text \<open>The set-ups, when they return; sequencer, unicast and the test have the same.\<close>

definition mt_one_consumer :: "'d wait_strategy \<Rightarrow> size_t \<Rightarrow>
    ('d, 'd multi_claim \<times> 'd sequence_barrier \<times> ring_buffer) prog" where
  "mt_one_consumer W bufferSize =
     bind (new_multi_claim bufferSize W 0 (Cell 0)) (\<lambda>claimStrategy.
       bind (new_sequence_barrier W (Cell 1)) (\<lambda>consumed.
       bind (mt_add_claim_barrier claimStrategy consumed) (\<lambda>claimStrategy.
       bind (new_ring_buffer bufferSize 0) (\<lambda>buffer.
         Return (claimStrategy, consumed, buffer)))))"

lemma mt_one_consumer: "sequencer_setup = mt_one_consumer" "unicast_mt_setup = mt_one_consumer" "multi_test_setup = mt_one_consumer"
  by (simp_all add: fun_eq_iff mt_one_consumer_def sequencer_setup_def unicast_mt_setup_def multi_test_setup_def)

lemma mt_one_consumer_returns:
  assumes "run 0 alone (mt_one_consumer W bufferSize) 0 \<sigma> = (Returned objects, \<sigma>0, l)" and "bufferSize \<le> 2 ^ 62"
  obtains k where "bufferSize = 2 ^ k" "k \<le> 62"
    "objects = (new_multi k W [1], new_barrier_at W (Cell 1), new_buffer k)"
    "\<sigma>0 = init_barriers [0..<1] (init_entries (2 ^ k) 0 0 (put (Cell 0) 0 \<sigma>))"
proof -
  obtain k j l' where k: "k < 64" "bufferSize = 2 ^ k" and
    r: "run 0 alone (bind (new_sequence_barrier W (Cell 1)) (\<lambda>consumed.
       bind (mt_add_claim_barrier (new_multi k W []) consumed) (\<lambda>claimStrategy.
       bind (new_ring_buffer bufferSize 0) (\<lambda>buffer.
         Return (claimStrategy, consumed, buffer))))) j
       (init_entries bufferSize 0 0 (put (Cell 0) 0 \<sigma>)) = (Returned objects, \<sigma>0, l')"
    using assms(1) unfolding mt_one_consumer_def by (rule run_new_multi_claim)
  then show thesis
    using assms(2) small_bits [of k] that [of k]
    by (simp add: run_new_sequence_barrier mt_add_claim_barrier_new [where g = 1, simplified] new_ring_buffer_power)
qed

lemma run_multicast_mt_barriers:
  "\<exists>l. run t alone (multicast_mt_barriers W is (new_multi k W gates)) i \<sigma> =
     (Returned (new_multi k W (gates @ map Suc is), map (\<lambda>i. new_barrier_at W (Cell (Suc i))) is),
      init_barriers is \<sigma>, l)"
proof (induction "is" arbitrary: gates i \<sigma>)
  case (Cons j js)
  obtain l where l: "run t alone (multicast_mt_barriers W js (new_multi k W (gates @ [Suc j]))) (Suc i)
      (put (Cell (Suc j)) (- 1) \<sigma>) =
    (Returned (new_multi k W ((gates @ [Suc j]) @ map Suc js), map (\<lambda>i. new_barrier_at W (Cell (Suc i))) js),
      init_barriers js (put (Cell (Suc j)) (- 1) \<sigma>), l)"
    using Cons.IH by blast
  show ?case by (simp add: run_new_sequence_barrier mt_add_claim_barrier_new run_bind [OF l])
qed simp

lemma multicast_mt_setup_returns:
  assumes "run 0 alone (multicast_mt_setup W bufferSize m) 0 \<sigma> = (Returned objects, \<sigma>0, l)" "bufferSize \<le> 2 ^ 62"
  obtains k where "bufferSize = 2 ^ k" "k \<le> 62"
    "objects = (new_multi k W (map Suc [0..<m]), map (\<lambda>i. new_barrier_at W (Cell (Suc i))) [0..<m], new_buffer k)"
    "\<sigma>0 = init_barriers [0..<m] (init_entries (2 ^ k) 0 0 (put (Cell 0) 0 \<sigma>))"
proof -
  obtain k j l' where k: "k < 64" "bufferSize = 2 ^ k" and
    r: "run 0 alone (bind (new_ring_buffer bufferSize 0) (\<lambda>buffer.
     bind (multicast_mt_barriers W [0..<m] (new_multi k W [])) (\<lambda>(claimStrategy, consumedBarriers).
       Return (claimStrategy, consumedBarriers, buffer)))) j
       (init_entries bufferSize 0 0 (put (Cell 0) 0 \<sigma>)) = (Returned objects, \<sigma>0, l')"
    using assms(1) unfolding multicast_mt_setup_def by (rule run_new_multi_claim)
  obtain l2 where l2: "run 0 alone (multicast_mt_barriers W [0..<m] (new_multi k W [])) j
      (init_entries (2 ^ k) 0 0 (put (Cell 0) 0 \<sigma>)) =
     (Returned (new_multi k W ([] @ map Suc [0..<m]), map (\<lambda>i. new_barrier_at W (Cell (Suc i))) [0..<m]),
      init_barriers [0..<m] (init_entries (2 ^ k) 0 0 (put (Cell 0) 0 \<sigma>)), l2)"
    using run_multicast_mt_barriers by blast
  show thesis
    using assms(2) r k small_bits [of k] that [of k] by (simp add: new_ring_buffer_power run_bind [OF l2])
qed

lemma pipeline_mt_setup_returns:
  assumes "run 0 alone (pipeline_mt_setup W bufferSize m) 0 \<sigma> = (Returned objects, \<sigma>0, l)" "bufferSize \<le> 2 ^ 62" "0 < m"
  obtains k where "bufferSize = 2 ^ k" "k \<le> 62"
    "objects = (new_multi k W [m], map (\<lambda>i. new_barrier_at W (Cell (Suc i))) [0..<m], new_buffer k)"
    "\<sigma>0 = init_barriers [0..<m] (init_entries (2 ^ k) 0 0 (put (Cell 0) 0 \<sigma>))"
proof -
  obtain k j l' where k: "k < 64" "bufferSize = 2 ^ k" and
    r: "run 0 alone (bind (new_ring_buffer bufferSize 0) (\<lambda>buffer.
     bind (pipeline_barriers W [0..<m]) (\<lambda>consumedBarriers.
     bind (mt_add_claim_barrier (new_multi k W []) (last consumedBarriers)) (\<lambda>claimStrategy.
       Return (claimStrategy, consumedBarriers, buffer))))) j
       (init_entries bufferSize 0 0 (put (Cell 0) 0 \<sigma>)) = (Returned objects, \<sigma>0, l')"
    using assms(1) unfolding pipeline_mt_setup_def by (rule run_new_multi_claim)
  obtain l2 where l2: "run 0 alone (pipeline_barriers W [0..<m]) j (init_entries (2 ^ k) 0 0 (put (Cell 0) 0 \<sigma>)) =
     (Returned (map (\<lambda>i. new_barrier_at W (Cell (Suc i))) [0..<m]),
      init_barriers [0..<m] (init_entries (2 ^ k) 0 0 (put (Cell 0) 0 \<sigma>)), l2)"
    using run_pipeline_barriers by blast
  have "last (map (\<lambda>i. new_barrier_at W (Cell (Suc i))) [0..<m]) = new_barrier_at W (Cell m)"
    using assms(3) by (simp add: last_map)
  then show thesis
    using assms(2) r k small_bits [of k] that [of k]
    by (simp add: new_ring_buffer_power run_bind [OF l2] mt_add_claim_barrier_new)
qed

lemma diamond_mt_setup_returns:
  assumes "run 0 alone (diamond_mt_setup W bufferSize m) 0 \<sigma> = (Returned objects, \<sigma>0, l)" "bufferSize \<le> 2 ^ 62" "0 < m"
  obtains k where "bufferSize = 2 ^ k" "k \<le> 62"
    "objects = (new_multi k W [m], map (\<lambda>i. new_barrier_at W (Cell (Suc i))) [0..<m],
      \<lparr>sbg_waitStrategy = W, sbg_sequences = map Cell [1..<m]\<rparr>, new_buffer k)"
    "\<sigma>0 = init_barriers [0..<m] (init_entries (2 ^ k) 0 0 (put (Cell 0) 0 \<sigma>))"
proof -
  obtain k j l' where k: "k < 64" "bufferSize = 2 ^ k" and
    r: "run 0 alone (bind (new_ring_buffer bufferSize 0) (\<lambda>buffer.
     bind (diamond_barriers W m [0..<m] (new_sequence_barrier_group W)) (\<lambda>(parallelConsumers, consumedBarriers).
     bind (mt_add_claim_barrier (new_multi k W []) (last consumedBarriers)) (\<lambda>claimStrategy.
       Return (claimStrategy, consumedBarriers, parallelConsumers, buffer))))) j
       (init_entries bufferSize 0 0 (put (Cell 0) 0 \<sigma>)) = (Returned objects, \<sigma>0, l')"
    using assms(1) unfolding diamond_mt_setup_def by (rule run_new_multi_claim)
  obtain l2 where l2: "run 0 alone (diamond_barriers W m [0..<m] (new_sequence_barrier_group W)) j
      (init_entries (2 ^ k) 0 0 (put (Cell 0) 0 \<sigma>)) =
     (Returned (\<lparr>sbg_waitStrategy = W, sbg_sequences = map Cell [1..<m]\<rparr>,
        map (\<lambda>i. new_barrier_at W (Cell (Suc i))) [0..<m]),
      init_barriers [0..<m] (init_entries (2 ^ k) 0 0 (put (Cell 0) 0 \<sigma>)), l2)"
    using run_all_diamond_barriers [OF assms(3)] by blast
  have "last (map (\<lambda>i. new_barrier_at W (Cell (Suc i))) [0..<m]) = new_barrier_at W (Cell m)"
    using assms(3) by (simp add: last_map)
  then show thesis
    using assms(2) r k small_bits [of k] that [of k]
    by (simp add: new_ring_buffer_power run_bind [OF l2] mt_add_claim_barrier_new)
qed

section \<open>The threads at their start\<close>

text \<open>
  Threads \<open>P\<close> are producers, threads \<open>C\<close> consumers that wait for what is upstream of them, or else
  for the producers, and nothing has been claimed.
\<close>

definition mp_started :: "nat \<Rightarrow> nat set \<Rightarrow> nat set \<Rightarrow> (nat \<Rightarrow> nat set) \<Rightarrow> nat list \<Rightarrow> (nat \<Rightarrow> nat) \<Rightarrow>
    (64 word) wait_strategy \<Rightarrow> nat \<Rightarrow> 64 word \<Rightarrow> (64 word, (64 word) option) pool \<Rightarrow> bool" where
  "mp_started k P C up gates f W n iterationCount c \<longleftrightarrow>
     mp_well_arranged (mp_arranged k (uint iterationCount) P C up (set gates) f) \<and> gates \<noteq> [] \<and>
     (\<forall>i \<in> C. \<forall>u \<in> up i. u < i) \<and>
     mem (fst c) (Cell 0) = 0 \<and> (\<forall>i < 2 ^ k. mem (fst c) (Elem 0 i) = seq_at (int i - 2 ^ k)) \<and>
     (\<forall>i \<in> C. mem (fst c) (Cell (f i)) = - 1) \<and> owner (fst c) = (\<lambda>_. None) \<and>
     (\<forall>j \<in> P. snd c j = mt_producer n (new_multi k W (map f gates)) (new_buffer k) iterationCount) \<and>
     (\<forall>i \<in> C. \<exists>wait.
       snd c i = consumer n wait (new_buffer k) (new_barrier_at W (Cell (f i))) (of_nat (card P) * iterationCount) \<and>
       (if up i = {}
        then wait = (\<lambda>nextToRead. mt_wait_until_published n (new_multi k W (map f gates)) nextToRead (nextToRead - 1))
        else \<exists>as. library_wait W n wait as \<and> set as = (\<lambda>u. Cell (f u)) ` up i)) \<and>
     (\<forall>t. t \<notin> P \<union> C \<longrightarrow> snd c t = Return None)"

text \<open>An arrangement of consumers for one producer on the single-threaded strategy serves as well.\<close>

lemma mp_well_arranged_arranged:
  assumes "well_arranged (arranged k (uint c) m up gates)" and "uint c < 2 ^ 62" and "0 < m"
  shows "mp_well_arranged (mp_arranged k (uint c) {0} {1..m} up gates (\<lambda>c. c))"
proof -
  have "mp_downstream (mp_arranged k (uint c) {0} {1..m} up gates (\<lambda>c. c)) = downstream (arranged k (uint c) m up gates)"
    by (simp add: mp_downstream_def downstream_def)
  then show ?thesis using assms by (auto simp: mp_well_arranged_def well_arranged_def)
qed

lemma sequencer_started:
  assumes "run 0 alone (sequencer_setup W bufferSize) 0 \<sigma> = (Returned objects, \<sigma>0, l)" "bufferSize \<le> 2 ^ 62"
    and "owner \<sigma> = (\<lambda>_. None)" "uint producerCount * uint iterationCount < 2 ^ 62"
  obtains k where "bufferSize = 2 ^ k" "k \<le> 62" "waiting \<sigma>0 = waiting \<sigma>"
    "mp_started k {1..unat producerCount} {0} (\<lambda>_. {}) [0] (\<lambda>_. 1) W n iterationCount
      (\<sigma>0, sequencer_threads n objects iterationCount producerCount)"
proof -
  obtain k where k: "bufferSize = 2 ^ k" "k \<le> 62"
    and o: "objects = (new_multi k W [1], new_barrier_at W (Cell 1), new_buffer k)"
    and \<sigma>0: "\<sigma>0 = init_barriers [0..<1] (init_entries (2 ^ k) 0 0 (put (Cell 0) 0 \<sigma>))"
    using assms(1,2) unfolding mt_one_consumer by (rule mt_one_consumer_returns)
  note mem = mem_mt_init [where k = k and m = 1 and \<sigma> = \<sigma>, folded \<sigma>0]
  have "mp_started k {1..unat producerCount} {0} (\<lambda>_. {}) [0] (\<lambda>_. 1) W n iterationCount
      (\<sigma>0, sequencer_threads n objects iterationCount producerCount)"
    using k(2) mem assms(3,4)
    by (auto simp: mp_started_def mp_well_arranged_def sequencer_threads_def o mult.commute)
  with k mem(5) show thesis by (intro that) auto
qed

lemma unicast_mt_started:
  assumes "run 0 alone (unicast_mt_setup W bufferSize) 0 \<sigma> = (Returned objects, \<sigma>0, l)" "bufferSize \<le> 2 ^ 62"
    and "owner \<sigma> = (\<lambda>_. None)" "uint iterationCount < 2 ^ 62"
  obtains k where "bufferSize = 2 ^ k" "k \<le> 62" "waiting \<sigma>0 = waiting \<sigma>"
    "mp_started k {0} {1..1} (\<lambda>_. {}) [1] (\<lambda>c. c) W n iterationCount (\<sigma>0, unicast_mt_threads n objects iterationCount)"
proof -
  obtain k where k: "bufferSize = 2 ^ k" "k \<le> 62"
    and o: "objects = (new_multi k W [1], new_barrier_at W (Cell 1), new_buffer k)"
    and \<sigma>0: "\<sigma>0 = init_barriers [0..<1] (init_entries (2 ^ k) 0 0 (put (Cell 0) 0 \<sigma>))"
    using assms(1,2) unfolding mt_one_consumer by (rule mt_one_consumer_returns)
  note mem = mem_mt_init [where k = k and m = 1 and \<sigma> = \<sigma>, folded \<sigma>0]
  have "mp_well_arranged (mp_arranged k (uint iterationCount) {0} {1..1} (\<lambda>_. {}) {1} (\<lambda>c. c))"
    using well_arranged_multicast [OF k(2), of iterationCount 1] assms(4)
    by (intro mp_well_arranged_arranged) simp_all
  then have "mp_started k {0} {1..1} (\<lambda>_. {}) [1] (\<lambda>c. c) W n iterationCount (\<sigma>0, unicast_mt_threads n objects iterationCount)"
    using k(2) mem assms(3) by (simp add: mp_started_def unicast_mt_threads_def o)
  with k mem(5) show thesis by (intro that) auto
qed

lemma multicast_mt_started:
  assumes "run 0 alone (multicast_mt_setup W bufferSize m) 0 \<sigma> = (Returned objects, \<sigma>0, l)" "bufferSize \<le> 2 ^ 62"
    and "owner \<sigma> = (\<lambda>_. None)" "0 < m" "uint iterationCount < 2 ^ 62"
  obtains k where "bufferSize = 2 ^ k" "k \<le> 62" "waiting \<sigma>0 = waiting \<sigma>"
    "mp_started k {0} {1..m} (\<lambda>_. {}) (map Suc [0..<m]) (\<lambda>c. c) W n iterationCount
      (\<sigma>0, multicast_mt_threads n objects iterationCount)"
proof -
  obtain k where k: "bufferSize = 2 ^ k" "k \<le> 62"
    and o: "objects = (new_multi k W (map Suc [0..<m]), map (\<lambda>i. new_barrier_at W (Cell (Suc i))) [0..<m], new_buffer k)"
    and \<sigma>0: "\<sigma>0 = init_barriers [0..<m] (init_entries (2 ^ k) 0 0 (put (Cell 0) 0 \<sigma>))"
    using assms(1,2) by (rule multicast_mt_setup_returns)
  note mem = mem_mt_init [where k = k and m = m and \<sigma> = \<sigma>, folded \<sigma>0]
  have "set (map Suc [0..<m]) = {1..m}"
    by (simp add: image_Suc_atLeastLessThan atLeastLessThanSuc_atLeastAtMost)
  moreover have "mp_well_arranged (mp_arranged k (uint iterationCount) {0} {1..m} (\<lambda>_. {}) {1..m} (\<lambda>c. c))"
    using well_arranged_multicast [OF k(2), of iterationCount m] assms(4,5) by (intro mp_well_arranged_arranged)
  ultimately have "mp_started k {0} {1..m} (\<lambda>_. {}) (map Suc [0..<m]) (\<lambda>c. c) W n iterationCount
      (\<sigma>0, multicast_mt_threads n objects iterationCount)"
    using k(2) mem assms(3,4) by (auto simp: mp_started_def multicast_mt_threads_def o barrier_nth)
  with k mem(5) show thesis by (intro that) auto
qed

lemma pipeline_mt_started:
  assumes "run 0 alone (pipeline_mt_setup W bufferSize m) 0 \<sigma> = (Returned objects, \<sigma>0, l)" "bufferSize \<le> 2 ^ 62"
    and "owner \<sigma> = (\<lambda>_. None)" "0 < m" "uint iterationCount < 2 ^ 62"
  obtains k where "bufferSize = 2 ^ k" "k \<le> 62" "waiting \<sigma>0 = waiting \<sigma>"
    "mp_started k {0} {1..m} pipeline_upstream [m] (\<lambda>c. c) W n iterationCount
      (\<sigma>0, pipeline_mt_threads n objects iterationCount)"
proof -
  obtain k where k: "bufferSize = 2 ^ k" "k \<le> 62"
    and o: "objects = (new_multi k W [m], map (\<lambda>i. new_barrier_at W (Cell (Suc i))) [0..<m], new_buffer k)"
    and \<sigma>0: "\<sigma>0 = init_barriers [0..<m] (init_entries (2 ^ k) 0 0 (put (Cell 0) 0 \<sigma>))"
    using assms(1,2,4) by (rule pipeline_mt_setup_returns)
  note mem = mem_mt_init [where k = k and m = m and \<sigma> = \<sigma>, folded \<sigma>0]
  have wait: "\<exists>as. library_wait W n (barrier_wait_until_published n
      (map (\<lambda>i. new_barrier_at W (Cell (Suc i))) [0..<m] ! (i - 2))) as \<and> set as = Cell ` {i - 1}"
    if "i \<in> {1..m}" "i \<noteq> 1" for i
    using that library_wait_barrier [of W n "Cell (i - 1)"]
    by (intro exI [of _ "[Cell (i - 1)]"]) (simp add: earlier_barrier_nth)
  have "mp_well_arranged (mp_arranged k (uint iterationCount) {0} {1..m} pipeline_upstream {m} (\<lambda>c. c))"
    using well_arranged_pipeline [OF k(2) assms(4), of iterationCount] assms(5,4) by (rule mp_well_arranged_arranged)
  then have "mp_started k {0} {1..m} pipeline_upstream [m] (\<lambda>c. c) W n iterationCount
      (\<sigma>0, pipeline_mt_threads n objects iterationCount)"
    using k(2) mem assms(3,4) wait
    by (auto simp: mp_started_def pipeline_mt_threads_def pipeline_upstream_def o barrier_nth)
  with k mem(5) show thesis by (intro that) auto
qed

lemma diamond_mt_started:
  assumes "run 0 alone (diamond_mt_setup W bufferSize m) 0 \<sigma> = (Returned objects, \<sigma>0, l)" "bufferSize \<le> 2 ^ 62"
    and "owner \<sigma> = (\<lambda>_. None)" "1 < m" "uint iterationCount < 2 ^ 62"
  obtains k where "bufferSize = 2 ^ k" "k \<le> 62" "waiting \<sigma>0 = waiting \<sigma>"
    "mp_started k {0} {1..m} (diamond_upstream m) [m] (\<lambda>c. c) W n iterationCount
      (\<sigma>0, diamond_mt_threads n objects iterationCount)"
proof -
  have pos: "0 < m" using assms(4) by simp
  obtain k where k: "bufferSize = 2 ^ k" "k \<le> 62"
    and o: "objects = (new_multi k W [m], map (\<lambda>i. new_barrier_at W (Cell (Suc i))) [0..<m],
      \<lparr>sbg_waitStrategy = W, sbg_sequences = map Cell [1..<m]\<rparr>, new_buffer k)"
    and \<sigma>0: "\<sigma>0 = init_barriers [0..<m] (init_entries (2 ^ k) 0 0 (put (Cell 0) 0 \<sigma>))"
    using assms(1,2) pos by (rule diamond_mt_setup_returns)
  note mem = mem_mt_init [where k = k and m = m and \<sigma> = \<sigma>, folded \<sigma>0]
  have wait: "\<exists>as. library_wait W n (group_wait_until_published n
      \<lparr>sbg_waitStrategy = W, sbg_sequences = map Cell [1..<m]\<rparr>) as \<and> set as = Cell ` {1..<m}"
    using assms(4) library_wait_group [of "map Cell [1..<m]" W n] by (intro exI [of _ "map Cell [1..<m]"]) simp
  have "mp_well_arranged (mp_arranged k (uint iterationCount) {0} {1..m} (diamond_upstream m) {m} (\<lambda>c. c))"
    using well_arranged_diamond [OF k(2) pos, of iterationCount] assms(5) pos by (rule mp_well_arranged_arranged)
  then have "mp_started k {0} {1..m} (diamond_upstream m) [m] (\<lambda>c. c) W n iterationCount
      (\<sigma>0, diamond_mt_threads n objects iterationCount)"
    using k(2) mem assms(3,4) wait
    by (auto simp: mp_started_def diamond_mt_threads_def diamond_upstream_def o barrier_nth)
  with k mem(5) show thesis by (intro that) auto
qed

end
