(* ===== verification/Multi_Producer_Benchmarks.thy ===== *)
theory Multi_Producer_Benchmarks
  imports Single_Producer_Benchmarks Multi_Producer_Setup
begin

text \<open>
  The benchmarks on the multi-threaded claim strategy: sequencer, where several producers
  share it, and unicast, multicast, pipeline and diamond, which are run with either claim
  strategy.  In every execution that the memory orders of the code allow, no assertion fails,
  among them the one of \<open>set_published\<close>, there is no data race, and every consumer that ends has
  the sum of all items of all producers.
\<close>

section \<open>The sums\<close>

lemma fold_items_sum:
  "0 \<le> n \<Longrightarrow> fold_items (+) (0 :: 64 word) (\<lambda>p. word_of_int (h p)) n = word_of_int (\<Sum>p \<in> {0..<n}. h p)"
proof (induction n rule: int_ge_induct)
  case (step n)
  have "{0..<n + 1} = insert n {0..<n}" using step.hyps by auto
  then show ?case using step by (simp add: fold_items_Suc)
qed simp

lemma sum_below: "0 \<le> q \<Longrightarrow> (\<Sum>i \<in> {0..<q}. i) = q * (q - 1) div 2" for q :: int
proof (induction q rule: int_ge_induct)
  case (step q)
  have "{0..<q + 1} = insert q {0..<q}" using step.hyps by auto
  moreover have "(q + 1) * q div 2 = q + q * (q - 1) div 2"
  proof -
    have "(q + 1) * q = q * (q - 1) + q * 2" by (simp add: algebra_simps)
    then show ?thesis by simp
  qed
  ultimately show ?case using step by simp
qed simp

text \<open>All positions claimed: each producer has put the items \<open>0\<close> to \<open>mp_quota - 1\<close>.\<close>

lemma mp_items_sum:
  assumes wf: "mp_well_arranged T" and cl: "mp_claimed T \<gamma>" and all: "g_next \<gamma> = mp_total T"
  shows "fold_items (+) (0 :: 64 word) (\<lambda>p. word_of_int (g_idx \<gamma> p)) (mp_total T) =
    word_of_int (int (card (mp_producers T)) * (mp_quota T * (mp_quota T - 1) div 2))"
proof -
  have fin: "finite (mp_producers T)" and q: "0 \<le> mp_quota T" using wf by (simp_all add: mp_well_arranged_def)
  have bij: "bij_betw (\<lambda>p. (g_own \<gamma> p, g_idx \<gamma> p)) {0..<mp_total T} (SIGMA j : mp_producers T. {0..<g_cnt \<gamma> j})"
    using cl all by (simp add: mp_claimed_def)
  have "(\<Sum>p \<in> {0..<mp_total T}. g_idx \<gamma> p) = (\<Sum>p \<in> {0..<mp_total T}. snd (g_own \<gamma> p, g_idx \<gamma> p))" by simp
  also have "\<dots> = (\<Sum>x \<in> (SIGMA j : mp_producers T. {0..<g_cnt \<gamma> j}). snd x)"
    using bij by (rule sum.reindex_bij_betw)
  also have "\<dots> = (\<Sum>j \<in> mp_producers T. \<Sum>i \<in> {0..<g_cnt \<gamma> j}. i)"
    using fin by (subst sum.Sigma) (auto simp: case_prod_unfold)
  also have "\<dots> = (\<Sum>j \<in> mp_producers T. mp_quota T * (mp_quota T - 1) div 2)"
    using mp_next_bound(2) [OF wf cl all] q by (intro sum.cong) (simp_all add: sum_below)
  finally have "(\<Sum>p \<in> {0..<mp_total T}. g_idx \<gamma> p) =
      int (card (mp_producers T)) * (mp_quota T * (mp_quota T - 1) div 2)" by simp
  moreover have "0 \<le> mp_total T" using q by (simp add: mp_total_def)
  ultimately show ?thesis by (simp add: fold_items_sum)
qed

section \<open>From the threads to the pool\<close>

text \<open>
  A pool so started has the invariant of the protocol, every thread of it is safe, a producer
  that ends has claimed its quota, and a consumer can only return the sum of all items.
\<close>

definition mp_result :: "nat set \<Rightarrow> 64 word \<Rightarrow> (64 word) option" where
  "mp_result P iterationCount =
     Some (word_of_int (int (card P) * (uint iterationCount * (uint iterationCount - 1) div 2)))"

definition mp_outcome :: "nat set \<Rightarrow> nat set \<Rightarrow> 64 word \<Rightarrow> nat \<Rightarrow> (64 word) option \<Rightarrow> (64 word) mach \<times> claims \<Rightarrow> bool" where
  "mp_outcome P C iterationCount t x s \<longleftrightarrow> (t \<in> C \<longrightarrow> x = mp_result P iterationCount) \<and>
     (t \<in> P \<longrightarrow> g_cnt (snd s) t = uint iterationCount)"

lemma mp_outcome_rely: "mp_outcome P C n t x s \<Longrightarrow> mp_rely T t s s' \<Longrightarrow> mp_outcome P C n t x s'"
  by (simp add: mp_outcome_def mp_rely_def mp_evolves_def)

lemma mp_started_inv:
  assumes st: "mp_started k P C up gates f W n iterationCount (\<sigma>0, ps0)"
    and T: "T = mp_arranged k (uint iterationCount) P C up (set gates) f"
  shows "mp_well_arranged T" "mp_inv T (\<sigma>0, no_claims k \<sigma>0)" "holds_mutexes t {} (fst (\<sigma>0, no_claims k \<sigma>0))"
    and "mp_strategy T W (new_multi k W (map f gates))" "t \<in> P \<Longrightarrow> t \<notin> C"
    and "rb_mask (new_buffer k) = 2 ^ mp_bits T - 1" "rb_data (new_buffer k) = mp_array T"
proof -
  show "mp_inv T (\<sigma>0, no_claims k \<sigma>0)" using st mp_inv_start [of \<sigma>0 T] by (auto simp: mp_started_def T)
  show "mp_strategy T W (new_multi k W (map f gates))" using st by (auto simp: mp_strategy_def mp_started_def T new_multi_def)
  show wf: "mp_well_arranged T" using st by (simp add: mp_started_def T)
  then show "t \<in> P \<Longrightarrow> t \<notin> C" by (auto simp: mp_well_arranged_def T)
  show "holds_mutexes t {} (fst (\<sigma>0, no_claims k \<sigma>0))" using st by (simp add: mp_started_def holds_mutexes_def)
qed (simp_all add: new_buffer_def T)

lemma mp_started_producer:
  assumes st: "mp_started k P C up gates f W n iterationCount (\<sigma>0, ps0)" and W: "wait_strategy_model W"
    and T: "T = mp_arranged k (uint iterationCount) P C up (set gates) f" and t: "t \<in> P"
  shows "weakly_safe g_hist (mp_protocol T) t (ps0 t) (mp_outcome P C iterationCount t) (\<sigma>0, no_claims k \<sigma>0)"
proof -
  note start = mp_started_inv [OF st T]
  have "weakly_safe g_hist (mp_protocol T) t (mt_producer_loop n (new_multi k W (map f gates)) (new_buffer k) iterationCount 0)
      (\<lambda>x. weakly_safe g_hist (mp_protocol T) t (Return None) (mp_outcome P C iterationCount t)) (\<sigma>0, no_claims k \<sigma>0)"
    by (rule mp_safely_producer_loop [OF start(1) W start(4,6,7) _ _ _ _ _ start(3)])
      (use start(2) start(5) [OF t] t in \<open>simp_all add: T mp_producing_def no_claims_def mp_outcome_def\<close>)
  then show ?thesis using t st by (simp add: mp_started_def mt_producer_def weakly_safe_bind)
qed

text \<open>A consumer that has read all positions has the sum.\<close>

lemma mp_items_outcome:
  assumes wf: "mp_well_arranged T" and T: "T = mp_arranged k (uint iterationCount) P C up gates f"
    and inv: "mp_inv T s" and t: "t \<in> C" "t \<notin> P" and got: "g_got (snd s) t = mp_total T"
  shows "mp_outcome P C iterationCount t (Some (fold_items (+) 0 (\<lambda>p. mp_item T (g_idx (snd s) p)) (mp_total T))) s"
proof -
  obtain \<sigma> \<gamma> where s: "s = (\<sigma>, \<gamma>)" by (cases s)
  have data: "mp_data T (\<sigma>, \<gamma>)" and cl: "mp_claimed T \<gamma>" using inv s by (simp_all add: mp_inv_def mp_data_def)
  have "t \<in> mp_consumers T" using t(1) by (simp add: T)
  then have "g_next \<gamma> = mp_total T"
    using mp_got_le_next(2) [OF data] mp_next_bound(1) [OF wf cl] got s by fastforce
  from mp_items_sum [OF wf cl this] show ?thesis
    using t(2) by (simp add: mp_outcome_def mp_result_def s) (simp add: T)
qed

lemma mp_started_consumer:
  assumes st: "mp_started k P C up gates f W n iterationCount (\<sigma>0, ps0)" and W: "wait_strategy_model W"
    and T: "T = mp_arranged k (uint iterationCount) P C up (set gates) f" and t: "t \<in> C"
  shows "weakly_safe g_hist (mp_protocol T) t (ps0 t) (mp_outcome P C iterationCount t) (\<sigma>0, no_claims k \<sigma>0)"
proof -
  note start = mp_started_inv [OF st T]
  have c: "t \<in> mp_consumers T" and notP: "t \<notin> P" using t start(5) by (auto simp: T)
  obtain wait where
    ps: "ps0 t = consumer n wait (new_buffer k) (new_barrier_at W (Cell (f t))) (of_nat (card P) * iterationCount)"
    and w: "if up t = {}
      then wait = (\<lambda>nextToRead. mt_wait_until_published n (new_multi k W (map f gates)) nextToRead (nextToRead - 1))
      else \<exists>as. library_wait W n wait as \<and> set as = (\<lambda>u. Cell (f u)) ` up t"
    using st t unfolding mp_started_def snd_conv by blast
  have wait: "mp_wait T W n t wait"
  proof (cases "up t = {}")
    case True
    then show ?thesis using w start(4) unfolding mp_wait_def by (auto simp: T)
  next
    case False
    then obtain as where "library_wait W n wait as" "set as = (\<lambda>u. Cell (f u)) ` up t" using w by auto
    then have "waits_for wait as" "set as = mp_barrier T ` mp_upstream T t"
      using wait_strategy_model.waits_for_library [OF W] by (simp_all add: T)
    then show ?thesis using False unfolding mp_wait_def by (auto simp: T)
  qed
  have items: "of_nat (card P) * iterationCount = of_int (mp_total T)" by (simp add: T)
  have "weakly_safe g_hist (mp_protocol T) t (consume_loop n wait (+) (new_buffer k) (new_barrier_at W (Cell (f t))) 0
      (of_int (mp_total T)) 0) (\<lambda>x. weakly_safe g_hist (mp_protocol T) t (Return (Some x)) (mp_outcome P C iterationCount t))
      (\<sigma>0, no_claims k \<sigma>0)"
    by (rule mp_safely_consume_loop [OF start(1) c W wait start(6,7) _ _ start(2) _ start(3)])
      (use mp_items_outcome [OF start(1) T _ t notP] in \<open>simp_all add: new_barrier_at_def T no_claims_def\<close>)
  then show ?thesis by (simp add: ps consumer_def weakly_safe_bind items)
qed

lemma mp_started_safely:
  assumes st: "mp_started k P C up gates f W n iterationCount (\<sigma>0, ps0)" and W: "wait_strategy_model W"
    and T: "T = mp_arranged k (uint iterationCount) P C up (set gates) f"
  shows "mp_inv T (\<sigma>0, no_claims k \<sigma>0)"
    and "weakly_safe g_hist (mp_protocol T) t (ps0 t) (mp_outcome P C iterationCount t) (\<sigma>0, no_claims k \<sigma>0)"
proof -
  show "mp_inv T (\<sigma>0, no_claims k \<sigma>0)" by (rule mp_started_inv(2) [OF st T])
  show "weakly_safe g_hist (mp_protocol T) t (ps0 t) (mp_outcome P C iterationCount t) (\<sigma>0, no_claims k \<sigma>0)"
  proof (cases "t \<in> P \<union> C")
    case True
    then show ?thesis using mp_started_producer [OF st W T] mp_started_consumer [OF st W T] by blast
  next
    case False
    then show ?thesis using st by (simp add: mp_started_def mp_outcome_def)
  qed
qed

lemma mp_started_safe:
  assumes "mp_started k P C up gates f W n iterationCount (\<sigma>0, ps0)" and "wait_strategy_model W"
    and "T = mp_arranged k (uint iterationCount) P C up (set gates) f"
  shows "mp_inv T (\<sigma>0, no_claims k \<sigma>0)"
    and "safe (mp_protocol T) t (ps0 t) (mp_outcome P C iterationCount t) (\<sigma>0, no_claims k \<sigma>0)"
  using mp_started_safely [OF assms] weakly_safe_safe by blast+

lemma mp_started_weakly_sound:
  assumes "mp_started k P C up gates f W n iterationCount (\<sigma>0, ps0)" and "wait_strategy_model W"
    and "weak_run ((\<sigma>0, fresh \<sigma>0), ps0) ((\<sigma>, \<omega>), ps)"
  shows "sound_pool C (mp_result P iterationCount) ps \<and> race_free \<omega> ps"
proof (rule weak_race_free_protocol.weak_sound_run [OF mp_race_free])
  let ?T = "mp_arranged k (uint iterationCount) P C up (set gates) f"
  show "mp_well_arranged ?T" using assms(1) by (simp add: mp_started_def)
  note start = mp_started_safely [OF assms(1,2) refl]
  show "weak_run ((\<sigma>0, g_hist (no_claims k \<sigma>0)), ps0) ((\<sigma>, \<omega>), ps)" using assms(3) by simp
  show "invar (mp_protocol ?T) (\<sigma>0, no_claims k \<sigma>0)" using start(1) by simp
  show "weakly_safe g_hist (mp_protocol ?T) t (ps0 t) (\<lambda>x s. t \<in> C \<longrightarrow> x = mp_result P iterationCount)
      (\<sigma>0, no_claims k \<sigma>0)" for t
    using start(2) by (rule weakly_safe_conseq) (simp add: mp_outcome_def)
qed

lemma mp_started_sound:
  assumes "mp_started k P C up gates f W n iterationCount (\<sigma>0, ps0)" and "wait_strategy_model W"
    and "pool_run (\<sigma>0, ps0) (\<sigma>, ps)"
  shows "sound_pool C (mp_result P iterationCount) ps"
  using mp_started_weakly_sound [OF assms(1,2)] pool_run_weak_run [OF assms(3), of "fresh \<sigma>0"] by auto

lemma mp_result_one: "uint c * (uint c - 1) < 2 ^ 64 \<Longrightarrow> mp_result {t} c = Some (expectedResult c)"
  by (simp add: mp_result_def expectedResult_sum)

section \<open>Runs to completion\<close>

lemmas run_mt_thread_defs = sequencer_threads_def unicast_mt_threads_def multicast_mt_threads_def
  pipeline_mt_threads_def diamond_mt_threads_def barrier_wait_until_published_def barrier_last_published_def
  mt_producer_def consumer_def mt_producer_loop.simps mt_claim_one_def mt_publish_def mt_set_published_def
  group_wait_until_published_def minimum_sequence_after_def difference_def
  mt_wait_until_published_def mt_wait_loop.simps mt_is_published_def mt_entry_def mt_last_published_after_def
  barrier_publish_def buffer_write_def buffer_read_def buffer_slot_def
  read_batch.simps spin_wait_strategy_def spin_signal_all_when_blocking_def prog_defs
  new_multi_def new_barrier_at_def new_buffer_def

text \<open>The machine after the set-up with buffer size \<open>2 ^ k\<close> and \<open>m\<close> barriers.\<close>

definition mt_set_up :: "nat \<Rightarrow> nat \<Rightarrow> (64 word) mach" where
  "mt_set_up k m = init_barriers [0..<m] (init_entries (2 ^ k) 0 0 (put (Cell 0) 0 (at_rest 0)))"

lemma run_new_multi_claim_ok:
  assumes "k < 64"
  shows "\<exists>l. run t alone (new_multi_claim (2 ^ k) W 0 (Cell 0)) i \<sigma> =
    (Returned (new_multi k W []), init_entries (2 ^ k) 0 0 (put (Cell 0) 0 \<sigma>), l)"
proof -
  obtain l1 where l1: "run t alone (mt_init_published (2 ^ k) 0 0) (Suc i) (put (Cell 0) 0 \<sigma>) =
      (Returned (), init_entries (2 ^ k) 0 0 (put (Cell 0) 0 \<sigma>), l1)"
    using run_mt_init_published [of t "2 ^ k" 0 0 "Suc i" "put (Cell 0) 0 \<sigma>"] by auto
  have "power_of_two (2 ^ k)" using assms by (auto simp: power_of_two_iff)
  then show ?thesis
    by (simp add: new_multi_claim_def do_act_def assert_def power_of_two_def new_multi_def
        new_sequence_barrier_group_def run_bind [OF l1])
qed

lemma multi_setup_run:
  assumes "k < 64"
  shows "\<exists>l. run 0 alone (mt_one_consumer W (2 ^ k)) 0 (at_rest 0) =
      (Returned (new_multi k W [1], new_barrier_at W (Cell 1), new_buffer k), mt_set_up k 1, l)"
    and "\<exists>l. run 0 alone (multicast_mt_setup W (2 ^ k) m) 0 (at_rest 0) =
      (Returned (new_multi k W (map Suc [0..<m]), map (\<lambda>i. new_barrier_at W (Cell (Suc i))) [0..<m], new_buffer k),
       mt_set_up k m, l)"
    and "0 < m \<Longrightarrow> \<exists>l. run 0 alone (pipeline_mt_setup W (2 ^ k) m) 0 (at_rest 0) =
      (Returned (new_multi k W [m], map (\<lambda>i. new_barrier_at W (Cell (Suc i))) [0..<m], new_buffer k),
       mt_set_up k m, l)"
    and "0 < m \<Longrightarrow> \<exists>l. run 0 alone (diamond_mt_setup W (2 ^ k) m) 0 (at_rest 0) =
      (Returned (new_multi k W [m], map (\<lambda>i. new_barrier_at W (Cell (Suc i))) [0..<m],
         \<lparr>sbg_waitStrategy = W, sbg_sequences = map Cell [1..<m]\<rparr>, new_buffer k), mt_set_up k m, l)"
proof -
  define \<sigma>1 where "\<sigma>1 = init_entries (2 ^ k) 0 0 (put (Cell 0) 0 (at_rest (0 :: 64 word)))"
  obtain l where l: "run 0 alone (new_multi_claim (2 ^ k) W 0 (Cell 0)) 0 (at_rest 0) =
      (Returned (new_multi k W []), \<sigma>1, l)"
    using run_new_multi_claim_ok [OF assms] unfolding \<sigma>1_def by blast
  note simps = run_bind [OF l] run_new_sequence_barrier mt_add_claim_barrier_new
    mt_add_claim_barrier_new [where g = 1, simplified] new_ring_buffer_power [OF assms] mt_set_up_def \<sigma>1_def [symmetric]
  show "\<exists>l. run 0 alone (mt_one_consumer W (2 ^ k)) 0 (at_rest 0) =
      (Returned (new_multi k W [1], new_barrier_at W (Cell 1), new_buffer k), mt_set_up k 1, l)"
    by (simp add: mt_one_consumer_def simps)
  obtain l2 where l2: "run 0 alone (multicast_mt_barriers W [0..<m] (new_multi k W [])) (length l) \<sigma>1 =
     (Returned (new_multi k W ([] @ map Suc [0..<m]), map (\<lambda>i. new_barrier_at W (Cell (Suc i))) [0..<m]),
      init_barriers [0..<m] \<sigma>1, l2)"
    using run_multicast_mt_barriers by blast
  show "\<exists>l. run 0 alone (multicast_mt_setup W (2 ^ k) m) 0 (at_rest 0) =
      (Returned (new_multi k W (map Suc [0..<m]), map (\<lambda>i. new_barrier_at W (Cell (Suc i))) [0..<m], new_buffer k),
       mt_set_up k m, l)"
    by (simp add: multicast_mt_setup_def simps run_bind [OF l2])
  assume m: "0 < m"
  have last: "last (map (\<lambda>i. new_barrier_at W (Cell (Suc i))) [0..<m]) = new_barrier_at W (Cell m)"
    using m by (simp add: last_map)
  obtain l3 where l3: "run 0 alone (pipeline_barriers W [0..<m]) (length l) \<sigma>1 =
     (Returned (map (\<lambda>i. new_barrier_at W (Cell (Suc i))) [0..<m]), init_barriers [0..<m] \<sigma>1, l3)"
    using run_pipeline_barriers by blast
  show "\<exists>l. run 0 alone (pipeline_mt_setup W (2 ^ k) m) 0 (at_rest 0) =
      (Returned (new_multi k W [m], map (\<lambda>i. new_barrier_at W (Cell (Suc i))) [0..<m], new_buffer k),
       mt_set_up k m, l)"
    by (simp add: pipeline_mt_setup_def simps run_bind [OF l3] last)
  obtain l4 where l4: "run 0 alone (diamond_barriers W m [0..<m] (new_sequence_barrier_group W)) (length l) \<sigma>1 =
     (Returned (\<lparr>sbg_waitStrategy = W, sbg_sequences = map Cell [1..<m]\<rparr>,
        map (\<lambda>i. new_barrier_at W (Cell (Suc i))) [0..<m]), init_barriers [0..<m] \<sigma>1, l4)"
    using run_all_diamond_barriers [OF m] by blast
  show "\<exists>l. run 0 alone (diamond_mt_setup W (2 ^ k) m) 0 (at_rest 0) =
      (Returned (new_multi k W [m], map (\<lambda>i. new_barrier_at W (Cell (Suc i))) [0..<m],
         \<lparr>sbg_waitStrategy = W, sbg_sequences = map Cell [1..<m]\<rparr>, new_buffer k), mt_set_up k m, l)"
    by (simp add: diamond_mt_setup_def simps run_bind [OF l4] last)
qed

lemma unicast_mt_run:
  fixes W :: "(64 word) wait_strategy" defines "W \<equiv> spin_wait_strategy 7"
  obtains \<sigma> ps where
    "pool_exec [(0, 0), (0, 0), (0, 0), (0, 0), (0, 0), (1, 0), (1, 0), (1, 0), (1, 0)]
       (mt_set_up 0 1, unicast_mt_threads (Suc 0) (new_multi 0 W [1], new_barrier_at W (Cell 1), new_buffer 0) 1) = Some (\<sigma>, ps)"
    "ps 1 = Return (Some 0)"
  unfolding W_def
  by (simp_all add: run_mt_thread_defs mt_set_up_def mem_put)

lemma multicast_mt_run:
  fixes W :: "(64 word) wait_strategy" defines "W \<equiv> spin_wait_strategy 7"
  obtains \<sigma> ps where
    "pool_exec [(0, 0), (0, 0), (0, 0), (0, 0), (0, 0), (0, 0), (1, 0), (2, 0), (2, 0), (1, 0), (1, 0), (2, 0), (1, 0), (2, 0)]
       (mt_set_up 0 2, multicast_mt_threads (Suc 0)
         (new_multi 0 W [1, 2], map (\<lambda>c. new_barrier_at W (Cell c)) [1, 2], new_buffer 0) 1) = Some (\<sigma>, ps)"
    "ps 1 = Return (Some 0)" "ps 2 = Return (Some 0)"
  unfolding W_def by (simp_all add: run_mt_thread_defs mt_set_up_def mem_put upt_rec numeral_2_eq_2)

lemma pipeline_mt_run:
  fixes W :: "(64 word) wait_strategy" defines "W \<equiv> spin_wait_strategy 7"
  obtains \<sigma> ps where
    "pool_exec [(0, 0), (0, 0), (0, 0), (0, 0), (0, 0), (1, 0), (1, 0), (1, 0), (1, 0), (2, 0), (2, 0), (2, 0)]
       (mt_set_up 0 2, pipeline_mt_threads (Suc 0)
         (new_multi 0 W [2], map (\<lambda>c. new_barrier_at W (Cell c)) [1, 2], new_buffer 0) 1) = Some (\<sigma>, ps)"
    "ps 1 = Return (Some 0)" "ps 2 = Return (Some 0)"
  unfolding W_def by (simp_all add: run_mt_thread_defs mt_set_up_def mem_put upt_rec numeral_2_eq_2)

lemma diamond_mt_run:
  fixes W :: "(64 word) wait_strategy" defines "W \<equiv> spin_wait_strategy 7"
  obtains \<sigma> ps where
    "pool_exec [(0, 0), (0, 0), (0, 0), (0, 0), (0, 0), (1, 0), (1, 0), (1, 0), (1, 0), (2, 0), (2, 0), (2, 0)]
       (mt_set_up 0 2, diamond_mt_threads (Suc 0)
         (new_multi 0 W [2], map (\<lambda>c. new_barrier_at W (Cell c)) [1, 2],
          \<lparr>sbg_waitStrategy = W, sbg_sequences = [Cell 1]\<rparr>, new_buffer 0) 1) = Some (\<sigma>, ps)"
    "ps 1 = Return (Some 0)" "ps 2 = Return (Some 0)"
  unfolding W_def by (simp_all add: run_mt_thread_defs mt_set_up_def mem_put upt_rec numeral_2_eq_2)

text \<open>Two producers take turns claiming; the second publishes first.\<close>

lemma sequencer_run:
  fixes W :: "(64 word) wait_strategy" defines "W \<equiv> spin_wait_strategy 7"
  obtains \<sigma> ps where
    "pool_exec [(1, 0), (2, 0), (1, 0), (2, 0), (2, 0), (2, 0), (2, 0), (1, 0), (1, 0), (1, 0),
        (1, 0), (2, 0), (1, 0), (2, 0), (2, 0), (2, 0), (2, 0), (1, 0), (1, 0), (1, 0),
        (0, 0), (0, 0), (0, 0), (0, 0), (0, 0), (0, 0), (0, 0), (0, 0), (0, 0), (0, 0)]
       (mt_set_up 2 1, sequencer_threads (Suc (Suc (Suc (Suc 0)))) (new_multi 2 W [1], new_barrier_at W (Cell 1), new_buffer 2) 2 2) = Some (\<sigma>, ps)"
    "ps 0 = Return (Some 2)"
  unfolding W_def by (simp_all add: run_mt_thread_defs mt_set_up_def mem_put)

section \<open>The benchmarks\<close>

text \<open>The result the benchmarks expect is the sum, as long as the products do not overflow.\<close>

lemma even_int_product: "2 dvd c * (c - 1)" for c :: int
  by simp

lemma sequencer_expectedResult_sum:
  assumes "uint p * (uint c * (uint c - 1)) < 2 ^ 64" and "p \<noteq> 0"
  shows "sequencer_expectedResult c p = word_of_int (uint p * (uint c * (uint c - 1) div 2))"
proof (cases "c = 0")
  case False
  then have "uint c \<noteq> 0" by (simp add: uint_0_iff)
  with uint_ge_0 [of c] have c: "1 \<le> uint c" by linarith
  have "uint p \<noteq> 0" using assms(2) by (simp add: uint_0_iff)
  with uint_ge_0 [of p] have p: "1 \<le> uint p" by linarith
  have "uint c < 2 ^ LENGTH(64)" by (rule uint_lt2p)
  then have u: "uint (c - 1) = uint c - 1"
    using c by (simp add: uint_word_ariths)
  have nn: "0 \<le> uint c * (uint c - 1)" using c by simp
  have "uint c * (uint c - 1) \<le> uint p * (uint c * (uint c - 1))"
    using mult_right_mono [OF p nn] by simp
  with assms(1) have lt: "uint c * (uint c - 1) < 2 ^ 64" by linarith
  have "uint (c * (c - 1)) = uint c * (uint c - 1)"
    using lt c u by (simp add: uint_word_ariths)
  then have "uint (p * (c * (c - 1))) = uint p * (uint c * (uint c - 1))"
    using assms(1) nn p by (simp add: uint_word_ariths)
  then have "sequencer_expectedResult c p = word_of_int (uint p * (uint c * (uint c - 1)) div 2)"
    by (simp add: sequencer_expectedResult_def word_div_def)
  also have "uint p * (uint c * (uint c - 1)) div 2 = uint p * (uint c * (uint c - 1) div 2)"
    by (rule div_mult_swap [OF even_int_product, symmetric])
  finally show ?thesis .
qed (simp add: sequencer_expectedResult_def)

text \<open>
  C5.  The sequencer benchmark: any number of producers share a multi-threaded claim strategy
  and one consumer reads their items, with either wait strategy.  In every execution on the weak
  machine no assertion fails (among them: the relaxed load of an entry of \<open>m_published\<close> always
  returns the position one buffer before the one being published), every access to a slot happens
  after those that it conflicts with, and the consumer, when it ends, has the sum of the items of
  all producers, each counted once.
\<close>

theorem sequencer_correct:
  assumes "W \<in> library_strategies" and "bufferSize \<le> 2 ^ 62" and "producerCount \<noteq> 0"
    and "uint producerCount * uint iterationCount < 2 ^ 62"
    and "uint producerCount * (uint iterationCount * (uint iterationCount - 1)) < 2 ^ 64"
    and "run 0 alone (sequencer_setup W bufferSize) 0 \<sigma> = (Returned objects, \<sigma>0, l)"
    and "owner \<sigma> = (\<lambda>_. None)"
    and "weak_run ((\<sigma>0, fresh \<sigma>0), sequencer_threads n objects iterationCount producerCount) ((\<sigma>', \<omega>), ps)"
  shows "sound_pool {0} (Some (sequencer_expectedResult iterationCount producerCount)) ps \<and> race_free \<omega> ps"
proof -
  obtain k where st: "mp_started k {1..unat producerCount} {0} (\<lambda>_. {}) [0] (\<lambda>_. 1) W n iterationCount
      (\<sigma>0, sequencer_threads n objects iterationCount producerCount)"
    using assms(6,2,7,4) by (rule sequencer_started)
  from mp_started_weakly_sound [OF st library_strategy_model [OF assms(1)] assms(8)] show ?thesis
    by (simp add: mp_result_def sequencer_expectedResult_sum [OF assms(5,3)])
qed

lemma sequencer_correct_witness:
  "\<exists>objects \<sigma>0 l \<sigma>' \<omega> ps.
     run 0 alone (sequencer_setup (spin_wait_strategy 7) 4) 0 (at_rest 0) = (Returned objects, \<sigma>0, l) \<and>
     weak_run ((\<sigma>0, fresh \<sigma>0), sequencer_threads (Suc (Suc (Suc (Suc 0)))) objects 2 2) ((\<sigma>', \<omega>), ps) \<and>
     ps 0 = Return (Some 2) \<and> sound_pool {0} (Some (sequencer_expectedResult 2 2)) ps \<and> race_free \<omega> ps"
proof -
  let ?threads = "sequencer_threads (Suc (Suc (Suc (Suc 0))))
      (new_multi 2 (spin_wait_strategy 7) [1], new_barrier_at (spin_wait_strategy 7) (Cell 1), new_buffer 2) 2 2"
  obtain w \<sigma>' ps where
    p: "pool_exec w (mt_set_up 2 1, ?threads) = Some (\<sigma>', ps)"
    and x: "ps 0 = Return (Some 2)" by (rule sequencer_run)
  obtain l where r: "run 0 alone (sequencer_setup (spin_wait_strategy 7) 4) 0 (at_rest 0) =
      (Returned (new_multi 2 (spin_wait_strategy 7) [1], new_barrier_at (spin_wait_strategy 7) (Cell 1), new_buffer 2),
       mt_set_up 2 1, l)"
    using multi_setup_run(1) [of 2 "spin_wait_strategy 7"] by (auto simp: mt_one_consumer)
  from p obtain \<omega> where w: "weak_run ((mt_set_up 2 1, fresh (mt_set_up 2 1)), ?threads) ((\<sigma>', \<omega>), ps)"
    by (rule pool_exec_weak_run)
  have "sound_pool {0} (Some (sequencer_expectedResult 2 2)) ps \<and> race_free \<omega> ps"
    by (rule sequencer_correct [OF _ _ _ _ _ r _ w]) (simp_all add: at_rest_def)
  with r w x show ?thesis by blast
qed

text \<open>
  The unicast benchmark on the multi-threaded claim strategy has the same guarantees as
  on the single-threaded one.
\<close>

theorem unicast_mt_correct:
  assumes "W \<in> library_strategies" and "bufferSize \<le> 2 ^ 62"
    and "uint iterationCount < 2 ^ 62" and "uint iterationCount * (uint iterationCount - 1) < 2 ^ 64"
    and "run 0 alone (unicast_mt_setup W bufferSize) 0 \<sigma> = (Returned objects, \<sigma>0, l)"
    and "owner \<sigma> = (\<lambda>_. None)"
    and "weak_run ((\<sigma>0, fresh \<sigma>0), unicast_mt_threads n objects iterationCount) ((\<sigma>', \<omega>), ps)"
  shows "sound_pool {1} (Some (expectedResult iterationCount)) ps \<and> race_free \<omega> ps"
proof -
  obtain k where st: "mp_started k {0} {1..1} (\<lambda>_. {}) [1] (\<lambda>c. c) W n iterationCount
      (\<sigma>0, unicast_mt_threads n objects iterationCount)"
    using assms(5,2,6,3) by (rule unicast_mt_started)
  from mp_started_weakly_sound [OF st library_strategy_model [OF assms(1)] assms(7)] show ?thesis
    by (simp add: mp_result_one [OF assms(4)])
qed

text \<open>
  The multicast benchmark on the multi-threaded claim strategy: every one of the parallel
  consumers that ends has the expected result; no assertion fails and there is no data race.
\<close>

theorem multicast_mt_correct:
  assumes "W \<in> library_strategies" and "bufferSize \<le> 2 ^ 62" and "0 < consumerCount"
    and "uint iterationCount < 2 ^ 62" and "uint iterationCount * (uint iterationCount - 1) < 2 ^ 64"
    and "run 0 alone (multicast_mt_setup W bufferSize consumerCount) 0 \<sigma> = (Returned objects, \<sigma>0, l)"
    and "owner \<sigma> = (\<lambda>_. None)"
    and "weak_run ((\<sigma>0, fresh \<sigma>0), multicast_mt_threads n objects iterationCount) ((\<sigma>', \<omega>), ps)"
  shows "sound_pool {1..consumerCount} (Some (expectedResult iterationCount)) ps \<and> race_free \<omega> ps"
proof -
  obtain k where st: "mp_started k {0} {1..consumerCount} (\<lambda>_. {}) (map Suc [0..<consumerCount]) (\<lambda>c. c) W n iterationCount
      (\<sigma>0, multicast_mt_threads n objects iterationCount)"
    using assms(6,2,7,3,4) by (rule multicast_mt_started)
  from mp_started_weakly_sound [OF st library_strategy_model [OF assms(1)] assms(8)] show ?thesis
    by (simp add: mp_result_one [OF assms(5)])
qed

lemma multicast_mt_correct_witness:
  "\<exists>objects \<sigma>0 l \<sigma>' \<omega> ps.
     run 0 alone (multicast_mt_setup (spin_wait_strategy 7) 1 2) 0 (at_rest 0) = (Returned objects, \<sigma>0, l) \<and>
     weak_run ((\<sigma>0, fresh \<sigma>0), multicast_mt_threads (Suc 0) objects 1) ((\<sigma>', \<omega>), ps) \<and>
     ps 1 = Return (Some 0) \<and> ps 2 = Return (Some 0) \<and> sound_pool {1..2} (Some (expectedResult 1)) ps \<and> race_free \<omega> ps"
proof -
  let ?threads = "multicast_mt_threads (Suc 0)
      (new_multi 0 (spin_wait_strategy 7) [1, 2], map (\<lambda>c. new_barrier_at (spin_wait_strategy 7) (Cell c)) [1, 2],
       new_buffer 0) 1"
  obtain w \<sigma>' ps where
    p: "pool_exec w (mt_set_up 0 2, ?threads) = Some (\<sigma>', ps)"
    and x: "ps 1 = Return (Some 0)" "ps 2 = Return (Some 0)" by (rule multicast_mt_run)
  obtain l where r: "run 0 alone (multicast_mt_setup (spin_wait_strategy 7) 1 2) 0 (at_rest 0) =
      (Returned (new_multi 0 (spin_wait_strategy 7) [1, 2], map (\<lambda>c. new_barrier_at (spin_wait_strategy 7) (Cell c)) [1, 2],
       new_buffer 0), mt_set_up 0 2, l)"
    using multi_setup_run(2) [where k = 0 and W = "spin_wait_strategy 7" and m = 2] by (auto simp: upt_rec numeral_2_eq_2)
  from p obtain \<omega> where w: "weak_run ((mt_set_up 0 2, fresh (mt_set_up 0 2)), ?threads) ((\<sigma>', \<omega>), ps)"
    by (rule pool_exec_weak_run)
  have "sound_pool {1..2} (Some (expectedResult 1)) ps \<and> race_free \<omega> ps"
    by (rule multicast_mt_correct [OF _ _ _ _ _ r _ w]) (simp_all add: at_rest_def)
  with r w x show ?thesis by blast
qed

text \<open>
  C6.  The pipeline benchmark on the multi-threaded claim strategy, where only the first stage
  waits for the claim strategy and the producer for the last stage, with either wait strategy:
  in every execution on the weak machine no assertion fails, there is no data race, and every stage
  that ends has the expected result.
\<close>

theorem pipeline_mt_correct:
  assumes "W \<in> library_strategies" and "bufferSize \<le> 2 ^ 62" and "0 < consumerCount"
    and "uint iterationCount < 2 ^ 62" and "uint iterationCount * (uint iterationCount - 1) < 2 ^ 64"
    and "run 0 alone (pipeline_mt_setup W bufferSize consumerCount) 0 \<sigma> = (Returned objects, \<sigma>0, l)"
    and "owner \<sigma> = (\<lambda>_. None)"
    and "weak_run ((\<sigma>0, fresh \<sigma>0), pipeline_mt_threads n objects iterationCount) ((\<sigma>', \<omega>), ps)"
  shows "sound_pool {1..consumerCount} (Some (expectedResult iterationCount)) ps \<and> race_free \<omega> ps"
proof -
  obtain k where st: "mp_started k {0} {1..consumerCount} pipeline_upstream [consumerCount] (\<lambda>c. c) W n iterationCount
      (\<sigma>0, pipeline_mt_threads n objects iterationCount)"
    using assms(6,2,7,3,4) by (rule pipeline_mt_started)
  from mp_started_weakly_sound [OF st library_strategy_model [OF assms(1)] assms(8)] show ?thesis
    by (simp add: mp_result_one [OF assms(5)])
qed

lemma pipeline_mt_correct_witness:
  "\<exists>objects \<sigma>0 l \<sigma>' \<omega> ps.
     run 0 alone (pipeline_mt_setup (spin_wait_strategy 7) 1 2) 0 (at_rest 0) = (Returned objects, \<sigma>0, l) \<and>
     weak_run ((\<sigma>0, fresh \<sigma>0), pipeline_mt_threads (Suc 0) objects 1) ((\<sigma>', \<omega>), ps) \<and>
     ps 1 = Return (Some 0) \<and> ps 2 = Return (Some 0) \<and> sound_pool {1..2} (Some (expectedResult 1)) ps \<and> race_free \<omega> ps"
proof -
  let ?threads = "pipeline_mt_threads (Suc 0)
      (new_multi 0 (spin_wait_strategy 7) [2], map (\<lambda>c. new_barrier_at (spin_wait_strategy 7) (Cell c)) [1, 2],
       new_buffer 0) 1"
  obtain w \<sigma>' ps where
    p: "pool_exec w (mt_set_up 0 2, ?threads) = Some (\<sigma>', ps)"
    and x: "ps 1 = Return (Some 0)" "ps 2 = Return (Some 0)" by (rule pipeline_mt_run)
  obtain l where r: "run 0 alone (pipeline_mt_setup (spin_wait_strategy 7) 1 2) 0 (at_rest 0) =
      (Returned (new_multi 0 (spin_wait_strategy 7) [2], map (\<lambda>c. new_barrier_at (spin_wait_strategy 7) (Cell c)) [1, 2],
       new_buffer 0), mt_set_up 0 2, l)"
    using multi_setup_run(3) [where k = 0 and W = "spin_wait_strategy 7" and m = 2] by (auto simp: upt_rec numeral_2_eq_2)
  from p obtain \<omega> where w: "weak_run ((mt_set_up 0 2, fresh (mt_set_up 0 2)), ?threads) ((\<sigma>', \<omega>), ps)"
    by (rule pool_exec_weak_run)
  have "sound_pool {1..2} (Some (expectedResult 1)) ps \<and> race_free \<omega> ps"
    by (rule pipeline_mt_correct [OF _ _ _ _ _ r _ w]) (simp_all add: at_rest_def)
  with r w x show ?thesis by blast
qed

text \<open>
  C7.  The diamond benchmark on the multi-threaded claim strategy, where the last consumer waits
  for the group of all the others, with either wait strategy: in every execution on the weak
  machine no assertion fails, there is no data race, and every consumer that ends has the expected
  result.
\<close>

theorem diamond_mt_correct:
  assumes "W \<in> library_strategies" and "bufferSize \<le> 2 ^ 62" and "1 < consumerCount"
    and "uint iterationCount < 2 ^ 62" and "uint iterationCount * (uint iterationCount - 1) < 2 ^ 64"
    and "run 0 alone (diamond_mt_setup W bufferSize consumerCount) 0 \<sigma> = (Returned objects, \<sigma>0, l)"
    and "owner \<sigma> = (\<lambda>_. None)"
    and "weak_run ((\<sigma>0, fresh \<sigma>0), diamond_mt_threads n objects iterationCount) ((\<sigma>', \<omega>), ps)"
  shows "sound_pool {1..consumerCount} (Some (expectedResult iterationCount)) ps \<and> race_free \<omega> ps"
proof -
  obtain k where st: "mp_started k {0} {1..consumerCount} (diamond_upstream consumerCount) [consumerCount] (\<lambda>c. c) W n iterationCount
      (\<sigma>0, diamond_mt_threads n objects iterationCount)"
    using assms(6,2,7,3,4) by (rule diamond_mt_started)
  from mp_started_weakly_sound [OF st library_strategy_model [OF assms(1)] assms(8)] show ?thesis
    by (simp add: mp_result_one [OF assms(5)])
qed

lemma diamond_mt_correct_witness:
  "\<exists>objects \<sigma>0 l \<sigma>' \<omega> ps.
     run 0 alone (diamond_mt_setup (spin_wait_strategy 7) 1 2) 0 (at_rest 0) = (Returned objects, \<sigma>0, l) \<and>
     weak_run ((\<sigma>0, fresh \<sigma>0), diamond_mt_threads (Suc 0) objects 1) ((\<sigma>', \<omega>), ps) \<and>
     ps 1 = Return (Some 0) \<and> ps 2 = Return (Some 0) \<and> sound_pool {1..2} (Some (expectedResult 1)) ps \<and> race_free \<omega> ps"
proof -
  let ?threads = "diamond_mt_threads (Suc 0)
      (new_multi 0 (spin_wait_strategy 7) [2], map (\<lambda>c. new_barrier_at (spin_wait_strategy 7) (Cell c)) [1, 2],
       \<lparr>sbg_waitStrategy = spin_wait_strategy 7, sbg_sequences = [Cell 1]\<rparr>, new_buffer 0) 1"
  obtain w \<sigma>' ps where
    p: "pool_exec w (mt_set_up 0 2, ?threads) = Some (\<sigma>', ps)"
    and x: "ps 1 = Return (Some 0)" "ps 2 = Return (Some 0)" by (rule diamond_mt_run)
  obtain l where r: "run 0 alone (diamond_mt_setup (spin_wait_strategy 7) 1 2) 0 (at_rest 0) =
      (Returned (new_multi 0 (spin_wait_strategy 7) [2], map (\<lambda>c. new_barrier_at (spin_wait_strategy 7) (Cell c)) [1, 2],
       \<lparr>sbg_waitStrategy = spin_wait_strategy 7, sbg_sequences = [Cell 1]\<rparr>, new_buffer 0), mt_set_up 0 2, l)"
    using multi_setup_run(4) [where k = 0 and W = "spin_wait_strategy 7" and m = 2] by (auto simp: upt_rec numeral_2_eq_2)
  from p obtain \<omega> where w: "weak_run ((mt_set_up 0 2, fresh (mt_set_up 0 2)), ?threads) ((\<sigma>', \<omega>), ps)"
    by (rule pool_exec_weak_run)
  have "sound_pool {1..2} (Some (expectedResult 1)) ps \<and> race_free \<omega> ps"
    by (rule diamond_mt_correct [OF _ _ _ _ _ r _ w]) (simp_all add: at_rest_def)
  with r w x show ?thesis by blast
qed

end
