(* ===== verification/Multi_Producer_Batches.thy ===== *)
theory Multi_Producer_Batches
  imports Multi_Producer_Producers
begin

text \<open>
  A producer that claims, writes and publishes several positions at a time, on the weak machine:
  the writers of src/test/benchmark.cpp that share a multi-threaded claim strategy.
\<close>

section \<open>Batches\<close>

text \<open>A claim of \<open>count\<close> positions gives that many, or a whole buffer if that is less.\<close>

lemma mp_safely_claim_range:
  assumes wf: "mp_well_arranged T" and W: "wait_strategy_model W" and cs: "mp_strategy T W cs"
    and j: "j \<in> mp_producers T" "i + uint count \<le> mp_quota T" and count: "0 < count"
    and s: "mp_producing T j i s" "holds_mutexes j {} (fst s)"
    and post: "\<And>s p v. 0 < v \<Longrightarrow> v \<le> count \<Longrightarrow> mp_batch T j (i - p) p (p + uint v - 1) p s \<Longrightarrow>
      holds_mutexes j {} (fst s) \<Longrightarrow> Q (sequence_range (seq_at p) v) s"
  shows "weakly_safe g_hist (mp_protocol T) j (mt_claim n cs count) Q s"
proof -
  define v where "v = min count (mt_bufferSize cs)"
  have "(0 :: 64 word) < 2 ^ mp_bits T"
    using mp_bits_less(1) [OF wf] uint_2_power [of "mp_bits T"] by (simp add: word_less_def)
  then have v: "0 < v" "v \<le> count" using count cs by (auto simp: v_def mp_strategy_def)
  then have "uint v \<le> uint count" by (simp add: word_le_def)
  with j have quota: "i + uint v \<le> mp_quota T" by simp
  show ?thesis
    unfolding mt_claim_def Let_def v_def [symmetric]
    by (rule mp_safely_claim [OF wf W cs j(1) quota v(1) s, where f = "\<lambda>x. sequence_range x v"])
      (use post v in \<open>simp_all add: sequence_range_defs\<close>)
qed

lemma mp_safely_claim_batch:
  assumes wf: "mp_well_arranged T" and W: "wait_strategy_model W" and cs: "mp_strategy T W cs"
    and j: "j \<in> mp_producers T" "i + uint remaining \<le> mp_quota T" and size: "0 < writerBatchSize" "0 < remaining"
    and s: "mp_producing T j i s" "holds_mutexes j {} (fst s)"
    and post: "\<And>s p v. 0 < v \<Longrightarrow> v \<le> remaining \<Longrightarrow> mp_batch T j (i - p) p (p + uint v - 1) p s \<Longrightarrow>
      holds_mutexes j {} (fst s) \<Longrightarrow> Q (sequence_range (seq_at p) v) s"
  shows "weakly_safe g_hist (mp_protocol T) j (mt_claim_batch n cs writerBatchSize remaining) Q s"
proof (cases "writerBatchSize = 1")
  case True
  have one: "(1 :: 64 word) \<le> remaining" "1 \<le> uint remaining"
    using size(2) inc_le [of 0 remaining] by (simp_all add: word_less_def)
  then have q: "i < mp_quota T" using j(2) by simp
  have "weakly_safe g_hist (mp_protocol T) j (mt_claim_one n cs)
      (\<lambda>seq. weakly_safe g_hist (mp_protocol T) j (Return (sequence_range seq 1)) Q) s"
    using post [of 1] one by (intro mp_safely_claim_one [OF wf W cs j(1) q s]) simp
  with True show ?thesis by (simp add: mt_claim_batch_def weakly_safe_bind)
next
  case False
  have le: "min writerBatchSize remaining \<le> remaining" by simp
  then have c: "uint (min writerBatchSize remaining) \<le> uint remaining" by (simp only: word_le_def)
  have "weakly_safe g_hist (mp_protocol T) j (mt_claim n cs (min writerBatchSize remaining)) Q s"
  proof (rule mp_safely_claim_range [OF wf W cs j(1) _ _ s])
    show "i + uint (min writerBatchSize remaining) \<le> mp_quota T" using j(2) c by linarith
    show "0 < min writerBatchSize remaining" using size by simp
    fix s p and v :: "64 word"
    assume v: "0 < v" "v \<le> min writerBatchSize remaining"
      and "mp_batch T j (i - p) p (p + uint v - 1) p s" "holds_mutexes j {} (fst s)"
    then show "Q (sequence_range (seq_at p) v) s" using le by (intro post) auto
  qed
  with False show ?thesis by (simp add: mt_claim_batch_def)
qed

lemma mp_safely_write_items:
  assumes wf: "mp_well_arranged T" and buffer: "rb_mask buffer = 2 ^ mp_bits T - 1" "rb_data buffer = mp_array T"
    and s: "mp_batch T j d p q z s" "holds_mutexes j {} (fst s)" and z: "p \<le> z" "z \<le> q + 1" and size: "q - p < 2 ^ 63 - 1"
    and item: "\<And>y. p \<le> y \<Longrightarrow> y \<le> q \<Longrightarrow> mp_item T (y + d) = \<lparr>m_type = 0\<rparr>"
    and post: "\<And>s. mp_batch T j d p q (q + 1) s \<Longrightarrow> holds_mutexes j {} (fst s) \<Longrightarrow>
      weakly_safe g_hist (mp_protocol T) j prg Q s"
  shows "weakly_safe g_hist (mp_protocol T) j (write_items buffer (seq_at z) (seq_at (q + 1)) prg) Q s"
  using s z
proof (induction "nat (q + 1 - z)" arbitrary: z s rule: less_induct)
  case less
  note prems = less.prems
  have eq: "seq_at z = seq_at (q + 1) \<longleftrightarrow> z = q + 1" using prems(3,4) size by (intro seq_at_inject) auto
  show ?case
  proof (cases "z = q + 1")
    case True
    then show ?thesis using prems post by (simp add: write_items.simps)
  next
    case False
    then have z: "z \<le> q" using prems(4) by simp
    have "weakly_safe g_hist (mp_protocol T) j
        (buffer_write buffer (seq_at z) \<lparr>m_type = 0\<rparr> (write_items buffer (seq_at (z + 1)) (seq_at (q + 1)) prg)) Q s"
    proof (rule mp_safely_buffer_write [OF wf buffer prems(1-3) z])
      show "\<lparr>m_type = 0\<rparr> = mp_item T (z + d)" using item prems(3) z by simp
      fix s' assume "mp_batch T j d p q (z + 1) s'" "holds_mutexes j {} (fst s')"
      then show "weakly_safe g_hist (mp_protocol T) j (write_items buffer (seq_at (z + 1)) (seq_at (q + 1)) prg) Q s'"
        using prems(3) z by (intro less.hyps) auto
    qed
    then show ?thesis using False eq by (simp add: write_items.simps [of buffer "seq_at z"] seq_at_add_1)
  qed
qed

lemma mp_safely_publish_loop:
  assumes wf: "mp_well_arranged T" and cs: "mp_strategy T W cs"
    and "mp_batch T j d (p + uint i) (p + uint v - 1) (p + uint v) s" "holds_mutexes j {} (fst s)" "i \<le> v"
    and post: "\<And>s. mp_batch T j d (p + uint v) (p + uint v - 1) (p + uint v) s \<Longrightarrow> holds_mutexes j {} (fst s) \<Longrightarrow> Q () s"
  shows "weakly_safe g_hist (mp_protocol T) j (mt_publish_loop cs (sequence_range (seq_at p) v) i v) Q s"
  using assms(3-5)
proof (induction "unat v - unat i" arbitrary: i s rule: less_induct)
  case less
  note prems = less.prems
  show ?case
  proof (cases "i < v")
    case False
    then have "i = v" using prems(3) by simp
    then show ?thesis using prems post by (simp add: mt_publish_loop.simps)
  next
    case True
    have up: "uint (i + 1) = uint i + 1" "i + 1 \<le> v"
      using arg_cong [OF unat_plus_1 [OF True], of int] inc_le [OF True] by simp_all
    have le: "p + uint i \<le> p + uint v - 1" using True by (simp add: word_less_def)
    have b: "mp_batch T j d (p + uint i) (p + uint v - 1) (p + uint v - 1 + 1) s" using prems(1) by simp
    have "weakly_safe g_hist (mp_protocol T) j (mt_set_published cs (seq_at (p + uint i)))
        (\<lambda>_. weakly_safe g_hist (mp_protocol T) j (mt_publish_loop cs (sequence_range (seq_at p) v) (i + 1) v) Q) s"
      by (rule mp_safely_set_published [OF wf cs b prems(2) le])
        (use up unat_count_up [OF True] in \<open>auto intro!: less.hyps simp: algebra_simps\<close>)
    then show ?thesis
      using True by (simp add: mt_publish_loop.simps [of cs _ i v] weakly_safe_bind range_nth_seq_at)
  qed
qed

lemma mp_safely_publish_range:
  assumes wf: "mp_well_arranged T" and W: "wait_strategy_model W" and cs: "mp_strategy T W cs"
    and s: "mp_batch T j d p (p + uint v - 1) (p + uint v) s" "holds_mutexes j {} (fst s)"
    and post: "\<And>s. mp_producing T j (p + uint v + d) s \<Longrightarrow> holds_mutexes j {} (fst s) \<Longrightarrow> Q () s"
  shows "weakly_safe g_hist (mp_protocol T) j (mt_publish_range cs (sequence_range (seq_at p) v)) Q s"
proof -
  have w: "mt_waitStrategy cs = W" "range_size (sequence_range (seq_at p) v) = v"
    using cs by (simp_all add: mp_strategy_def sequence_range_defs)
  have b: "mp_batch T j d (p + uint (0 :: 64 word)) (p + uint v - 1) (p + uint v) s" using s(1) by simp
  show ?thesis
    unfolding mt_publish_range_def weakly_safe_bind w
    by (rule mp_safely_publish_loop [OF wf cs b s(2)])
      (auto simp: mp_batch_def intro!: mp_safely_signal [OF W] post)
qed

section \<open>The writer\<close>

text \<open>One batch is claimed, written and published, and something done after it.\<close>

lemma mp_safely_one_batch:
  assumes wf: "mp_well_arranged T" and W: "wait_strategy_model W" and cs: "mp_strategy T W cs"
    and buffer: "rb_mask buffer = 2 ^ mp_bits T - 1" "rb_data buffer = mp_array T"
    and item: "\<And>y. i \<le> y \<Longrightarrow> y < i + uint remaining \<Longrightarrow> mp_item T y = \<lparr>m_type = 0\<rparr>"
    and j: "j \<in> mp_producers T" "i + uint remaining \<le> mp_quota T" "uint remaining < 2 ^ 62"
    and size: "0 < writerBatchSize" "0 < remaining"
    and s: "mp_producing T j i s" "holds_mutexes j {} (fst s)"
    and post: "\<And>v s. 0 < v \<Longrightarrow> v \<le> remaining \<Longrightarrow> mp_producing T j (i + uint v) s \<Longrightarrow> holds_mutexes j {} (fst s) \<Longrightarrow>
      weakly_safe g_hist (mp_protocol T) j (rest v) Q s"
  shows "weakly_safe g_hist (mp_protocol T) j (bind (mt_claim_batch n cs writerBatchSize remaining) (\<lambda>rng.
      write_items buffer (range_first rng) (range_end rng)
     (bind (mt_publish_range cs rng) (\<lambda>_. rest (range_size rng))))) Q s"
  unfolding weakly_safe_bind
proof (rule mp_safely_claim_batch [OF wf W cs j(1,2) size s])
  fix s1 p and v :: "64 word"
  assume v: "0 < v" "v \<le> remaining" and b: "mp_batch T j (i - p) p (p + uint v - 1) p s1"
    and h: "holds_mutexes j {} (fst s1)"
  define rng where "rng = sequence_range (seq_at p) v"
  have v': "1 \<le> uint v" "uint v \<le> uint remaining" using v by (simp_all add: word_less_def word_le_def)
  have r: "range_first rng = seq_at p" "range_end rng = seq_at (p + uint v - 1 + 1)" "range_size rng = v"
    by (simp_all add: rng_def sequence_range_defs seq_at_add_word)
  have "weakly_safe g_hist (mp_protocol T) j (write_items buffer (seq_at p) (seq_at (p + uint v - 1 + 1))
      (bind (mt_publish_range cs rng) (\<lambda>_. rest v))) Q s1"
  proof (rule mp_safely_write_items [OF wf buffer b h order_refl])
    show "p \<le> p + uint v - 1 + 1" "p + uint v - 1 - p < 2 ^ 63 - 1" using v' j(3) by simp_all
    show "mp_item T (y + (i - p)) = \<lparr>m_type = 0\<rparr>" if "p \<le> y" "y \<le> p + uint v - 1" for y
      using that v' by (intro item) auto
    fix s2 assume "mp_batch T j (i - p) p (p + uint v - 1) (p + uint v - 1 + 1) s2"
    then have b2: "mp_batch T j (i - p) p (p + uint v - 1) (p + uint v) s2" by simp
    assume h2: "holds_mutexes j {} (fst s2)"
    have "weakly_safe g_hist (mp_protocol T) j (mt_publish_range cs rng)
        (\<lambda>_. weakly_safe g_hist (mp_protocol T) j (rest v) Q) s2"
      unfolding rng_def using post v
      by (intro mp_safely_publish_range [OF wf W cs b2 h2]) (simp_all add: algebra_simps)
    then show "weakly_safe g_hist (mp_protocol T) j (bind (mt_publish_range cs rng) (\<lambda>_. rest v)) Q s2"
      by (simp add: weakly_safe_bind)
  qed
  then show "weakly_safe g_hist (mp_protocol T) j (write_items buffer (range_first (sequence_range (seq_at p) v))
      (range_end (sequence_range (seq_at p) v)) (bind (mt_publish_range cs (sequence_range (seq_at p) v)) (\<lambda>_.
        rest (range_size (sequence_range (seq_at p) v))))) Q s1"
    unfolding rng_def [symmetric] r .
qed

lemma mp_safely_writer_loop:
  assumes wf: "mp_well_arranged T" and W: "wait_strategy_model W" and cs: "mp_strategy T W cs"
    and buffer: "rb_mask buffer = 2 ^ mp_bits T - 1" "rb_data buffer = mp_array T"
    and item: "\<And>i. 0 \<le> i \<Longrightarrow> i < items \<Longrightarrow> mp_item T i = \<lparr>m_type = 0\<rparr>"
    and j: "j \<in> mp_producers T" and quota: "items < mp_quota T" "mp_quota T < 2 ^ 62" and size: "0 < writerBatchSize"
    and "0 \<le> i" "i \<le> items" and "remaining = of_int (items - i)"
    and "mp_producing T j i s" and "holds_mutexes j {} (fst s)"
    and post: "\<And>s. mp_producing T j items s \<Longrightarrow> holds_mutexes j {} (fst s) \<Longrightarrow> Q () s"
  shows "weakly_safe g_hist (mp_protocol T) j (mt_writer_loop n m cs buffer writerBatchSize remaining) Q s"
  using assms(11-15)
proof (induction m arbitrary: i remaining s)
  have rem: "uint remaining = items - i" if "0 \<le> i" "i \<le> items" "remaining = of_int (items - i)"
    for i and remaining :: "64 word"
    using that quota by (simp add: unsigned_of_int take_bit_int_eq_self del: of_int_diff)
  {
    case 0
    then show ?case using rem [OF 0(1-3)] post by (cases "i = items") (simp_all add: word_less_def)
  next
    case (Suc m)
    note prems = Suc.prems and u = rem [OF Suc.prems(1-3)]
    show ?case
    proof (cases "i = items")
      case True
      then show ?thesis using prems post u by (simp add: word_less_def)
    next
      case False
      then have pos: "0 < remaining" using u prems(2) by (simp add: word_less_def)
      have next_batch: "0 \<le> i + uint v" "i + uint v \<le> items" "remaining - v = of_int (items - (i + uint v))"
        if "v \<le> remaining" for v
        using that u prems(1-3) by (simp_all add: word_le_def)
      have "weakly_safe g_hist (mp_protocol T) j (bind (mt_claim_batch n cs writerBatchSize remaining) (\<lambda>rng.
          write_items buffer (range_first rng) (range_end rng)
         (bind (mt_publish_range cs rng) (\<lambda>_.
            mt_writer_loop n m cs buffer writerBatchSize (remaining - range_size rng))))) Q s"
      proof (rule mp_safely_one_batch [OF wf W cs buffer _ j _ _ size pos prems(4,5)])
        fix v s assume "v \<le> remaining" "mp_producing T j (i + uint v) s" "holds_mutexes j {} (fst s)"
        then show "weakly_safe g_hist (mp_protocol T) j (mt_writer_loop n m cs buffer writerBatchSize (remaining - v)) Q s"
          by (intro Suc.IH [where i = "i + uint v"] next_batch)
      qed (use item quota u prems(1) in auto)
      then show ?thesis using pos by simp
    qed
  }
qed

text \<open>The whole writer: all batches, and the last message.\<close>

lemma mp_safely_writer:
  assumes wf: "mp_well_arranged T" and W: "wait_strategy_model W" and cs: "mp_strategy T W cs"
    and buffer: "rb_mask buffer = 2 ^ mp_bits T - 1" "rb_data buffer = mp_array T"
    and item: "\<And>i. 0 \<le> i \<Longrightarrow> i < uint itemCount \<Longrightarrow> mp_item T i = \<lparr>m_type = 0\<rparr>" "mp_item T (uint itemCount) = dead"
    and j: "j \<in> mp_producers T" and quota: "mp_quota T = uint itemCount + 1" "mp_quota T < 2 ^ 62"
    and size: "0 < writerBatchSize" and s: "mp_producing T j 0 s" "holds_mutexes j {} (fst s)"
    and post: "\<And>s. Q None s"
  shows "weakly_safe g_hist (mp_protocol T) j (mt_writer n cs buffer writerBatchSize itemCount) Q s"
  unfolding mt_writer_def weakly_safe_bind
proof (rule mp_safely_writer_loop [OF wf W cs buffer item(1) j _ quota(2) size order_refl _ _ s])
  let ?x = "uint itemCount"
  show "?x < mp_quota T" "0 \<le> ?x" "itemCount = of_int (?x - 0)" using quota by simp_all
  fix s1 assume s1: "mp_producing T j ?x s1" "holds_mutexes j {} (fst s1)"
  have q: "?x < mp_quota T" using quota by simp
  show "weakly_safe g_hist (mp_protocol T) j (mt_claim_one n cs) (\<lambda>seq. weakly_safe g_hist (mp_protocol T) j
      (buffer_write buffer seq dead (bind (mt_publish cs seq) (\<lambda>_. Return None))) Q) s1"
  proof (rule mp_safely_claim_one [OF wf W cs j q s1])
    fix s2 p assume s2: "mp_batch T j (?x - p) p p p s2" "holds_mutexes j {} (fst s2)"
    show "weakly_safe g_hist (mp_protocol T) j
        (buffer_write buffer (seq_at p) dead (bind (mt_publish cs (seq_at p)) (\<lambda>_. Return None))) Q s2"
    proof (rule mp_safely_buffer_write [OF wf buffer s2 order_refl order_refl])
      show "dead = mp_item T (p + (?x - p))" using item(2) by simp
      fix s3 assume s3: "mp_batch T j (?x - p) p p (p + 1) s3" "holds_mutexes j {} (fst s3)"
      have "weakly_safe g_hist (mp_protocol T) j (mt_publish cs (seq_at p))
          (\<lambda>_. weakly_safe g_hist (mp_protocol T) j (Return None) Q) s3"
        by (rule mp_safely_publish [OF wf W cs s3]) (use post in simp)
      then show "weakly_safe g_hist (mp_protocol T) j (bind (mt_publish cs (seq_at p)) (\<lambda>_. Return None)) Q s3"
        by (simp add: weakly_safe_bind)
    qed
  qed
qed

end
