(* ===== verification/Multi_Producer_Tests.thy ===== *)
theory Multi_Producer_Tests
  imports Multi_Producer_Benchmarks Multi_Producer_Batches
begin

text \<open>
  The test program with several writers of batches and one reader: a run of it on the
  multi-threaded claim strategy, in every execution that the memory orders of the code allow.
\<close>

section \<open>The arrangement\<close>

text \<open>The messages of each writer: \<open>items\<close> of type 0, and the last one.\<close>

definition mp_messages :: "nat \<Rightarrow> int \<Rightarrow> nat \<Rightarrow> message multi_arrangement" where
  "mp_messages k items writerCount =
     \<lparr>mp_bits = k, mp_array = 0, mp_entries = 0, mp_counter = Cell 0, mp_barrier = (\<lambda>_. Cell 1),
      mp_consumers = {0}, mp_upstream = (\<lambda>_. {}), mp_gates = {0}, mp_producers = {1..writerCount},
      mp_quota = items + 1, mp_item = (\<lambda>i. if i = items then dead else \<lparr>m_type = 0\<rparr>)\<rparr>"

lemma mp_messages_select [simp]:
  "mp_bits (mp_messages k items w) = k" "mp_array (mp_messages k items w) = 0" "mp_entries (mp_messages k items w) = 0"
  "mp_counter (mp_messages k items w) = Cell 0" "mp_barrier (mp_messages k items w) = (\<lambda>_. Cell 1)"
  "mp_consumers (mp_messages k items w) = {0}" "mp_upstream (mp_messages k items w) = (\<lambda>_. {})"
  "mp_gates (mp_messages k items w) = {0}" "mp_producers (mp_messages k items w) = {1..w}"
  "mp_quota (mp_messages k items w) = items + 1" "mp_total (mp_messages k items w) = int w * (items + 1)"
  "mp_item (mp_messages k items w) = (\<lambda>i. if i = items then dead else \<lparr>m_type = 0\<rparr>)"
  by (simp_all add: mp_messages_def mp_total_def)

lemma mp_well_arranged_messages:
  "k \<le> 62 \<Longrightarrow> 0 \<le> items \<Longrightarrow> int w * (items + 1) < 2 ^ 62 \<Longrightarrow> mp_well_arranged (mp_messages k items w)"
  by (simp add: mp_well_arranged_def)

section \<open>When the reader has seen all of it\<close>

text \<open>\<open>exitCount\<close> is the number of writers less that of last messages read.\<close>

lemma count_exits:
  assumes "0 \<le> g"
  shows "fold_items count_exit n (\<lambda>p. if h p = i then dead else \<lparr>m_type = 0\<rparr>) g = n - int (card {p \<in> {0..<g}. h p = i})"
  using assms
proof (induction g rule: int_ge_induct)
  case (step g)
  have "{0..<g + 1} = insert g {0..<g}" using step.hyps by auto
  then have "{p \<in> {0..<g + 1}. h p = i} = (if h g = i then insert g {p \<in> {0..<g}. h p = i} else {p \<in> {0..<g}. h p = i})"
    by auto
  moreover have "finite {p \<in> {0..<g}. h p = i}" by (rule finite_subset [of _ "{0..<g}"]) auto
  ultimately show ?case using step by (simp add: fold_items_Suc count_exit_def dead_def)
qed simp

text \<open>The positions before \<open>g\<close> of last messages belong to different writers.\<close>

lemma exits_owners:
  assumes cl: "mp_claimed T \<gamma>" and g: "g \<le> g_next \<gamma>"
  shows "inj_on (g_own \<gamma>) {p \<in> {0..<g}. g_idx \<gamma> p = i}" "g_own \<gamma> ` {p \<in> {0..<g}. g_idx \<gamma> p = i} \<subseteq> mp_producers T"
proof -
  have bij: "bij_betw (\<lambda>p. (g_own \<gamma> p, g_idx \<gamma> p)) {0..<g_next \<gamma>} (SIGMA j : mp_producers T. {0..<g_cnt \<gamma> j})"
    using cl by (simp add: mp_claimed_def)
  show "inj_on (g_own \<gamma>) {p \<in> {0..<g}. g_idx \<gamma> p = i}"
  proof (rule inj_onI)
    fix p p' assume "p \<in> {p \<in> {0..<g}. g_idx \<gamma> p = i}" "p' \<in> {p \<in> {0..<g}. g_idx \<gamma> p = i}" "g_own \<gamma> p = g_own \<gamma> p'"
    with g show "p = p'" by (intro inj_onD [OF bij_betw_imp_inj_on [OF bij]]) auto
  qed
  show "g_own \<gamma> ` {p \<in> {0..<g}. g_idx \<gamma> p = i} \<subseteq> mp_producers T"
    using g mp_claim_owner(1) [OF cl] by auto
qed

text \<open>
  A writer claims its last message after all others.  So when the last messages of all writers are
  before \<open>g\<close>, all messages of all writers are.
\<close>

lemma exits_of_all:
  assumes wf: "mp_well_arranged T" and cl: "mp_claimed T \<gamma>" and g: "0 \<le> g" "g \<le> g_next \<gamma>"
    and onto: "\<And>j. j \<in> mp_producers T \<Longrightarrow> \<exists>p. 0 \<le> p \<and> p < g \<and> g_own \<gamma> p = j \<and> g_idx \<gamma> p = mp_quota T - 1"
  shows "g = mp_total T"
proof -
  have le: "g_cnt \<gamma> j \<le> mp_quota T" if "j \<in> mp_producers T" for j using cl that by (simp add: mp_claimed_def)
  have "g_cnt \<gamma> j = mp_quota T" if j: "j \<in> mp_producers T" for j
  proof -
    obtain p where "0 \<le> p" "p < g" "g_own \<gamma> p = j" "g_idx \<gamma> p = mp_quota T - 1" using onto [OF j] by blast
    then have "mp_quota T - 1 < g_cnt \<gamma> j" using mp_claim_owner(3) [OF cl, of p] g(2) by simp
    with le [OF j] show ?thesis by simp
  qed
  then have "g_next \<gamma> = mp_total T" by (intro mp_next_bound(3) [OF wf cl])
  moreover have "r < g" if r: "0 \<le> r" "r < g_next \<gamma>" for r
  proof (rule ccontr)
    assume "\<not> r < g"
    note owner = mp_claim_owner [OF cl r]
    obtain p where p: "0 \<le> p" "p < g" "g_own \<gamma> p = g_own \<gamma> r" "g_idx \<gamma> p = mp_quota T - 1"
      using onto [OF owner(1)] by blast
    then have "p < r" using \<open>\<not> r < g\<close> by simp
    with cl p(1,3) r(2) have "g_idx \<gamma> p < g_idx \<gamma> r" unfolding mp_claimed_def by blast
    with owner(3) le [OF owner(1)] p(4) show False by simp
  qed
  ultimately show ?thesis using g by force
qed

lemma all_exits:
  assumes wf: "mp_well_arranged T" and cl: "mp_claimed T \<gamma>" and g: "0 \<le> g" "g \<le> g_next \<gamma>" and q: "0 < mp_quota T"
  shows "card {p \<in> {0..<g}. g_idx \<gamma> p = mp_quota T - 1} = card (mp_producers T) \<longleftrightarrow> g = mp_total T"
    and "card {p \<in> {0..<g}. g_idx \<gamma> p = mp_quota T - 1} \<le> card (mp_producers T)"
proof -
  let ?last = "mp_quota T - 1" and ?P = "mp_producers T"
  define D where "D = {p \<in> {0..<g}. g_idx \<gamma> p = ?last}"
  have fin: "finite ?P" using wf by (simp add: mp_well_arranged_def)
  have inj: "inj_on (g_own \<gamma>) D" and own: "g_own \<gamma> ` D \<subseteq> ?P"
    using exits_owners [OF cl g(2)] by (simp_all add: D_def)
  have card: "card (g_own \<gamma> ` D) = card D" by (rule card_image [OF inj])
  show "card {p \<in> {0..<g}. g_idx \<gamma> p = ?last} \<le> card ?P"
    unfolding D_def [symmetric] using inj own fin by (intro card_inj_on_le)
  have "g = mp_total T" if "card D = card ?P"
  proof (rule exits_of_all [OF wf cl g])
    have "g_own \<gamma> ` D = ?P" using card_subset_eq [OF fin own] card that by simp
    then show "\<exists>p. 0 \<le> p \<and> p < g \<and> g_own \<gamma> p = j \<and> g_idx \<gamma> p = ?last" if "j \<in> ?P" for j
      using that by (force simp: D_def)
  qed
  moreover have "card D = card ?P" if all: "g = mp_total T"
  proof -
    have n: "g_next \<gamma> = mp_total T" using g(2) all mp_next_bound(1) [OF wf cl] by simp
    have "?P \<subseteq> g_own \<gamma> ` D"
    proof
      fix j assume j: "j \<in> ?P"
      then have "(j, ?last) \<in> (SIGMA j : ?P. {0..<g_cnt \<gamma> j})" using mp_next_bound(2) [OF wf cl n j] q by simp
      then have "(j, ?last) \<in> (\<lambda>p. (g_own \<gamma> p, g_idx \<gamma> p)) ` {0..<g_next \<gamma>}"
        using cl by (simp add: mp_claimed_def bij_betw_def)
      then show "j \<in> g_own \<gamma> ` D" using all n by (auto simp: D_def)
    qed
    with own card show ?thesis by (simp add: subset_antisym)
  qed
  ultimately show "card {p \<in> {0..<g}. g_idx \<gamma> p = ?last} = card ?P \<longleftrightarrow> g = mp_total T"
    unfolding D_def by blast
qed

lemma mp_seen_exits:
  assumes k: "k \<le> 62" and items: "0 \<le> items" "int w * (items + 1) < 2 ^ 62" and inv: "mp_inv (mp_messages k items w) s"
  shows "\<not> 0 < fold_items count_exit (int w) (\<lambda>p. mp_item (mp_messages k items w) (g_idx (snd s) p)) (g_got (snd s) 0) \<longleftrightarrow>
    g_got (snd s) 0 = mp_total (mp_messages k items w)"
proof -
  let ?T = "mp_messages k items w"
  obtain \<sigma> \<gamma> where s: "s = (\<sigma>, \<gamma>)" by (cases s)
  have wf: "mp_well_arranged ?T" by (rule mp_well_arranged_messages [OF k items])
  have data: "mp_data ?T (\<sigma>, \<gamma>)" and cl: "mp_claimed ?T \<gamma>" using inv s by (simp_all add: mp_inv_def mp_data_def)
  have g: "0 \<le> g_got \<gamma> 0" "g_got \<gamma> 0 \<le> g_next \<gamma>" using mp_got_le_next [OF data, of 0] by simp_all
  note all = all_exits [OF wf cl g]
  have "card {p \<in> {0..<g_got \<gamma> 0}. g_idx \<gamma> p = items} \<le> w"
    "card {p \<in> {0..<g_got \<gamma> 0}. g_idx \<gamma> p = items} = w \<longleftrightarrow> g_got \<gamma> 0 = mp_total ?T"
    using all items(1) by simp_all
  then show ?thesis by (simp add: s count_exits [OF g(1)])
qed

section \<open>The threads\<close>

lemma multi_test_safely:
  assumes W: "wait_strategy_model W" and k: "k \<le> 62" and size: "0 < writerBatchSize"
    and count: "int writerCount * (uint itemCount + 1) < 2 ^ 62"
    and inv: "mp_inv T (\<sigma>, no_claims k \<sigma>)" and free: "owner \<sigma> = (\<lambda>_. None)"
    and T: "T = mp_messages k (uint itemCount) writerCount"
  shows "weakly_safe g_hist (mp_protocol T) t
    (multi_test_threads n (new_multi k W [1], new_barrier_at W (Cell 1), new_buffer k) writerCount writerBatchSize itemCount t)
    (\<lambda>x s. t \<in> {0} \<longrightarrow> x = Some (0, of_nat writerCount * (itemCount + 1))) (\<sigma>, no_claims k \<sigma>)"
proof -
  let ?post = "\<lambda>x s. t \<in> {0} \<longrightarrow> x = Some (0, of_nat writerCount * (itemCount + 1))"
  let ?cs = "new_multi k W [1]"
  have wf: "mp_well_arranged T" unfolding T using k count by (intro mp_well_arranged_messages) simp_all
  have buffer: "rb_mask (new_buffer k) = 2 ^ mp_bits T - 1" "rb_data (new_buffer k) = mp_array T"
    by (simp_all add: new_buffer_def T)
  have h: "holds_mutexes t {} (fst (\<sigma>, no_claims k \<sigma>))" for t using free by (simp add: holds_mutexes_def)
  have cs: "mp_strategy T W ?cs" by (simp add: mp_strategy_def new_multi_def T)
  consider "t = 0" | "0 < t" "t \<le> writerCount" | "writerCount < t" by linarith
  then show ?thesis
  proof cases
    case 1
    have c: "0 \<in> mp_consumers T" by (simp add: T)
    have wait: "mp_wait T W n 0 (\<lambda>nextToRead. mt_wait_until_published n ?cs nextToRead (nextToRead - 1))"
      using cs by (auto simp: mp_wait_def T)
    have "weakly_safe g_hist (mp_protocol T) 0 (read_until n (\<lambda>exitCount. \<not> 0 < exitCount)
        (\<lambda>nextToRead. mt_wait_until_published n ?cs nextToRead (nextToRead - 1)) count_exit
        (new_buffer k) (new_barrier_at W (Cell 1)) (int writerCount) 0)
        (\<lambda>x. weakly_safe g_hist (mp_protocol T) 0 (let sum = 0 in Return (Some (sum, x))) ?post) (\<sigma>, no_claims k \<sigma>)"
    proof (rule mp_safely_read_until [OF wf c W wait buffer _ _ inv _ h])
      show "\<not> 0 < fold_items count_exit (int writerCount) (\<lambda>p. mp_item T (g_idx (snd s) p)) (g_got (snd s) 0) \<longleftrightarrow>
          g_got (snd s) 0 = mp_total T" if "mp_inv T s" for s
        using mp_seen_exits [OF k _ count, of s] that unfolding T by simp
      show "weakly_safe g_hist (mp_protocol T) 0 (let sum = 0 in Return (Some (sum, seq_at (mp_total T)))) ?post s" for s
        by (simp add: Let_def T seq_at_def)
    qed (simp_all add: new_barrier_at_def T no_claims_def)
    then show ?thesis using 1 by (simp add: multi_test_threads_def mt_reader_def weakly_safe_bind)
  next
    case 2
    have quota: "uint itemCount + 1 < 2 ^ 62"
    proof -
      have "1 * (uint itemCount + 1) \<le> int writerCount * (uint itemCount + 1)"
        using 2 by (intro mult_right_mono) auto
      from order.strict_trans1 [OF this count] show ?thesis by (simp only: mult_1)
    qed
    have "weakly_safe g_hist (mp_protocol T) t (mt_writer n ?cs (new_buffer k) writerBatchSize itemCount) ?post (\<sigma>, no_claims k \<sigma>)"
      by (rule mp_safely_writer [OF wf W cs buffer _ _ _ _ _ size _ h])
        (use 2 quota inv in \<open>simp_all add: T mp_producing_def no_claims_def\<close>)
    then show ?thesis using 2 by (simp add: multi_test_threads_def)
  next
    case 3
    then show ?thesis by (simp add: multi_test_threads_def)
  qed
qed

section \<open>A run to completion\<close>

text \<open>Each writer has a batch of two messages and the last one; the second publishes first.\<close>

definition mt_test_set_up :: "message mach" where
  "mt_test_set_up = init_barriers [0..<1] (init_entries 8 0 0 (put (Cell 0) 0 (at_rest dead)))"

lemma multi_test_run:
  fixes W :: "message wait_strategy" defines "W \<equiv> spin_wait_strategy 7"
  obtains \<sigma> ps where
    "pool_exec
       [(1, 0), (2, 0), (2, 0), (2, 0), (2, 0), (2, 0), (2, 0), (2, 0), (2, 0), (2, 0), (2, 0), (2, 0), (2, 0), (2, 0),
        (1, 0), (1, 0), (1, 0), (1, 0), (1, 0), (1, 0), (1, 0), (1, 0), (1, 0), (1, 0), (1, 0), (1, 0), (0, 0), (0, 0),
        (0, 0), (0, 0), (0, 0), (0, 0), (0, 0), (0, 0), (0, 0), (0, 0), (0, 0), (0, 0), (0, 0), (0, 0)]
       (mt_test_set_up, multi_test_threads (Suc (Suc (Suc (Suc (Suc (Suc (Suc (Suc 0))))))))
          (new_multi 3 W [1], new_barrier_at W (Cell 1), new_buffer 3) 2 2 2) = Some (\<sigma>, ps)"
    "ps 0 = Return (Some (0, 6))"
  unfolding W_def
  by (simp_all add: multi_test_threads_def mt_reader_def mt_writer_def mt_claim_batch_def mt_claim_def
      mt_publish_range_def mt_publish_loop.simps sequence_range_defs write_items.simps read_messages.simps
      count_exit_def dead_def run_mt_thread_defs mt_test_set_up_def mem_put Let_def)

section \<open>The test\<close>

text \<open>
  C8.  The test program with any number of batch-claiming writers and one reader on the multi-threaded
  claim strategy, with either wait strategy, any buffer size, any batch size and any number of
  items, the positions staying below \<open>2 ^ 62\<close>: in every execution on the weak machine no assertion
  fails (among them the one of \<open>set_published\<close> for every position of a range), every access to a slot
  happens after those it conflicts with, and the reader, when it ends, has read
  all messages of all writers, and none beyond them: it never ends on the last messages of
  some writers while another has messages to come.
\<close>

theorem multi_batches_correct:
  assumes "W \<in> library_strategies" and "bufferSize \<le> 2 ^ 62"
    and "0 < writerBatchSize" and "int writerCount * (uint itemCount + 1) < 2 ^ 62"
    and "run 0 alone (multi_test_setup W bufferSize) 0 \<sigma> = (Returned objects, \<sigma>0, l)"
    and "owner \<sigma> = (\<lambda>_. None)"
    and "weak_run ((\<sigma>0, fresh \<sigma>0), multi_test_threads n objects writerCount writerBatchSize itemCount) ((\<sigma>', \<omega>), ps)"
  shows "sound_pool {0} (Some (0, of_nat writerCount * (itemCount + 1))) ps \<and> race_free \<omega> ps"
proof -
  obtain k where k: "k \<le> 62" and o: "objects = (new_multi k W [1], new_barrier_at W (Cell 1), new_buffer k)"
    and \<sigma>0: "\<sigma>0 = init_barriers [0..<1] (init_entries (2 ^ k) 0 0 (put (Cell 0) 0 \<sigma>))"
    using assms(5,2) unfolding mt_one_consumer by (rule mt_one_consumer_returns)
  note mem = mem_mt_init [where k = k and m = 1 and \<sigma> = \<sigma>, folded \<sigma>0]
  let ?T = "mp_messages k (uint itemCount) writerCount"
  have wf: "mp_well_arranged ?T" using k assms(4) by (intro mp_well_arranged_messages) simp_all
  have free: "owner \<sigma>0 = (\<lambda>_. None)" using k mem(4) assms(6) by simp
  have inv: "mp_inv ?T (\<sigma>0, no_claims k \<sigma>0)" using k mem mp_inv_start [of \<sigma>0 ?T] by simp
  show ?thesis
  proof (rule weak_race_free_protocol.weak_sound_run [OF mp_race_free [OF wf]])
    show "weak_run ((\<sigma>0, g_hist (no_claims k \<sigma>0)), multi_test_threads n objects writerCount writerBatchSize itemCount)
        ((\<sigma>', \<omega>), ps)"
      using assms(7) by simp
    show "invar (mp_protocol ?T) (\<sigma>0, no_claims k \<sigma>0)" using inv by simp
    show "weakly_safe g_hist (mp_protocol ?T) t (multi_test_threads n objects writerCount writerBatchSize itemCount t)
        (\<lambda>x s. t \<in> {0} \<longrightarrow> x = Some (0, of_nat writerCount * (itemCount + 1))) (\<sigma>0, no_claims k \<sigma>0)" for t
      unfolding o
      by (rule multi_test_safely [OF library_strategy_model [OF assms(1)] k assms(3,4) inv free refl])
  qed
qed

lemma multi_batches_correct_witness:
  "\<exists>objects \<sigma>0 l \<sigma>' \<omega> ps.
     run 0 alone (multi_test_setup (spin_wait_strategy 7) 8) 0 (at_rest dead) = (Returned objects, \<sigma>0, l) \<and>
     weak_run ((\<sigma>0, fresh \<sigma>0), multi_test_threads (Suc (Suc (Suc (Suc (Suc (Suc (Suc (Suc 0)))))))) objects 2 2 2) ((\<sigma>', \<omega>), ps) \<and>
     ps 0 = Return (Some (0, 6)) \<and> sound_pool {0} (Some (0, of_nat 2 * (2 + 1))) ps \<and> race_free \<omega> ps"
proof -
  let ?objects = "(new_multi 3 (spin_wait_strategy 7) [1], new_barrier_at (spin_wait_strategy 7) (Cell 1), new_buffer 3)"
  let ?threads = "multi_test_threads (Suc (Suc (Suc (Suc (Suc (Suc (Suc (Suc 0)))))))) ?objects 2 2 2"
  obtain w \<sigma>' ps where p: "pool_exec w (mt_test_set_up, ?threads) = Some (\<sigma>', ps)" and x: "ps 0 = Return (Some (0, 6))"
    by (rule multi_test_run)
  obtain l where l: "run 0 alone (new_multi_claim (2 ^ 3) (spin_wait_strategy 7) 0 (Cell 0)) 0 (at_rest dead) =
      (Returned (new_multi 3 (spin_wait_strategy 7) []), init_entries (2 ^ 3) 0 0 (put (Cell 0) 0 (at_rest dead)), l)"
    using run_new_multi_claim_ok [of 3] by force
  have "\<exists>l. run 0 alone (multi_test_setup (spin_wait_strategy 7) (2 ^ 3)) 0 (at_rest dead) = (Returned ?objects, mt_test_set_up, l)"
    by (simp only: mt_one_consumer mt_one_consumer_def run_bind [OF l])
      (simp add: run_new_sequence_barrier mt_add_claim_barrier_new [where g = 1, simplified]
        new_ring_buffer_power [of 3, simplified] mt_test_set_up_def)
  then obtain l where r: "run 0 alone (multi_test_setup (spin_wait_strategy 7) 8) 0 (at_rest dead) =
      (Returned ?objects, mt_test_set_up, l)" by auto
  from p obtain \<omega> where w: "weak_run ((mt_test_set_up, fresh mt_test_set_up), ?threads) ((\<sigma>', \<omega>), ps)"
    by (rule pool_exec_weak_run)
  have "sound_pool {0} (Some (0, of_nat 2 * (2 + 1))) ps \<and> race_free \<omega> ps"
    by (rule multi_batches_correct [OF _ _ _ _ r _ w]) (simp_all add: at_rest_def)
  with r w x show ?thesis by blast
qed

end
