(* ===== verification/Joint_Protocols.thy ===== *)
theory Joint_Protocols
  imports Rely_Guarantee
begin

text \<open>
  One pool of threads under two protocols at once.  The first protocol is the one that shows
  the threads correct; the second adds what it does not speak of, and may take from it that no
  assertion fails.  A link relates the ghost states of the two.
\<close>

section \<open>Leaving the assertions to another protocol\<close>

primrec lenient :: "('d, 'a) prog \<Rightarrow> ('d, 'a) prog" where
  "lenient (Return x) = Return x"
| "lenient (Act c k) = Act c (\<lambda>r. lenient (k r))"
| "lenient Assert_Failed = Out_Of_Fuel"
| "lenient Out_Of_Fuel = Out_Of_Fuel"

definition attempt ::
    "('d, 'g) protocol \<Rightarrow> nat \<Rightarrow> ('d, 'a) prog \<Rightarrow> ('a \<Rightarrow> 'd mach \<times> 'g \<Rightarrow> bool) \<Rightarrow> 'd mach \<times> 'g \<Rightarrow> bool" where
  "attempt P t p Q = safe P t (lenient p) Q"

lemma safe_attempt: "safe P t p Q s \<Longrightarrow> attempt P t p Q s"
  unfolding attempt_def
proof (induction p arbitrary: s)
  case (Act c k)
  have IH: "safe P t (k r) Q s' \<Longrightarrow> safe P t (lenient (k r)) Q s'" for r s'
    by (rule Act.IH [OF rangeI])
  show ?case using Act.prems unfolding lenient.simps safe.simps by (meson IH)
qed auto

lemma lenient_bind: "lenient (bind p f) = bind (lenient p) (\<lambda>x. lenient (f x))"
  by (induction p) auto

lemma attempt_bind: "attempt P t (bind p f) Q s \<longleftrightarrow> attempt P t p (\<lambda>x. attempt P t (f x) Q) s"
  by (simp add: attempt_def lenient_bind safe_bind)

lemma attempt_simps [simp]:
  "attempt P t (Return x) Q = Q x" "attempt P t Out_Of_Fuel Q s" "attempt P t Assert_Failed Q s"
  "attempt P t (assert b p) Q s \<longleftrightarrow> (b \<longrightarrow> attempt P t p Q s)"
  by (simp_all add: attempt_def assert_def fun_eq_iff)

lemma attempt_Act: "attempt P t (Act c k) Q s \<longleftrightarrow> (\<forall>\<sigma> \<gamma>. rely P t s (\<sigma>, \<gamma>) \<longrightarrow>
     disciplined t c \<sigma> \<and> okay P t c (\<sigma>, \<gamma>) \<and>
     (\<forall>n r \<sigma>'. exec t n c \<sigma> = Some (r, \<sigma>') \<longrightarrow>
       (\<exists>\<gamma>'. guar P t (\<sigma>, \<gamma>) (\<sigma>', \<gamma>') \<and> attempt P t (k r) Q (\<sigma>', \<gamma>'))))"
  by (simp add: attempt_def safe.simps)

text \<open>What leads into a safe access may go on leniently.\<close>

lemma attempt_do_act: "attempt P t (do_act c p) Q s \<longleftrightarrow> safe P t (do_act c (lenient p)) Q s"
  by (simp add: attempt_def do_act_def)

lemma attempt_read_data: "attempt P t (read_data b i k) Q s \<longleftrightarrow> safe P t (read_data b i (\<lambda>x. lenient (k x))) Q s"
  by (simp add: attempt_def read_data_def)

lemma attempt_load: "attempt P t (load ord a k) Q s \<longleftrightarrow> safe P t (load ord a (\<lambda>x. lenient (k x))) Q s"
  by (simp add: attempt_def load_def)

lemma attempt_fetch_add:
  "attempt P t (fetch_add ord a v k) Q s \<longleftrightarrow> safe P t (fetch_add ord a v (\<lambda>x. lenient (k x))) Q s"
  by (simp add: attempt_def fetch_add_def)

section \<open>Two protocols\<close>

locale linked_protocols = one: sound_protocol P1 + two: sound_protocol P2
  for P1 :: "('d, 'g) protocol" and P2 :: "('d, 'h) protocol" +
  fixes link :: "'d mach \<Rightarrow> 'g \<Rightarrow> 'h \<Rightarrow> bool"
  assumes link_step: "invar P1 (\<sigma>, \<gamma>) \<Longrightarrow> invar P1 (\<sigma>', \<gamma>') \<Longrightarrow> guar P1 t (\<sigma>, \<gamma>) (\<sigma>', \<gamma>') \<Longrightarrow>
    guar P2 t (\<sigma>, \<eta>) (\<sigma>', \<eta>') \<Longrightarrow> link \<sigma> \<gamma> \<eta> \<Longrightarrow> link \<sigma>' \<gamma>' \<eta>'"
begin

definition jointly :: "(nat \<Rightarrow> 'a \<Rightarrow> 'd mach \<times> 'g \<Rightarrow> bool) \<Rightarrow> (nat \<Rightarrow> 'a \<Rightarrow> 'd mach \<times> 'h \<Rightarrow> bool) \<Rightarrow>
    ('d, 'a) pool \<Rightarrow> 'g \<Rightarrow> 'h \<Rightarrow> bool" where
  "jointly Q1 Q2 c \<gamma> \<eta> \<longleftrightarrow> invar P1 (fst c, \<gamma>) \<and> invar P2 (fst c, \<eta>) \<and> link (fst c) \<gamma> \<eta> \<and>
     (\<forall>t. safe P1 t (snd c t) (Q1 t) (fst c, \<gamma>)) \<and> (\<forall>t. attempt P2 t (snd c t) (Q2 t) (fst c, \<eta>))"

lemma jointly_step:
  assumes j: "jointly Q1 Q2 (\<sigma>, ps) \<gamma> \<eta>" and p: "ps t = Act a k" and e: "exec t n a \<sigma> = Some (r, \<sigma>')"
    and stable: "\<And>t x s s'. Q1 t x s \<Longrightarrow> rely P1 t s s' \<Longrightarrow> Q1 t x s'"
      "\<And>t x s s'. Q2 t x s \<Longrightarrow> rely P2 t s s' \<Longrightarrow> Q2 t x s'"
  shows "\<exists>\<gamma>' \<eta>'. guar P1 t (\<sigma>, \<gamma>) (\<sigma>', \<gamma>') \<and> guar P2 t (\<sigma>, \<eta>) (\<sigma>', \<eta>') \<and> jointly Q1 Q2 (\<sigma>', ps(t := k r)) \<gamma>' \<eta>'"
proof -
  have safe: "safe P1 u (ps u) (Q1 u) (\<sigma>, \<gamma>)" "safe P2 u (lenient (ps u)) (Q2 u) (\<sigma>, \<eta>)" for u
    using j by (auto simp: jointly_def attempt_def)
  have inv: "invar P1 (\<sigma>, \<gamma>)" "invar P2 (\<sigma>, \<eta>)" "link \<sigma> \<gamma> \<eta>" using j by (simp_all add: jointly_def)
  obtain \<gamma>' where g1: "guar P1 t (\<sigma>, \<gamma>) (\<sigma>', \<gamma>')" and s1: "safe P1 t (k r) (Q1 t) (\<sigma>', \<gamma>')"
    using safe(1) [of t] one.rely_refl e unfolding p safe.simps by blast
  obtain \<eta>' where g2: "guar P2 t (\<sigma>, \<eta>) (\<sigma>', \<eta>')" and s2: "safe P2 t (lenient (k r)) (Q2 t) (\<sigma>', \<eta>')"
    using safe(2) [of t] two.rely_refl e unfolding p lenient.simps safe.simps by blast
  have "safe P1 u ((ps(t := k r)) u) (Q1 u) (\<sigma>', \<gamma>') \<and> attempt P2 u ((ps(t := k r)) u) (Q2 u) (\<sigma>', \<eta>')" for u
  proof (cases "u = t")
    case False
    then have "rely P1 u (\<sigma>, \<gamma>) (\<sigma>', \<gamma>')" "rely P2 u (\<sigma>, \<eta>) (\<sigma>', \<eta>')"
      using one.guar_rely [OF _ g1] two.guar_rely [OF _ g2] by simp_all
    then show ?thesis
      using False safe [of u] stable by (auto simp: attempt_def intro: one.safe_rely two.safe_rely)
  qed (simp add: s1 s2 attempt_def)
  moreover have inv1: "invar P1 (\<sigma>', \<gamma>')" using one.guar_inv [OF g1 inv(1)] .
  moreover have "invar P2 (\<sigma>', \<eta>')" using two.guar_inv [OF g2 inv(2)] .
  moreover have "link \<sigma>' \<gamma>' \<eta>'" using link_step [OF inv(1) inv1 g1 g2 inv(3)] .
  ultimately have "jointly Q1 Q2 (\<sigma>', ps(t := k r)) \<gamma>' \<eta>'" by (simp add: jointly_def)
  with g1 g2 show ?thesis by blast
qed

theorem pool_jointly:
  assumes "pool_run (\<sigma>0, ps0) c" and "jointly Q1 Q2 (\<sigma>0, ps0) \<gamma>0 \<eta>0"
    and stable: "\<And>t x s s'. Q1 t x s \<Longrightarrow> rely P1 t s s' \<Longrightarrow> Q1 t x s'"
      "\<And>t x s s'. Q2 t x s \<Longrightarrow> rely P2 t s s' \<Longrightarrow> Q2 t x s'"
  shows "\<exists>\<gamma> \<eta>. jointly Q1 Q2 c \<gamma> \<eta>"
  using assms(1)
proof (induction rule: pool_run.induct)
  case start
  then show ?case using assms(2) by blast
next
  case (step c c')
  then obtain \<gamma> \<eta> where j: "jointly Q1 Q2 c \<gamma> \<eta>" by blast
  from \<open>pool_step c c'\<close> obtain \<sigma> ps t a k n r \<sigma>' where c: "c = (\<sigma>, ps)" "c' = (\<sigma>', ps(t := k r))"
    and p: "ps t = Act a k" and e: "exec t n a \<sigma> = Some (r, \<sigma>')"
    by (cases rule: pool_step.cases) auto
  have "\<exists>\<gamma>' \<eta>'. guar P1 t (\<sigma>, \<gamma>) (\<sigma>', \<gamma>') \<and> guar P2 t (\<sigma>, \<eta>) (\<sigma>', \<eta>') \<and> jointly Q1 Q2 (\<sigma>', ps(t := k r)) \<gamma>' \<eta>'"
    by (rule jointly_step [OF j [unfolded c(1)] p e]) (erule (1) stable)+
  then show ?case unfolding c(2) by blast
qed

end

end
