(* ===== verification/Sleeping.thy ===== *)
theory Sleeping
  imports Sequence_Barrier_Group Blocking_Wait_Strategy Joint_Protocols
begin

text \<open>
  Sleeping threads and the publications that wake them.  Threads share one blocking wait
  strategy; each publishes numbers in atomics and waits, on the condition variable, for atomics
  of others.  The protocol of this theory says that nobody sleeps through a change: whoever is
  asleep either waits for something that has not happened yet or is about to be notified.
\<close>

section \<open>The protocol\<close>

text \<open>
  A thread \<open>t\<close> waits, before it publishes the number \<open>v\<close>, until all \<open>sl_sources t v\<close> have reached
  \<open>v - sl_offset t\<close>.  An owner publishes one number after the other, up to the one before \<open>sl_goal\<close>,
  in the atomic \<open>sl_own t\<close>; a claimer publishes the numbers that it claims from \<open>sl_counter\<close>, each
  in its \<open>sl_entry\<close>.
\<close>

record sleepers =
  sl_mutex :: nat
  sl_owners :: "nat set"
  sl_claimers :: "nat set"
  sl_own :: "nat \<Rightarrow> addr"
  sl_counter :: addr
  sl_entry :: "sequence_t \<Rightarrow> addr"
  sl_sources :: "nat \<Rightarrow> sequence_t \<Rightarrow> addr set"
  sl_offset :: "nat \<Rightarrow> sequence_t"
  sl_goal :: sequence_t

definition sl_threads :: "sleepers \<Rightarrow> nat set" where
  "sl_threads D = sl_owners D \<union> sl_claimers D"

text \<open>
  The ghost state: the threads that have stored a number and not yet notified the others, the
  number that each thread is about to publish, and the claimed numbers that have been stored.
\<close>

record sleeping =
  sg_pending :: "nat set"
  sg_next :: "nat \<Rightarrow> sequence_t option"
  sg_stored :: "sequence_t set"

text \<open>What \<open>sg_next\<close> is of a thread that has ended.\<close>

definition sl_last :: "sleepers \<Rightarrow> nat \<Rightarrow> sequence_t option" where
  "sl_last D t = (if t \<in> sl_owners D then Some (sl_goal D) else None)"

definition sl_lagging :: "sleepers \<Rightarrow> nat \<Rightarrow> 'd mach \<times> sleeping \<Rightarrow> bool" where
  "sl_lagging D t s \<longleftrightarrow> (\<exists>v. sg_next (snd s) t = Some v \<and>
     (\<exists>a \<in> sl_sources D t v. difference (mem (fst s) a) (v - sl_offset D t) < 0))"

definition sl_alert :: "sleepers \<Rightarrow> nat \<Rightarrow> 'd mach \<times> sleeping \<Rightarrow> bool" where
  "sl_alert D t s \<longleftrightarrow> sg_next (snd s) t \<noteq> sl_last D t \<and> (sg_pending (snd s) \<noteq> {} \<or> sl_lagging D t s)"

definition sl_apart :: "sleepers \<Rightarrow> bool" where
  "sl_apart D \<longleftrightarrow> sl_owners D \<inter> sl_claimers D = {} \<and> inj_on (sl_own D) (sl_owners D) \<and>
     (\<forall>t \<in> sl_owners D. sl_own D t \<noteq> sl_counter D \<and> (\<forall>x. sl_entry D x \<noteq> sl_own D t)) \<and>
     (\<forall>x. sl_entry D x \<noteq> sl_counter D) \<and> (\<forall>t v. sl_counter D \<notin> sl_sources D t v)"

text \<open>Every number that has been claimed is stored or about to be published.\<close>

definition sl_inv :: "sleepers \<Rightarrow> 'd mach \<times> sleeping \<Rightarrow> bool" where
  "sl_inv D s \<longleftrightarrow> sl_apart D \<and>
     (\<forall>t \<in> waiting (fst s) (sl_mutex D). t \<in> sl_threads D \<and> sl_alert D t s) \<and>
     (\<forall>t \<in> sl_owners D. sg_next (snd s) t = Some (mem (fst s) (sl_own D t) + 1)) \<and>
     (sl_claimers D \<noteq> {} \<longrightarrow> (\<forall>x < mem (fst s) (sl_counter D).
        x \<in> sg_stored (snd s) \<or> (\<exists>j \<in> sl_claimers D. sg_next (snd s) j = Some x)))"

definition sl_rely :: "sleepers \<Rightarrow> nat \<Rightarrow> 'd mach \<times> sleeping \<Rightarrow> 'd mach \<times> sleeping \<Rightarrow> bool" where
  "sl_rely D t s s' \<longleftrightarrow> (sl_inv D s \<longrightarrow> sl_inv D s') \<and> sg_next (snd s') t = sg_next (snd s) t \<and>
     (t \<in> sg_pending (snd s') \<longleftrightarrow> t \<in> sg_pending (snd s)) \<and>
     (\<forall>m. owner (fst s') m = Some t \<longleftrightarrow> owner (fst s) m = Some t) \<and>
     (t \<in> waiting (fst s') (sl_mutex D) \<longrightarrow> t \<in> waiting (fst s) (sl_mutex D)) \<and>
     (t \<in> sl_threads D \<longrightarrow> owner (fst s) (sl_mutex D) = Some t \<longrightarrow> sl_alert D t s \<longrightarrow> sl_alert D t s')"

text \<open>
  A number that a claimer is about to publish has been taken from the counter, and a number
  counts as stored when its entry holds it.
\<close>

definition sl_honest :: "sleepers \<Rightarrow> 'd mach \<times> sleeping \<Rightarrow> 'd mach \<times> sleeping \<Rightarrow> bool" where
  "sl_honest D s s' \<longleftrightarrow>
     (\<forall>j \<in> sl_claimers D. \<forall>x. sg_next (snd s') j = Some x \<longrightarrow> sg_next (snd s) j = Some x \<or>
        x = mem (fst s) (sl_counter D) \<and> mem (fst s') (sl_counter D) = x + 1) \<and>
     (\<forall>x \<in> sg_stored (snd s'). x \<in> sg_stored (snd s) \<or> mem (fst s') (sl_entry D x) = x)"

text \<open>A thread that goes to sleep has notified the others of what it has stored.\<close>

fun sl_okay :: "sleepers \<Rightarrow> nat \<Rightarrow> 'd act \<Rightarrow> 'd mach \<times> sleeping \<Rightarrow> bool" where
  "sl_okay D t (Lock m) s \<longleftrightarrow> m = sl_mutex D"
| "sl_okay D t (Cv_Wake m) s \<longleftrightarrow> m = sl_mutex D \<and> t \<notin> sg_pending (snd s)"
| "sl_okay D t c s \<longleftrightarrow> True"

definition sl_protocol :: "sleepers \<Rightarrow> ('d, sleeping) protocol" where
  "sl_protocol D = \<lparr>rely = sl_rely D, guar = (\<lambda>t s s'. sl_honest D s s' \<and> (\<forall>u. u \<noteq> t \<longrightarrow> sl_rely D u s s')),
     okay = sl_okay D, invar = sl_inv D\<rparr>"

lemma sl_protocol_select [simp]:
  "rely (sl_protocol D) = sl_rely D" "okay (sl_protocol D) = sl_okay D" "invar (sl_protocol D) = sl_inv D"
  "guar (sl_protocol D) t s s' \<longleftrightarrow> sl_honest D s s' \<and> (\<forall>u. u \<noteq> t \<longrightarrow> sl_rely D u s s')"
  by (simp_all add: sl_protocol_def)

lemma sl_rely_trans: "sl_rely D t s s' \<Longrightarrow> sl_rely D t s' s'' \<Longrightarrow> sl_rely D t s s''"
  by (auto simp: sl_rely_def)

interpretation sl: sound_protocol "sl_protocol D :: ('d, sleeping) protocol" for D :: sleepers
proof unfold_locales
  fix t s s' s'' and u :: nat
  show "rely (sl_protocol D) t s s" by (simp add: sl_rely_def)
  show "rely (sl_protocol D) t s s''" if "rely (sl_protocol D) t s s'" "rely (sl_protocol D) t s' s''"
    using that sl_rely_trans by simp blast
  show "invar (sl_protocol D) s'" if "rely (sl_protocol D) t s s'" "invar (sl_protocol D) s"
    using that by (simp add: sl_rely_def)
  show "invar (sl_protocol D) s'" if g: "guar (sl_protocol D) t s s'" and i: "invar (sl_protocol D) s"
  proof -
    have "sl_rely D (Suc t) s s'" using g by simp
    with i show ?thesis by (simp add: sl_rely_def)
  qed
  show "rely (sl_protocol D) u s s'" if "t \<noteq> u" "guar (sl_protocol D) t s s'"
    using that by simp
qed

section \<open>When nobody can go on\<close>

definition sl_ended :: "sleepers \<Rightarrow> nat \<Rightarrow> 'd mach \<times> sleeping \<Rightarrow> bool" where
  "sl_ended D t s \<longleftrightarrow> t \<notin> sg_pending (snd s) \<and> owner (fst s) (sl_mutex D) \<noteq> Some t \<and>
     (t \<in> sl_threads D \<longrightarrow> sg_next (snd s) t = sl_last D t)"

lemma sl_ended_rely: "sl_ended D t s \<Longrightarrow> sl_rely D t s s' \<Longrightarrow> sl_ended D t s'"
  by (auto simp: sl_ended_def sl_rely_def)

text \<open>The accesses that may have to wait.\<close>

lemma exec_None:
  assumes "exec t 0 c \<sigma> = None" and "disciplined t c \<sigma>"
  obtains m where "c = Lock m" "owner \<sigma> m \<noteq> None" "owner \<sigma> m \<noteq> Some t"
    | m where "c = Cv_Wake m" "owner \<sigma> m \<noteq> None \<or> t \<in> waiting \<sigma> m" "owner \<sigma> m \<noteq> Some t"
  using assms by (cases c) (auto split: if_splits)

text \<open>
  When no thread can go on without a spurious wake-up and none has run out of rounds, every
  thread has ended or waits for something that has not happened.
\<close>

lemma sl_stuck:
  assumes inv: "sl_inv D (\<sigma>, P)" and safe: "\<And>t. attempt (sl_protocol D) t (ps t) (\<lambda>x. sl_ended D t) (\<sigma>, P)"
    and fuel: "\<And>t. ps t \<noteq> Out_Of_Fuel" "\<And>t. ps t \<noteq> Assert_Failed" and stuck: "\<And>t. pool_exec [(t, 0)] (\<sigma>, ps) = None"
  shows "if \<exists>x. ps t = Return x then t \<in> sl_threads D \<longrightarrow> sg_next P t = sl_last D t
    else t \<in> sl_threads D \<and> sg_next P t \<noteq> sl_last D t \<and> sl_lagging D t (\<sigma>, P)"
proof -
  have act: "exec t 0 c \<sigma> = None \<and> disciplined t c \<sigma> \<and> sl_okay D t c (\<sigma>, P)" if "ps t = Act c k" for t c k
  proof (intro conjI)
    show "exec t 0 c \<sigma> = None" using stuck [of t] that by (auto split: option.splits)
    show "disciplined t c \<sigma>" "sl_okay D t c (\<sigma>, P)"
      using safe [of t] sl.rely_refl [of D t "(\<sigma>, P)"] unfolding that attempt_Act by auto
  qed
  have progress: "(\<exists>x. ps t = Return x) \<or> (\<exists>c k. ps t = Act c k)" for t
    using fuel [of t] by (cases "ps t") auto
  have ended: "sl_ended D t (\<sigma>, P)" if "ps t = Return x" for t x
    using safe [of t] by (simp add: that)
  have free: "owner \<sigma> (sl_mutex D) \<noteq> Some t" for t
  proof
    assume o: "owner \<sigma> (sl_mutex D) = Some t"
    with ended obtain c k where c: "ps t = Act c k" using progress [of t] by (auto simp: sl_ended_def)
    then show False using act [OF c] o by (auto elim: exec_None)
  qed
  then have none: "owner \<sigma> (sl_mutex D) = None" by (cases "owner \<sigma> (sl_mutex D)") auto
  have asleep: "t \<in> waiting \<sigma> (sl_mutex D) \<and> t \<notin> sg_pending P" if "ps t = Act c k" for t c k
    using act [OF that] none by (auto elim!: exec_None)
  have "t \<notin> sg_pending P" for t
    using progress [of t] asleep [of t] ended [of t] by (auto simp: sl_ended_def)
  then have "sg_pending P = {}" by blast
  with inv asleep ended progress [of t] show ?thesis
    by (auto simp: sl_inv_def sl_alert_def sl_ended_def)
qed

section \<open>A thread between its accesses\<close>

text \<open>
  Thread \<open>t\<close> is awake, holds the mutexes \<open>h\<close>, the next number it will publish is \<open>v\<close> (a claimer
  may have none), and it owes the others a notification if \<open>p\<close>.
\<close>

definition sl_at :: "sleepers \<Rightarrow> nat \<Rightarrow> sequence_t option \<Rightarrow> bool \<Rightarrow> nat set \<Rightarrow> 'd mach \<times> sleeping \<Rightarrow> bool" where
  "sl_at D t v p h s \<longleftrightarrow> sl_inv D s \<and> t \<in> sl_threads D \<and> sg_next (snd s) t = v \<and>
     (t \<in> sg_pending (snd s) \<longleftrightarrow> p) \<and> t \<notin> waiting (fst s) (sl_mutex D) \<and> holds_mutexes t h (fst s)"

lemma sl_at_rely: "sl_at D t v p h s \<Longrightarrow> sl_rely D t s s' \<Longrightarrow> sl_at D t v p h s'"
  by (auto simp: sl_at_def sl_rely_def holds_mutexes_def)

lemma sl_honest_same: "sl_honest D (\<sigma>, P) (\<sigma>', P)"
  by (simp add: sl_honest_def)

lemmas sl_mem_defs = sl_inv_def sl_alert_def sl_lagging_def

text \<open>An access that touches neither the atomics nor the mutex.\<close>

lemma sl_local_step:
  assumes "mem \<sigma>' = mem \<sigma>" "owner \<sigma>' = owner \<sigma>" "waiting \<sigma>' = waiting \<sigma>"
  shows "sl_rely D u (\<sigma>, P) (\<sigma>', P)" and "sl_at D t v p h (\<sigma>', P) = sl_at D t v p h (\<sigma>, P)"
proof -
  have a: "sl_alert D u (\<sigma>', P) = sl_alert D u (\<sigma>, P)" for u
    using assms by (simp add: sl_alert_def sl_lagging_def)
  have i: "sl_inv D (\<sigma>', P) = sl_inv D (\<sigma>, P)"
    using a assms by (simp add: sl_inv_def)
  show "sl_rely D u (\<sigma>, P) (\<sigma>', P)" using a i assms by (simp add: sl_rely_def)
  show "sl_at D t v p h (\<sigma>', P) = sl_at D t v p h (\<sigma>, P)"
    using i assms by (simp add: sl_at_def holds_mutexes_def)
qed

lemma sl_safe_read_data:
  assumes "sl_at D t v p h s" and "\<And>x s. sl_at D t v p h s \<Longrightarrow> safe (sl_protocol D) t (k x) Q s"
  shows "safe (sl_protocol D) t (read_data b i k) Q s"
  unfolding safe_read_data
proof (intro allI impI conjI)
  fix \<sigma> P assume "rely (sl_protocol D) t s (\<sigma>, P)"
  then have "sl_at D t v p h (\<sigma>, P)" using sl_at_rely [OF assms(1)] by simp
  moreover have "sl_rely D u (\<sigma>, P) (\<sigma>, P)" for u by (rule sl_local_step) simp_all
  ultimately show "\<exists>P'. guar (sl_protocol D) t (\<sigma>, P) (\<sigma>, P') \<and> safe (sl_protocol D) t (k (cells \<sigma> b i)) Q (\<sigma>, P')"
    using assms(2) by (intro exI [of _ P]) (simp add: sl_honest_same)
qed simp

lemma sl_safe_write_data:
  assumes "sl_at D t v p h s" and "\<And>s. sl_at D t v p h s \<Longrightarrow> safe (sl_protocol D) t q Q s"
  shows "safe (sl_protocol D) t (do_act (Write b i x) q) Q s"
  unfolding safe_do_act
proof (intro allI impI conjI)
  fix \<sigma> P n r \<sigma>' assume "rely (sl_protocol D) t s (\<sigma>, P)" and "exec t n (Write b i x) \<sigma> = Some (r, \<sigma>')"
  then have at: "sl_at D t v p h (\<sigma>, P)" and \<sigma>': "mem \<sigma>' = mem \<sigma>" "owner \<sigma>' = owner \<sigma>" "waiting \<sigma>' = waiting \<sigma>"
    using sl_at_rely [OF assms(1)] by auto
  have "sl_at D t v p h (\<sigma>', P)" using at sl_local_step(2) [OF \<sigma>'] by simp
  then show "\<exists>P'. guar (sl_protocol D) t (\<sigma>, P) (\<sigma>', P') \<and> safe (sl_protocol D) t q Q (\<sigma>', P')"
    using assms(2) sl_local_step(1) [OF \<sigma>'] by (intro exI [of _ P]) (simp add: sl_honest_same)
qed simp_all

subsection \<open>Looking\<close>

primrec loads_only :: "('d, 'a) prog \<Rightarrow> bool" where
  "loads_only (Return x) = True"
| "loads_only (Act c k) = ((\<exists>ord a. c = Load ord a) \<and> (\<forall>r. loads_only (k r)))"
| "loads_only Assert_Failed = False"
| "loads_only Out_Of_Fuel = False"

lemma loads_only_minimum_sequence_after_loop: "loads_only (minimum_sequence_after_loop m as d)"
  by (induction as arbitrary: d) (auto simp: load_def)

lemma loads_only_minimum_sequence_after: "as \<noteq> [] \<Longrightarrow> loads_only (minimum_sequence_after m as)"
  by (cases as) (auto simp: minimum_sequence_after_def load_def loads_only_minimum_sequence_after_loop)

text \<open>The thread has seen a source lagging.\<close>

definition saw_lagging :: "sleepers \<Rightarrow> nat \<Rightarrow> sequence_t \<Rightarrow> 'd log \<Rightarrow> bool" where
  "saw_lagging D t v l \<longleftrightarrow> (\<exists>ord a x. (Load ord a, RSeq x) \<in> set l \<and> a \<in> sl_sources D t v \<and>
     difference x (v - sl_offset D t) < 0)"

text \<open>
  What a thread has seen lagging, with the mutex in its hands, is lagging still, or somebody is
  about to notify.
\<close>

lemma sl_safe_loads:
  assumes "loads_only q" and "sl_at D t (Some v) p h s" and "saw_lagging D t v lg \<longrightarrow> sl_alert D t s"
    and "sl_mutex D \<in> h" and "Some v \<noteq> sl_last D t"
    and "\<And>l x s. returns q l x \<Longrightarrow> sl_at D t (Some v) p h s \<Longrightarrow> (saw_lagging D t v (lg @ l) \<longrightarrow> sl_alert D t s) \<Longrightarrow> Q x s"
  shows "safe (sl_protocol D) t q Q s"
  using assms(1-3,6)
proof (induction q arbitrary: s lg)
  case (Act c k)
  then obtain ord a where c: "c = Load ord a" by auto
  show ?case
    unfolding c safe.simps
  proof (intro allI impI conjI)
    fix \<sigma> P n r \<sigma>' assume r: "rely (sl_protocol D) t s (\<sigma>, P)" and e: "exec t n (Load ord a) \<sigma> = Some (r, \<sigma>')"
    have at: "sl_at D t (Some v) p h (\<sigma>, P)" using Act.prems(2) r by (auto intro: sl_at_rely)
    have "owner (fst s) (sl_mutex D) = Some t"
      using Act.prems(2) assms(4) by (auto simp: sl_at_def holds_mutexes_def)
    then have alert: "saw_lagging D t v lg \<longrightarrow> sl_alert D t (\<sigma>, P)"
      using Act.prems(2,3) r by (auto simp: sl_rely_def sl_at_def)
    have x: "r = RSeq (mem \<sigma> a)" "\<sigma>' = \<sigma>" using e by auto
    have "saw_lagging D t v (lg @ [(c, r)]) \<longrightarrow> sl_alert D t (\<sigma>, P)"
      using alert at assms(5) by (auto simp: saw_lagging_def sl_alert_def sl_lagging_def sl_at_def x c)
    moreover have "Q y s'" if "returns (k r) l y" "sl_at D t (Some v) p h s'"
      "saw_lagging D t v ((lg @ [(c, r)]) @ l) \<longrightarrow> sl_alert D t s'" for l y s'
      using that x c by (intro Act.prems(4) [of "(c, r) # l"]) (simp_all add: ends_Act)
    ultimately have "safe (sl_protocol D) t (k r) Q (\<sigma>, P)"
      using Act.prems(1) by (intro Act.IH [OF rangeI _ at, where lg = "lg @ [(c, r)]"]) auto
    moreover have "sl_rely D u (\<sigma>, P) (\<sigma>, P)" for u by (rule sl_local_step) simp_all
    ultimately show "\<exists>P'. guar (sl_protocol D) t (\<sigma>, P) (\<sigma>', P') \<and> safe (sl_protocol D) t (k r) Q (\<sigma>', P')"
      using x by (intro exI [of _ P]) (simp add: sl_honest_same)
  qed simp_all
next
  case (Return x)
  then show ?case using Return.prems(4) [of "[]" x s] by simp
qed simp_all

text \<open>Without the mutex there is nothing to remember.\<close>

lemma sl_safe_loads_free:
  assumes "loads_only q" and "sl_at D t v p h s"
    and "\<And>x s. sl_at D t v p h s \<Longrightarrow> Q x s"
  shows "safe (sl_protocol D) t q Q s"
  using assms(1,2)
proof (induction q arbitrary: s)
  case (Act c k)
  then obtain ord a where c: "c = Load ord a" by auto
  show ?case
    unfolding c safe.simps
  proof (intro allI impI conjI)
    fix \<sigma> P n r \<sigma>' assume r: "rely (sl_protocol D) t s (\<sigma>, P)" and e: "exec t n (Load ord a) \<sigma> = Some (r, \<sigma>')"
    have at: "sl_at D t v p h (\<sigma>, P)" using Act.prems(2) r by (auto intro: sl_at_rely)
    then have "safe (sl_protocol D) t (k r) Q (\<sigma>, P)"
      using Act.prems(1) by (intro Act.IH) auto
    moreover have "sl_rely D u (\<sigma>, P) (\<sigma>, P)" for u by (rule sl_local_step) simp_all
    ultimately show "\<exists>P'. guar (sl_protocol D) t (\<sigma>, P) (\<sigma>', P') \<and> safe (sl_protocol D) t (k r) Q (\<sigma>', P')"
      using e by (intro exI [of _ P]) (simp add: sl_honest_same)
  qed simp_all
qed (use assms(3) in simp_all)

subsection \<open>Sleeping\<close>

text \<open>A thread that may be asleep: the mutex is not with it, and it owes no notification.\<close>

definition sl_asleep :: "sleepers \<Rightarrow> nat \<Rightarrow> sequence_t option \<Rightarrow> 'd mach \<times> sleeping \<Rightarrow> bool" where
  "sl_asleep D t v s \<longleftrightarrow> sl_inv D s \<and> t \<in> sl_threads D \<and> sg_next (snd s) t = v \<and> t \<notin> sg_pending (snd s) \<and>
     holds_mutexes t {} (fst s)"

lemma sl_asleep_rely: "sl_asleep D t v s \<Longrightarrow> sl_rely D t s s' \<Longrightarrow> sl_asleep D t v s'"
  by (auto simp: sl_asleep_def sl_rely_def holds_mutexes_def)

lemma sl_alert_mem: "mem \<sigma>' = mem \<sigma> \<Longrightarrow> sl_alert D u (\<sigma>', P) = sl_alert D u (\<sigma>, P)"
  by (simp add: sl_alert_def sl_lagging_def)

text \<open>
  An access of \<open>t\<close> to the mutex or the condition variable: it leads from a stable \<open>F\<close> to \<open>G\<close>,
  and the others lose nothing by it.
\<close>

lemma sl_safe_sync:
  assumes "F s" and "\<And>s s'. F s \<Longrightarrow> sl_rely D t s s' \<Longrightarrow> F s'"
    and "\<And>\<sigma> P. F (\<sigma>, P) \<Longrightarrow> disciplined t c \<sigma> \<and> sl_okay D t c (\<sigma>, P)"
    and step: "\<And>\<sigma> P n r \<sigma>'. F (\<sigma>, P) \<Longrightarrow> exec t n c \<sigma> = Some (r, \<sigma>') \<Longrightarrow> mem \<sigma>' = mem \<sigma> \<and>
      (\<forall>m u. u \<noteq> t \<longrightarrow> (owner \<sigma>' m = Some u \<longleftrightarrow> owner \<sigma> m = Some u)) \<and>
      waiting \<sigma>' (sl_mutex D) \<subseteq> insert t (waiting \<sigma> (sl_mutex D)) \<and> sl_inv D (\<sigma>', P) \<and> G (\<sigma>', P)"
    and "\<And>s. G s \<Longrightarrow> safe (sl_protocol D) t q Q s"
  shows "safe (sl_protocol D) t (do_act c q) Q s"
  unfolding safe_do_act sl_protocol_select
proof (intro allI impI conjI)
  fix \<sigma> P assume "sl_rely D t s (\<sigma>, P)"
  then have F: "F (\<sigma>, P)" using assms(1,2) by blast
  show "disciplined t c \<sigma>" "sl_okay D t c (\<sigma>, P)" using assms(3) [OF F] by auto
  fix n r \<sigma>' assume e: "exec t n c \<sigma> = Some (r, \<sigma>')"
  have "sl_rely D u (\<sigma>, P) (\<sigma>', P)" if "u \<noteq> t" for u
    using step [OF F e] that sl_alert_mem [of \<sigma>' \<sigma> D u P] by (auto simp: sl_rely_def)
  then show "\<exists>P'. (sl_honest D (\<sigma>, P) (\<sigma>', P') \<and> (\<forall>u. u \<noteq> t \<longrightarrow> sl_rely D u (\<sigma>, P) (\<sigma>', P'))) \<and> safe (sl_protocol D) t q Q (\<sigma>', P')"
    using step [OF F e] assms(5) sl_honest_same by blast
qed

lemmas sl_sync_defs = sl_at_def sl_asleep_def sl_inv_def holds_mutexes_def

text \<open>The four accesses: their effect is computed, what they owe to the invariant is \<open>auto\<close>.\<close>

lemma sl_safe_lock:
  assumes "sl_at D t v p {} s"
    and "\<And>s. sl_at D t v p {sl_mutex D} s \<Longrightarrow> safe (sl_protocol D) t q Q s"
  shows "safe (sl_protocol D) t (do_act (Lock (sl_mutex D)) q) Q s"
proof (rule sl_safe_sync [where F = "sl_at D t v p {}" and G = "sl_at D t v p {sl_mutex D}"])
  fix \<sigma> \<sigma>' :: "'a mach" and P n r assume at: "sl_at D t v p {} (\<sigma>, P)"
  then show "disciplined t (Lock (sl_mutex D)) \<sigma> \<and> sl_okay D t (Lock (sl_mutex D)) (\<sigma>, P)"
    by (simp add: sl_sync_defs)
  assume "exec t n (Lock (sl_mutex D)) \<sigma> = Some (r, \<sigma>')"
  then have \<sigma>': "\<sigma>' = \<sigma>\<lparr>owner := (owner \<sigma>)(sl_mutex D := Some t)\<rparr>" "owner \<sigma> (sl_mutex D) = None"
    by (auto split: if_splits)
  then show "mem \<sigma>' = mem \<sigma> \<and> (\<forall>m u. u \<noteq> t \<longrightarrow> (owner \<sigma>' m = Some u \<longleftrightarrow> owner \<sigma> m = Some u)) \<and>
      waiting \<sigma>' (sl_mutex D) \<subseteq> insert t (waiting \<sigma> (sl_mutex D)) \<and> sl_inv D (\<sigma>', P) \<and>
      sl_at D t v p {sl_mutex D} (\<sigma>', P)"
    using at sl_alert_mem [of \<sigma>' \<sigma> D _ P] by (auto simp: sl_sync_defs)
qed (use assms in \<open>auto intro: sl_at_rely\<close>)

lemma sl_safe_unlock:
  assumes "sl_at D t v p {sl_mutex D} s"
    and "\<And>s. sl_at D t v p {} s \<Longrightarrow> safe (sl_protocol D) t q Q s"
  shows "safe (sl_protocol D) t (do_act (Unlock (sl_mutex D)) q) Q s"
proof (rule sl_safe_sync [where F = "sl_at D t v p {sl_mutex D}" and G = "sl_at D t v p {}"])
  fix \<sigma> \<sigma>' :: "'a mach" and P n r assume at: "sl_at D t v p {sl_mutex D} (\<sigma>, P)"
  then show "disciplined t (Unlock (sl_mutex D)) \<sigma> \<and> sl_okay D t (Unlock (sl_mutex D)) (\<sigma>, P)"
    by (simp add: sl_sync_defs)
  assume "exec t n (Unlock (sl_mutex D)) \<sigma> = Some (r, \<sigma>')"
  then have \<sigma>': "\<sigma>' = \<sigma>\<lparr>owner := (owner \<sigma>)(sl_mutex D := None)\<rparr>" "owner \<sigma> (sl_mutex D) = Some t"
    by (auto split: if_splits)
  then have "owner \<sigma> (sl_mutex D) = Some u \<longleftrightarrow> u = t" for u by auto
  with \<sigma>' show "mem \<sigma>' = mem \<sigma> \<and> (\<forall>m u. u \<noteq> t \<longrightarrow> (owner \<sigma>' m = Some u \<longleftrightarrow> owner \<sigma> m = Some u)) \<and>
      waiting \<sigma>' (sl_mutex D) \<subseteq> insert t (waiting \<sigma> (sl_mutex D)) \<and> sl_inv D (\<sigma>', P) \<and>
      sl_at D t v p {} (\<sigma>', P)"
    using at sl_alert_mem [of \<sigma>' \<sigma> D _ P] by (auto simp: sl_sync_defs)
qed (use assms in \<open>auto intro: sl_at_rely\<close>)

lemma sl_safe_sleep:
  assumes "sl_at D t v False {sl_mutex D} s" and "sl_alert D t s"
    and "\<And>s. sl_asleep D t v s \<Longrightarrow> safe (sl_protocol D) t q Q s"
  shows "safe (sl_protocol D) t (do_act (Cv_Block (sl_mutex D)) q) Q s"
proof (rule sl_safe_sync [where F = "\<lambda>s. sl_at D t v False {sl_mutex D} s \<and> sl_alert D t s" and G = "sl_asleep D t v"])
  fix s s' :: "'a mach \<times> sleeping"
  show "sl_at D t v False {sl_mutex D} s' \<and> sl_alert D t s'"
    if at: "sl_at D t v False {sl_mutex D} s \<and> sl_alert D t s" and r: "sl_rely D t s s'"
    using sl_at_rely [OF _ r] at r by (auto simp: sl_rely_def sl_at_def holds_mutexes_def)
next
  fix \<sigma> \<sigma>' :: "'a mach" and P n r assume at: "sl_at D t v False {sl_mutex D} (\<sigma>, P) \<and> sl_alert D t (\<sigma>, P)"
  then show "disciplined t (Cv_Block (sl_mutex D)) \<sigma> \<and> sl_okay D t (Cv_Block (sl_mutex D)) (\<sigma>, P)"
    by (simp add: sl_sync_defs)
  assume "exec t n (Cv_Block (sl_mutex D)) \<sigma> = Some (r, \<sigma>')"
  then have \<sigma>': "\<sigma>' = \<sigma>\<lparr>owner := (owner \<sigma>)(sl_mutex D := None),
      waiting := (waiting \<sigma>)(sl_mutex D := insert t (waiting \<sigma> (sl_mutex D)))\<rparr>" "owner \<sigma> (sl_mutex D) = Some t"
    by (auto split: if_splits)
  then have "owner \<sigma> (sl_mutex D) = Some u \<longleftrightarrow> u = t" for u by auto
  with \<sigma>' show "mem \<sigma>' = mem \<sigma> \<and> (\<forall>m u. u \<noteq> t \<longrightarrow> (owner \<sigma>' m = Some u \<longleftrightarrow> owner \<sigma> m = Some u)) \<and>
      waiting \<sigma>' (sl_mutex D) \<subseteq> insert t (waiting \<sigma> (sl_mutex D)) \<and> sl_inv D (\<sigma>', P) \<and> sl_asleep D t v (\<sigma>', P)"
    using at sl_alert_mem [of \<sigma>' \<sigma> D _ P] by (auto simp: sl_sync_defs)
qed (use assms in auto)

lemma sl_safe_wake:
  assumes "sl_asleep D t v s"
    and "\<And>s. sl_at D t v False {sl_mutex D} s \<Longrightarrow> safe (sl_protocol D) t q Q s"
  shows "safe (sl_protocol D) t (do_act (Cv_Wake (sl_mutex D)) q) Q s"
proof (rule sl_safe_sync [where F = "sl_asleep D t v" and G = "sl_at D t v False {sl_mutex D}"])
  fix \<sigma> \<sigma>' :: "'a mach" and P n r assume at: "sl_asleep D t v (\<sigma>, P)"
  then show "disciplined t (Cv_Wake (sl_mutex D)) \<sigma> \<and> sl_okay D t (Cv_Wake (sl_mutex D)) (\<sigma>, P)"
    by (simp add: sl_sync_defs)
  assume "exec t n (Cv_Wake (sl_mutex D)) \<sigma> = Some (r, \<sigma>')"
  then have \<sigma>': "\<sigma>' = \<sigma>\<lparr>owner := (owner \<sigma>)(sl_mutex D := Some t),
      waiting := (waiting \<sigma>)(sl_mutex D := waiting \<sigma> (sl_mutex D) - {t})\<rparr>" "owner \<sigma> (sl_mutex D) = None"
    by (auto split: if_splits)
  then show "mem \<sigma>' = mem \<sigma> \<and> (\<forall>m u. u \<noteq> t \<longrightarrow> (owner \<sigma>' m = Some u \<longleftrightarrow> owner \<sigma> m = Some u)) \<and>
      waiting \<sigma>' (sl_mutex D) \<subseteq> insert t (waiting \<sigma> (sl_mutex D)) \<and> sl_inv D (\<sigma>', P) \<and>
      sl_at D t v False {sl_mutex D} (\<sigma>', P)"
    using at sl_alert_mem [of \<sigma>' \<sigma> D _ P] by (auto simp: sl_sync_defs)
qed (use assms in \<open>auto intro: sl_asleep_rely\<close>)

section \<open>The operations of the library\<close>

text \<open>
  The predicate of \<open>condition_variable::wait\<close>, evaluated with the mutex held: when it is false a
  source is lagging, or else a notification is on its way, and this stays so.
\<close>

lemma sl_safe_look:
  assumes "sl_at D t (Some v) False {sl_mutex D} s" and "Some v \<noteq> sl_last D t"
    and as: "as \<noteq> []" "set as \<subseteq> sl_sources D t v"
    and post: "\<And>r s. sl_at D t (Some v) False {sl_mutex D} s \<Longrightarrow>
      (difference r (v - sl_offset D t) < 0 \<longrightarrow> sl_alert D t s) \<Longrightarrow> Q r s"
  shows "safe (sl_protocol D) t (minimum_sequence_after (v - sl_offset D t) as) Q s"
proof (rule sl_safe_loads [OF loads_only_minimum_sequence_after [OF as(1)] assms(1), where lg = "[]"])
  fix l r and s' :: "'a mach \<times> sleeping"
  assume "returns (minimum_sequence_after (v - sl_offset D t) as) l r"
    and at: "sl_at D t (Some v) False {sl_mutex D} s'" and alert: "saw_lagging D t v ([] @ l) \<longrightarrow> sl_alert D t s'"
  from this(1) have "saw as (v - sl_offset D t) r l" by (rule minimum_sequence_after_saw)
  then have "saw_lagging D t v l" if "difference r (v - sl_offset D t) < 0"
    using that as(2) by (auto simp: saw_def saw_lag_def saw_lagging_def)
  with at alert show "Q r s'" by (intro post) auto
qed (simp_all add: assms(2) saw_lagging_def)

lemma sl_safe_cv_wait:
  assumes "sl_at D t (Some v) False {sl_mutex D} s" and "Some v \<noteq> sl_last D t"
    and as: "as \<noteq> []" "set as \<subseteq> sl_sources D t v"
    and post: "\<And>r s. sl_at D t (Some v) False {sl_mutex D} s \<Longrightarrow> Q r s"
  shows "safe (sl_protocol D) t (cv_wait (sl_mutex D) n (v - sl_offset D t) as) Q s"
  using assms(1)
proof (induction n arbitrary: s)
  case 0
  show ?case
    unfolding cv_wait.simps safe_bind by (rule sl_safe_look [OF 0 assms(2) as]) (auto intro: post)
next
  case (Suc n)
  show ?case
    unfolding cv_wait.simps safe_bind
    by (rule sl_safe_look [OF Suc.prems assms(2) as])
      (auto intro: post Suc.IH intro!: sl_safe_sleep [where v = "Some v"] sl_safe_wake [where v = "Some v"])
qed

lemma sl_safe_blocking_wait:
  assumes "sl_at D t (Some v) False {} s" and "Some v \<noteq> sl_last D t" and as: "as \<noteq> []" "set as \<subseteq> sl_sources D t v"
    and post: "\<And>r s. sl_at D t (Some v) False {} s \<Longrightarrow> Q r s"
  shows "safe (sl_protocol D) t (blocking_wait_until_published (sl_mutex D) n (v - sl_offset D t) as) Q s"
  using assms
  by (auto simp: blocking_wait_until_published_def safe_bind
    intro!: sl_safe_lock [where v = "Some v"] sl_safe_cv_wait sl_safe_unlock [where v = "Some v"])

lemma sl_safe_barrier_wait:
  assumes "sl_at D t (Some v) False {} s" and "Some v \<noteq> sl_last D t"
    and b: "sb_waitStrategy b = blocking_wait_strategy (sl_mutex D)" "sb_lastPublished b \<in> sl_sources D t v"
    and post: "\<And>r s. sl_at D t (Some v) False {} s \<Longrightarrow> Q r s"
  shows "safe (sl_protocol D) t (barrier_wait_until_published n b (v - sl_offset D t)) Q s"
  unfolding barrier_wait_until_published_def safe_bind barrier_last_published_def
  by (rule sl_safe_loads_free [OF _ assms(1)])
    (use assms(2) b post in \<open>auto simp: load_def Let_def blocking_wait_strategy_def intro!: sl_safe_blocking_wait\<close>)

lemma sl_safe_group_wait:
  assumes "sl_at D t (Some v) False {} s" and "Some v \<noteq> sl_last D t"
    and g: "sbg_waitStrategy g = blocking_wait_strategy (sl_mutex D)" "sbg_sequences g \<noteq> []"
      "set (sbg_sequences g) \<subseteq> sl_sources D t v"
    and post: "\<And>r s. sl_at D t (Some v) False {} s \<Longrightarrow> Q r s"
  shows "safe (sl_protocol D) t (group_wait_until_published n g (v - sl_offset D t)) Q s"
  unfolding group_wait_until_published_def safe_bind safe_assert
proof (intro conjI g(2))
  show "safe (sl_protocol D) t (minimum_sequence_after (v - sl_offset D t) (sbg_sequences g))
     (\<lambda>x. safe (sl_protocol D) t
           (if 0 \<le> difference x (v - sl_offset D t) then Return x
            else ws_wait_until_published (sbg_waitStrategy g) n (v - sl_offset D t) (sbg_sequences g)) Q) s"
    by (rule sl_safe_loads_free [OF loads_only_minimum_sequence_after [OF g(2)] assms(1)])
      (use assms(2) g post in \<open>auto simp: blocking_wait_strategy_def intro!: sl_safe_blocking_wait\<close>)
qed

text \<open>
  Publishing: from the store on the thread owes a notification, so that everybody is alert; the
  notification wakes all who are asleep.
\<close>

lemma sl_safe_notify:
  assumes "sl_at D t v True {sl_mutex D} s"
    and "\<And>s. sl_at D t v False {sl_mutex D} s \<Longrightarrow> safe (sl_protocol D) t q Q s"
  shows "safe (sl_protocol D) t (do_act (Notify_All (sl_mutex D)) q) Q s"
  unfolding safe_do_act
proof (intro allI impI conjI)
  fix \<sigma> P n r \<sigma>' assume "rely (sl_protocol D) t s (\<sigma>, P)" and e: "exec t n (Notify_All (sl_mutex D)) \<sigma> = Some (r, \<sigma>')"
  then have at: "sl_at D t v True {sl_mutex D} (\<sigma>, P)" using sl_at_rely [OF assms(1)] by simp
  then have o: "owner \<sigma> (sl_mutex D) = Some t" by (simp add: sl_at_def holds_mutexes_def)
  have \<sigma>': "\<sigma>' = \<sigma>\<lparr>waiting := (waiting \<sigma>)(sl_mutex D := {})\<rparr>" using e by simp
  define P' where "P' = P\<lparr>sg_pending := sg_pending P - {t}\<rparr>"
  have at': "sl_at D t v False {sl_mutex D} (\<sigma>', P')"
    using at by (simp add: sl_sync_defs \<sigma>' P'_def)
  have "sl_rely D u (\<sigma>, P) (\<sigma>', P')" if "u \<noteq> t" for u
    using that at' o by (simp add: sl_rely_def sl_at_def \<sigma>' P'_def)
  moreover have "sl_honest D (\<sigma>, P) (\<sigma>', P')" by (simp add: sl_honest_def P'_def)
  ultimately show "\<exists>P'. guar (sl_protocol D) t (\<sigma>, P) (\<sigma>', P') \<and> safe (sl_protocol D) t q Q (\<sigma>', P')"
    using assms(2) [OF at'] by auto
qed simp_all

lemma sl_safe_signal:
  assumes "sl_at D t v True {} s" and post: "\<And>s. sl_at D t v False {} s \<Longrightarrow> Q () s"
  shows "safe (sl_protocol D) t (ws_signal_all_when_blocking (blocking_wait_strategy (sl_mutex D))) Q s"
  using assms
  by (auto simp: blocking_wait_strategy_def blocking_signal_all_when_blocking_def
      intro!: sl_safe_lock [where v = v] sl_safe_notify [where v = v] sl_safe_unlock [where v = v])

text \<open>
  The store of a thread: it changes only what is about to be published by the thread itself, and
  what has been stored.
\<close>

lemma sl_safe_store:
  assumes "sl_at D t v False {} s"
    and owners: "\<And>u. u \<in> sl_owners D \<Longrightarrow> u \<noteq> t \<Longrightarrow> sl_own D u \<noteq> a"
    and self: "t \<in> sl_owners D \<Longrightarrow> a = sl_own D t \<and> v' = Some (x + 1) \<and> N = {}"
    and claimer: "t \<notin> sl_owners D \<Longrightarrow> a = sl_entry D x \<and> v' = None \<and> v = Some x \<and> N = {x}"
    and q: "\<And>s. sl_at D t v' True {} s \<Longrightarrow> safe (sl_protocol D) t q Q s"
  shows "safe (sl_protocol D) t (do_act (Store Release a x) q) Q s"
  unfolding safe_do_act
proof (intro allI impI conjI)
  fix \<sigma> P n r \<sigma>' assume "rely (sl_protocol D) t s (\<sigma>, P)"
    and "exec t n (Store Release a x) \<sigma> = Some (r, \<sigma>')"
  then have at: "sl_at D t v False {} (\<sigma>, P)" and \<sigma>': "\<sigma>' = put a x \<sigma>"
    using sl_at_rely [OF assms(1)] by auto
  define P' where "P' = P\<lparr>sg_pending := insert t (sg_pending P), sg_next := (sg_next P)(t := v'),
    sg_stored := sg_stored P \<union> N\<rparr>"
  have inv: "sl_inv D (\<sigma>, P)" and t: "t \<in> sl_threads D" using at by (simp_all add: sl_at_def)
  then have counter: "a \<noteq> sl_counter D"
    using self claimer by (cases "t \<in> sl_owners D") (auto simp: sl_inv_def sl_apart_def)
  have alert: "sl_alert D u (\<sigma>', P')" if "sl_alert D u (\<sigma>, P)" "u \<noteq> t" for u
    using that by (simp add: sl_alert_def P'_def)
  have nxt: "sg_next P' u = Some (mem \<sigma>' (sl_own D u) + 1)" if "u \<in> sl_owners D" for u
    using that inv owners [OF that] self by (cases "u = t") (auto simp: sl_inv_def \<sigma>' P'_def)
  have claimed: "y \<in> sg_stored P' \<or> (\<exists>j \<in> sl_claimers D. sg_next P' j = Some y)"
    if "y < mem \<sigma>' (sl_counter D)" "sl_claimers D \<noteq> {}" for y
  proof -
    have "y < mem \<sigma> (sl_counter D)" using that(1) counter by (simp add: \<sigma>')
    then have "y \<in> sg_stored P \<or> (\<exists>j \<in> sl_claimers D. sg_next P j = Some y)"
      using inv that(2) by (simp add: sl_inv_def)
    moreover have "t \<notin> sl_owners D" if "t \<in> sl_claimers D"
      using that inv by (auto simp: sl_inv_def sl_apart_def)
    moreover have "sg_next P t = v" using at by (simp add: sl_at_def)
    ultimately consider "y \<in> sg_stored P" | j where "j \<in> sl_claimers D" "j \<noteq> t" "sg_next P j = Some y"
      | "t \<notin> sl_owners D" "v = Some y" by auto
    then show ?thesis
    proof cases
      case 3
      then show ?thesis using claimer by (simp add: P'_def)
    qed (auto simp: P'_def)
  qed
  have asleep: "u \<in> sl_threads D \<and> sl_alert D u (\<sigma>', P')" if "u \<in> waiting \<sigma>' (sl_mutex D)" for u
  proof -
    have "u \<in> waiting \<sigma> (sl_mutex D)" "u \<noteq> t" using that at by (auto simp: sl_at_def \<sigma>')
    then show ?thesis using alert inv by (simp add: sl_inv_def)
  qed
  have inv': "sl_inv D (\<sigma>', P')"
    unfolding sl_inv_def fst_conv snd_conv
    using inv asleep nxt claimed by (simp add: sl_inv_def)
  then have at': "sl_at D t v' True {} (\<sigma>', P')"
    using at by (simp add: sl_at_def holds_mutexes_def \<sigma>' P'_def)
  have "sl_rely D u (\<sigma>, P) (\<sigma>', P')" if "u \<noteq> t" for u
    using that inv' alert by (auto simp: sl_rely_def \<sigma>' P'_def)
  moreover have "sl_honest D (\<sigma>, P) (\<sigma>', P')"
    using self claimer t inv by (cases "t \<in> sl_owners D") (auto simp: sl_honest_def P'_def \<sigma>' sl_inv_def sl_apart_def)
  ultimately show "\<exists>P'. guar (sl_protocol D) t (\<sigma>, P) (\<sigma>', P') \<and> safe (sl_protocol D) t q Q (\<sigma>', P')"
    using q [OF at'] by auto
qed simp_all

lemma sl_safe_publish:
  assumes "sl_at D t v False {} s" and "t \<in> sl_owners D"
    and b: "sb_waitStrategy b = blocking_wait_strategy (sl_mutex D)" "sb_lastPublished b = sl_own D t"
    and post: "\<And>s. sl_at D t (Some (x + 1)) False {} s \<Longrightarrow> Q () s"
  shows "safe (sl_protocol D) t (barrier_publish b x) Q s"
  unfolding barrier_publish_def b
proof (rule sl_safe_store [OF assms(1), where v' = "Some (x + 1)" and N = "{}"])
  show "sl_own D u \<noteq> sl_own D t" if "u \<in> sl_owners D" "u \<noteq> t" for u
    using assms(1,2) that by (auto simp: sl_at_def sl_inv_def sl_apart_def inj_on_eq_iff)
qed (use assms(2) post in \<open>auto intro: sl_safe_signal\<close>)

end
