(* ===== verification/Sleeping_Clients.thy ===== *)
theory Sleeping_Clients
  imports Single_Producer_Setup Sleeping
begin

text \<open>
  The loops of the consumers and the producers under the protocol of sleeping: they wait only
  for what the protocol says they wait for, and notify the others of all they publish.
\<close>

section \<open>The consumers\<close>

lemma sl_safe_read_batch:
  assumes "sl_at D t v False {} s"
    and "\<And>acc rem s. sl_at D t v False {} s \<Longrightarrow> rem + (available + 1) = itemsRemaining + nextToRead \<Longrightarrow>
      Q (acc, rem, available + 1) s"
  shows "safe (sl_protocol D) t (read_batch f buffer available acc itemsRemaining nextToRead) Q s"
  using assms
proof (induction f buffer available acc itemsRemaining nextToRead arbitrary: s rule: read_batch.induct)
  case (1 f buffer available acc itemsRemaining nextToRead)
  show ?case
    unfolding read_batch.simps [of f buffer available acc itemsRemaining nextToRead] buffer_read_def
  proof (rule sl_safe_read_data [OF "1.prems"(1)])
    fix x and s' :: "'a mach \<times> sleeping" assume at: "sl_at D t v False {} s'"
    show "safe (sl_protocol D) t (if nextToRead \<noteq> available
        then read_batch f buffer available (f x acc) (itemsRemaining - 1) (nextToRead + 1)
        else Return (f x acc, itemsRemaining - 1, nextToRead + 1)) Q s'"
    proof (cases "nextToRead = available")
      case True
      then show ?thesis using at by (auto intro: "1.prems"(2))
    next
      case False
      then show ?thesis using at by (auto intro!: "1.IH" "1.prems"(2))
    qed
  qed
qed

lemma sl_safe_consume_loop:
  assumes "sl_at D t (Some nextToRead) False {} s" and "itemsRemaining = sl_goal D - nextToRead"
    and t: "t \<in> sl_owners D" and b: "sb_waitStrategy barrier = blocking_wait_strategy (sl_mutex D)" "sb_lastPublished barrier = sl_own D t"
    and wait: "\<And>v s Q. sl_at D t (Some v) False {} s \<Longrightarrow> Some v \<noteq> sl_last D t \<Longrightarrow> (\<And>r s. sl_at D t (Some v) False {} s \<Longrightarrow> Q r s) \<Longrightarrow>
      safe (sl_protocol D) t (wait v) Q s"
    and post: "\<And>acc s. sl_at D t (Some (sl_goal D)) False {} s \<Longrightarrow> Q acc s"
  shows "safe (sl_protocol D) t (consume_loop n wait f buffer barrier acc itemsRemaining nextToRead) Q s"
  using assms(1,2)
proof (induction n arbitrary: acc itemsRemaining nextToRead s)
  case 0
  then show ?case using post by (cases "itemsRemaining = 0") (auto simp: word_gt_0)
next
  case (Suc n)
  show ?case
  proof (cases "itemsRemaining = 0")
    case True
    then show ?thesis using Suc.prems post by simp
  next
    case False
    then have "Some nextToRead \<noteq> sl_last D t" "0 < itemsRemaining" using Suc.prems t by (auto simp: word_gt_0 sl_last_def)
    with Suc.prems show ?thesis
      by (auto simp: safe_bind intro!: wait sl_safe_read_batch [where v = "Some nextToRead"]
          sl_safe_publish [where v = "Some nextToRead", OF _ t b] Suc.IH) (simp add: algebra_simps)
  qed
qed

lemma sl_safe_library_wait:
  assumes "library_wait (blocking_wait_strategy (sl_mutex D)) n wait as" and "set as \<subseteq> sl_sources D t v"
    and "sl_offset D t = 0" and "sl_at D t (Some v) False {} s" and "Some v \<noteq> sl_last D t"
    and "\<And>r s. sl_at D t (Some v) False {} s \<Longrightarrow> Q r s"
  shows "safe (sl_protocol D) t (wait v) Q s"
  using assms sl_safe_barrier_wait [of D t v s _ Q n] sl_safe_group_wait [of D t v s _ Q n]
  by (auto simp: library_wait_def new_barrier_at_def)

section \<open>The producer on the single-threaded claim strategy\<close>

lemma sl_safe_producer_loop:
  assumes "sl_at D 0 (Some i) False {} s" and "i \<le> sl_goal D" and "st_nextSequenceToClaim cs = i"
    and "st_bufferSize cs = sl_offset D 0"
    and "sbg_waitStrategy (st_claimBarrier cs) = blocking_wait_strategy (sl_mutex D)"
    and "sbg_sequences (st_claimBarrier cs) \<noteq> []" "\<And>i. set (sbg_sequences (st_claimBarrier cs)) \<subseteq> sl_sources D 0 i"
    and "sb_waitStrategy (st_readBarrier cs) = blocking_wait_strategy (sl_mutex D)"
    and "sb_lastPublished (st_readBarrier cs) = sl_own D 0" and "0 \<in> sl_owners D"
    and post: "\<And>s. sl_at D 0 (Some (sl_goal D)) False {} s \<Longrightarrow> Q () s"
  shows "safe (sl_protocol D) 0 (st_producer_loop n cs buffer (sl_goal D) i) Q s"
  using assms(1-10)
proof (induction "unat (sl_goal D) - unat i" arbitrary: i cs s rule: less_induct)
  case less
  note prems = less.prems
  show ?case
  proof (cases "i < sl_goal D")
    case False
    then have "i = sl_goal D" using prems(2) by simp
    then show ?thesis using prems(1) post by (simp add: st_producer_loop.simps)
  next
    case True
    have up: "i + 1 \<le> sl_goal D" using True by (rule inc_le)
    have next_round: "safe (sl_protocol D) 0 (st_producer_loop n (cs\<lparr>st_nextSequenceToClaim := i + 1\<rparr>) buffer
        (sl_goal D) (i + 1)) Q s" if "sl_at D 0 (Some (i + 1)) False {} s" for s
      using prems that up unat_count_up [OF True] by (intro less.hyps) auto
    have "safe (sl_protocol D) 0 (group_wait_until_published n (st_claimBarrier cs) (i - sl_offset D 0))
        (\<lambda>_. safe (sl_protocol D) 0 (buffer_write buffer i i (bind (st_publish (cs\<lparr>st_nextSequenceToClaim := i + 1\<rparr>) i)
          (\<lambda>_. st_producer_loop n (cs\<lparr>st_nextSequenceToClaim := i + 1\<rparr>) buffer (sl_goal D) (i + 1)))) Q) s"
      using prems True next_round
      by (intro sl_safe_group_wait [OF prems(1)])
        (auto simp: buffer_write_def safe_bind st_publish_def sl_last_def
          intro!: sl_safe_write_data [where v = "Some i"] sl_safe_publish [where v = "Some i"])
    then show ?thesis
      using True prems(3,4) unfolding st_producer_loop.simps [of n cs buffer "sl_goal D" i]
      by (simp add: st_claim_one_def safe_bind)
  qed
qed

section \<open>Waiting on the multi-threaded claim strategy\<close>

lemma sl_safe_is_published:
  "sl_at D t v p h s \<Longrightarrow> (\<And>r s. sl_at D t v p h s \<Longrightarrow> Q r s) \<Longrightarrow> safe (sl_protocol D) t (mt_is_published cs x) Q s"
  by (rule sl_safe_loads_free) (auto simp: mt_is_published_def load_def)

lemma sl_safe_last_published_loop:
  assumes "sl_at D t v p h s" and "\<And>r s. sl_at D t v p h s \<Longrightarrow> Q r s"
  shows "safe (sl_protocol D) t (mt_last_published_loop n cs x known) Q s"
  using assms
proof (induction n arbitrary: x known s)
  case 0
  show ?case
    unfolding mt_last_published_loop.simps safe_bind
    by (rule sl_safe_is_published [OF "0.prems"(1)]) (use "0.prems"(2) in simp)
next
  case (Suc n)
  show ?case
    unfolding mt_last_published_loop.simps safe_bind
    by (rule sl_safe_is_published [OF Suc.prems(1)]) (use Suc in simp)
qed

text \<open>A consumer asks for the number after the one it knows, so the loop of the wait runs once.\<close>

lemma difference_pred [simp]: "difference v (v - 1) = 1" "difference (v + 1) v = 1" "difference v v = 0"
  by (simp_all add: difference_def)

lemma mt_wait_loop_once:
  "mt_wait_loop n cs v v = bind (mt_is_published cs v) (\<lambda>p.
     bind (if p then Return () else bind (ws_wait_until_published (mt_waitStrategy cs) n v [mt_entry cs v]) (\<lambda>_. Return ()))
       (\<lambda>_. Return ()))"
proof -
  have "mt_wait_loop n cs v (v + 1) = Return ()" by (subst mt_wait_loop.simps) simp
  then show ?thesis by (subst mt_wait_loop.simps) simp
qed

lemma sl_safe_mt_wait:
  assumes "sl_at D t (Some v) False {} s" and "Some v \<noteq> sl_last D t" and "sl_offset D t = 0"
    and "mt_waitStrategy cs = blocking_wait_strategy (sl_mutex D)" and "mt_entry cs v \<in> sl_sources D t v"
    and post: "\<And>r s. sl_at D t (Some v) False {} s \<Longrightarrow> Q r s"
  shows "safe (sl_protocol D) t (mt_wait_until_published n cs v (v - 1)) Q s"
proof -
  have look: "safe (sl_protocol D) t (mt_last_published_loop n cs (v + 1) v) Q s"
    if "sl_at D t (Some v) False {} s" for s
    using that post by (rule sl_safe_last_published_loop)
  have wait: "safe (sl_protocol D) t (blocking_wait_until_published (sl_mutex D) n v [mt_entry cs v])
      (\<lambda>_. safe (sl_protocol D) t (mt_last_published_loop n cs (v + 1) v) Q) s"
    if "sl_at D t (Some v) False {} s" for s
    using sl_safe_blocking_wait [OF that assms(2), of "[mt_entry cs v]"] assms(3,5) look by simp
  show ?thesis
    unfolding mt_wait_until_published_def mt_last_published_after_def safe_assert diff_add_cancel mt_wait_loop_once safe_bind
    using sl_safe_is_published [OF assms(1)] look wait by (simp add: safe_bind assms(4) blocking_wait_strategy_def)
qed

section \<open>The producers on the multi-threaded claim strategy\<close>

lemma word_less_Suc: "y < 1 + x \<Longrightarrow> y \<noteq> x \<Longrightarrow> y < x" for x y :: "'a :: len word"
proof (cases "1 + x = 0")
  case False
  assume "y < 1 + x" "y \<noteq> x"
  then have "unat y < Suc (unat x)" "unat y \<noteq> unat x"
    unfolding word_less_nat_alt unatSuc [OF False] by (auto simp: word_unat_eq_iff)
  then show ?thesis by (simp add: word_less_nat_alt)
qed simp

lemma sl_safe_fetch_add:
  assumes "sl_at D t None False {} s" and t: "t \<in> sl_claimers D"
    and k: "\<And>x s. sl_at D t (Some x) False {} s \<Longrightarrow> safe (sl_protocol D) t (k x) Q s"
  shows "safe (sl_protocol D) t (fetch_add Relaxed (sl_counter D) 1 k) Q s"
  unfolding fetch_add_def safe.simps
proof (intro allI impI conjI)
  fix \<sigma> P n r \<sigma>' assume "rely (sl_protocol D) t s (\<sigma>, P)"
    and "exec t n (Fetch_Add Relaxed (sl_counter D) 1) \<sigma> = Some (r, \<sigma>')"
  then have at: "sl_at D t None False {} (\<sigma>, P)" and r: "r = RSeq (mem \<sigma> (sl_counter D))"
    and \<sigma>': "\<sigma>' = put (sl_counter D) (mem \<sigma> (sl_counter D) + 1) \<sigma>"
    using sl_at_rely [OF assms(1)] by auto
  define P' where "P' = P\<lparr>sg_next := (sg_next P)(t := Some (mem \<sigma> (sl_counter D)))\<rparr>"
  have inv: "sl_inv D (\<sigma>, P)" and none: "sg_next P t = None" and awake: "t \<notin> waiting \<sigma> (sl_mutex D)"
    using at by (simp_all add: sl_at_def)
  then have apart: "t \<notin> sl_owners D" "\<And>u. u \<in> sl_owners D \<Longrightarrow> sl_own D u \<noteq> sl_counter D"
    "\<And>u v. sl_counter D \<notin> sl_sources D u v"
    using t by (auto simp: sl_inv_def sl_apart_def)
  have "mem \<sigma>' a = mem \<sigma> a" if "a \<in> sl_sources D u v" for a u v
    using that apart(3) [of u v] by (auto simp: \<sigma>')
  then have alert: "sl_alert D u (\<sigma>', P') \<longleftrightarrow> sl_alert D u (\<sigma>, P)" if "u \<noteq> t" for u
    using that by (simp add: sl_alert_def sl_lagging_def P'_def)
  have asleep: "u \<in> sl_threads D \<and> sl_alert D u (\<sigma>', P')" if "u \<in> waiting \<sigma>' (sl_mutex D)" for u
  proof -
    have "u \<in> waiting \<sigma> (sl_mutex D)" "u \<noteq> t" using that awake by (auto simp: \<sigma>')
    then show ?thesis using inv alert by (simp add: sl_inv_def)
  qed
  have claimed: "y \<in> sg_stored P' \<or> (\<exists>j \<in> sl_claimers D. sg_next P' j = Some y)" if "y < mem \<sigma>' (sl_counter D)" for y
  proof (cases "y = mem \<sigma> (sl_counter D)")
    case True
    then show ?thesis using t by (auto simp: P'_def)
  next
    case False
    have "y < 1 + mem \<sigma> (sl_counter D)" using that by (simp add: \<sigma>' add.commute)
    then have "y < mem \<sigma> (sl_counter D)" using False by (rule word_less_Suc)
    then have "y \<in> sg_stored P \<or> (\<exists>j \<in> sl_claimers D. sg_next P j = Some y)"
      using inv t by (auto simp: sl_inv_def)
    moreover have "j \<noteq> t" if "sg_next P j = Some y" for j using that none by auto
    ultimately show ?thesis by (auto simp: P'_def)
  qed
  have inv': "sl_inv D (\<sigma>', P')"
    unfolding sl_inv_def fst_conv snd_conv
    using inv asleep claimed apart by (auto simp: sl_inv_def P'_def \<sigma>')
  then have at': "sl_at D t (Some (mem \<sigma> (sl_counter D))) False {} (\<sigma>', P')"
    using at by (simp add: sl_at_def holds_mutexes_def \<sigma>' P'_def)
  have "sl_rely D u (\<sigma>, P) (\<sigma>', P')" if "u \<noteq> t" for u
    using that inv' alert by (auto simp: sl_rely_def \<sigma>' P'_def)
  moreover have "sl_honest D (\<sigma>, P) (\<sigma>', P')" by (simp add: sl_honest_def P'_def \<sigma>')
  ultimately show "\<exists>P'. guar (sl_protocol D) t (\<sigma>, P) (\<sigma>', P') \<and> safe (sl_protocol D) t (k (seq_of r)) Q (\<sigma>', P')"
    using k [OF at'] by (auto simp: r)
qed simp_all

lemma sl_claimer:
  assumes "sl_at D t v p h s" "t \<in> sl_claimers D"
  shows "t \<notin> sl_owners D" and "Some x \<noteq> sl_last D t"
  using assms by (auto simp: sl_at_def sl_inv_def sl_apart_def sl_last_def)

lemma sl_attempt_publish:
  assumes "sl_at D t (Some x) False {} s" and t: "t \<in> sl_claimers D"
    and cs: "mt_waitStrategy cs = blocking_wait_strategy (sl_mutex D)" "mt_entry cs x = sl_entry D x"
    and post: "\<And>s. sl_at D t None False {} s \<Longrightarrow> Q () s"
  shows "attempt (sl_protocol D) t (mt_publish cs x) Q s"
proof -
  have owner: "t \<notin> sl_owners D" using assms(1) t by (rule sl_claimer)
  have "sl_apart D" using assms(1) by (simp add: sl_at_def sl_inv_def)
  then have apart: "sl_own D u \<noteq> sl_entry D x" if "u \<in> sl_owners D" for u
    using that unfolding sl_apart_def by metis
  have store: "safe (sl_protocol D) t (do_act (Store Release (sl_entry D x) x)
      (lenient (ws_signal_all_when_blocking (blocking_wait_strategy (sl_mutex D))))) Q s"
    if "sl_at D t (Some x) False {} s" for s
  proof (rule sl_safe_store [OF that, where v' = None and N = "{x}"])
    show "safe (sl_protocol D) t (lenient (ws_signal_all_when_blocking (blocking_wait_strategy (sl_mutex D)))) Q s"
      if "sl_at D t None True {} s" for s
      using safe_attempt [OF sl_safe_signal [OF that, where Q = Q, OF post]] by (simp add: attempt_def)
  qed (use owner apart in auto)
  have "safe (sl_protocol D) t (load Relaxed (sl_entry D x) (\<lambda>r. Return (RSeq r)))
      (\<lambda>r. safe (sl_protocol D) t (if seq_of r = x - mt_bufferSize cs then do_act (Store Release (sl_entry D x) x)
        (lenient (ws_signal_all_when_blocking (blocking_wait_strategy (sl_mutex D)))) else Out_Of_Fuel) Q) s"
    by (rule sl_safe_loads_free [OF _ assms(1)]) (auto simp: load_def intro: store)
  then show ?thesis
    unfolding mt_publish_def mt_set_published_def cs attempt_def
    by (simp add: load_def assert_def do_act_def lenient_bind safe_bind [symmetric] if_distrib [where f = "\<lambda>p. bind p _"]
        if_distrib [where f = lenient] cong: if_cong)
qed

lemma sl_attempt_mt_producer_loop:
  assumes "sl_at D t None False {} s" and t: "t \<in> sl_claimers D"
    and cs: "mt_waitStrategy cs = blocking_wait_strategy (sl_mutex D)" "\<And>x. mt_entry cs x = sl_entry D x"
      "mt_nextClaimable cs = sl_counter D" "mt_bufferSize cs = sl_offset D t"
    and g: "sbg_waitStrategy (mt_claimBarrier cs) = blocking_wait_strategy (sl_mutex D)"
      "sbg_sequences (mt_claimBarrier cs) \<noteq> []" "\<And>x. set (sbg_sequences (mt_claimBarrier cs)) \<subseteq> sl_sources D t x"
    and post: "\<And>s. sl_at D t None False {} s \<Longrightarrow> Q () s"
  shows "attempt (sl_protocol D) t (mt_producer_loop n cs buffer iterationCount i) Q s"
  using assms(1)
proof (induction "unat iterationCount - unat i" arbitrary: i s rule: less_induct)
  case less
  show ?case
  proof (cases "i < iterationCount")
    case False
    then show ?thesis using less.prems post by (simp add: mt_producer_loop.simps)
  next
    case True
    have rest: "attempt (sl_protocol D) t (mt_producer_loop n cs buffer iterationCount (i + 1)) Q s"
      if "sl_at D t None False {} s" for s
      using unat_count_up [OF True] that by (rule less.hyps)
    have item: "attempt (sl_protocol D) t (buffer_write buffer x i (bind (mt_publish cs x)
        (\<lambda>_. mt_producer_loop n cs buffer iterationCount (i + 1)))) Q s" if "sl_at D t (Some x) False {} s" for x s
      unfolding buffer_write_def attempt_do_act
      using that
    proof (rule sl_safe_write_data)
      show "safe (sl_protocol D) t (lenient (bind (mt_publish cs x)
          (\<lambda>_. mt_producer_loop n cs buffer iterationCount (i + 1)))) Q s" if "sl_at D t (Some x) False {} s" for s
        unfolding attempt_def [symmetric] attempt_bind
        using that t cs(1,2) rest by (rule sl_attempt_publish)
    qed
    have "attempt (sl_protocol D) t (mt_claim_one n cs) (\<lambda>x. attempt (sl_protocol D) t (buffer_write buffer x i
        (bind (mt_publish cs x) (\<lambda>_. mt_producer_loop n cs buffer iterationCount (i + 1)))) Q) s"
      unfolding mt_claim_one_def attempt_fetch_add cs
      using less.prems t
    proof (rule sl_safe_fetch_add)
      fix x and s :: "(64 word) mach \<times> sleeping" assume at: "sl_at D t (Some x) False {} s"
      have "attempt (sl_protocol D) t (group_wait_until_published n (mt_claimBarrier cs) (x - sl_offset D t))
          (\<lambda>_. attempt (sl_protocol D) t (buffer_write buffer x i
        (bind (mt_publish cs x) (\<lambda>_. mt_producer_loop n cs buffer iterationCount (i + 1)))) Q) s"
        by (rule safe_attempt [OF sl_safe_group_wait [OF at sl_claimer(2) [OF at t] g item]])
      then show "safe (sl_protocol D) t (lenient (bind (group_wait_until_published n (mt_claimBarrier cs) (x - sl_offset D t))
          (\<lambda>_. Return x))) (\<lambda>x. attempt (sl_protocol D) t (buffer_write buffer x i
        (bind (mt_publish cs x) (\<lambda>_. mt_producer_loop n cs buffer iterationCount (i + 1)))) Q) s"
        unfolding attempt_def [of _ _ "bind _ _", symmetric] attempt_bind by simp
    qed
    then show ?thesis
      using True unfolding mt_producer_loop.simps [of n cs buffer iterationCount i] by (simp add: attempt_bind)
  qed
qed

end
