(* ===== verification/Benchmark_Completion.thy ===== *)
theory Benchmark_Completion
  imports Single_Producer_Benchmarks Sleeping_Clients
begin

text \<open>
  The benchmarks with one producer come to a halt only when they are done.  With the blocking
  wait strategy every thread may fall asleep; the protocol of theory Sleeping says what a
  sleeping thread waits for, the invariant of theory Single_Producer that somebody can always
  provide it.
\<close>

section \<open>The threads of a benchmark\<close>

text \<open>
  Everybody publishes in the cell of his number; consumer \<open>c\<close> waits for what is upstream of it,
  the producer for the gates, one buffer behind.
\<close>

definition sleeping_arranged ::
    "nat \<Rightarrow> nat \<Rightarrow> (nat \<Rightarrow> nat set) \<Rightarrow> nat list \<Rightarrow> nat \<Rightarrow> 64 word \<Rightarrow> sleepers" where
  "sleeping_arranged k m up gates object iterationCount =
     \<lparr>sl_mutex = object, sl_owners = {0..m}, sl_claimers = {}, sl_own = Cell,
      sl_counter = Elem 0 0, sl_entry = (\<lambda>_. Elem 0 1),
      sl_sources = (\<lambda>t v. if t = 0 then Cell ` set gates else if up t = {} then {Cell 0} else Cell ` up t),
      sl_offset = (\<lambda>t. if t = 0 then 2 ^ k else 0), sl_goal = iterationCount\<rparr>"

lemma sleeping_arranged_select [simp]:
  "sl_mutex (sleeping_arranged k m up gates object c) = object"
  "sl_owners (sleeping_arranged k m up gates object c) = {0..m}"
  "sl_claimers (sleeping_arranged k m up gates object c) = {}"
  "sl_threads (sleeping_arranged k m up gates object c) = {0..m}"
  "sl_own (sleeping_arranged k m up gates object c) = Cell"
  "sl_sources (sleeping_arranged k m up gates object c) t v =
     (if t = 0 then Cell ` set gates else if up t = {} then {Cell 0} else Cell ` up t)"
  "sl_offset (sleeping_arranged k m up gates object c) t = (if t = 0 then 2 ^ k else 0)"
  "sl_goal (sleeping_arranged k m up gates object c) = c"
  "sl_apart (sleeping_arranged k m up gates object c)"
  by (auto simp: sleeping_arranged_def sl_threads_def sl_apart_def inj_on_def)

text \<open>The ghost state at the start: everybody is about to publish 0.\<close>

definition nothing_stored :: sleeping where
  "nothing_stored = \<lparr>sg_pending = {}, sg_next = (\<lambda>_. Some 0), sg_stored = {}\<rparr>"

lemma sp_started_sleeping:
  assumes st: "sp_started k m up gates (blocking_wait_strategy object) n iterationCount (\<sigma>0, ps0)"
    and D: "D = sleeping_arranged k m up gates object iterationCount" and w: "waiting \<sigma>0 object = {}"
  shows "sl_inv D (\<sigma>0, nothing_stored)"
    and "safe (sl_protocol D) t (ps0 t) (\<lambda>x. sl_ended D t) (\<sigma>0, nothing_stored)"
proof -
  have cells: "mem \<sigma>0 (Cell t) = - 1" if "t \<le> m" for t
    using that st by (cases "t = 0") (auto simp: sp_started_def)
  show inv: "sl_inv D (\<sigma>0, nothing_stored)" using w cells by (simp add: sl_inv_def nothing_stored_def D)
  have at: "sl_at D t (Some 0) False {} (\<sigma>0, nothing_stored)" if "t \<le> m" for t
    using that st inv w by (simp add: sl_at_def nothing_stored_def holds_mutexes_def sp_started_def D)
  have ended: "sl_at D t (Some (sl_goal D)) False {} s \<Longrightarrow> sl_ended D t s" for t s
    by (auto simp: sl_at_def sl_ended_def holds_mutexes_def sl_last_def D)
  consider "t = 0" | "t \<in> {1..m}" | "m < t" by fastforce
  then show "safe (sl_protocol D) t (ps0 t) (\<lambda>x. sl_ended D t) (\<sigma>0, nothing_stored)"
  proof cases
    case 1
    have "safe (sl_protocol D) 0 (st_producer_loop n (new_claims k (blocking_wait_strategy object) gates)
        (new_buffer k) (sl_goal D) 0) (\<lambda>_. safe (sl_protocol D) 0 (Return None) (\<lambda>x. sl_ended D 0)) (\<sigma>0, nothing_stored)"
      using st ended by (intro sl_safe_producer_loop [OF at])
        (auto simp: new_claims_def new_barrier_at_def D sp_started_def)
    then show ?thesis using 1 st by (simp add: sp_started_def st_producer_def safe_bind D)
  next
    case 2
    then obtain wait as where ps: "ps0 t = consumer n wait (new_buffer k)
        (new_barrier_at (blocking_wait_strategy object) (Cell t)) iterationCount"
      and wait: "library_wait (blocking_wait_strategy object) n wait as"
      and as: "set as = (if up t = {} then {Cell 0} else Cell ` up t)"
      using st unfolding sp_started_def snd_conv by blast
    have "safe (sl_protocol D) t (consume_loop n wait (+) (new_buffer k)
        (new_barrier_at (blocking_wait_strategy object) (Cell t)) 0 iterationCount 0)
        (\<lambda>x. safe (sl_protocol D) t (Return (Some x)) (\<lambda>x. sl_ended D t)) (\<sigma>0, nothing_stored)"
    proof (rule sl_safe_consume_loop [OF at])
      show "safe (sl_protocol D) t (wait v) Q s"
        if "sl_at D t (Some v) False {} s" "Some v \<noteq> sl_last D t" "\<And>r s. sl_at D t (Some v) False {} s \<Longrightarrow> Q r s" for v s Q
        using wait as 2 that by (intro sl_safe_library_wait [where as = as]) (auto simp: D)
    qed (use 2 ended in \<open>auto simp: new_barrier_at_def D\<close>)
    then show ?thesis by (simp add: ps consumer_def safe_bind)
  next
    case 3
    then show ?thesis using st by (simp add: sp_started_def sl_ended_def nothing_stored_def D)
  qed
qed

section \<open>Nobody waits in vain\<close>

text \<open>The positions that the threads have reached.\<close>

definition reached :: "progress \<Rightarrow> nat \<Rightarrow> int" where
  "reached \<gamma> t = (if t = 0 then pub \<gamma> else got \<gamma> t)"

lemma uint_seq_at: "0 \<le> x \<Longrightarrow> x < 2 ^ 64 \<Longrightarrow> uint (seq_at x) = x"
  by (simp add: seq_at_def uint_word_of_int)

text \<open>
  A program in which every thread has ended or waits for a barrier that is behind: the consumers for
  those upstream or the producer (thread 0), the producer for a gate.
\<close>

definition sp_stuck :: "nat \<Rightarrow> nat \<Rightarrow> (nat \<Rightarrow> nat set) \<Rightarrow> nat list \<Rightarrow> 64 word \<Rightarrow> (nat \<Rightarrow> bool) \<Rightarrow> (64 word) mach \<Rightarrow> progress \<Rightarrow> bool" where
  "sp_stuck k m up gates iterationCount ended \<sigma> \<gamma> \<longleftrightarrow> k \<le> 62 \<and> pub \<gamma> \<le> uint iterationCount \<and>
     (\<forall>c \<in> {1..m}. up c \<subseteq> {1..<c}) \<and> set gates \<subseteq> {1..m} \<and>
     (\<forall>t \<le> m. mem \<sigma> (Cell t) = seq_at (reached \<gamma> t - 1) \<and> 0 \<le> reached \<gamma> t \<and> reached \<gamma> t \<le> pub \<gamma> \<and>
        pub \<gamma> \<le> reached \<gamma> t + 2 ^ k \<and> (ended t \<longleftrightarrow> reached \<gamma> t = uint iterationCount)) \<and>
     (\<forall>c \<in> {1..m}. ended c \<or> (\<exists>u. (if up c = {} then u = 0 else u \<in> up c) \<and>
        difference (mem \<sigma> (Cell u)) (seq_at (reached \<gamma> c)) < 0)) \<and>
     (ended 0 \<or> (\<exists>g \<in> set gates. difference (mem \<sigma> (Cell g)) (seq_at (pub \<gamma> - 2 ^ k)) < 0))"

lemma sp_stuck_behind:
  assumes s: "sp_stuck k m up gates iterationCount ended \<sigma> \<gamma>" and u: "u \<le> m"
    and d: "difference (mem \<sigma> (Cell u)) (seq_at x) < 0" and x: "pub \<gamma> - 2 ^ k \<le> x" "x \<le> pub \<gamma>"
  shows "reached \<gamma> u \<le> x"
proof -
  have cell: "mem \<sigma> (Cell u) = seq_at (reached \<gamma> u - 1)" "reached \<gamma> u \<le> pub \<gamma>" "pub \<gamma> \<le> reached \<gamma> u + 2 ^ k"
    and "k \<le> 62" using s u by (simp_all add: sp_stuck_def)
  then have "(2 :: int) ^ k \<le> 2 ^ 62" by (intro power_increasing) simp_all
  then have "\<bar>reached \<gamma> u - 1 - x\<bar> < 2 ^ 63" using cell x by auto
  then have "difference (mem \<sigma> (Cell u)) (seq_at x) = reached \<gamma> u - 1 - x"
    unfolding cell(1) by (intro difference_seq_at) auto
  with d show ?thesis by simp
qed

text \<open>Then all consumers have taken everything, each because those upstream of it have.\<close>

lemma sp_stuck_level:
  assumes s: "sp_stuck k m up gates iterationCount ended \<sigma> \<gamma>"
  shows "c \<in> {1..m} \<Longrightarrow> reached \<gamma> c = pub \<gamma>"
proof (induction c rule: less_induct)
  case (less c)
  then have c: "c \<le> m" "c \<noteq> 0" by auto
  have cell: "reached \<gamma> c \<le> pub \<gamma>" "pub \<gamma> \<le> reached \<gamma> c + 2 ^ k" "pub \<gamma> \<le> uint iterationCount"
    "ended c \<longleftrightarrow> reached \<gamma> c = uint iterationCount" and ups: "up c \<subseteq> {1..<c}"
    using s c by (simp_all add: sp_stuck_def)
  show ?case
  proof (cases "ended c")
    case True
    then show ?thesis using cell by auto
  next
    case False
    then obtain u where u: "if up c = {} then u = 0 else u \<in> up c"
      and lag: "difference (mem \<sigma> (Cell u)) (seq_at (reached \<gamma> c)) < 0"
      using s less.prems unfolding sp_stuck_def by blast
    have "u \<le> m" "reached \<gamma> u = pub \<gamma>"
      using u ups less.IH [of u] less.prems by (auto simp: reached_def subset_iff split: if_splits; fastforce)+
    then show ?thesis using sp_stuck_behind [OF s _ lag] cell by auto
  qed
qed

lemma sp_stuck_ended:
  assumes s: "sp_stuck k m up gates iterationCount ended \<sigma> \<gamma>" and "t \<le> m"
  shows "ended t"
proof -
  have "ended 0"
  proof (rule ccontr)
    assume "\<not> ended 0"
    then obtain g where g: "g \<in> {1..m}" and lag: "difference (mem \<sigma> (Cell g)) (seq_at (pub \<gamma> - 2 ^ k)) < 0"
      using s unfolding sp_stuck_def by blast
    have "reached \<gamma> g \<le> pub \<gamma> - 2 ^ k" using g lag by (intro sp_stuck_behind [OF s]) auto
    then show False using sp_stuck_level [OF s g] by simp
  qed
  then have "pub \<gamma> = uint iterationCount" using s by (auto simp: sp_stuck_def reached_def)
  then show ?thesis
    using s assms(2) sp_stuck_level [OF s, of t] by (cases "t = 0") (auto simp: sp_stuck_def reached_def)
qed

lemma sp_halted:
  assumes st: "sp_started k m up gates (blocking_wait_strategy object) n iterationCount (\<sigma>0, ps0)"
    and w: "waiting \<sigma>0 object = {}" and run: "pool_run (\<sigma>0, ps0) (\<sigma>, ps)"
    and fuel: "\<And>t. ps t \<noteq> Out_Of_Fuel" and stuck: "\<And>t. pool_exec [(t, 0)] (\<sigma>, ps) = None"
  shows "\<exists>x. ps t = Return x"
proof -
  define T where "T = arranged k (uint iterationCount) m up (set gates)"
  define D where "D = sleeping_arranged k m up gates object iterationCount"
  have "\<exists>P. invar (sl_protocol D) (fst (\<sigma>, ps), P) \<and>
      (\<forall>t. safe (sl_protocol D) t (snd (\<sigma>, ps) t) (\<lambda>x. sl_ended D t) (fst (\<sigma>, ps), P))"
    by (rule sl.pool_safe [OF run]) (use sp_started_sleeping [OF st D_def w] sl_ended_rely in auto)
  then obtain P where sl: "sl_inv D (\<sigma>, P)" and safe: "\<And>t. safe (sl_protocol D) t (ps t) (\<lambda>x. sl_ended D t) (\<sigma>, P)"
    by auto
  have "ps t \<noteq> Assert_Failed" for t using safe [of t] by auto
  note halted = sl_stuck [OF sl safe_attempt [OF safe] fuel this stuck]
  obtain \<omega> where weak: "weak_run ((\<sigma>0, fresh \<sigma>0), ps0) ((\<sigma>, \<omega>), ps)"
    using pool_run_weak_run [OF run, of "fresh \<sigma>0"] by auto
  obtain \<gamma> where inv: "sp_data T (\<sigma>, \<gamma>)"
    unfolding T_def by (rule sp_started_inv [OF st library_strategy_model weak]) simp_all
  have k: "k \<le> 62" and ups: "\<And>c. c \<in> {1..m} \<Longrightarrow> up c \<subseteq> {1..<c}" and gates: "set gates \<subseteq> {1..m}"
    using st by (auto simp: sp_started_def well_arranged_def)
  have cell: "mem \<sigma> (Cell t) = seq_at (reached \<gamma> t - 1)" "0 \<le> reached \<gamma> t" "reached \<gamma> t \<le> pub \<gamma>"
    "pub \<gamma> \<le> uint iterationCount" "pub \<gamma> \<le> reached \<gamma> t + 2 ^ k" if "t \<le> m" for t
    using inv that by (cases "t = 0"; auto simp: sp_data_def T_def reached_def)+
  have number: "sg_next P t = Some (seq_at (reached \<gamma> t))" if "t \<le> m" for t
    using sl cell(1) [OF that] that by (simp add: sl_inv_def D_def seq_at_add_1)
  have finished: "(\<exists>x. ps t = Return x) \<longleftrightarrow> reached \<gamma> t = uint iterationCount" if t: "t \<le> m" for t
  proof -
    have "seq_at (reached \<gamma> t) = iterationCount \<longleftrightarrow> reached \<gamma> t = uint iterationCount"
      using uint_seq_at [of "reached \<gamma> t"] cell(2-4) [OF t] uint_lt2p [of iterationCount]
      by (simp add: word_uint_eq_iff)
    then show ?thesis using halted [of t] number [OF t] t by (auto simp: D_def sl_last_def split: if_splits)
  qed
  have "seq_at (pub \<gamma>) - 2 ^ k = seq_at (pub \<gamma> - 2 ^ k)" using k by (simp add: seq_at_sub_word uint_2_power)
  then have "(\<exists>x. ps 0 = Return x) \<or> (\<exists>g \<in> set gates. difference (mem \<sigma> (Cell g)) (seq_at (pub \<gamma> - 2 ^ k)) < 0)"
    using halted [of 0] number [of 0] by (auto simp: sl_lagging_def D_def reached_def split: if_splits)
  moreover have "(\<exists>x. ps c = Return x) \<or> (\<exists>u. (if up c = {} then u = 0 else u \<in> up c) \<and>
      difference (mem \<sigma> (Cell u)) (seq_at (reached \<gamma> c)) < 0)" if "c \<in> {1..m}" for c
    using halted [of c] number [of c] that by (auto simp: sl_lagging_def D_def split: if_splits)
  ultimately have s: "sp_stuck k m up gates iterationCount (\<lambda>t. \<exists>x. ps t = Return x) \<sigma> \<gamma>"
    unfolding sp_stuck_def using k ups gates cell finished cell(4) [of 0] by blast
  then show ?thesis using sp_stuck_ended [OF s, of t] halted [of t] by (cases "t \<le> m") (auto simp: D_def split: if_splits)
qed

text \<open>
  A pool at a halt: no thread can go on, unless by a spurious wake-up, and none has stopped
  because its rounds of waiting are used up.
\<close>

definition at_a_halt :: "('d, 'a) pool \<Rightarrow> bool" where
  "at_a_halt c \<longleftrightarrow> (\<forall>t. snd c t \<noteq> Out_Of_Fuel) \<and> (\<forall>t. pool_exec [(t, 0)] c = None)"

definition complete :: "nat set \<Rightarrow> 'a \<Rightarrow> (nat \<Rightarrow> ('d, 'a) prog) \<Rightarrow> bool" where
  "complete consumers result ps \<longleftrightarrow> (\<forall>t. \<exists>x. ps t = Return x) \<and> (\<forall>c \<in> consumers. ps c = Return result)"

lemma sp_started_complete:
  assumes st: "sp_started k m up gates (blocking_wait_strategy object) n iterationCount (\<sigma>0, ps0)"
    and "waiting \<sigma>0 object = {}" and run: "pool_run (\<sigma>0, ps0) (\<sigma>, ps)" and "at_a_halt (\<sigma>, ps)"
    and "uint iterationCount * (uint iterationCount - 1) < 2 ^ 64"
  shows "complete {1..m} (Some (expectedResult iterationCount)) ps"
proof -
  have r: "\<exists>x. ps t = Return x" for t
    using assms(4) by (intro sp_halted [OF st assms(2) run]) (simp_all add: at_a_halt_def)
  have "sound_pool {1..m} (sum_of_items iterationCount) ps"
    by (rule sp_started_sound [OF st library_strategy_model run]) simp
  with r show ?thesis
    unfolding complete_def sound_pool_def sum_of_items_def expectedResult_sum [OF assms(5)] by metis
qed

section \<open>Runs in which the consumers fall asleep\<close>

lemma ended_at_a_halt:
  assumes "\<And>t. \<exists>x. ps t = Return x"
  shows "at_a_halt (\<sigma>, ps)"
  unfolding at_a_halt_def
proof (intro conjI allI)
  fix t obtain x where "ps t = Return x" using assms by blast
  then show "snd (\<sigma>, ps) t \<noteq> Out_Of_Fuel" "pool_exec [(t, 0)] (\<sigma>, ps) = None" by simp_all
qed

lemma ended_stuck: "\<exists>x. ps t = Return x \<Longrightarrow> pool_exec [(t, 0)] (\<sigma>, ps) = None"
  by auto

lemma three_threads_ended:
  fixes ps :: "nat \<Rightarrow> ('d, 'a) prog"
  assumes "ps 0 = Return x \<and> ps 1 = Return y \<and> ps 2 = Return z \<and> (\<forall>t > 2. ps t = Return w)"
  shows "\<exists>x. ps t = Return x"
  using assms by (cases "t > 2") (auto simp: not_less le_Suc_eq numeral_2_eq_2)

lemmas run_blocking_defs = run_thread_defs blocking_wait_strategy_def blocking_wait_until_published_def
  blocking_signal_all_when_blocking_def

lemma consume_loop_finished: "consume_loop n wait f buffer barrier acc 0 nextToRead = Return acc"
  by (cases n) simp_all

lemma multicast_sleepy_run:
  "\<exists>\<sigma> ps. pool_exec (map (\<lambda>t. (t, 0)) ([1, 1, 1, 1, 2, 2, 2, 2] @ [0, 0, 0, 0, 0, 0, 0] @
         [1, 1, 1, 1, 1, 1, 1, 1] @ [2, 2, 2, 2, 2, 2, 2, 2]))
       (set_up 2, multicast_threads (Suc n) (new_claims 0 (blocking_wait_strategy 7) [1, 2],
          map (\<lambda>c. new_barrier_at (blocking_wait_strategy 7) (Cell c)) [1, 2], new_buffer 0) 1) = Some (\<sigma>, ps) \<and>
     ps 0 = Return None \<and> ps 1 = Return (Some 0) \<and> ps 2 = Return (Some 0) \<and> (\<forall>t > 2. ps t = Return None)"
  by (cases n; simp add: consume_loop_finished run_blocking_defs set_up_def numeral_2_eq_2)

lemma pipeline_sleepy_run:
  "\<exists>\<sigma> ps. pool_exec (map (\<lambda>t. (t, 0)) ([2, 2, 2, 2] @ [0, 0, 0, 0, 0, 0] @
         [1, 1, 1, 1, 1, 1] @ [2, 2, 2, 2, 2, 2, 2, 2]))
       (set_up 2, pipeline_threads (Suc n) (new_claims 0 (blocking_wait_strategy 7) [2],
          map (\<lambda>c. new_barrier_at (blocking_wait_strategy 7) (Cell c)) [1, 2], new_buffer 0) 1) = Some (\<sigma>, ps) \<and>
     ps 0 = Return None \<and> ps 1 = Return (Some 0) \<and> ps 2 = Return (Some 0) \<and> (\<forall>t > 2. ps t = Return None)"
  by (cases n; simp add: consume_loop_finished run_blocking_defs set_up_def numeral_2_eq_2)

lemma diamond_sleepy_run:
  "\<exists>\<sigma> ps. pool_exec (map (\<lambda>t. (t, 0)) ([2, 2, 2, 2] @ [0, 0, 0, 0, 0, 0] @
         [1, 1, 1, 1, 1, 1] @ [2, 2, 2, 2, 2, 2, 2, 2]))
       (set_up 2, diamond_threads (Suc n) (new_claims 0 (blocking_wait_strategy 7) [2],
          map (\<lambda>c. new_barrier_at (blocking_wait_strategy 7) (Cell c)) [1, 2],
          \<lparr>sbg_waitStrategy = blocking_wait_strategy 7, sbg_sequences = [Cell 1]\<rparr>, new_buffer 0) 1) = Some (\<sigma>, ps) \<and>
     ps 0 = Return None \<and> ps 1 = Return (Some 0) \<and> ps 2 = Return (Some 0) \<and> (\<forall>t > 2. ps t = Return None)"
  by (cases n; simp add: consume_loop_finished run_blocking_defs set_up_def numeral_2_eq_2)

text \<open>The set-ups, for any wait strategy.\<close>

lemma sleepy_setups:
  "\<exists>l. run 0 alone (multicast_setup W 1 2) 0 (at_rest 0) =
     (Returned (new_claims 0 W [1, 2], map (\<lambda>c. new_barrier_at W (Cell c)) [1, 2], new_buffer 0), set_up 2, l)"
  "\<exists>l. run 0 alone (pipeline_setup W 1 2) 0 (at_rest 0) =
     (Returned (new_claims 0 W [2], map (\<lambda>c. new_barrier_at W (Cell c)) [1, 2], new_buffer 0), set_up 2, l)"
  "\<exists>l. run 0 alone (diamond_setup W 1 2) 0 (at_rest 0) =
     (Returned (new_claims 0 W [2], map (\<lambda>c. new_barrier_at W (Cell c)) [1, 2],
        \<lparr>sbg_waitStrategy = W, sbg_sequences = [Cell 1]\<rparr>, new_buffer 0), set_up 2, l)"
  by (simp_all add: run_setup_defs set_up_def upt_rec numeral_2_eq_2)

section \<open>The benchmarks\<close>

text \<open>
  The multicast benchmark with the blocking wait strategy cannot deadlock, however many
  consumers there are: in every state that it reaches, by whatever interleaving, some thread can
  go on without a spurious wake-up, or else all have ended and every consumer has the expected
  result.
\<close>

theorem multicast_completes:
  assumes "bufferSize \<le> 2 ^ 62" and "0 < consumerCount" and "uint iterationCount * (uint iterationCount - 1) < 2 ^ 64"
    and "run 0 alone (multicast_setup (blocking_wait_strategy object) bufferSize consumerCount) 0 \<sigma> = (Returned objects, \<sigma>0, l)"
    and "owner \<sigma> = (\<lambda>_. None)" and "waiting \<sigma> object = {}"
    and "pool_run (\<sigma>0, multicast_threads n objects iterationCount) (\<sigma>', ps)" and "at_a_halt (\<sigma>', ps)"
  shows "complete {1..consumerCount} (Some (expectedResult iterationCount)) ps"
proof -
  obtain k where "waiting \<sigma>0 = waiting \<sigma>" and st: "sp_started k consumerCount (\<lambda>_. {}) (map Suc [0..<consumerCount])
      (blocking_wait_strategy object) n iterationCount (\<sigma>0, multicast_threads n objects iterationCount)"
    using assms(4,1,5,2) by (rule multicast_started)
  then show ?thesis using sp_started_complete [OF st _ assms(7,8,3)] assms(6) by simp
qed

text \<open>
  Nor can the pipeline, in which each stage sleeps until the one before it publishes.
\<close>

theorem pipeline_completes:
  assumes "bufferSize \<le> 2 ^ 62" and "0 < consumerCount" and "uint iterationCount * (uint iterationCount - 1) < 2 ^ 64"
    and "run 0 alone (pipeline_setup (blocking_wait_strategy object) bufferSize consumerCount) 0 \<sigma> = (Returned objects, \<sigma>0, l)"
    and "owner \<sigma> = (\<lambda>_. None)" and "waiting \<sigma> object = {}"
    and "pool_run (\<sigma>0, pipeline_threads n objects iterationCount) (\<sigma>', ps)" and "at_a_halt (\<sigma>', ps)"
  shows "complete {1..consumerCount} (Some (expectedResult iterationCount)) ps"
proof -
  obtain k where "waiting \<sigma>0 = waiting \<sigma>" and st: "sp_started k consumerCount pipeline_upstream [consumerCount]
      (blocking_wait_strategy object) n iterationCount (\<sigma>0, pipeline_threads n objects iterationCount)"
    using assms(4,1,5,2) by (rule pipeline_started)
  then show ?thesis using sp_started_complete [OF st _ assms(7,8,3)] assms(6) by simp
qed

text \<open>
  Nor can the diamond, in which the last consumer sleeps until all the others publish.
\<close>

theorem diamond_completes:
  assumes "bufferSize \<le> 2 ^ 62" and "1 < consumerCount" and "uint iterationCount * (uint iterationCount - 1) < 2 ^ 64"
    and "run 0 alone (diamond_setup (blocking_wait_strategy object) bufferSize consumerCount) 0 \<sigma> = (Returned objects, \<sigma>0, l)"
    and "owner \<sigma> = (\<lambda>_. None)" and "waiting \<sigma> object = {}"
    and "pool_run (\<sigma>0, diamond_threads n objects iterationCount) (\<sigma>', ps)" and "at_a_halt (\<sigma>', ps)"
  shows "complete {1..consumerCount} (Some (expectedResult iterationCount)) ps"
proof -
  obtain k where "waiting \<sigma>0 = waiting \<sigma>" and st: "sp_started k consumerCount (diamond_upstream consumerCount) [consumerCount]
      (blocking_wait_strategy object) n iterationCount (\<sigma>0, diamond_threads n objects iterationCount)"
    using assms(4,1,5,2) by (rule diamond_started)
  then show ?thesis using sp_started_complete [OF st _ assms(7,8,3)] assms(6) by simp
qed

text \<open>The consumers fall asleep and are woken.\<close>

lemma diamond_completes_witness:
  "\<exists>objects \<sigma>0 l \<sigma>' ps.
     run 0 alone (diamond_setup (blocking_wait_strategy 7) 1 2) 0 (at_rest 0) = (Returned objects, \<sigma>0, l) \<and>
     pool_exec (map (\<lambda>t. (t, 0)) ([2, 2, 2, 2] @ [0, 0, 0, 0, 0, 0] @
         [1, 1, 1, 1, 1, 1] @ [2, 2, 2, 2, 2, 2, 2, 2]))
       (\<sigma>0, diamond_threads 1 objects 1) = Some (\<sigma>', ps) \<and>
     complete {1..2} (Some (expectedResult 1)) ps"
proof -
  obtain l where r: "run 0 alone (diamond_setup (blocking_wait_strategy 7) 1 2) 0 (at_rest 0) = (Returned (new_claims 0 (blocking_wait_strategy 7) [2], map (\<lambda>c. new_barrier_at (blocking_wait_strategy 7) (Cell c)) [1, 2], \<lparr>sbg_waitStrategy = (blocking_wait_strategy 7), sbg_sequences = [Cell 1]\<rparr>, new_buffer 0), set_up 2, l)"
    using sleepy_setups(3) by blast
  obtain \<sigma>' ps where p: "pool_exec (map (\<lambda>t. (t, 0)) ([2, 2, 2, 2] @ [0, 0, 0, 0, 0, 0] @
         [1, 1, 1, 1, 1, 1] @ [2, 2, 2, 2, 2, 2, 2, 2]))
      (set_up 2, diamond_threads 1 (new_claims 0 (blocking_wait_strategy 7) [2], map (\<lambda>c. new_barrier_at (blocking_wait_strategy 7) (Cell c)) [1, 2], \<lparr>sbg_waitStrategy = (blocking_wait_strategy 7), sbg_sequences = [Cell 1]\<rparr>, new_buffer 0) 1) = Some (\<sigma>', ps)"
    and ps: "ps 0 = Return None \<and> ps 1 = Return (Some 0) \<and> ps 2 = Return (Some 0) \<and> (\<forall>t > 2. ps t = Return None)"
    using diamond_sleepy_run [of 0] by (auto simp only: One_nat_def)
  note e = three_threads_ended [OF ps]
  have "complete {1..2} (Some (expectedResult 1)) ps"
    by (rule diamond_completes [OF _ _ _ r _ _ pool_exec_run [OF p] ended_at_a_halt [OF e]]) simp_all
  with r p show ?thesis by blast
qed

end
