(* ===== verification/Rounds_Of_Waiting.thy ===== *)
theory Rounds_Of_Waiting
  imports Sleeping_Clients "HOL-Library.Multiset"
begin

text \<open>
  How many rounds of waiting are enough.  A thread is a finite tree, so a pool of finitely many
  threads takes finitely many steps; but a thread whose rounds are used up stops early.  With
  the blocking strategy a round ends with a notification, a notification follows a store, and a
  store makes progress, of which there is only so much: each store pays for the rounds that it
  ends.
\<close>

section \<open>A pool of finitely many threads takes finitely many steps\<close>

definition after_access :: "(('d, 'a) prog \<times> ('d, 'a) prog) set" where
  "after_access = {(k r, Act c k) | c k r. True}"

lemma wf_after_access: "wf (after_access :: (('d, 'a) prog \<times> ('d, 'a) prog) set)"
proof (rule wfUNIVI)
  fix P :: "('d, 'a) prog \<Rightarrow> bool" and p :: "('d, 'a) prog"
  assume step: "\<forall>p. (\<forall>q. (q, p) \<in> after_access \<longrightarrow> P q) \<longrightarrow> P p"
  show "P p"
  proof (induction p)
    case (Act c k)
    then have "P (k r)" for r by (simp add: rangeI)
    then show ?case using step by (force simp: after_access_def)
  qed (use step in \<open>force simp: after_access_def\<close>)+
qed

definition threads_left :: "nat \<Rightarrow> ('d, 'a) pool \<Rightarrow> ('d, 'a) prog multiset" where
  "threads_left m c = image_mset (snd c) (mset_set {0..m})"

lemma pool_step_decreases:
  assumes "pool_step c c'" and "\<And>t. m < t \<Longrightarrow> \<exists>x. snd c t = Return x"
  shows "(threads_left m c', threads_left m c) \<in> mult after_access"
    and "\<And>t. m < t \<Longrightarrow> \<exists>x. snd c' t = Return x"
proof -
  obtain \<sigma> ps t a k r \<sigma>' where c: "c = (\<sigma>, ps)" "c' = (\<sigma>', ps(t := k r))" and p: "ps t = Act a k"
    using assms(1) by (cases rule: pool_step.cases) auto
  have t: "t \<le> m" using assms(2) [of t] p by (cases "m < t") (auto simp: c)
  have "{0..m} = insert t ({0..m} - {t})" using t by auto
  then have m: "mset_set {0..m} = add_mset t (mset_set ({0..m} - {t}))"
    by (metis finite_atLeastAtMost finite_Diff insert_Diff_single Diff_iff insertI1 mset_set.insert singletonI)
  have "image_mset (ps(t := k r)) (mset_set ({0..m} - {t})) = image_mset ps (mset_set ({0..m} - {t}))"
    by (intro image_mset_cong) auto
  then have "threads_left m c' = add_mset (k r) (image_mset ps (mset_set ({0..m} - {t})))"
    "threads_left m c = add_mset (Act a k) (image_mset ps (mset_set ({0..m} - {t})))"
    using p by (simp_all add: threads_left_def c m)
  then have "(threads_left m c', threads_left m c) \<in> mult1 after_access"
    unfolding mult1_def by (force simp: after_access_def)
  then show "(threads_left m c', threads_left m c) \<in> mult after_access" by (simp add: mult_def)
  show "\<exists>x. snd c' u = Return x" if "m < u" for u using assms(2) [OF that] t that by (auto simp: c)
qed

lemma no_infinite_pool_run:
  fixes f :: "nat \<Rightarrow> ('d, 'a) pool"
  assumes "\<And>t. m < t \<Longrightarrow> \<exists>x. snd (f 0) t = Return x"
  shows "\<exists>i. \<not> pool_step (f i) (f (Suc i))"
proof (rule ccontr)
  assume "\<nexists>i. \<not> pool_step (f i) (f (Suc i))"
  then have step: "pool_step (f i) (f (Suc i))" for i by blast
  have "\<forall>t > m. \<exists>x. snd (f i) t = Return x" for i
  proof (induction i)
    case (Suc i)
    then show ?case using pool_step_decreases(2) [OF step [of i]] by blast
  qed (use assms in blast)
  then have "(threads_left m (f (Suc i)), threads_left m (f i)) \<in> mult after_access" for i
    using pool_step_decreases(1) [OF step [of i]] by blast
  moreover have "\<forall>g. \<not> (\<forall>i. (g (Suc i), g i) \<in> mult (after_access :: (('d, 'a) prog \<times> ('d, 'a) prog) set))"
    using wf_mult [OF wf_after_access] unfolding wf_iff_no_infinite_down_chain not_ex .
  from this [THEN spec, of "\<lambda>i. threads_left m (f i)"]
  have "\<not> (\<forall>i. (threads_left m (f (Suc i)), threads_left m (f i)) \<in> mult after_access)" .
  ultimately show False by blast
qed

section \<open>Programs that spend their rounds sparingly\<close>

text \<open>
  \<open>thrifty G m p j b a\<close>: program \<open>p\<close>, when its accesses give results that \<open>G\<close> allows, runs out of
  rounds only after at least \<open>j\<close> wake-ups and stores; it notifies only after a store (\<open>b\<close>: there is one it has not notified yet), and wakes
  only where it has fallen asleep (\<open>a\<close>), on the condition variable of \<open>m\<close>.
\<close>

primrec thrifty :: "('d act \<Rightarrow> 'd resp \<Rightarrow> bool) \<Rightarrow> nat \<Rightarrow> ('d, 'a) prog \<Rightarrow> nat \<Rightarrow> bool \<Rightarrow> bool \<Rightarrow> bool" where
  "thrifty G m (Return x) = (\<lambda>j b a. \<not> a)"
| "thrifty G m (Act c k) = (\<lambda>j b a. (a \<longleftrightarrow> c = Cv_Wake m) \<and> (case c of
     Store ord x v \<Rightarrow> (\<forall>r. G c r \<longrightarrow> thrifty G m (k r) (j - 1) True False)
   | Notify_All m' \<Rightarrow> b \<and> m' = m \<and> (\<forall>r. G c r \<longrightarrow> thrifty G m (k r) j False False)
   | Cv_Block m' \<Rightarrow> m' = m \<and> (\<forall>r. G c r \<longrightarrow> thrifty G m (k r) j b True)
   | Cv_Wake m' \<Rightarrow> m' = m \<and> (\<forall>r. G c r \<longrightarrow> thrifty G m (k r) (j - 1) b False)
   | _ \<Rightarrow> (\<forall>r. G c r \<longrightarrow> thrifty G m (k r) j b False)))"
| "thrifty G m Assert_Failed = (\<lambda>j b a. True)"
| "thrifty G m Out_Of_Fuel = (\<lambda>j b a. j = 0 \<and> \<not> a)"

lemma thrifty_mono: "thrifty G m p j b a \<Longrightarrow> i \<le> j \<Longrightarrow> b \<le> b' \<Longrightarrow> thrifty G m p i b' a"
proof (induction p arbitrary: i j b b' a)
  case (Act c k)
  have IH: "thrifty G m (k r) j b a \<Longrightarrow> i \<le> j \<Longrightarrow> b \<le> b' \<Longrightarrow> thrifty G m (k r) i b' a" for r i j b b' a
    using Act.IH [OF rangeI] .
  show ?case
    using Act.prems by (cases c) (auto intro: IH [of _ j] IH [of _ "j - Suc 0" _ _ "i - Suc 0"] diff_le_mono)
qed auto

lemma thrifty_bind:
  "thrifty G m p j b a \<Longrightarrow> (\<And>x. thrifty G m (f x) j False False) \<Longrightarrow> thrifty G m (bind p f) j b a"
proof (induction p arbitrary: j b a)
  case (Return x)
  then show ?case using thrifty_mono [of G m "f x" j False False j b] by auto
next
  case (Act c k)
  have IH: "thrifty G m (k r) i b a \<Longrightarrow> i \<le> j \<Longrightarrow> thrifty G m (bind (k r) f) i b a" for r i b a
    using Act.IH [OF rangeI, of r i b a] Act.prems(2) thrifty_mono by blast
  show ?case using Act.prems(1) by (cases c) (auto intro: IH)
qed auto

subsection \<open>The library is thrifty\<close>

lemma thrifty_loads_only: "loads_only p \<Longrightarrow> thrifty G m p j b False"
proof (induction p)
  case (Act c k)
  then obtain ord a where "c = Load ord a" "\<And>r. loads_only (k r)" by auto
  then show ?case using Act.IH [OF rangeI] by simp
qed auto

lemmas thrifty_minimum_sequence_after = thrifty_loads_only [OF loads_only_minimum_sequence_after]

lemma thrifty_cv_wait: "as \<noteq> [] \<Longrightarrow> thrifty G m (cv_wait m n s as) n b False"
proof (induction n arbitrary: b)
  case 0
  then show ?case by (auto intro!: thrifty_bind thrifty_minimum_sequence_after)
next
  case (Suc n)
  then show ?case by (auto simp: do_act_def intro!: thrifty_bind thrifty_minimum_sequence_after)
qed

lemma thrifty_blocking_wait: "as \<noteq> [] \<Longrightarrow> thrifty G m (blocking_wait_until_published m n s as) n b False"
  by (auto simp: blocking_wait_until_published_def assert_def do_act_def intro!: thrifty_bind thrifty_cv_wait)

lemma thrifty_group_wait:
  assumes "sbg_waitStrategy g = blocking_wait_strategy m"
  shows "thrifty G m (group_wait_until_published n g v) n b False"
proof (cases "sbg_sequences g = []")
  case False
  then show ?thesis
    using assms
    by (auto simp: group_wait_until_published_def assert_def blocking_wait_strategy_def
        intro!: thrifty_bind thrifty_minimum_sequence_after thrifty_blocking_wait)
qed (simp add: group_wait_until_published_def assert_def)

lemma thrifty_library_wait:
  assumes "library_wait (blocking_wait_strategy m) n wait as"
  shows "thrifty G m (wait v) n b False"
  using assms thrifty_group_wait [where g = "\<lparr>sbg_waitStrategy = blocking_wait_strategy m, sbg_sequences = as\<rparr>"]
  by (auto simp: library_wait_def barrier_wait_until_published_def barrier_last_published_def Let_def load_def
      new_barrier_at_def blocking_wait_strategy_def intro!: thrifty_blocking_wait)

text \<open>A publication pays for one round.\<close>

lemma thrifty_publish:
  assumes "sb_waitStrategy b = blocking_wait_strategy m" and "thrifty G m (f ()) (j - 1) False False"
  shows "thrifty G m (bind (barrier_publish b x) f) j p False"
  using assms by (simp add: barrier_publish_def blocking_wait_strategy_def blocking_signal_all_when_blocking_def do_act_def)

lemma thrifty_read_batch: "thrifty G m (read_batch f buffer available acc rem nextToRead) j b False"
proof (induction f buffer available acc rem nextToRead rule: read_batch.induct)
  case (1 f buffer available acc rem nextToRead)
  show ?case
    unfolding read_batch.simps [of f buffer available acc rem nextToRead]
    using "1.IH" by (simp add: buffer_read_def read_data_def)
qed

lemma thrifty_consume_loop:
  assumes "\<And>v. thrifty G m (wait v) n0 False False" and "sb_waitStrategy barrier = blocking_wait_strategy m"
  shows "n \<le> n0 \<Longrightarrow> thrifty G m (consume_loop n wait f buffer barrier acc rem nextToRead) n False False"
proof (induction n arbitrary: acc rem nextToRead)
  case (Suc n)
  have "thrifty G m (wait v) (Suc n) False False" for v
    using assms(1) Suc.prems by (rule thrifty_mono) simp
  then show ?case using Suc
    by (auto intro!: thrifty_bind [where p = "wait nextToRead"] thrifty_bind [OF thrifty_read_batch]
        thrifty_publish [OF assms(2)])
qed simp

lemma thrifty_producer_loop:
  assumes "sbg_waitStrategy (st_claimBarrier cs) = blocking_wait_strategy m"
    and "sb_waitStrategy (st_readBarrier cs) = blocking_wait_strategy m" and "j \<le> n"
  shows "thrifty G m (st_producer_loop n cs buffer iterationCount i) j False False"
  using assms
proof (induction "unat iterationCount - unat i" arbitrary: i j cs rule: less_induct)
  case less
  show ?case
  proof (cases "i < iterationCount")
    case False
    then show ?thesis by (simp add: st_producer_loop.simps)
  next
    case True
    let ?cs = "cs\<lparr>st_nextSequenceToClaim := st_nextSequenceToClaim cs + 1\<rparr>"
    have wait: "thrifty G m (group_wait_until_published n (st_claimBarrier cs) v) j False False" for v
      using thrifty_group_wait [OF less.prems(1), where b = False] less.prems(3) by (rule thrifty_mono) simp
    have "thrifty G m (st_producer_loop n ?cs buffer iterationCount (i + 1)) (j - 1) False False"
      using less.prems unat_count_up [OF True] by (intro less.hyps) auto
    then have "thrifty G m (bind (st_publish ?cs x) (\<lambda>_. st_producer_loop n ?cs buffer iterationCount (i + 1))) j False False" for x
      unfolding st_publish_def using less.prems(2) by (intro thrifty_publish) simp_all
    then show ?thesis
      using True wait unfolding st_producer_loop.simps [of n cs buffer iterationCount i]
      by (auto simp: st_claim_one_def bind_assoc buffer_write_def do_act_def intro!: thrifty_bind [OF wait])
  qed
qed

subsection \<open>The multi-threaded claim strategy is thrifty\<close>

text \<open>
  Looking for the last published number follows the entries that hold their own number.  When
  every entry holds a position between \<open>- N\<close> and \<open>M\<close>, no more than \<open>N + M\<close> of them do so in a
  row.
\<close>

lemma thrifty_last_published_from:
  assumes G: "\<And>ord x r. G (Load ord (mt_entry cs x)) r \<Longrightarrow> \<exists>p. seq_of r = seq_at p \<and> - N \<le> p \<and> p < M"
    and "N + M < 2 ^ 63" and "- N \<le> q" "q \<le> M" "M - q \<le> int n"
  shows "thrifty G m (mt_last_published_loop n cs (seq_at q) known) j b False"
  using assms(3-5)
proof (induction n arbitrary: q known)
  case (0 q)
  then have q: "q = M" by simp
  have "seq_of r \<noteq> seq_at q" if g: "G (Load Acquire (mt_entry cs (seq_at q))) r" for r
  proof -
    obtain p where p: "seq_of r = seq_at p" "- N \<le> p" "p < M" using G [OF g] by blast
    then have "seq_at p = seq_at M \<longleftrightarrow> p = M" using assms(2) by (intro seq_at_inject) auto
    with p show ?thesis by (simp add: q)
  qed
  then show ?case by (auto simp: mt_is_published_def load_def)
next
  case (Suc n)
  have "thrifty G m (mt_last_published_loop n cs (seq_at (q + 1)) (seq_at q)) j b False"
    if r: "G (Load Acquire (mt_entry cs (seq_at q))) r" "seq_of r = seq_at q" for r
  proof -
    obtain p where p: "seq_at q = seq_at p" "- N \<le> p" "p < M" using G [OF r(1)] r(2) by auto
    have "q = p" using p(1) by (rule seq_at_inject [THEN iffD1, rotated]) (use p Suc.prems assms(2) in auto)
    then show ?thesis using Suc.prems p by (intro Suc.IH) auto
  qed
  then show ?case by (auto simp: mt_is_published_def load_def seq_at_add_1)
qed

lemma thrifty_last_published_loop:
  assumes G: "\<And>ord x r. G (Load ord (mt_entry cs x)) r \<Longrightarrow> \<exists>p. seq_of r = seq_at p \<and> - N \<le> p \<and> p < M"
    and "N + M < 2 ^ 63" and n: "N + M \<le> int n"
  shows "thrifty G m (mt_last_published_loop n cs x known) j b False"
proof (cases "\<exists>r. G (Load Acquire (mt_entry cs x)) r \<and> seq_of r = x")
  case True
  then obtain q where "x = seq_at q" "- N \<le> q" "q < M" using G by metis
  then show ?thesis using n thrifty_last_published_from [where cs = cs and G = G, OF G assms(2)] by simp
next
  case False
  then show ?thesis by (cases n) (auto simp: mt_is_published_def load_def)
qed

lemma thrifty_mt_wait:
  assumes "mt_waitStrategy cs = blocking_wait_strategy m"
    and "\<And>ord x r. G (Load ord (mt_entry cs x)) r \<Longrightarrow> \<exists>p. seq_of r = seq_at p \<and> - N \<le> p \<and> p < M"
    and "N + M < 2 ^ 63" and "N + M \<le> int n"
  shows "thrifty G m (mt_wait_until_published n cs v (v - 1)) n b False"
proof -
  have "thrifty G m (blocking_wait_until_published m n v [mt_entry cs v]) n b False" for b
    by (rule thrifty_blocking_wait) simp
  then have "thrifty G m (mt_wait_loop n cs v v) n b False"
    unfolding mt_wait_loop_once
    by (auto simp: assms(1) blocking_wait_strategy_def mt_is_published_def load_def intro!: thrifty_bind)
  then show ?thesis
    unfolding mt_wait_until_published_def mt_last_published_after_def
    using thrifty_last_published_loop [where cs = cs and G = G, OF assms(2-4)] by (simp add: assert_def thrifty_bind)
qed

lemma thrifty_mt_publish:
  assumes "mt_waitStrategy cs = blocking_wait_strategy m" and "thrifty G m (f ()) (j - 1) False False"
  shows "thrifty G m (bind (mt_publish cs x) f) j b False"
  using assms by (simp add: mt_publish_def mt_set_published_def blocking_wait_strategy_def load_def assert_def
      blocking_signal_all_when_blocking_def do_act_def)

lemma thrifty_mt_producer_loop:
  assumes "sbg_waitStrategy (mt_claimBarrier cs) = blocking_wait_strategy m"
    and "mt_waitStrategy cs = blocking_wait_strategy m" and "j \<le> n"
  shows "thrifty G m (mt_producer_loop n cs buffer iterationCount i) j False False"
  using assms(3)
proof (induction "unat iterationCount - unat i" arbitrary: i j rule: less_induct)
  case less
  show ?case
  proof (cases "i < iterationCount")
    case False
    then show ?thesis by (simp add: mt_producer_loop.simps)
  next
    case True
    have wait: "thrifty G m (group_wait_until_published n (mt_claimBarrier cs) v) j False False" for v
      using thrifty_group_wait [OF assms(1), where b = False] less.prems by (rule thrifty_mono) simp
    have "thrifty G m (mt_producer_loop n cs buffer iterationCount (i + 1)) (j - 1) False False"
      using less.prems unat_count_up [OF True] by (intro less.hyps) auto
    then have "thrifty G m (bind (mt_publish cs x) (\<lambda>_. mt_producer_loop n cs buffer iterationCount (i + 1))) j False False" for x
      using assms(2) by (intro thrifty_mt_publish)
    then show ?thesis
      using True wait unfolding mt_producer_loop.simps [of n cs buffer iterationCount i]
      by (auto simp: mt_claim_one_def fetch_add_def bind_assoc buffer_write_def do_act_def intro!: thrifty_bind [OF wait])
  qed
qed

section \<open>The rounds are enough\<close>

text \<open>
  The book-keeping of a run of threads \<open>0..m\<close>: the stores \<open>S\<close>, notifications \<open>N\<close> and wake-ups \<open>K\<close>
  of each thread so far, whether it owes a notification (\<open>b\<close>) and whether it is between falling
  asleep and waking (\<open>a\<close>).  A thread notifies after a store, and wakes after a notification.
\<close>

definition budget :: "('d act \<Rightarrow> 'd resp \<Rightarrow> bool) \<Rightarrow> nat \<Rightarrow> nat \<Rightarrow> nat \<Rightarrow> (nat \<Rightarrow> nat) \<Rightarrow> (nat \<Rightarrow> nat) \<Rightarrow> (nat \<Rightarrow> nat) \<Rightarrow> (nat \<Rightarrow> bool) \<Rightarrow>
    (nat \<Rightarrow> bool) \<Rightarrow> ('d, 'a) pool \<Rightarrow> bool" where
  "budget G m object n S N K b a c \<longleftrightarrow> (\<forall>t \<le> m.
     thrifty G object (snd c t) (n - S t - K t) (b t) (a t) \<and> N t + of_bool (b t) \<le> S t \<and>
     K t + of_bool (a t \<and> t \<notin> waiting (fst c) object) \<le> (\<Sum>u \<le> m. N u))"

fun stores_of :: "'d act \<Rightarrow> nat" where
  "stores_of (Store ord a v) = 1"
| "stores_of c = 0"

lemma sum_fun_upd: "t \<le> m \<Longrightarrow> (\<Sum>u \<le> m. (N(t := x)) u) + N t = (\<Sum>u \<le> m. N u) + x" for N :: "nat \<Rightarrow> nat"
  using sum.remove [of "{..m}" t N] sum.remove [of "{..m}" t "N(t := x)"]
  by (simp add: sum.cong [of "{..m} - {t}" "{..m} - {t}" "N(t := x)" N])

text \<open>A step of thread \<open>t\<close> changes its own accounts only, and wakes others only if it notifies.\<close>

lemma budget_update:
  assumes bud: "budget G m object n S N K b a (\<sigma>, ps)" and t: "t \<le> m"
    and th: "thrifty G object q (n - (S t + x) - y) d e" and "z + of_bool d \<le> S t + x" and z: "N t \<le> z"
    and y: "y + of_bool (e \<and> t \<notin> waiting \<sigma>' object) + N t \<le> (\<Sum>u \<le> m. N u) + z"
    and w: "\<And>u. u \<noteq> t \<Longrightarrow> u \<in> waiting \<sigma> object \<Longrightarrow> u \<in> waiting \<sigma>' object \<or> N t < z"
  shows "budget G m object n (S(t := S t + x)) (N(t := z)) (K(t := y)) (b(t := d)) (a(t := e)) (\<sigma>', ps(t := q))"
  unfolding budget_def
proof (intro allI impI)
  fix u assume u: "u \<le> m"
  have sum: "(\<Sum>u \<le> m. (N(t := z)) u) + N t = (\<Sum>u \<le> m. N u) + z" using t by (rule sum_fun_upd)
  show "thrifty G object (snd (\<sigma>', ps(t := q)) u) (n - (S(t := S t + x)) u - (K(t := y)) u) ((b(t := d)) u) ((a(t := e)) u) \<and>
      (N(t := z)) u + of_bool ((b(t := d)) u) \<le> (S(t := S t + x)) u \<and>
      (K(t := y)) u + of_bool ((a(t := e)) u \<and> u \<notin> waiting (fst (\<sigma>', ps(t := q))) object) \<le> (\<Sum>u \<le> m. (N(t := z)) u)"
  proof (cases "u = t")
    case True
    with assms(3-6) sum show ?thesis by simp
  next
    case False
    then have "thrifty G object (ps u) (n - S u - K u) (b u) (a u)" "N u + of_bool (b u) \<le> S u"
      and K: "K u + of_bool (a u \<and> u \<notin> waiting \<sigma> object) \<le> (\<Sum>u \<le> m. N u)"
      using bud u by (auto simp: budget_def)
    moreover have "K u + of_bool (a u \<and> u \<notin> waiting \<sigma>' object) \<le> (\<Sum>u \<le> m. (N(t := z)) u)"
      using K w [OF False] sum z
      by (cases "u \<in> waiting \<sigma> object") (auto simp del: fun_upd_apply split: if_splits)
    ultimately show ?thesis using False by simp
  qed
qed

lemma budget_step:
  assumes bud: "budget G m object n S N K b a (\<sigma>, ps)" and t: "t \<le> m" and p: "ps t = Act c k"
    and e: "exec t 0 c \<sigma> = Some (r, \<sigma>')" and G: "G c r"
  shows "\<exists>N K b a. budget G m object n (S(t := S t + stores_of c)) N K b a (\<sigma>', ps(t := k r))"
proof -
  have th: "thrifty G object (Act c k) (n - S t - K t) (b t) (a t)" and NS: "N t + of_bool (b t) \<le> S t"
    and KN: "K t + of_bool (a t \<and> t \<notin> waiting \<sigma> object) \<le> (\<Sum>u \<le> m. N u)"
    using bud t p by (auto simp: budget_def)
  consider (store) ord x v where "c = Store ord x v" | (notify) m' where "c = Notify_All m'"
    | (block) m' where "c = Cv_Block m'" | (wake) m' where "c = Cv_Wake m'"
    | (other) "stores_of c = 0" "waiting \<sigma>' = waiting \<sigma>" "thrifty G object (k r) (n - S t - K t) (b t) False"
    using th e G by (cases c) (auto split: if_splits)
  then show ?thesis
  proof cases
    case store
    then show ?thesis using th NS KN e G
      by (intro exI) (rule budget_update [OF bud t, where d = True and e = False and z = "N t" and y = "K t"], auto)
  next
    case notify
    then show ?thesis using th NS KN e G
      by (intro exI) (rule budget_update [OF bud t, where d = False and e = False and z = "Suc (N t)" and y = "K t"], auto)
  next
    case block
    then show ?thesis using th NS KN e G
      by (intro exI) (rule budget_update [OF bud t, where d = "b t" and e = True and z = "N t" and y = "K t"], auto split: if_splits)
  next
    case wake
    then show ?thesis using th NS KN e G
      by (intro exI) (rule budget_update [OF bud t, where d = "b t" and e = False and z = "N t" and y = "Suc (K t)"], auto split: if_splits)
  next
    case other
    then show ?thesis using NS KN
      by (intro exI) (rule budget_update [OF bud t, where d = "b t" and e = False and z = "N t" and y = "K t"], auto)
  qed
qed

text \<open>A thread that has returned stays so.\<close>

lemma pool_exec_returned: "pool_exec w (\<sigma>0, ps0) = Some (\<sigma>, ps) \<Longrightarrow> \<exists>x. ps0 t = Return x \<Longrightarrow> \<exists>x. ps t = Return x"
proof (induction w arbitrary: \<sigma>0 ps0)
  case (Cons e w)
  obtain u n where e: "e = (u, n)" by (cases e)
  from Cons.prems(1) obtain c k r \<sigma>1 where p: "ps0 u = Act c k" and "pool_exec w (\<sigma>1, ps0(u := k r)) = Some (\<sigma>, ps)"
    unfolding e by (auto split: prog.splits option.splits)
  moreover have "\<exists>x. (ps0(u := k r)) t = Return x" using Cons.prems(2) p by auto
  ultimately show ?case using Cons.IH by blast
qed simp

section \<open>Progress pays for the rounds\<close>

text \<open>
  What a protocol has to provide: in the pools that it measures, the results of the accesses are
  \<open>possible\<close>, no step loses progress, a store of a thread is progress of that thread, and
  there is a limit to the progress of each.
\<close>

locale paying_progress =
  fixes possible :: "'d act \<Rightarrow> 'd resp \<Rightarrow> bool" and measured :: "('d, 'a) pool \<Rightarrow> (nat \<Rightarrow> int) \<Rightarrow> bool"
    and limit :: "nat \<Rightarrow> nat"
  assumes measured_step: "measured (\<sigma>, ps) R \<Longrightarrow> ps t = Act c k \<Longrightarrow> exec t 0 c \<sigma> = Some (r, \<sigma>') \<Longrightarrow>
      possible c r \<and> (\<exists>R'. measured (\<sigma>', ps(t := k r)) R' \<and> (\<forall>u. R u \<le> R' u) \<and> R t + int (stores_of c) \<le> R' t)"
    and measured_limit: "measured pool R \<Longrightarrow> R t \<le> int (limit t)"
begin

lemma exec_budget:
  assumes "measured (\<sigma>, ps) R" and "budget possible m object n S N K b a (\<sigma>, ps)"
    and "\<And>t. t \<le> m \<Longrightarrow> int (S t) \<le> R t" and "\<And>t. m < t \<Longrightarrow> \<exists>x. ps t = Return x"
    and "pool_exec (map (\<lambda>t. (t, 0)) ts) (\<sigma>, ps) = Some c"
  shows "\<exists>R S N K b a. measured c R \<and> budget possible m object n S N K b a c \<and> (\<forall>t \<le> m. int (S t) \<le> R t)"
  using assms
proof (induction ts arbitrary: \<sigma> ps R S N K b a)
  case Nil
  then have "c = (\<sigma>, ps)" by simp
  then show ?case using Nil.prems(1-3)
    by (intro exI [of _ R] exI [of _ S] exI [of _ N] exI [of _ K] exI [of _ b] exI [of _ a]) simp
next
  case (Cons t ts)
  note [simp del] = fun_upd_apply
  from Cons.prems(5) obtain x k r \<sigma>' where p: "ps t = Act x k" and e: "exec t 0 x \<sigma> = Some (r, \<sigma>')"
    and rest: "pool_exec (map (\<lambda>t. (t, 0)) ts) (\<sigma>', ps(t := k r)) = Some c"
    by (auto split: prog.splits option.splits)
  have t: "t \<le> m" using Cons.prems(4) [of t] p by (cases "m < t") auto
  obtain R' where G: "possible x r" and R': "measured (\<sigma>', ps(t := k r)) R'"
    and mono: "\<And>u. R u \<le> R' u" "R t + int (stores_of x) \<le> R' t"
    using measured_step [OF Cons.prems(1) p e] by blast
  obtain N' K' b' a' where bud': "budget possible m object n (S(t := S t + stores_of x)) N' K' b' a' (\<sigma>', ps(t := k r))"
    using budget_step [where G = possible, OF Cons.prems(2) t p e G] by blast
  show ?case
  proof (rule Cons.IH [OF R' bud' _ _ rest])
    show "int ((S(t := S t + stores_of x)) u) \<le> R' u" if "u \<le> m" for u
      using Cons.prems(3) [OF that] mono(1) [of u] mono(2) by (cases "u = t") (auto simp: fun_upd_apply)
    show "\<exists>y. (ps(t := k r)) u = Return y" if "m < u" for u
      using Cons.prems(4) [OF that] that t by (auto simp: fun_upd_apply)
  qed
qed

text \<open>
  Thrifty threads with more rounds of waiting than all of them together, and each once more,
  can store never run out of rounds when no condition variable wakes spuriously.
\<close>

theorem enough_rounds:
  assumes "measured (\<sigma>0, ps0) R0" and "\<And>t. 0 \<le> R0 t"
    and "\<And>t. t \<le> m \<Longrightarrow> thrifty possible object (ps0 t) n False False"
    and others: "\<And>t. m < t \<Longrightarrow> \<exists>x. ps0 t = Return x"
    and n: "\<And>t. t \<le> m \<Longrightarrow> limit t + (\<Sum>u \<le> m. limit u) < n"
    and run: "pool_exec (map (\<lambda>t. (t, 0)) ts) (\<sigma>0, ps0) = Some (\<sigma>, ps)"
  shows "ps t \<noteq> Out_Of_Fuel"
proof (cases "t \<le> m")
  case True
  have "budget possible m object n (\<lambda>_. 0) (\<lambda>_. 0) (\<lambda>_. 0) (\<lambda>_. False) (\<lambda>_. False) (\<sigma>0, ps0)"
    using assms(3) by (simp add: budget_def)
  then have "\<exists>R S N K b a. measured (\<sigma>, ps) R \<and> budget possible m object n S N K b a (\<sigma>, ps) \<and> (\<forall>t \<le> m. int (S t) \<le> R t)"
    by (rule exec_budget [OF assms(1) _ _ others run]) (simp_all add: assms(2))
  then obtain R S N K b a where R: "measured (\<sigma>, ps) R" and bud: "budget possible m object n S N K b a (\<sigma>, ps)"
    and S: "\<And>t. t \<le> m \<Longrightarrow> int (S t) \<le> R t" by blast
  have le: "S u \<le> limit u" if "u \<le> m" for u using S [OF that] measured_limit [OF R, of u] by linarith
  have "(\<Sum>u \<le> m. N u) \<le> (\<Sum>u \<le> m. limit u)"
    using bud le by (intro sum_mono) (fastforce simp: budget_def)
  moreover have "K t \<le> (\<Sum>u \<le> m. N u)" using bud True by (auto simp: budget_def)
  ultimately have "S t + K t < n" using le [OF True] n [OF True] by linarith
  then have "0 < n - S t - K t" by simp
  moreover have "thrifty possible object (ps t) (n - S t - K t) (b t) (a t)" using bud True by (simp add: budget_def)
  ultimately show ?thesis by (cases "ps t") auto
next
  case False
  have "\<exists>x. ps t = Return x"
    using False others by (intro pool_exec_returned [OF run]) auto
  then show ?thesis by auto
qed

end

end
