(* ===== verification/Benchmark_Termination.thy ===== *)
theory Benchmark_Termination
  imports Benchmark_Completion Rounds_Of_Waiting
begin

text \<open>
  The benchmarks with one producer end: their pools take finitely many steps, and the rounds of
  waiting given to the threads are enough, because every store moves the number that the thread
  has published, and that number never passes \<open>iterationCount\<close>.
\<close>

section \<open>The rounds are enough\<close>

text \<open>A step makes progress, and a store of \<open>t\<close> makes progress of \<open>t\<close>.\<close>

lemma sp_step_progress:
  assumes inv: "sp_inv T (\<sigma>, \<gamma>)" and safe: "\<And>t. safe (sp_protocol T) t (ps t) (\<lambda>x s. Q t x) (\<sigma>, \<gamma>)"
    and wf: "well_arranged T" and cells: "ar_cursor T = Cell 0" "ar_barrier T = Cell"
    and p: "ps t = Act c k" and e: "exec t n c \<sigma> = Some (r, \<sigma>')"
  obtains \<gamma>' where "sp_inv T (\<sigma>', \<gamma>')" "\<And>u. safe (sp_protocol T) u ((ps(t := k r)) u) (\<lambda>x s. Q u x) (\<sigma>', \<gamma>')"
    "\<And>u. reached \<gamma> u \<le> reached \<gamma>' u" "reached \<gamma> t + int (stores_of c) \<le> reached \<gamma>' t"
    "0 < stores_of c \<Longrightarrow> t = 0 \<or> t \<in> ar_consumers T"
proof -
  have s: "safe (sp_protocol T) t (Act c k) (\<lambda>x s. Q t x) (\<sigma>, \<gamma>)" using safe [of t] by (simp add: p)
  then obtain \<gamma>' where g: "guar (sp_protocol T) t (\<sigma>, \<gamma>) (\<sigma>', \<gamma>')"
    and s': "safe (sp_protocol T) t (k r) (\<lambda>x s. Q t x) (\<sigma>', \<gamma>')"
    using e sp.rely_refl [of T t "(\<sigma>, \<gamma>)"] unfolding safe.simps by blast
  have ok: "sp_okay T t c (\<sigma>, \<gamma>)" using sp_pool.safe_okay [OF s] by simp
  have inv': "sp_inv T (\<sigma>', \<gamma>')" using sp.guar_inv [OF g] inv by simp
  have other: "sp_rely T (Suc t) (\<sigma>, \<gamma>) (\<sigma>', \<gamma>')" using g by simp
  then have mono: "reached \<gamma> u \<le> reached \<gamma>' u" for u by (auto simp: sp_rely_def reached_def)
  have safe': "safe (sp_protocol T) u ((ps(t := k r)) u) (\<lambda>x s. Q u x) (\<sigma>', \<gamma>')" for u
  proof (cases "u = t")
    case False
    then have "rely (sp_protocol T) u (\<sigma>, \<gamma>) (\<sigma>', \<gamma>')" using sp.guar_rely [OF _ g] by simp
    with safe [of u] show ?thesis using False by (auto intro: sp.safe_rely)
  qed (simp add: s')
  have made: "reached \<gamma> t + int (stores_of c) \<le> reached \<gamma>' t"
  proof (cases "\<exists>ord a v. c = Store ord a v")
    case True
    then obtain ord a v where c: "c = Store ord a v" by blast
    have a: "a = Cell t" "v \<noteq> mem \<sigma> (Cell t)" "t = 0 \<or> t \<in> ar_consumers T"
      using ok cells by (auto simp: c split: if_splits)
    have "mem \<sigma> (Cell t) = seq_at (reached \<gamma> t - 1)" "mem \<sigma>' (Cell t) = seq_at (reached \<gamma>' t - 1)"
      using inv inv' a(3) cells wf by (auto simp: sp_inv_def sp_data_def reached_def well_arranged_def)
    moreover have "mem \<sigma>' (Cell t) = v" using e by (auto simp: c a)
    ultimately have "reached \<gamma> t \<noteq> reached \<gamma>' t" using a(2) by auto
    with mono [of t] show ?thesis by (simp add: c)
  next
    case False
    then have "stores_of c = 0" by (cases c) auto
    then show ?thesis using mono by simp
  qed
  have who: "t = 0 \<or> t \<in> ar_consumers T" if "0 < stores_of c" using ok that by (cases c) (auto split: if_splits)
  show thesis by (rule that [OF inv' safe' mono made who])
qed

definition sp_made :: "(64 word) arrangement \<Rightarrow> progress \<Rightarrow> nat \<Rightarrow> int" where
  "sp_made T \<gamma> t = (if t = 0 \<or> t \<in> ar_consumers T then reached \<gamma> t else 0)"

definition sp_measured :: "(64 word) arrangement \<Rightarrow> (nat \<Rightarrow> 'a \<Rightarrow> bool) \<Rightarrow> (64 word, 'a) pool \<Rightarrow> (nat \<Rightarrow> int) \<Rightarrow> bool" where
  "sp_measured T Q c R \<longleftrightarrow> well_arranged T \<and> ar_cursor T = Cell 0 \<and> ar_barrier T = Cell \<and>
     (\<exists>\<gamma>. sp_inv T (fst c, \<gamma>) \<and> (\<forall>t. safe (sp_protocol T) t (snd c t) (\<lambda>x s. Q t x) (fst c, \<gamma>)) \<and>
       R = sp_made T \<gamma>)"

interpretation sp_progress: paying_progress "\<lambda>_ _. True" "sp_measured T Q" "\<lambda>_. nat (ar_total T)"
  for T :: "(64 word) arrangement" and Q :: "nat \<Rightarrow> 'a \<Rightarrow> bool"
proof
  fix \<sigma> \<sigma>' :: "(64 word) mach" and ps :: "nat \<Rightarrow> (64 word, 'a) prog" and R t c k r
  assume "sp_measured T Q (\<sigma>, ps) R" and p: "ps t = Act c k" and e: "exec t 0 c \<sigma> = Some (r, \<sigma>')"
  then obtain \<gamma> where wf: "well_arranged T" "ar_cursor T = Cell 0" "ar_barrier T = Cell" and inv: "sp_inv T (\<sigma>, \<gamma>)"
    and safe: "\<And>t. safe (sp_protocol T) t (ps t) (\<lambda>x s. Q t x) (\<sigma>, \<gamma>)"
    and R: "R = sp_made T \<gamma>"
    unfolding sp_measured_def fst_conv snd_conv by blast
  from sp_step_progress [OF inv safe wf p e] obtain \<gamma>' where "sp_inv T (\<sigma>', \<gamma>')"
    "\<And>u. safe (sp_protocol T) u ((ps(t := k r)) u) (\<lambda>x s. Q u x) (\<sigma>', \<gamma>')"
    "\<And>u. reached \<gamma> u \<le> reached \<gamma>' u" "reached \<gamma> t + int (stores_of c) \<le> reached \<gamma>' t"
    "0 < stores_of c \<Longrightarrow> t = 0 \<or> t \<in> ar_consumers T" by blast
  with wf have "sp_measured T Q (\<sigma>', ps(t := k r)) (sp_made T \<gamma>')" "\<And>u. R u \<le> sp_made T \<gamma>' u"
    "R t + int (stores_of c) \<le> sp_made T \<gamma>' t"
    unfolding sp_measured_def fst_conv snd_conv R by (blast, auto simp: sp_made_def)
  then show "True \<and> (\<exists>R'. sp_measured T Q (\<sigma>', ps(t := k r)) R' \<and> (\<forall>u. R u \<le> R' u) \<and> R t + int (stores_of c) \<le> R' t)"
    by blast
next
  fix c :: "(64 word, 'a) pool" and R t assume "sp_measured T Q c R"
  then obtain \<gamma> where R: "R = sp_made T \<gamma>" and "sp_inv T (fst c, \<gamma>)" unfolding sp_measured_def by blast
  then have pub: "0 \<le> pub \<gamma>" "pub \<gamma> \<le> ar_total T" and got: "t \<in> ar_consumers T \<Longrightarrow> got \<gamma> t \<le> pub \<gamma>"
    by (simp_all add: sp_inv_def sp_data_def)
  then show "R t \<le> int (nat (ar_total T))" by (auto simp: R sp_made_def reached_def)
qed

lemma sp_started_thrifty:
  assumes st: "sp_started k m up gates (blocking_wait_strategy object) n iterationCount (\<sigma>0, ps0)"
  shows "thrifty G object (ps0 u) n False False"
proof -
  consider "u = 0" | "u \<in> {1..m}" | "m < u" by fastforce
  then show ?thesis
  proof cases
    case 1
    have "thrifty G object (bind (st_producer_loop n (new_claims k (blocking_wait_strategy object) gates) (new_buffer k)
        iterationCount 0) (\<lambda>_. Return None)) n False False"
      by (intro thrifty_bind thrifty_producer_loop) (simp_all add: new_claims_def new_barrier_at_def)
    then show ?thesis using 1 st by (simp add: sp_started_def st_producer_def)
  next
    case 2
    then obtain wait as where ps: "ps0 u = consumer n wait (new_buffer k)
        (new_barrier_at (blocking_wait_strategy object) (Cell u)) iterationCount"
      and wait: "library_wait (blocking_wait_strategy object) n wait as"
      using st unfolding sp_started_def snd_conv by blast
    have "thrifty G object (consume_loop n wait (+) (new_buffer k)
        (new_barrier_at (blocking_wait_strategy object) (Cell u)) 0 iterationCount 0) n False False"
      by (rule thrifty_consume_loop [OF thrifty_library_wait [OF wait]]) (simp_all add: new_barrier_at_def)
    then show ?thesis unfolding ps consumer_def by (rule thrifty_bind) simp
  next
    case 3
    then show ?thesis using st by (simp add: sp_started_def)
  qed
qed

text \<open>
  Threads that were given more rounds of waiting than there are items, for each of them and two
  more, never run out of rounds when no condition variable wakes spuriously.
\<close>

lemma sp_enough_rounds:
  assumes st: "sp_started k m up gates (blocking_wait_strategy object) n iterationCount (\<sigma>0, ps0)"
    and n: "(m + 2) * unat iterationCount < n"
    and run: "pool_exec (map (\<lambda>t. (t, 0)) ts) (\<sigma>0, ps0) = Some (\<sigma>, ps)"
  shows "ps t \<noteq> Out_Of_Fuel"
proof -
  define T where "T = arranged k (uint iterationCount) m up (set gates)"
  have W: "wait_strategy_model (blocking_wait_strategy object :: (64 word) wait_strategy)"
    by (rule library_strategy_model) simp
  have "well_arranged T" using st by (simp add: sp_started_def T_def)
  moreover have "ar_cursor T = Cell 0" "ar_barrier T = Cell" by (simp_all add: T_def)
  moreover have "sp_made T (no_progress \<sigma>0) = (\<lambda>_. 0)" by (simp add: sp_made_def reached_def fun_eq_iff)
  ultimately have start: "sp_measured T (\<lambda>t x. t \<in> {1..m} \<longrightarrow> x = sum_of_items iterationCount) (\<sigma>0, ps0) (\<lambda>_. 0)"
    unfolding sp_measured_def fst_conv snd_conv using sp_started_safe [OF st W T_def] by metis
  show ?thesis
  proof (rule sp_progress.enough_rounds [OF start _ sp_started_thrifty [OF st] _ _ run])
    show "\<exists>x. ps0 u = Return x" if "m < u" for u using st that by (simp add: sp_started_def)
    show "nat (ar_total T) + (\<Sum>u \<le> m. nat (ar_total T)) < n"
      using n by (simp add: T_def)
  qed simp
qed

text \<open>
  The benchmark ends: it takes only finitely many steps, and without spurious wake-ups it can
  stop only when it is complete.
\<close>

lemma sp_started_ends:
  assumes st: "sp_started k m up gates (blocking_wait_strategy object) n iterationCount (\<sigma>0, ps0)"
    and w: "waiting \<sigma>0 object = {}" and n: "(m + 2) * unat iterationCount < n"
    and sum: "uint iterationCount * (uint iterationCount - 1) < 2 ^ 64"
  shows "f 0 = (\<sigma>0, ps0) \<Longrightarrow> \<exists>i. \<not> pool_step (f i) (f (Suc i))"
    and "pool_exec (map (\<lambda>t. (t, 0)) ts) (\<sigma>0, ps0) = Some (\<sigma>, ps) \<Longrightarrow>
      (\<exists>t. pool_exec [(t, 0)] (\<sigma>, ps) \<noteq> None) \<or> complete {1..m} (Some (expectedResult iterationCount)) ps"
proof -
  show "\<exists>i. \<not> pool_step (f i) (f (Suc i))" if "f 0 = (\<sigma>0, ps0)"
    using st that by (intro no_infinite_pool_run [of m]) (simp add: sp_started_def)
  assume run: "pool_exec (map (\<lambda>t. (t, 0)) ts) (\<sigma>0, ps0) = Some (\<sigma>, ps)"
  have "at_a_halt (\<sigma>, ps)" if "\<And>t. pool_exec [(t, 0)] (\<sigma>, ps) = None"
    using sp_enough_rounds [OF st n run] that by (simp add: at_a_halt_def)
  then show "(\<exists>t. pool_exec [(t, 0)] (\<sigma>, ps) \<noteq> None) \<or> complete {1..m} (Some (expectedResult iterationCount)) ps"
    using sp_started_complete [OF st w pool_exec_run [OF run] _ sum] by blast
qed

section \<open>The benchmarks\<close>

text \<open>
  The multicast benchmark with the blocking wait strategy ends, however many consumers there
  are and however the threads are interleaved.  No run is infinite, not even one in which the waits
  wake spuriously.  Where they do not, and each thread has more than
  \<^theory_text>\<open>(consumerCount + 2) * iterationCount\<close> rounds of waiting, some thread can go on, until every
  thread has ended and every consumer has the expected result.
\<close>

theorem multicast_terminates:
  assumes "bufferSize \<le> 2 ^ 62" and "0 < consumerCount" and "uint iterationCount * (uint iterationCount - 1) < 2 ^ 64"
    and "run 0 alone (multicast_setup (blocking_wait_strategy object) bufferSize consumerCount) 0 \<sigma> = (Returned objects, \<sigma>0, l)"
    and "owner \<sigma> = (\<lambda>_. None)" and "waiting \<sigma> object = {}"
    and "(consumerCount + 2) * unat iterationCount < n"
  shows "(\<forall>f. f 0 = (\<sigma>0, multicast_threads n objects iterationCount) \<longrightarrow> (\<exists>i. \<not> pool_step (f i) (f (Suc i)))) \<and>
    (\<forall>ts \<sigma>' ps. pool_exec (map (\<lambda>t. (t, 0)) ts) (\<sigma>0, multicast_threads n objects iterationCount) = Some (\<sigma>', ps) \<longrightarrow>
       (\<exists>t. pool_exec [(t, 0)] (\<sigma>', ps) \<noteq> None) \<or>
       complete {1..consumerCount} (Some (expectedResult iterationCount)) ps)"
proof -
  obtain k where "waiting \<sigma>0 = waiting \<sigma>" and st: "sp_started k consumerCount (\<lambda>_. {}) (map Suc [0..<consumerCount])
      (blocking_wait_strategy object) n iterationCount (\<sigma>0, multicast_threads n objects iterationCount)"
    using assms(4,1,5,2) by (rule multicast_started)
  then have w: "waiting \<sigma>0 object = {}" using assms(6) by simp
  note ends = sp_started_ends [OF st w assms(7,3)]
  show ?thesis by (intro conjI allI impI; erule ends)
qed

text \<open>The consumers fall asleep and are woken.\<close>

lemma multicast_terminates_witness:
  "\<exists>objects \<sigma>0 l \<sigma>' ps.
     run 0 alone (multicast_setup (blocking_wait_strategy 7) 1 2) 0 (at_rest 0) = (Returned objects, \<sigma>0, l) \<and>
     pool_exec (map (\<lambda>t. (t, 0)) ([1, 1, 1, 1, 2, 2, 2, 2] @ [0, 0, 0, 0, 0, 0, 0] @
         [1, 1, 1, 1, 1, 1, 1, 1] @ [2, 2, 2, 2, 2, 2, 2, 2]))
       (\<sigma>0, multicast_threads 5 objects 1) = Some (\<sigma>', ps) \<and>
     complete {1..2} (Some (expectedResult 1)) ps"
proof -
  obtain l where r: "run 0 alone (multicast_setup (blocking_wait_strategy 7) 1 2) 0 (at_rest 0) = (Returned (new_claims 0 (blocking_wait_strategy 7) [1, 2], map (\<lambda>c. new_barrier_at (blocking_wait_strategy 7) (Cell c)) [1, 2], new_buffer 0), set_up 2, l)"
    using sleepy_setups(1) by blast
  obtain \<sigma>' ps where p: "pool_exec (map (\<lambda>t. (t, 0)) ([1, 1, 1, 1, 2, 2, 2, 2] @ [0, 0, 0, 0, 0, 0, 0] @
         [1, 1, 1, 1, 1, 1, 1, 1] @ [2, 2, 2, 2, 2, 2, 2, 2]))
      (set_up 2, multicast_threads 5 (new_claims 0 (blocking_wait_strategy 7) [1, 2], map (\<lambda>c. new_barrier_at (blocking_wait_strategy 7) (Cell c)) [1, 2], new_buffer 0) 1) = Some (\<sigma>', ps)"
    and ps: "ps 0 = Return None \<and> ps 1 = Return (Some 0) \<and> ps 2 = Return (Some 0) \<and> (\<forall>t > 2. ps t = Return None)"
    using multicast_sleepy_run [of 4] by (auto simp only: eval_nat_numeral)
  note e = three_threads_ended [OF ps]
  have "\<nexists>t. pool_exec [(t, 0)] (\<sigma>', ps) \<noteq> None"
    by (simp only: ended_stuck [OF e] simp_thms)
  then have "complete {1..2} (Some (expectedResult 1)) ps"
    using multicast_terminates [OF _ _ _ r, where n = 5 and iterationCount = 1, THEN conjunct2, rule_format, OF _ _ _ _ _ _ p]
    by (simp del: pool_exec.simps)
  with r p show ?thesis by blast
qed

text \<open>
  C11.  The pipeline benchmark with the blocking wait strategy ends, although every store of a
  stage may wake the stages after it, however the threads are interleaved.  No run is infinite,
  not even one in which the waits wake spuriously.  Where they do not, and each thread has more
  than \<^theory_text>\<open>(consumerCount + 2) * iterationCount\<close> rounds of waiting, some thread can go on,
  until every thread has ended and every consumer has the expected result.
\<close>

theorem pipeline_terminates:
  assumes "bufferSize \<le> 2 ^ 62" and "0 < consumerCount" and "uint iterationCount * (uint iterationCount - 1) < 2 ^ 64"
    and "run 0 alone (pipeline_setup (blocking_wait_strategy object) bufferSize consumerCount) 0 \<sigma> = (Returned objects, \<sigma>0, l)"
    and "owner \<sigma> = (\<lambda>_. None)" and "waiting \<sigma> object = {}"
    and "(consumerCount + 2) * unat iterationCount < n"
  shows "(\<forall>f. f 0 = (\<sigma>0, pipeline_threads n objects iterationCount) \<longrightarrow> (\<exists>i. \<not> pool_step (f i) (f (Suc i)))) \<and>
    (\<forall>ts \<sigma>' ps. pool_exec (map (\<lambda>t. (t, 0)) ts) (\<sigma>0, pipeline_threads n objects iterationCount) = Some (\<sigma>', ps) \<longrightarrow>
       (\<exists>t. pool_exec [(t, 0)] (\<sigma>', ps) \<noteq> None) \<or>
       complete {1..consumerCount} (Some (expectedResult iterationCount)) ps)"
proof -
  obtain k where "waiting \<sigma>0 = waiting \<sigma>" and st: "sp_started k consumerCount pipeline_upstream [consumerCount]
      (blocking_wait_strategy object) n iterationCount (\<sigma>0, pipeline_threads n objects iterationCount)"
    using assms(4,1,5,2) by (rule pipeline_started)
  then have w: "waiting \<sigma>0 object = {}" using assms(6) by simp
  note ends = sp_started_ends [OF st w assms(7,3)]
  show ?thesis by (intro conjI allI impI; erule ends)
qed

text \<open>The consumers fall asleep and are woken.\<close>

lemma pipeline_terminates_witness:
  "\<exists>objects \<sigma>0 l \<sigma>' ps.
     run 0 alone (pipeline_setup (blocking_wait_strategy 7) 1 2) 0 (at_rest 0) = (Returned objects, \<sigma>0, l) \<and>
     pool_exec (map (\<lambda>t. (t, 0)) ([2, 2, 2, 2] @ [0, 0, 0, 0, 0, 0] @
         [1, 1, 1, 1, 1, 1] @ [2, 2, 2, 2, 2, 2, 2, 2]))
       (\<sigma>0, pipeline_threads 5 objects 1) = Some (\<sigma>', ps) \<and>
     complete {1..2} (Some (expectedResult 1)) ps"
proof -
  obtain l where r: "run 0 alone (pipeline_setup (blocking_wait_strategy 7) 1 2) 0 (at_rest 0) = (Returned (new_claims 0 (blocking_wait_strategy 7) [2], map (\<lambda>c. new_barrier_at (blocking_wait_strategy 7) (Cell c)) [1, 2], new_buffer 0), set_up 2, l)"
    using sleepy_setups(2) by blast
  obtain \<sigma>' ps where p: "pool_exec (map (\<lambda>t. (t, 0)) ([2, 2, 2, 2] @ [0, 0, 0, 0, 0, 0] @
         [1, 1, 1, 1, 1, 1] @ [2, 2, 2, 2, 2, 2, 2, 2]))
      (set_up 2, pipeline_threads 5 (new_claims 0 (blocking_wait_strategy 7) [2], map (\<lambda>c. new_barrier_at (blocking_wait_strategy 7) (Cell c)) [1, 2], new_buffer 0) 1) = Some (\<sigma>', ps)"
    and ps: "ps 0 = Return None \<and> ps 1 = Return (Some 0) \<and> ps 2 = Return (Some 0) \<and> (\<forall>t > 2. ps t = Return None)"
    using pipeline_sleepy_run [of 4] by (auto simp only: eval_nat_numeral)
  note e = three_threads_ended [OF ps]
  have "\<nexists>t. pool_exec [(t, 0)] (\<sigma>', ps) \<noteq> None"
    by (simp only: ended_stuck [OF e] simp_thms)
  then have "complete {1..2} (Some (expectedResult 1)) ps"
    using pipeline_terminates [OF _ _ _ r, where n = 5 and iterationCount = 1, THEN conjunct2, rule_format, OF _ _ _ _ _ _ p]
    by (simp del: pool_exec.simps)
  with r p show ?thesis by blast
qed

text \<open>
  C12.  The diamond benchmark with the blocking wait strategy, in which the last consumer sleeps
  until a group of all the others has published, ends however the threads are interleaved: no run
  is infinite, not even one in which the waits wake spuriously.  Where they do not, and each thread
  has more than \<^theory_text>\<open>(consumerCount + 2) * iterationCount\<close> rounds of waiting, some thread can
  go on, until every thread has ended and every consumer has the expected result.
\<close>

theorem diamond_terminates:
  assumes "bufferSize \<le> 2 ^ 62" and "1 < consumerCount" and "uint iterationCount * (uint iterationCount - 1) < 2 ^ 64"
    and "run 0 alone (diamond_setup (blocking_wait_strategy object) bufferSize consumerCount) 0 \<sigma> = (Returned objects, \<sigma>0, l)"
    and "owner \<sigma> = (\<lambda>_. None)" and "waiting \<sigma> object = {}"
    and "(consumerCount + 2) * unat iterationCount < n"
  shows "(\<forall>f. f 0 = (\<sigma>0, diamond_threads n objects iterationCount) \<longrightarrow> (\<exists>i. \<not> pool_step (f i) (f (Suc i)))) \<and>
    (\<forall>ts \<sigma>' ps. pool_exec (map (\<lambda>t. (t, 0)) ts) (\<sigma>0, diamond_threads n objects iterationCount) = Some (\<sigma>', ps) \<longrightarrow>
       (\<exists>t. pool_exec [(t, 0)] (\<sigma>', ps) \<noteq> None) \<or>
       complete {1..consumerCount} (Some (expectedResult iterationCount)) ps)"
proof -
  obtain k where "waiting \<sigma>0 = waiting \<sigma>" and st: "sp_started k consumerCount (diamond_upstream consumerCount) [consumerCount]
      (blocking_wait_strategy object) n iterationCount (\<sigma>0, diamond_threads n objects iterationCount)"
    using assms(4,1,5,2) by (rule diamond_started)
  then have w: "waiting \<sigma>0 object = {}" using assms(6) by simp
  note ends = sp_started_ends [OF st w assms(7,3)]
  show ?thesis by (intro conjI allI impI; erule ends)
qed

text \<open>The consumers fall asleep and are woken.\<close>

lemma diamond_terminates_witness:
  "\<exists>objects \<sigma>0 l \<sigma>' ps.
     run 0 alone (diamond_setup (blocking_wait_strategy 7) 1 2) 0 (at_rest 0) = (Returned objects, \<sigma>0, l) \<and>
     pool_exec (map (\<lambda>t. (t, 0)) ([2, 2, 2, 2] @ [0, 0, 0, 0, 0, 0] @
         [1, 1, 1, 1, 1, 1] @ [2, 2, 2, 2, 2, 2, 2, 2]))
       (\<sigma>0, diamond_threads 5 objects 1) = Some (\<sigma>', ps) \<and>
     complete {1..2} (Some (expectedResult 1)) ps"
proof -
  obtain l where r: "run 0 alone (diamond_setup (blocking_wait_strategy 7) 1 2) 0 (at_rest 0) = (Returned (new_claims 0 (blocking_wait_strategy 7) [2], map (\<lambda>c. new_barrier_at (blocking_wait_strategy 7) (Cell c)) [1, 2], \<lparr>sbg_waitStrategy = (blocking_wait_strategy 7), sbg_sequences = [Cell 1]\<rparr>, new_buffer 0), set_up 2, l)"
    using sleepy_setups(3) by blast
  obtain \<sigma>' ps where p: "pool_exec (map (\<lambda>t. (t, 0)) ([2, 2, 2, 2] @ [0, 0, 0, 0, 0, 0] @
         [1, 1, 1, 1, 1, 1] @ [2, 2, 2, 2, 2, 2, 2, 2]))
      (set_up 2, diamond_threads 5 (new_claims 0 (blocking_wait_strategy 7) [2], map (\<lambda>c. new_barrier_at (blocking_wait_strategy 7) (Cell c)) [1, 2], \<lparr>sbg_waitStrategy = (blocking_wait_strategy 7), sbg_sequences = [Cell 1]\<rparr>, new_buffer 0) 1) = Some (\<sigma>', ps)"
    and ps: "ps 0 = Return None \<and> ps 1 = Return (Some 0) \<and> ps 2 = Return (Some 0) \<and> (\<forall>t > 2. ps t = Return None)"
    using diamond_sleepy_run [of 4] by (auto simp only: eval_nat_numeral)
  note e = three_threads_ended [OF ps]
  have "\<nexists>t. pool_exec [(t, 0)] (\<sigma>', ps) \<noteq> None"
    by (simp only: ended_stuck [OF e] simp_thms)
  then have "complete {1..2} (Some (expectedResult 1)) ps"
    using diamond_terminates [OF _ _ _ r, where n = 5 and iterationCount = 1, THEN conjunct2, rule_format, OF _ _ _ _ _ _ p]
    by (simp del: pool_exec.simps)
  with r p show ?thesis by blast
qed

end
