(* ===== verification/Multi_Producer_Completion.thy ===== *)
theory Multi_Producer_Completion
  imports Multi_Producer_Benchmarks Benchmark_Completion
begin

text \<open>
  The benchmarks on the multi-threaded claim strategy come to a halt only when they are done.
  Two protocols govern their threads at once: that of theory Multi_Producer, which keeps the
  claims and the slots, and that of theory Sleeping, which keeps the threads from sleeping
  through a change.
\<close>

section \<open>The two protocols together\<close>

text \<open>
  A consumer waits for the entry of the next number when nobody is upstream of it; the producers
  wait for the gates, one buffer behind.
\<close>

definition mp_sleepers :: "(64 word) multi_arrangement \<Rightarrow> nat \<Rightarrow> sleepers" where
  "mp_sleepers T object = (let entry = \<lambda>x. Elem (mp_entries T) (mp_slot T (uint x)) in
     \<lparr>sl_mutex = object, sl_owners = mp_consumers T, sl_claimers = mp_producers T, sl_own = mp_barrier T,
      sl_counter = mp_counter T, sl_entry = entry,
      sl_sources = (\<lambda>t x. if t \<in> mp_producers T then mp_barrier T ` mp_gates T
        else if t \<in> mp_consumers T \<and> mp_upstream T t \<noteq> {} then mp_barrier T ` mp_upstream T t else {entry x}),
      sl_offset = (\<lambda>t. if t \<in> mp_producers T then 2 ^ mp_bits T else 0), sl_goal = of_int (mp_total T)\<rparr>)"

lemma mp_sleepers_select [simp]:
  "sl_mutex (mp_sleepers T object) = object" "sl_owners (mp_sleepers T object) = mp_consumers T"
  "sl_claimers (mp_sleepers T object) = mp_producers T" "sl_own (mp_sleepers T object) = mp_barrier T"
  "sl_threads (mp_sleepers T object) = mp_consumers T \<union> mp_producers T"
  "sl_counter (mp_sleepers T object) = mp_counter T"
  "sl_entry (mp_sleepers T object) x = Elem (mp_entries T) (mp_slot T (uint x))"
  "sl_sources (mp_sleepers T object) t x = (if t \<in> mp_producers T then mp_barrier T ` mp_gates T
     else if t \<in> mp_consumers T \<and> mp_upstream T t \<noteq> {} then mp_barrier T ` mp_upstream T t
     else {Elem (mp_entries T) (mp_slot T (uint x))})"
  "sl_offset (mp_sleepers T object) t = (if t \<in> mp_producers T then 2 ^ mp_bits T else 0)"
  "sl_goal (mp_sleepers T object) = of_int (mp_total T)"
  by (simp_all add: mp_sleepers_def sl_threads_def Let_def)

lemma mp_sleepers_apart: "mp_well_arranged T \<Longrightarrow> sl_apart (mp_sleepers T object)"
proof -
  assume wf: "mp_well_arranged T"
  then have barrier: "mp_barrier T c \<noteq> mp_counter T" "mp_barrier T c \<noteq> Elem (mp_entries T) i" if "c \<in> mp_consumers T" for c i
    using that by (simp_all add: mp_well_arranged_def)
  have counter: "mp_counter T \<noteq> Elem (mp_entries T) i" for i using wf by (simp add: mp_well_arranged_def)
  have "mp_counter T \<notin> mp_barrier T ` C" if "C \<subseteq> mp_consumers T" for C using barrier that by fastforce
  then have "mp_counter T \<notin> sl_sources (mp_sleepers T object) t x" for t x
    using wf counter by (simp add: mp_well_arranged_def)
  then show ?thesis
    using wf barrier counter [symmetric] barrier(2) [symmetric]
    by (auto simp: sl_apart_def mp_well_arranged_def simp del: mp_sleepers_select(8))
qed

lemma seq_at_uint [simp]: "seq_at (uint x) = x"
  by (simp add: seq_at_def)

lemma mp_slot_word: "mp_bits T < 64 \<Longrightarrow> unat (x AND 2 ^ mp_bits T - 1) = mp_slot T (uint x)"
  for x :: sequence_t
  using seq_at_and_mask [OF refl, of "mp_bits T" "uint x"] by (simp add: mp_slot_def)

lemma mp_slot_uint_seq_at: "mp_bits T < 64 \<Longrightarrow> mp_slot T (uint (seq_at p)) = mp_slot T p"
  using mp_slot_word [of T "seq_at p"] seq_at_and_mask [OF refl, of "mp_bits T" p] by (simp add: mp_slot_def)

text \<open>What has been stored is published; what is about to be published has been claimed.\<close>

definition mp_linked :: "(64 word) multi_arrangement \<Rightarrow> (64 word) mach \<Rightarrow> claims \<Rightarrow> sleeping \<Rightarrow> bool" where
  "mp_linked T \<sigma> \<gamma> \<eta> \<longleftrightarrow> mp_well_arranged T \<and>
     (\<forall>x \<in> sg_stored \<eta>. \<exists>p. x = seq_at p \<and> - (2 ^ mp_bits T) \<le> p \<and> p < g_next \<gamma> \<and> mp_pubd T \<gamma> p) \<and>
     (\<forall>j \<in> mp_producers T. \<forall>x. sg_next \<eta> j = Some x \<longrightarrow> (\<exists>p. x = seq_at p \<and> 0 \<le> p \<and> p < g_next \<gamma>))"

lemma mp_linked_step:
  assumes inv: "mp_data T (\<sigma>, \<gamma>)" "mp_data T (\<sigma>', \<gamma>')" and r: "mp_evolves T u (\<sigma>, \<gamma>) (\<sigma>', \<gamma>')"
    and h: "sl_honest (mp_sleepers T object) (\<sigma>, \<eta>) (\<sigma>', \<eta>')" and l: "mp_linked T \<sigma> \<gamma> \<eta>"
  shows "mp_linked T \<sigma>' \<gamma>' \<eta>'"
  unfolding mp_linked_def
proof (intro conjI ballI allI impI)
  show wf: "mp_well_arranged T" using l by (simp add: mp_linked_def)
  have mono: "g_next \<gamma> \<le> g_next \<gamma>'" "\<And>i. g_ent \<gamma> i \<le> g_ent \<gamma>' i" using r by (simp_all add: mp_evolves_def)
  fix x
  show "\<exists>p. x = seq_at p \<and> - (2 ^ mp_bits T) \<le> p \<and> p < g_next \<gamma>' \<and> mp_pubd T \<gamma>' p" if x: "x \<in> sg_stored \<eta>'"
  proof (cases "x \<in> sg_stored \<eta>")
    case True
    then obtain p where p: "x = seq_at p" "- (2 ^ mp_bits T) \<le> p" "p < g_next \<gamma>" "mp_pubd T \<gamma> p"
      using l by (auto simp: mp_linked_def)
    from mp_pubd_mono [OF p(4) mono(2)] p mono(1) show ?thesis by auto
  next
    case False
    define i where "i = mp_slot T (uint x)"
    have "mem \<sigma>' (Elem (mp_entries T) i) = x" using h x False by (auto simp: sl_honest_def i_def)
    moreover have "i < 2 ^ mp_bits T" unfolding i_def by (rule mp_slot_less)
    ultimately show ?thesis using inv(2) by (intro exI [of _ "g_ent \<gamma>' i"]) (auto simp: mp_data_def mp_pubd_def)
  qed
  fix j assume j: "j \<in> mp_producers T" and x: "sg_next \<eta>' j = Some x"
  show "\<exists>p. x = seq_at p \<and> 0 \<le> p \<and> p < g_next \<gamma>'"
  proof (cases "sg_next \<eta> j = Some x")
    case True
    then show ?thesis using l j mono(1) by (fastforce simp: mp_linked_def)
  next
    case False
    then have "x = seq_at (g_next \<gamma>)" "seq_at (g_next \<gamma>') = x + 1"
      using h j x inv by (auto simp: sl_honest_def mp_data_def)
    then have x: "x = seq_at (g_next \<gamma>)" "seq_at (g_next \<gamma>') = seq_at (g_next \<gamma> + 1)" by (simp_all add: seq_at_add_1)
    have n: "0 \<le> g_next \<gamma>" "0 \<le> g_next \<gamma>'" using inv by (auto simp: mp_data_def mp_claimed_def)
    have "g_next \<gamma>' = g_next \<gamma> + 1"
      using x(2) by (rule seq_at_inject [THEN iffD1, rotated])
        (use n mp_next_less [OF wf inv(1)] mp_next_less [OF wf inv(2)] in auto)
    then show ?thesis using x n by auto
  qed
qed

interpretation mp_sleep: linked_protocols "mp_protocol T" "sl_protocol (mp_sleepers T object)" "mp_linked T"
  for T :: "(64 word) multi_arrangement" and object :: nat
proof (unfold_locales, goal_cases)
  case (1 \<sigma> \<gamma> \<sigma>' \<gamma>' t \<eta> \<eta>')
  then show ?case using mp_linked_step [of T \<sigma> \<gamma> \<sigma>' \<gamma>' "Suc t" object \<eta> \<eta>'] by (simp add: mp_inv_def mp_rely_def)
qed

section \<open>The threads of a benchmark\<close>

text \<open>The ghost state at the start: the consumers are about to publish 0, nobody has claimed.\<close>

definition nothing_claimed :: "nat set \<Rightarrow> sleeping" where
  "nothing_claimed C = \<lparr>sg_pending = {}, sg_next = (\<lambda>t. if t \<in> C then Some 0 else None), sg_stored = {}\<rparr>"

lemma nothing_claimed_select [simp]:
  "sg_pending (nothing_claimed C) = {}" "sg_next (nothing_claimed C) = (\<lambda>t. if t \<in> C then Some 0 else None)"
  "sg_stored (nothing_claimed C) = {}"
  by (simp_all add: nothing_claimed_def)

lemma mp_started_asleep:
  assumes st: "mp_started k P C up gates f (blocking_wait_strategy object) n iterationCount (\<sigma>0, ps0)"
    and T: "T = mp_arranged k (uint iterationCount) P C up (set gates) f" and D: "D = mp_sleepers T object"
    and w: "waiting \<sigma>0 object = {}"
  shows "sl_inv D (\<sigma>0, nothing_claimed C)" "P \<inter> C = {}"
    and "sl_last D t = (if t \<in> C then Some (sl_goal D) else None)"
    and "t \<in> P \<union> C \<Longrightarrow> sl_at D t (if t \<in> C then Some 0 else None) False {} (\<sigma>0, nothing_claimed C)"
    and "sl_at D t (sl_last D t) False {} s \<Longrightarrow> sl_ended D t s"
    and "mt_entry (new_multi k W (map f gates)) x = sl_entry D x"
proof -
  have wf: "mp_well_arranged T" using st by (simp add: mp_started_def T)
  show inv: "sl_inv D (\<sigma>0, nothing_claimed C)"
    using mp_sleepers_apart [OF wf] st w by (simp add: sl_inv_def mp_started_def D T)
  show "sl_at D t (if t \<in> C then Some 0 else None) False {} (\<sigma>0, nothing_claimed C)" if "t \<in> P \<union> C"
    using inv st w that by (auto simp: sl_at_def mp_started_def holds_mutexes_def D T)
  show "mt_entry (new_multi k W (map f gates)) x = sl_entry D x"
    using mp_slot_word [OF mp_bits_less(1) [OF wf]] by (simp add: mt_entry_def new_multi_def D T)
  show "P \<inter> C = {}" using wf by (simp add: mp_well_arranged_def T)
qed (simp_all add: sl_last_def sl_at_def sl_ended_def holds_mutexes_def D T)

lemma mp_started_consumer_sleeping:
  assumes st: "mp_started k P C up gates f (blocking_wait_strategy object) n iterationCount (\<sigma>0, ps0)"
    and T: "T = mp_arranged k (uint iterationCount) P C up (set gates) f" and D: "D = mp_sleepers T object"
    and w: "waiting \<sigma>0 object = {}" and t: "t \<in> C"
  shows "safe (sl_protocol D) t (ps0 t) (\<lambda>x. sl_ended D t) (\<sigma>0, nothing_claimed C)"
proof -
  note start = mp_started_asleep [OF st T D w]
  have notP: "t \<notin> P" using start(2) t by blast
  obtain wait where ps: "ps0 t = consumer n wait (new_buffer k)
      (new_barrier_at (blocking_wait_strategy object) (Cell (f t))) (of_nat (card P) * iterationCount)"
    and wait: "if up t = {}
      then wait = (\<lambda>nextToRead. mt_wait_until_published n (new_multi k (blocking_wait_strategy object) (map f gates))
        nextToRead (nextToRead - 1))
      else \<exists>as. library_wait (blocking_wait_strategy object) n wait as \<and> set as = (\<lambda>u. Cell (f u)) ` up t"
    using st t unfolding mp_started_def snd_conv by blast
  have items: "of_nat (card P) * iterationCount = sl_goal D" by (simp add: D T)
  have ended: "sl_ended D t s" if "sl_at D t (Some (sl_goal D)) False {} s" for s
    using start(5) [of t s] start(3) [of t] t that by simp
  have "safe (sl_protocol D) t (consume_loop n wait (+) (new_buffer k)
      (new_barrier_at (blocking_wait_strategy object) (Cell (f t))) 0 (sl_goal D) 0)
      (\<lambda>x. safe (sl_protocol D) t (Return (Some x)) (\<lambda>x. sl_ended D t)) (\<sigma>0, nothing_claimed C)"
  proof (rule sl_safe_consume_loop)
    show "sl_at D t (Some 0) False {} (\<sigma>0, nothing_claimed C)" using start(4) [of t] t by simp
    show "safe (sl_protocol D) t (wait v) Q s"
      if v: "sl_at D t (Some v) False {} s" "Some v \<noteq> sl_last D t" "\<And>r s. sl_at D t (Some v) False {} s \<Longrightarrow> Q r s" for v s Q
    proof (cases "up t = {}")
      case True
      with wait have w: "wait v = mt_wait_until_published n (new_multi k (blocking_wait_strategy object) (map f gates)) v (v - 1)"
        by simp
      show ?thesis
        unfolding w using v t notP True start(6)
        by (intro sl_safe_mt_wait) (auto simp: new_multi_def D T)
    next
      case False
      with wait obtain as where "library_wait (blocking_wait_strategy object) n wait as"
        "set as = (\<lambda>u. Cell (f u)) ` up t" by auto
      then show ?thesis
        using v t notP False by (intro sl_safe_library_wait [where as = as]) (auto simp: D T)
    qed
  qed (use t notP start(3) [of t] ended in \<open>auto simp: new_barrier_at_def D T\<close>)
  then show ?thesis unfolding ps consumer_def items safe_bind .
qed

lemma mp_started_sleeping:
  assumes st: "mp_started k P C up gates f (blocking_wait_strategy object) n iterationCount (\<sigma>0, ps0)"
    and T: "T = mp_arranged k (uint iterationCount) P C up (set gates) f" and D: "D = mp_sleepers T object"
    and w: "waiting \<sigma>0 object = {}"
  shows "sl_inv D (\<sigma>0, nothing_claimed C)"
    and "attempt (sl_protocol D) t (ps0 t) (\<lambda>x. sl_ended D t) (\<sigma>0, nothing_claimed C)"
proof -
  note start = mp_started_asleep [OF st T D w]
  show "sl_inv D (\<sigma>0, nothing_claimed C)" by (rule start(1))
  consider "t \<in> P" "t \<notin> C" | "t \<in> C" | "t \<notin> P \<union> C" using start(2) by blast
  then show "attempt (sl_protocol D) t (ps0 t) (\<lambda>x. sl_ended D t) (\<sigma>0, nothing_claimed C)"
  proof cases
    case 1
    have here: "sl_at D t None False {} (\<sigma>0, nothing_claimed C)" using start(4) [of t] 1 by simp
    have ended: "sl_ended D t s" if "sl_at D t None False {} s" for s
      using start(5) [of t s] start(3) [of t] 1 that by simp
    have "attempt (sl_protocol D) t (mt_producer_loop n (new_multi k (blocking_wait_strategy object) (map f gates))
        (new_buffer k) iterationCount 0) (\<lambda>_. attempt (sl_protocol D) t (Return None) (\<lambda>x. sl_ended D t)) (\<sigma>0, nothing_claimed C)"
      using 1 st here ended by (intro sl_attempt_mt_producer_loop [OF _ _ _ start(6)])
        (auto simp: new_multi_def D mp_started_def T)
    then show ?thesis using 1 st by (simp add: mp_started_def mt_producer_def attempt_bind)
  next
    case 2
    show ?thesis by (rule safe_attempt) (rule mp_started_consumer_sleeping [OF st T D w 2])
  next
    case 3
    then have "ps0 t = Return None" using st by (simp add: mp_started_def)
    then show ?thesis using 3 st by (simp add: sl_ended_def mp_started_def D T)
  qed
qed

section \<open>Nobody waits in vain\<close>

text \<open>The first position that is not published.\<close>

lemma mp_first_unpublished:
  assumes "mp_data T (\<sigma>, \<gamma>)"
  obtains L where "0 \<le> L" "L \<le> g_next \<gamma>" "\<not> mp_pubd T \<gamma> L" "\<And>p. 0 \<le> p \<Longrightarrow> p < L \<Longrightarrow> mp_pubd T \<gamma> p"
    "\<And>c. c \<in> mp_consumers T \<Longrightarrow> g_got \<gamma> c \<le> L"
proof -
  define L where "L = (LEAST i. \<not> mp_pubd T \<gamma> (int i))"
  have next0: "0 \<le> g_next \<gamma>" using assms by (simp add: mp_data_def mp_claimed_def)
  have "\<not> mp_pubd T \<gamma> (g_next \<gamma>)" using mp_pubd_less(1) [OF assms] by blast
  then have ex: "\<not> mp_pubd T \<gamma> (int (nat (g_next \<gamma>)))" using next0 by simp
  have 1: "\<not> mp_pubd T \<gamma> (int L)" unfolding L_def by (rule LeastI) (rule ex)
  have 2: "mp_pubd T \<gamma> (int i)" if "i < L" for i using that not_less_Least unfolding L_def by blast
  have "L \<le> nat (g_next \<gamma>)" unfolding L_def by (rule Least_le) (rule ex)
  then have le: "int L \<le> g_next \<gamma>" using next0 by simp
  have got: "g_got \<gamma> c \<le> int L" if "c \<in> mp_consumers T" for c
  proof (rule ccontr)
    assume "\<not> g_got \<gamma> c \<le> int L"
    then have "mp_pubd T \<gamma> (int L)" using assms that by (simp add: mp_data_def)
    with 1 show False by simp
  qed
  show thesis
  proof (rule that [OF _ le 1 _ got])
    show "mp_pubd T \<gamma> p" if "0 \<le> p" "p < int L" for p using 2 [of "nat p"] that by auto
  qed simp
qed

text \<open>
  Every thread has ended or waits for something that has not happened, and \<open>L\<close> is the first position
  that is not published.
\<close>

definition mp_stuck :: "(64 word) multi_arrangement \<Rightarrow> nat \<Rightarrow> (64 word) mach \<Rightarrow> claims \<Rightarrow> sleeping \<Rightarrow> int \<Rightarrow> bool" where
  "mp_stuck T object \<sigma> \<gamma> \<eta> L \<longleftrightarrow> mp_well_arranged T \<and> mp_data T (\<sigma>, \<gamma>) \<and>
     sl_inv (mp_sleepers T object) (\<sigma>, \<eta>) \<and> mp_linked T \<sigma> \<gamma> \<eta> \<and>
     (\<forall>t \<in> sl_threads (mp_sleepers T object).
        sg_next \<eta> t = sl_last (mp_sleepers T object) t \<or> sl_lagging (mp_sleepers T object) t (\<sigma>, \<eta>)) \<and>
     0 \<le> L \<and> L \<le> g_next \<gamma> \<and> \<not> mp_pubd T \<gamma> L \<and> (\<forall>p. 0 \<le> p \<longrightarrow> p < L \<longrightarrow> mp_pubd T \<gamma> p) \<and>
     (\<forall>c \<in> mp_consumers T. g_got \<gamma> c \<le> L)"

lemma mp_stuck_facts:
  assumes "mp_stuck T object \<sigma> \<gamma> \<eta> L"
  shows "mp_well_arranged T" "mp_data T (\<sigma>, \<gamma>)" "mp_linked T \<sigma> \<gamma> \<eta>" "0 \<le> L" "L \<le> g_next \<gamma>"
    and "g_next \<gamma> \<le> mp_total T" "g_next \<gamma> < 4611686018427387904" "mp_total T < 4611686018427387904"
    and "c \<in> mp_consumers T \<Longrightarrow> c \<notin> mp_producers T"
    and "c \<in> mp_consumers T \<Longrightarrow> mem \<sigma> (mp_barrier T c) = seq_at (g_got \<gamma> c - 1)"
    and "c \<in> mp_consumers T \<Longrightarrow> 0 \<le> g_got \<gamma> c" "c \<in> mp_consumers T \<Longrightarrow> g_got \<gamma> c \<le> L"
    and "c \<in> mp_consumers T \<Longrightarrow> sg_next \<eta> c = Some (seq_at (g_got \<gamma> c))"
    and "t \<in> mp_consumers T \<union> mp_producers T \<Longrightarrow> sg_next \<eta> t \<noteq> sl_last (mp_sleepers T object) t \<Longrightarrow>
      sl_lagging (mp_sleepers T object) t (\<sigma>, \<eta>)"
  using assms mp_next_less [of T \<sigma> \<gamma>] mp_next_bound(1) [of T \<gamma>]
  by (auto simp: mp_stuck_def mp_data_def mp_well_arranged_def sl_inv_def seq_at_add_1)

text \<open>A consumer that is behind a number in words is behind it.\<close>

lemma mp_stuck_behind:
  assumes s: "mp_stuck T object \<sigma> \<gamma> \<eta> L" and u: "u \<in> mp_consumers T"
    and d: "difference (mem \<sigma> (mp_barrier T u)) (seq_at x) < 0"
    and x: "- 4611686018427387904 \<le> x" "x < 4611686018427387904"
  shows "g_got \<gamma> u \<le> x"
proof -
  note f = mp_stuck_facts [OF s]
  have "difference (mem \<sigma> (mp_barrier T u)) (seq_at x) = g_got \<gamma> u - 1 - x"
    unfolding f(10) [OF u] using f(11,12) [OF u] f(5,7) x by (intro difference_seq_at) auto
  with d show ?thesis by simp
qed

text \<open>A consumer that waits for the producers has come to the first position not published.\<close>

lemma mp_stuck_first:
  assumes s: "mp_stuck T object \<sigma> \<gamma> \<eta> L" and c: "c \<in> mp_consumers T"
    and d: "difference (mem \<sigma> (Elem (mp_entries T) (mp_slot T (g_got \<gamma> c)))) (seq_at (g_got \<gamma> c)) < 0"
  shows "L \<le> g_got \<gamma> c"
proof -
  note f = mp_stuck_facts [OF s]
  let ?i = "mp_slot T (g_got \<gamma> c)"
  have "mem \<sigma> (Elem (mp_entries T) ?i) = seq_at (g_ent \<gamma> ?i)" "- (2 ^ mp_bits T) \<le> g_ent \<gamma> ?i" "g_ent \<gamma> ?i < g_next \<gamma>"
    using f(2) mp_slot_less [of T "g_got \<gamma> c"] by (simp_all add: mp_data_def)
  moreover have "(2 :: int) ^ mp_bits T \<le> 4611686018427387904" by (rule mp_bits_less(2) [OF f(1)])
  ultimately have "difference (mem \<sigma> (Elem (mp_entries T) ?i)) (seq_at (g_got \<gamma> c)) = g_ent \<gamma> ?i - g_got \<gamma> c"
    using f(5,7) f(11,12) [OF c] by (auto intro!: difference_seq_at)
  with d have "\<not> mp_pubd T \<gamma> (g_got \<gamma> c)" by (simp add: mp_pubd_def)
  then show ?thesis using s f(11) [OF c] by (force simp: mp_stuck_def)
qed

text \<open>So all consumers have, one after the other.\<close>

lemma mp_stuck_level:
  assumes s: "mp_stuck T object \<sigma> \<gamma> \<eta> L"
    and acyclic: "\<And>c u. c \<in> mp_consumers T \<Longrightarrow> u \<in> mp_upstream T c \<Longrightarrow> u < c"
  shows "c \<in> mp_consumers T \<Longrightarrow> g_got \<gamma> c = L"
proof (induction c rule: less_induct)
  case (less c)
  note c = less.prems and f = mp_stuck_facts [OF s] and disj = mp_stuck_facts(9) [OF s less.prems]
  have up: "mp_upstream T c \<subseteq> mp_consumers T" using f(1) c by (simp add: mp_well_arranged_def)
  have "L \<le> g_got \<gamma> c"
  proof (cases "sg_next \<eta> c = sl_last (mp_sleepers T object) c")
    case True
    then have "seq_at (g_got \<gamma> c) = seq_at (mp_total T)"
      using f(13) [OF c] c by (simp add: sl_last_def seq_at_def)
    then have "g_got \<gamma> c = mp_total T"
      by (rule seq_at_inject [THEN iffD1, rotated]) (use f(11,12) [OF c] f(5-8) in auto)
    then show ?thesis using f(5,6) by simp
  next
    case False
    then obtain a where a: "a \<in> sl_sources (mp_sleepers T object) c (seq_at (g_got \<gamma> c))"
      "difference (mem \<sigma> a) (seq_at (g_got \<gamma> c)) < 0"
      using f(14) [of c] c f(13) [OF c] disj by (auto simp: sl_lagging_def)
    show ?thesis
    proof (cases "mp_upstream T c = {}")
      case True
      then have "a = Elem (mp_entries T) (mp_slot T (g_got \<gamma> c))"
        using a(1) disj by (simp add: mp_slot_uint_seq_at [OF mp_bits_less(1) [OF f(1)]])
      with a(2) show ?thesis by (intro mp_stuck_first [OF s c]) simp
    next
      case False
      then obtain u where u: "u \<in> mp_upstream T c" "difference (mem \<sigma> (mp_barrier T u)) (seq_at (g_got \<gamma> c)) < 0"
        using a c disj by auto
      then have "g_got \<gamma> u \<le> g_got \<gamma> c"
        using f(11,12) [OF c] f(5,7) up by (intro mp_stuck_behind [OF s]) auto
      moreover have "g_got \<gamma> u = L" using less.IH acyclic [OF c u(1)] up u(1) by blast
      ultimately show ?thesis by simp
    qed
  qed
  with f(12) [OF c] show ?case by simp
qed

text \<open>A producer that holds a position waits for a consumer that is one buffer behind it.\<close>

lemma mp_stuck_claim:
  assumes s: "mp_stuck T object \<sigma> \<gamma> \<eta> L" and level: "\<And>c. c \<in> mp_consumers T \<Longrightarrow> g_got \<gamma> c = L"
    and j: "j \<in> mp_producers T" "sg_next \<eta> j = Some (seq_at p)" and p: "0 \<le> p" "p < g_next \<gamma>"
  shows "L + 2 ^ mp_bits T \<le> p"
proof -
  note f = mp_stuck_facts [OF s] and N = mp_bits_less [OF mp_stuck_facts(1) [OF s]]
  have "sg_next \<eta> j \<noteq> sl_last (mp_sleepers T object) j" using j f(9) by (auto simp: sl_last_def)
  then obtain g where g: "g \<in> mp_gates T" "difference (mem \<sigma> (mp_barrier T g)) (seq_at p - 2 ^ mp_bits T) < 0"
    using f(14) [of j] j by (auto simp: sl_lagging_def)
  have gc: "g \<in> mp_consumers T" using f(1) g(1) by (auto simp: mp_well_arranged_def)
  have "seq_at p - 2 ^ mp_bits T = seq_at (p - 2 ^ mp_bits T)" using N(1) by (simp add: seq_at_sub_word uint_2_power)
  moreover have "- 4611686018427387904 \<le> p - 2 ^ mp_bits T" "p - 2 ^ mp_bits T < 4611686018427387904"
    using p N f(7) by linarith+
  ultimately have "g_got \<gamma> g \<le> p - 2 ^ mp_bits T" using g(2) gc by (intro mp_stuck_behind [OF s]) simp_all
  then show ?thesis using level [OF gc] by simp
qed

text \<open>
  So no position is claimed and not published: its owner waits for a consumer that is one buffer
  behind, but that consumer waits, perhaps through others, for the first such position.
\<close>

lemma mp_stuck_all_published:
  assumes s: "mp_stuck T object \<sigma> \<gamma> \<eta> L" and level: "\<And>c. c \<in> mp_consumers T \<Longrightarrow> g_got \<gamma> c = L"
  shows "L = g_next \<gamma>"
proof (rule ccontr)
  note f = mp_stuck_facts [OF s] and N = mp_bits_less [OF mp_stuck_facts(1) [OF s]]
  assume "L \<noteq> g_next \<gamma>"
  then have less: "L < g_next \<gamma>" using f(5) by simp
  have "mem \<sigma> (mp_counter T) = seq_at (g_next \<gamma>)" using f(2) by (simp add: mp_data_def)
  then have "seq_at L < mem \<sigma> (mp_counter T)"
    using less f(4,7) by (simp add: word_less_def uint_seq_at)
  moreover have "mp_producers T \<noteq> {}" using f(4,6) less by (auto simp: mp_total_def)
  ultimately have "seq_at L \<in> sg_stored \<eta> \<or> (\<exists>j \<in> mp_producers T. sg_next \<eta> j = Some (seq_at L))"
    using s by (simp add: mp_stuck_def sl_inv_def)
  then consider "seq_at L \<in> sg_stored \<eta>" | j where "j \<in> mp_producers T" "sg_next \<eta> j = Some (seq_at L)" by blast
  then show False
  proof cases
    case 1
    then obtain p where p: "seq_at L = seq_at p" "- (2 ^ mp_bits T) \<le> p" "p < g_next \<gamma>" "mp_pubd T \<gamma> p"
      using f(3) by (auto simp: mp_linked_def)
    have "L = p" using p(1) by (rule seq_at_inject [THEN iffD1, rotated]) (use p f(4,7) less N in auto)
    with s p(4) show False by (simp add: mp_stuck_def)
  next
    case 2
    from mp_stuck_claim [OF s level this f(4) less] N(3) show False by auto
  qed
qed

lemma mp_standstill:
  assumes wf: "mp_well_arranged T" and acyclic: "\<And>c u. c \<in> mp_consumers T \<Longrightarrow> u \<in> mp_upstream T c \<Longrightarrow> u < c"
    and inv: "mp_data T (\<sigma>, \<gamma>)" and sl: "sl_inv D (\<sigma>, \<eta>)" and link: "mp_linked T \<sigma> \<gamma> \<eta>"
    and D: "D = mp_sleepers T object"
    and halted: "\<And>t. t \<in> sl_threads D \<Longrightarrow> sg_next \<eta> t = sl_last D t \<or> sl_lagging D t (\<sigma>, \<eta>)"
  shows "c \<in> mp_consumers T \<Longrightarrow> g_got \<gamma> c = g_next \<gamma>"
    and "j \<in> mp_producers T \<Longrightarrow> sg_next \<eta> j = None"
proof -
  obtain L where "0 \<le> L" "L \<le> g_next \<gamma>" "\<not> mp_pubd T \<gamma> L"
    and "\<And>p. 0 \<le> p \<Longrightarrow> p < L \<Longrightarrow> mp_pubd T \<gamma> p" and "\<And>c. c \<in> mp_consumers T \<Longrightarrow> g_got \<gamma> c \<le> L"
    using mp_first_unpublished [OF inv] by blast
  then have s: "mp_stuck T object \<sigma> \<gamma> \<eta> L"
    unfolding mp_stuck_def using wf inv sl link halted unfolding D by blast
  have level: "g_got \<gamma> c = L" if "c \<in> mp_consumers T" for c by (rule mp_stuck_level [OF s acyclic that])
  have all: "L = g_next \<gamma>" by (rule mp_stuck_all_published [OF s level])
  with level show "c \<in> mp_consumers T \<Longrightarrow> g_got \<gamma> c = g_next \<gamma>" by simp
  show "sg_next \<eta> j = None" if j: "j \<in> mp_producers T"
  proof (cases "sg_next \<eta> j")
    case (Some x)
    then obtain p where "x = seq_at p" "0 \<le> p" "p < g_next \<gamma>" using link j by (fastforce simp: mp_linked_def)
    with mp_stuck_claim [OF s level j] Some all mp_bits_less(3) [OF wf] show ?thesis by fastforce
  qed
qed

lemma mp_halted:
  assumes st: "mp_started k P C up gates f (blocking_wait_strategy object) n iterationCount (\<sigma>0, ps0)"
    and w: "waiting \<sigma>0 object = {}" and run: "pool_run (\<sigma>0, ps0) (\<sigma>, ps)"
    and fuel: "\<And>t. ps t \<noteq> Out_Of_Fuel" and stuck: "\<And>t. pool_exec [(t, 0)] (\<sigma>, ps) = None"
  shows "\<exists>x. ps t = Return x"
proof -
  define T where "T = mp_arranged k (uint iterationCount) P C up (set gates) f"
  define D where "D = mp_sleepers T object"
  have W: "wait_strategy_model (blocking_wait_strategy object :: (64 word) wait_strategy)"
    by (rule library_strategy_model) simp
  have wf: "mp_well_arranged T" using st by (simp add: mp_started_def T_def)
  note start = mp_started_safe [OF st W T_def] mp_started_sleeping [OF st T_def D_def w]
  have "mp_linked T \<sigma>0 (no_claims k \<sigma>0) (nothing_claimed C)"
    using wf by (auto simp: mp_linked_def mp_well_arranged_def T_def)
  with start have "mp_sleep.jointly T object (mp_outcome P C iterationCount) (\<lambda>t x. sl_ended D t)
      (\<sigma>0, ps0) (no_claims k \<sigma>0) (nothing_claimed C)"
    by (simp add: mp_sleep.jointly_def D_def)
  then obtain \<gamma> \<eta> where "mp_sleep.jointly T object (mp_outcome P C iterationCount) (\<lambda>t x. sl_ended D t) (\<sigma>, ps) \<gamma> \<eta>"
    using mp_sleep.pool_jointly [OF run, of T object "mp_outcome P C iterationCount" "\<lambda>t x. sl_ended D t"]
      mp_outcome_rely sl_ended_rely by (simp add: D_def) blast
  then have "mp_inv T (\<sigma>, \<gamma>)" and sl: "sl_inv D (\<sigma>, \<eta>)" and link: "mp_linked T \<sigma> \<gamma> \<eta>"
    and safe: "\<And>t. safe (mp_protocol T) t (ps t) (mp_outcome P C iterationCount t) (\<sigma>, \<gamma>)"
    and attempt: "\<And>t. attempt (sl_protocol D) t (ps t) (\<lambda>x. sl_ended D t) (\<sigma>, \<eta>)"
    by (simp_all add: mp_sleep.jointly_def D_def)
  from \<open>mp_inv T (\<sigma>, \<gamma>)\<close> have inv: "mp_data T (\<sigma>, \<gamma>)" by (simp add: mp_inv_def)
  have "ps t \<noteq> Assert_Failed" for t using safe [of t] by auto
  note halted = sl_stuck [OF sl attempt fuel this stuck]
  have acyclic: "u < c" if "c \<in> mp_consumers T" "u \<in> mp_upstream T c" for c u
    using st that by (auto simp: mp_started_def T_def)
  have "sg_next \<eta> t = sl_last D t \<or> sl_lagging D t (\<sigma>, \<eta>)" if "t \<in> sl_threads D" for t
    using halted [of t] that by (auto split: if_splits)
  note standstill = mp_standstill [OF wf acyclic inv sl link D_def this]
  have ends: "\<exists>x. ps t = Return x" if "t \<in> sl_threads D \<longrightarrow> sg_next \<eta> t = sl_last D t" for t
    using halted [of t] that by (auto split: if_splits)
  have disj: "P \<inter> C = {}" using wf by (simp add: mp_well_arranged_def T_def)
  have producers: "\<exists>x. ps j = Return x" if "j \<in> P" for j
    using standstill(2) [of j] that disj by (intro ends) (auto simp: sl_last_def D_def T_def)
  then have "g_cnt \<gamma> j = mp_quota T" if "j \<in> mp_producers T" for j
    using safe [of j] that by (fastforce simp: mp_outcome_def T_def)
  then have all: "g_next \<gamma> = mp_total T"
    using inv by (intro mp_next_bound(3) [OF wf]) (simp_all add: mp_data_def)
  have consumers: "\<exists>x. ps c = Return x" if "c \<in> C" for c
  proof (rule ends)
    have "sg_next \<eta> c = Some (seq_at (g_got \<gamma> c))"
      using sl inv that by (simp add: sl_inv_def mp_data_def D_def T_def seq_at_add_1)
    then show "c \<in> sl_threads D \<longrightarrow> sg_next \<eta> c = sl_last D c"
      using standstill(1) [of c] all that by (simp add: sl_last_def D_def T_def seq_at_def)
  qed
  show ?thesis
    using producers consumers ends [of t] by (cases "t \<in> P \<union> C") (auto simp: D_def T_def)
qed

lemma mp_started_complete:
  assumes st: "mp_started k P C up gates f (blocking_wait_strategy object) n iterationCount (\<sigma>0, ps0)"
    and "waiting \<sigma>0 object = {}" and run: "pool_run (\<sigma>0, ps0) (\<sigma>, ps)" and "at_a_halt (\<sigma>, ps)"
  shows "complete C (mp_result P iterationCount) ps"
proof -
  have "\<exists>x. ps t = Return x" for t
    using assms(4) by (intro mp_halted [OF st assms(2) run]) (simp_all add: at_a_halt_def)
  moreover have "sound_pool C (mp_result P iterationCount) ps"
    by (rule mp_started_sound [OF st library_strategy_model run]) simp
  ultimately show ?thesis unfolding complete_def sound_pool_def by metis
qed

end
