(* ===== verification/Multi_Producer_Termination.thy ===== *)
theory Multi_Producer_Termination
  imports Multi_Producer_Completion Rounds_Of_Waiting
begin

text \<open>
  The benchmarks on the multi-threaded claim strategy end.  A store of a consumer moves its
  barrier, a store of a producer publishes one more of the positions it has claimed; so the
  stores are limited, and with them the rounds of waiting that a thread needs.
\<close>

section \<open>Progress\<close>

text \<open>What a load of an entry can give.\<close>

definition mp_possible :: "(64 word) multi_arrangement \<Rightarrow> (64 word) act \<Rightarrow> (64 word) resp \<Rightarrow> bool" where
  "mp_possible T c r \<longleftrightarrow> (\<forall>ord i. c = Load ord (Elem (mp_entries T) i) \<longrightarrow> i < 2 ^ mp_bits T \<longrightarrow>
     (\<exists>p. seq_of r = seq_at p \<and> - (2 ^ mp_bits T) \<le> p \<and> p < mp_total T))"

text \<open>The positions that \<open>t\<close> has claimed and published.\<close>

definition mp_own_pubd :: "(64 word) multi_arrangement \<Rightarrow> claims \<Rightarrow> nat \<Rightarrow> int set" where
  "mp_own_pubd T \<gamma> t = {p \<in> {0..<g_next \<gamma>}. g_own \<gamma> p = t \<and> mp_pubd T \<gamma> p}"

definition mp_made :: "(64 word) multi_arrangement \<Rightarrow> claims \<Rightarrow> nat \<Rightarrow> int" where
  "mp_made T \<gamma> t = (if t \<in> mp_consumers T then g_got \<gamma> t else int (card (mp_own_pubd T \<gamma> t)))"

definition mp_limit :: "(64 word) multi_arrangement \<Rightarrow> nat \<Rightarrow> nat" where
  "mp_limit T t = (if t \<in> mp_consumers T then nat (mp_total T) else if t \<in> mp_producers T then nat (mp_quota T) else 0)"

lemma mp_own_pubd_finite [simp]: "finite (mp_own_pubd T \<gamma> t)"
  by (rule finite_subset [of _ "{0..<g_next \<gamma>}"]) (auto simp: mp_own_pubd_def)

lemma mp_own_pubd_card:
  assumes "mp_claimed T \<gamma>"
  shows "card (mp_own_pubd T \<gamma> t) \<le> (if t \<in> mp_producers T then nat (mp_quota T) else 0)"
proof (cases "t \<in> mp_producers T")
  case True
  have "inj_on (\<lambda>p. (g_own \<gamma> p, g_idx \<gamma> p)) {0..<g_next \<gamma>}"
    using assms by (simp add: mp_claimed_def bij_betw_def)
  then have "inj_on (g_idx \<gamma>) (mp_own_pubd T \<gamma> t)" by (auto simp: inj_on_def mp_own_pubd_def)
  moreover have "g_idx \<gamma> ` mp_own_pubd T \<gamma> t \<subseteq> {0..<g_cnt \<gamma> t}"
    using mp_claim_owner [OF assms] by (auto simp: mp_own_pubd_def)
  ultimately have "card (mp_own_pubd T \<gamma> t) \<le> card {0..<g_cnt \<gamma> t}" by (rule card_inj_on_le) simp
  moreover have "nat (g_cnt \<gamma> t) \<le> nat (mp_quota T)" using assms True by (auto simp: mp_claimed_def)
  ultimately show ?thesis using True by simp
next
  case False
  then have "mp_own_pubd T \<gamma> t = {}" using mp_claim_owner(1) [OF assms] by (auto simp: mp_own_pubd_def)
  then show ?thesis by simp
qed

lemma mp_made_limit:
  assumes "mp_well_arranged T" "mp_data T (\<sigma>, \<gamma>)"
  shows "mp_made T \<gamma> t \<le> int (mp_limit T t)"
proof -
  have cl: "mp_claimed T \<gamma>" using assms(2) by (simp add: mp_data_def)
  show ?thesis
    using mp_own_pubd_card [OF cl, of t] mp_got_le_next(2) [OF assms(2), of t] mp_next_bound(1) [OF assms(1) cl]
    by (auto simp: mp_made_def mp_limit_def split: if_splits)
qed

lemma mp_own_pubd_mono:
  assumes "mp_evolves T u (\<sigma>, \<gamma>) (\<sigma>', \<gamma>')"
  shows "mp_own_pubd T \<gamma> t \<subseteq> mp_own_pubd T \<gamma>' t"
proof
  fix p assume p: "p \<in> mp_own_pubd T \<gamma> t"
  then have "mp_pubd T \<gamma>' p" using assms by (auto simp: mp_own_pubd_def mp_evolves_def intro: mp_pubd_mono)
  with p assms show "p \<in> mp_own_pubd T \<gamma>' t" by (auto simp: mp_own_pubd_def mp_evolves_def)
qed

lemma mp_made_mono:
  assumes "mp_evolves T u (\<sigma>, \<gamma>) (\<sigma>', \<gamma>')"
  shows "mp_made T \<gamma> t \<le> mp_made T \<gamma>' t"
  using assms card_mono [OF mp_own_pubd_finite mp_own_pubd_mono [OF assms, of t]]
  by (simp add: mp_made_def mp_evolves_def)

text \<open>A store is progress.\<close>

lemma mp_store_made:
  assumes wf: "mp_well_arranged T" and inv: "mp_data T (\<sigma>, \<gamma>)" and inv': "mp_data T (put a v \<sigma>, \<gamma>')"
    and r: "mp_evolves T u (\<sigma>, \<gamma>) (put a v \<sigma>, \<gamma>')" and ok: "mp_okay T t (Store ord a v) (\<sigma>, \<gamma>)"
  shows "mp_made T \<gamma> t < mp_made T \<gamma>' t"
proof (cases "t \<in> mp_consumers T")
  case True
  have "g_own \<gamma> p \<noteq> t" if "0 \<le> p" "p < g_next \<gamma>" for p
    using mp_claim_owner(1) [of T \<gamma> p] inv wf True that by (auto simp: mp_data_def mp_well_arranged_def)
  then have a: "a = mp_barrier T t" "v \<noteq> mem \<sigma> a" using ok by (auto simp: mp_mine_def)
  have "mem \<sigma> a = seq_at (g_got \<gamma> t - 1)" "v = seq_at (g_got \<gamma>' t - 1)"
    using inv inv' True by (auto simp: mp_data_def a(1))
  then have "g_got \<gamma> t \<noteq> g_got \<gamma>' t" using a(2) by auto
  moreover have "g_got \<gamma> t \<le> g_got \<gamma>' t" using r by (simp add: mp_evolves_def)
  ultimately show ?thesis using True by (simp add: mp_made_def)
next
  case False
  then obtain p where p: "a = Elem (mp_entries T) (mp_slot T p)" "v = seq_at p" "mp_mine T \<gamma> t p"
    using ok by auto
  note N = mp_bits_less [OF wf]
  have e: "seq_at (g_ent \<gamma>' (mp_slot T p)) = seq_at p" "- (2 ^ mp_bits T) \<le> g_ent \<gamma>' (mp_slot T p)"
    "g_ent \<gamma>' (mp_slot T p) < g_next \<gamma>'"
    using inv' mp_slot_less [of T p] by (auto simp: mp_data_def p(1,2))
  have "g_ent \<gamma>' (mp_slot T p) = p"
    using e(1) by (rule seq_at_inject [THEN iffD1, rotated])
      (use e p(3) N mp_next_less [OF wf inv] mp_next_less [OF wf inv'] in \<open>auto simp: mp_mine_def\<close>)
  then have "p \<in> mp_own_pubd T \<gamma>' t"
    using p(3) r by (auto simp: mp_own_pubd_def mp_pubd_def mp_mine_def mp_evolves_def)
  moreover have "p \<notin> mp_own_pubd T \<gamma> t" using p(3) by (simp add: mp_own_pubd_def mp_mine_def)
  ultimately have "mp_own_pubd T \<gamma> t \<subset> mp_own_pubd T \<gamma>' t" using mp_own_pubd_mono [OF r] by blast
  then have "card (mp_own_pubd T \<gamma> t) < card (mp_own_pubd T \<gamma>' t)" by (rule psubset_card_mono [rotated]) simp
  then show ?thesis using False by (simp add: mp_made_def)
qed

lemma mp_possible_exec:
  assumes "mp_well_arranged T" "mp_data T (\<sigma>, \<gamma>)" "exec t n c \<sigma> = Some (r, \<sigma>')"
  shows "mp_possible T c r"
  unfolding mp_possible_def
proof (intro allI impI)
  fix ord i assume c: "c = Load ord (Elem (mp_entries T) i)" and i: "i < 2 ^ mp_bits T"
  have "g_next \<gamma> \<le> mp_total T" using assms(1,2) by (intro mp_next_bound) (simp_all add: mp_data_def)
  then show "\<exists>p. seq_of r = seq_at p \<and> - (2 ^ mp_bits T) \<le> p \<and> p < mp_total T"
    using assms(2,3) i by (intro exI [of _ "g_ent \<gamma> i"]) (auto simp: c mp_data_def)
qed

definition mp_measured :: "(64 word) multi_arrangement \<Rightarrow> (64 word, 'a) pool \<Rightarrow> (nat \<Rightarrow> int) \<Rightarrow> bool" where
  "mp_measured T c R \<longleftrightarrow> mp_well_arranged T \<and>
     (\<exists>\<gamma>. mp_inv T (fst c, \<gamma>) \<and> (\<forall>t. safe (mp_protocol T) t (snd c t) (\<lambda>x s. True) (fst c, \<gamma>)) \<and> R = mp_made T \<gamma>)"

interpretation mp_progress: paying_progress "mp_possible T" "mp_measured T" "mp_limit T" for T :: "(64 word) multi_arrangement"
proof
  fix \<sigma> \<sigma>' :: "(64 word) mach" and ps :: "nat \<Rightarrow> (64 word, 'a) prog" and R t c k r
  assume "mp_measured T (\<sigma>, ps) R" and p: "ps t = Act c k" and e: "exec t 0 c \<sigma> = Some (r, \<sigma>')"
  then obtain \<gamma> where wf: "mp_well_arranged T" and inv: "mp_inv T (\<sigma>, \<gamma>)" and R: "R = mp_made T \<gamma>"
    and safe: "\<And>t. safe (mp_protocol T) t (ps t) (\<lambda>x s. True) (\<sigma>, \<gamma>)"
    unfolding mp_measured_def fst_conv snd_conv by blast
  have data: "mp_data T (\<sigma>, \<gamma>)" using inv by (simp add: mp_inv_def)
  have s: "safe (mp_protocol T) t (Act c k) (\<lambda>x s. True) (\<sigma>, \<gamma>)" using safe [of t] by (simp add: p)
  have ok: "mp_okay T t c (\<sigma>, \<gamma>)" using race_free_protocol.safe_okay [OF weak_race_free_protocol.axioms(2) [OF mp_race_free [OF wf]] s] by simp
  obtain \<gamma>' where g: "guar (mp_protocol T) t (\<sigma>, \<gamma>) (\<sigma>', \<gamma>')"
    and s': "safe (mp_protocol T) t (k r) (\<lambda>x s. True) (\<sigma>', \<gamma>')"
    using s e mp.rely_refl [of T t "(\<sigma>, \<gamma>)"] unfolding safe.simps by blast
  have inv': "mp_inv T (\<sigma>', \<gamma>')" using mp.guar_inv [OF g] inv by simp
  have r: "mp_evolves T (Suc t) (\<sigma>, \<gamma>) (\<sigma>', \<gamma>')" using g by (simp add: mp_rely_def)
  have data': "mp_data T (\<sigma>', \<gamma>')" using inv' by (simp add: mp_inv_def)
  have "safe (mp_protocol T) u ((ps(t := k r)) u) (\<lambda>x s. True) (\<sigma>', \<gamma>')" for u
  proof (cases "u = t")
    case False
    then have "rely (mp_protocol T) u (\<sigma>, \<gamma>) (\<sigma>', \<gamma>')" using mp.guar_rely [OF _ g] by simp
    with safe [of u] show ?thesis using False by (auto intro: mp.safe_rely)
  qed (simp add: s')
  with wf inv' have "mp_measured T (\<sigma>', ps(t := k r)) (mp_made T \<gamma>')"
    unfolding mp_measured_def fst_conv snd_conv by blast
  moreover have "mp_made T \<gamma> t + int (stores_of c) \<le> mp_made T \<gamma>' t"
  proof (cases "\<exists>ord a v. c = Store ord a v")
    case True
    then obtain ord a v where c: "c = Store ord a v" by blast
    then have "\<sigma>' = put a v \<sigma>" using e by simp
    with data' r ok show ?thesis using mp_store_made [OF wf data] by (fastforce simp: c)
  next
    case False
    then have "stores_of c = 0" by (cases c) auto
    then show ?thesis using mp_made_mono [OF r] by simp
  qed
  ultimately show "mp_possible T c r \<and>
      (\<exists>R'. mp_measured T (\<sigma>', ps(t := k r)) R' \<and> (\<forall>u. R u \<le> R' u) \<and> R t + int (stores_of c) \<le> R' t)"
    using mp_possible_exec [OF wf data e] mp_made_mono [OF r] unfolding R by blast
next
  fix c :: "(64 word, 'a) pool" and R t assume "mp_measured T c R"
  then obtain \<gamma> where "mp_well_arranged T" "mp_inv T (fst c, \<gamma>)" "R = mp_made T \<gamma>"
    unfolding mp_measured_def by blast
  then show "R t \<le> int (mp_limit T t)" using mp_made_limit [of T "fst c" \<gamma> t] by (simp add: mp_inv_def)
qed

section \<open>The threads are thrifty\<close>

lemma mp_started_thrifty:
  assumes st: "mp_started k P C up gates f (blocking_wait_strategy object) n iterationCount (\<sigma>0, ps0)"
    and T: "T = mp_arranged k (uint iterationCount) P C up (set gates) f" and n: "2 ^ k + nat (mp_total T) \<le> n"
  shows "thrifty (mp_possible T) object (ps0 u) n False False"
proof -
  let ?W = "blocking_wait_strategy object :: (64 word) wait_strategy"
  have wf: "mp_well_arranged T" using st by (simp add: mp_started_def T)
  note N = mp_bits_less [OF wf]
  have total: "0 \<le> mp_total T" "mp_total T < 4611686018427387904"
    using wf by (simp_all add: mp_well_arranged_def mp_total_def)
  have "int (2 ^ k + nat (mp_total T)) \<le> int n" using n by (simp only: of_nat_le_iff)
  then have enough: "2 ^ mp_bits T + mp_total T \<le> int n" using total(1) by (simp add: T)
  have entry: "\<exists>p. seq_of r = seq_at p \<and> - (2 ^ mp_bits T) \<le> p \<and> p < mp_total T"
    if "mp_possible T (Load ord (mt_entry (new_multi k ?W (map f gates)) x)) r" for ord x r
  proof -
    have "mt_entry (new_multi k ?W (map f gates)) x = Elem (mp_entries T) (mp_slot T (uint x))"
      using mp_slot_word [OF N(1), of x] by (simp add: mt_entry_def new_multi_def T)
    with that mp_slot_less [of T "uint x"] show ?thesis by (auto simp: mp_possible_def)
  qed
  consider "u \<in> P" | "u \<in> C" | "u \<notin> P \<union> C" by blast
  then show ?thesis
  proof cases
    case 1
    have "thrifty (mp_possible T) object (bind (mt_producer_loop n (new_multi k ?W (map f gates)) (new_buffer k)
        iterationCount 0) (\<lambda>_. Return None)) n False False"
      by (intro thrifty_bind thrifty_mt_producer_loop) (simp_all add: new_multi_def)
    then show ?thesis using 1 st by (simp add: mp_started_def mt_producer_def)
  next
    case 2
    then obtain wait where ps: "ps0 u = consumer n wait (new_buffer k) (new_barrier_at ?W (Cell (f u)))
        (of_nat (card P) * iterationCount)"
      and wait: "if up u = {}
        then wait = (\<lambda>nextToRead. mt_wait_until_published n (new_multi k ?W (map f gates)) nextToRead (nextToRead - 1))
        else \<exists>as. library_wait ?W n wait as \<and> set as = (\<lambda>u. Cell (f u)) ` up u"
      using st unfolding mp_started_def snd_conv by blast
    have "thrifty (mp_possible T) object (wait v) n False False" for v
    proof (cases "up u = {}")
      case True
      have "thrifty (mp_possible T) object (mt_wait_until_published n (new_multi k ?W (map f gates)) v (v - 1)) n False False"
        by (rule thrifty_mt_wait [OF _ entry _ enough]) (use N total in \<open>simp_all add: new_multi_def\<close>)
      with wait True show ?thesis by simp
    next
      case False
      with wait show ?thesis by (auto intro: thrifty_library_wait)
    qed
    then have "thrifty (mp_possible T) object (consume_loop n wait (+) (new_buffer k) (new_barrier_at ?W (Cell (f u))) 0
        (of_nat (card P) * iterationCount) 0) n False False"
      by (rule thrifty_consume_loop) (simp_all add: new_barrier_at_def)
    then show ?thesis unfolding ps consumer_def by (rule thrifty_bind) simp
  next
    case 3
    then show ?thesis using st by (simp add: mp_started_def)
  qed
qed

section \<open>The rounds are enough\<close>

lemma mp_limit_sum:
  assumes wf: "mp_well_arranged T" and all: "mp_producers T \<union> mp_consumers T = {..m}"
  shows "(\<Sum>u \<le> m. mp_limit T u) = (card (mp_consumers T) + 1) * nat (mp_total T)"
    and "mp_limit T t \<le> nat (mp_total T)"
proof -
  have disj: "mp_producers T \<inter> mp_consumers T = {}" and q: "0 \<le> mp_quota T" and fP: "finite (mp_producers T)"
    using wf by (simp_all add: mp_well_arranged_def)
  have fC: "finite (mp_consumers T)" using all by (metis finite_Un finite_atMost)
  have total: "nat (mp_total T) = card (mp_producers T) * nat (mp_quota T)"
    by (simp add: mp_total_def nat_mult_distrib)
  have "(\<Sum>u \<le> m. mp_limit T u) = (\<Sum>u \<in> mp_producers T. mp_limit T u) + (\<Sum>u \<in> mp_consumers T. mp_limit T u)"
    unfolding all [symmetric] using fP fC disj by (rule sum.union_disjoint)
  also have "(\<Sum>u \<in> mp_producers T. mp_limit T u) = (\<Sum>u \<in> mp_producers T. nat (mp_quota T))"
    using disj by (intro sum.cong) (auto simp: mp_limit_def)
  also have "(\<Sum>u \<in> mp_consumers T. mp_limit T u) = (\<Sum>u \<in> mp_consumers T. nat (mp_total T))"
    by (intro sum.cong) (auto simp: mp_limit_def)
  finally show "(\<Sum>u \<le> m. mp_limit T u) = (card (mp_consumers T) + 1) * nat (mp_total T)" by (simp add: total)
  have "nat (mp_quota T) \<le> nat (mp_total T)" if "t \<in> mp_producers T"
    using that fP by (cases "card (mp_producers T)") (auto simp: total)
  then show "mp_limit T t \<le> nat (mp_total T)" by (simp add: mp_limit_def)
qed

lemma mp_enough_rounds:
  assumes st: "mp_started k P C up gates f (blocking_wait_strategy object) n iterationCount (\<sigma>0, ps0)"
    and T: "T = mp_arranged k (uint iterationCount) P C up (set gates) f" and all: "P \<union> C = {..m}"
    and n: "2 ^ k + (card C + 2) * nat (mp_total T) < n"
    and run: "pool_exec (map (\<lambda>t. (t, 0)) ts) (\<sigma>0, ps0) = Some (\<sigma>, ps)"
  shows "ps t \<noteq> Out_Of_Fuel"
proof -
  have W: "wait_strategy_model (blocking_wait_strategy object :: (64 word) wait_strategy)"
    by (rule library_strategy_model) simp
  have wf: "mp_well_arranged T" using st by (simp add: mp_started_def T)
  note start = mp_started_safe [OF st W T]
  have "safe (mp_protocol T) t (ps0 t) (\<lambda>x s. True) (\<sigma>0, no_claims k \<sigma>0)" for t
    using start(2) by (rule safe_conseq) simp
  then have measured: "mp_measured T (\<sigma>0, ps0) (mp_made T (no_claims k \<sigma>0))"
    unfolding mp_measured_def fst_conv snd_conv using wf start(1) by blast
  have enough: "2 ^ k + nat (mp_total T) \<le> n" using n by (simp add: algebra_simps)
  have others: "\<exists>x. ps0 u = Return x" if "m < u" for u
  proof -
    have "u \<notin> P \<union> C" using that all by auto
    then show ?thesis using st by (auto simp: mp_started_def)
  qed
  have "0 \<le> mp_made T (no_claims k \<sigma>0) u" for u by (simp add: mp_made_def no_claims_def)
  moreover have "mp_limit T u + (\<Sum>u \<le> m. mp_limit T u) < n" if "u \<le> m" for u
  proof -
    have TPC: "mp_producers T \<union> mp_consumers T = {..m}" "card (mp_consumers T) = card C" using all by (simp_all add: T)
    have "mp_limit T u + (card C + 1) * nat (mp_total T) \<le> (card C + 2) * nat (mp_total T)"
      using mp_limit_sum(2) [OF wf TPC(1), of u] by simp
    also have "\<dots> < n" using n by simp
    finally show ?thesis using mp_limit_sum(1) [OF wf TPC(1)] TPC(2) by simp
  qed
  ultimately show ?thesis
    by (intro mp_progress.enough_rounds [OF measured _ mp_started_thrifty [OF st T enough] others _ run])
qed

lemma mp_started_ends:
  assumes st: "mp_started k P C up gates f (blocking_wait_strategy object) n iterationCount (\<sigma>0, ps0)"
    and w: "waiting \<sigma>0 object = {}" and all: "P \<union> C = {..m}"
    and n: "2 ^ k + (card C + 2) * (card P * unat iterationCount) < n"
  shows "f0 0 = (\<sigma>0, ps0) \<Longrightarrow> \<exists>i. \<not> pool_step (f0 i) (f0 (Suc i))"
    and "pool_exec (map (\<lambda>t. (t, 0)) ts) (\<sigma>0, ps0) = Some (\<sigma>, ps) \<Longrightarrow>
      (\<exists>t. pool_exec [(t, 0)] (\<sigma>, ps) \<noteq> None) \<or> complete C (mp_result P iterationCount) ps"
proof -
  show "\<exists>i. \<not> pool_step (f0 i) (f0 (Suc i))" if "f0 0 = (\<sigma>0, ps0)"
  proof (rule no_infinite_pool_run [of m])
    fix t assume "m < t"
    then have "t \<notin> P \<union> C" using all by auto
    then show "\<exists>x. snd (f0 0) t = Return x" using st that by (auto simp: mp_started_def)
  qed
  assume run: "pool_exec (map (\<lambda>t. (t, 0)) ts) (\<sigma>0, ps0) = Some (\<sigma>, ps)"
  have "nat (mp_total (mp_arranged k (uint iterationCount) P C up (set gates) f)) = card P * unat iterationCount"
    by (simp add: nat_mult_distrib)
  then have "at_a_halt (\<sigma>, ps)" if "\<And>t. pool_exec [(t, 0)] (\<sigma>, ps) = None"
    using mp_enough_rounds [OF st refl all _ run] n that by (simp add: at_a_halt_def)
  then show "(\<exists>t. pool_exec [(t, 0)] (\<sigma>, ps) \<noteq> None) \<or> complete C (mp_result P iterationCount) ps"
    using mp_started_complete [OF st w pool_exec_run [OF run]] by blast
qed

section \<open>Runs in which threads fall asleep\<close>

lemmas run_mt_blocking_defs = run_mt_thread_defs blocking_wait_strategy_def blocking_wait_until_published_def
  blocking_signal_all_when_blocking_def mt_wait_loop_once

lemma multicast_mt_sleepy_run:
  "\<exists>\<sigma> ps. pool_exec (map (\<lambda>t. (t, 0)) ([1, 1, 1, 1] @ [2, 2, 2, 2] @ [0, 0, 0, 0, 0, 0, 0, 0, 0] @ [1, 1, 1, 1, 1, 1, 1, 1, 1] @ [2, 2, 2, 2, 2, 2, 2, 2, 2]))
       (mt_set_up 0 2, multicast_mt_threads (Suc n) (new_multi 0 (blocking_wait_strategy 7) [1, 2],
          map (\<lambda>c. new_barrier_at (blocking_wait_strategy 7) (Cell c)) [1, 2], new_buffer 0) 1) = Some (\<sigma>, ps) \<and>
     ps 0 = Return None \<and> ps 1 = Return (Some 0) \<and> ps 2 = Return (Some 0) \<and> (\<forall>t > 2. ps t = Return None)"
  by (cases n; simp add: numeral_2_eq_2 consume_loop_finished run_mt_blocking_defs mt_set_up_def mem_put)


lemma pipeline_mt_sleepy_run:
  "\<exists>\<sigma> ps. pool_exec (map (\<lambda>t. (t, 0)) ([2, 2, 2, 2] @ [0, 0, 0, 0, 0, 0, 0, 0] @ [1, 1, 1, 1, 1, 1, 1] @ [2, 2, 2, 2, 2, 2, 2, 2]))
       (mt_set_up 0 2, pipeline_mt_threads (Suc n) (new_multi 0 (blocking_wait_strategy 7) [2],
          map (\<lambda>c. new_barrier_at (blocking_wait_strategy 7) (Cell c)) [1, 2], new_buffer 0) 1) = Some (\<sigma>, ps) \<and>
     ps 0 = Return None \<and> ps 1 = Return (Some 0) \<and> ps 2 = Return (Some 0) \<and> (\<forall>t > 2. ps t = Return None)"
  by (cases n; simp add: numeral_2_eq_2 consume_loop_finished run_mt_blocking_defs mt_set_up_def mem_put)

lemma diamond_mt_sleepy_run:
  "\<exists>\<sigma> ps. pool_exec (map (\<lambda>t. (t, 0)) ([2, 2, 2, 2] @ [0, 0, 0, 0, 0, 0, 0, 0] @ [1, 1, 1, 1, 1, 1, 1] @ [2, 2, 2, 2, 2, 2, 2, 2]))
       (mt_set_up 0 2, diamond_mt_threads (Suc n) (new_multi 0 (blocking_wait_strategy 7) [2],
          map (\<lambda>c. new_barrier_at (blocking_wait_strategy 7) (Cell c)) [1, 2],
          \<lparr>sbg_waitStrategy = blocking_wait_strategy 7, sbg_sequences = [Cell 1]\<rparr>, new_buffer 0) 1) = Some (\<sigma>, ps) \<and>
     ps 0 = Return None \<and> ps 1 = Return (Some 0) \<and> ps 2 = Return (Some 0) \<and> (\<forall>t > 2. ps t = Return None)"
  by (cases n; simp add: numeral_2_eq_2 consume_loop_finished run_mt_blocking_defs mt_set_up_def mem_put)

lemma sequencer_sleepy_run:
  "\<exists>\<sigma> ps. pool_exec (map (\<lambda>t. (t, 0)) ([0, 0, 0, 0] @ [1, 1, 1, 1, 1, 1, 1, 1] @ [2, 2, 2, 2, 2] @ [0, 0, 0, 0, 0, 0, 0, 0, 0, 0, 0, 0, 0] @ [2, 2, 2, 2, 2, 2, 2, 2, 2] @ [0, 0, 0, 0, 0, 0, 0, 0, 0]))
       (mt_set_up 0 1, sequencer_threads (Suc (Suc n)) (new_multi 0 (blocking_wait_strategy 7) [1],
          new_barrier_at (blocking_wait_strategy 7) (Cell 1), new_buffer 0) 1 2) = Some (\<sigma>, ps) \<and>
     ps 0 = Return (Some 0) \<and> ps 1 = Return None \<and> ps 2 = Return None \<and> (\<forall>t > 2. ps t = Return None)"
  by (cases n; simp add: consume_loop_finished run_mt_blocking_defs mt_set_up_def mem_put)

lemma rounds_6: "Suc 5 = 6" and rounds_8: "Suc (Suc 6) = 8"
  by simp_all

section \<open>The benchmarks\<close>

text \<open>
  C10.  The sequencer benchmark with the blocking wait strategy ends, however many producers there
  are and however the threads are interleaved.  No run is infinite, not even one in which the
  waits wake spuriously.  Where they do not, and each thread has more than
  \<^theory_text>\<open>bufferSize + 3 * producerCount * iterationCount\<close> rounds of waiting and looking, some
  thread can go on, until every thread has ended and the consumer has the expected result.
\<close>

theorem sequencer_terminates:
  assumes "bufferSize \<le> 2 ^ 62" and "producerCount \<noteq> 0" and "uint producerCount * uint iterationCount < 2 ^ 62"
    and "uint producerCount * (uint iterationCount * (uint iterationCount - 1)) < 2 ^ 64"
    and "run 0 alone (sequencer_setup (blocking_wait_strategy object) bufferSize) 0 \<sigma> = (Returned objects, \<sigma>0, l)"
    and "owner \<sigma> = (\<lambda>_. None)" and "waiting \<sigma> object = {}"
    and "unat bufferSize + 3 * (unat producerCount * unat iterationCount) < n"
  shows "(\<forall>f. f 0 = (\<sigma>0, sequencer_threads n objects iterationCount producerCount) \<longrightarrow> (\<exists>i. \<not> pool_step (f i) (f (Suc i)))) \<and>
    (\<forall>ts \<sigma>' ps. pool_exec (map (\<lambda>t. (t, 0)) ts) (\<sigma>0, sequencer_threads n objects iterationCount producerCount) = Some (\<sigma>', ps) \<longrightarrow>
       (\<exists>t. pool_exec [(t, 0)] (\<sigma>', ps) \<noteq> None) \<or>
       complete {0} (Some (sequencer_expectedResult iterationCount producerCount)) ps)"
proof -
  obtain k where k: "bufferSize = 2 ^ k" "k \<le> 62" "waiting \<sigma>0 = waiting \<sigma>"
    and st: "mp_started k {1..unat producerCount} {0} (\<lambda>_. {}) [0] (\<lambda>_. 1) (blocking_wait_strategy object) n iterationCount
      (\<sigma>0, sequencer_threads n objects iterationCount producerCount)"
    using assms(5,1,6,3) by (rule sequencer_started)
  have w: "waiting \<sigma>0 object = {}" using k(3) assms(7) by simp
  have result: "mp_result {1..unat producerCount} iterationCount = Some (sequencer_expectedResult iterationCount producerCount)"
    by (simp add: mp_result_def sequencer_expectedResult_sum [OF assms(4,2)])
  have all: "{1..unat producerCount} \<union> {0} = {..unat producerCount}" by auto
  have n: "2 ^ k + (card {0 :: nat} + 2) * (card {1..unat producerCount} * unat iterationCount) < n"
    using assms(8) k unat_2_power [of k] by simp
  note ends = mp_started_ends [OF st w all n, unfolded result]
  show ?thesis by (intro conjI allI impI; erule ends)
qed

text \<open>A consumer and a producer fall asleep and are woken.\<close>

lemma sequencer_terminates_witness:
  "\<exists>objects \<sigma>0 l \<sigma>' ps.
     run 0 alone (sequencer_setup (blocking_wait_strategy 7) 1) 0 (at_rest 0) = (Returned objects, \<sigma>0, l) \<and>
     pool_exec (map (\<lambda>t. (t, 0)) ([0, 0, 0, 0] @ [1, 1, 1, 1, 1, 1, 1, 1] @ [2, 2, 2, 2, 2] @ [0, 0, 0, 0, 0, 0, 0, 0, 0, 0, 0, 0, 0] @ [2, 2, 2, 2, 2, 2, 2, 2, 2] @ [0, 0, 0, 0, 0, 0, 0, 0, 0]))
       (\<sigma>0, sequencer_threads 8 objects 1 2) = Some (\<sigma>', ps) \<and>
     complete {0} (Some (sequencer_expectedResult 1 2)) ps"
proof -
  obtain l where r: "run 0 alone (sequencer_setup (blocking_wait_strategy 7) 1) 0 (at_rest 0) = (Returned
      (new_multi 0 (blocking_wait_strategy 7) [1], new_barrier_at (blocking_wait_strategy 7) (Cell 1), new_buffer 0), mt_set_up 0 1, l)"
    using multi_setup_run(1) [of 0 "blocking_wait_strategy 7"] by (auto simp: mt_one_consumer)
  obtain \<sigma>' ps where p: "pool_exec (map (\<lambda>t. (t, 0)) ([0, 0, 0, 0] @ [1, 1, 1, 1, 1, 1, 1, 1] @ [2, 2, 2, 2, 2] @ [0, 0, 0, 0, 0, 0, 0, 0, 0, 0, 0, 0, 0] @ [2, 2, 2, 2, 2, 2, 2, 2, 2] @ [0, 0, 0, 0, 0, 0, 0, 0, 0]))
      (mt_set_up 0 1, sequencer_threads 8 (new_multi 0 (blocking_wait_strategy 7) [1],
        new_barrier_at (blocking_wait_strategy 7) (Cell 1), new_buffer 0) 1 2) = Some (\<sigma>', ps)"
    and ps: "ps 0 = Return (Some 0) \<and> ps 1 = Return None \<and> ps 2 = Return None \<and> (\<forall>t > 2. ps t = Return None)"
    using sequencer_sleepy_run [of 6, unfolded rounds_8] by blast
  note e = three_threads_ended [OF ps]
  have "\<nexists>t. pool_exec [(t, 0)] (\<sigma>', ps) \<noteq> None"
    by (simp only: ended_stuck [OF e] simp_thms)
  then have "complete {0} (Some (sequencer_expectedResult 1 2)) ps"
    using sequencer_terminates [OF _ _ _ _ r, where n = 8 and iterationCount = 1 and producerCount = 2,
        THEN conjunct2, rule_format, OF _ _ _ _ _ _ _ p]
    by (simp del: pool_exec.simps)
  with r p show ?thesis by blast
qed

text \<open>The benchmarks with one producer, thread 0.\<close>

lemma mp_one_ends:
  assumes st: "mp_started k {0} {1..m} up gates f (blocking_wait_strategy object) n iterationCount (\<sigma>0, ps0)"
    and w: "waiting \<sigma>0 object = {}" and k: "bufferSize = 2 ^ k" "k \<le> 62"
    and n: "unat (bufferSize :: size_t) + (m + 2) * unat iterationCount < n"
    and sum: "uint iterationCount * (uint iterationCount - 1) < 2 ^ 64"
  shows "f0 0 = (\<sigma>0, ps0) \<Longrightarrow> \<exists>i. \<not> pool_step (f0 i) (f0 (Suc i))"
    and "pool_exec (map (\<lambda>t. (t, 0)) ts) (\<sigma>0, ps0) = Some (\<sigma>, ps) \<Longrightarrow>
      (\<exists>t. pool_exec [(t, 0)] (\<sigma>, ps) \<noteq> None) \<or> complete {1..m} (Some (expectedResult iterationCount)) ps"
proof -
  have all: "{0} \<union> {1..m} = {..m}" by auto
  have rounds: "2 ^ k + (card {1..m} + 2) * (card {0 :: nat} * unat iterationCount) < n"
    using n k unat_2_power [of k] by simp
  note ends = mp_started_ends [OF st w all rounds, unfolded mp_result_one [OF sum]]
  show "f0 0 = (\<sigma>0, ps0) \<Longrightarrow> \<exists>i. \<not> pool_step (f0 i) (f0 (Suc i))"
    "pool_exec (map (\<lambda>t. (t, 0)) ts) (\<sigma>0, ps0) = Some (\<sigma>, ps) \<Longrightarrow>
      (\<exists>t. pool_exec [(t, 0)] (\<sigma>, ps) \<noteq> None) \<or> complete {1..m} (Some (expectedResult iterationCount)) ps"
    by (rule ends; assumption)+
qed

text \<open>
  The multicast benchmark on the multi-threaded claim strategy ends in the same sense: more than
  \<^theory_text>\<open>bufferSize + (consumerCount + 2) * iterationCount\<close> rounds are enough.
\<close>

theorem multicast_mt_terminates:
  assumes "bufferSize \<le> 2 ^ 62" and "0 < consumerCount" and "uint iterationCount < 2 ^ 62"
    and "uint iterationCount * (uint iterationCount - 1) < 2 ^ 64"
    and "run 0 alone (multicast_mt_setup (blocking_wait_strategy object) bufferSize consumerCount) 0 \<sigma> = (Returned objects, \<sigma>0, l)"
    and "owner \<sigma> = (\<lambda>_. None)" and "waiting \<sigma> object = {}"
    and "unat bufferSize + (consumerCount + 2) * unat iterationCount < n"
  shows "(\<forall>f. f 0 = (\<sigma>0, multicast_mt_threads n objects iterationCount) \<longrightarrow> (\<exists>i. \<not> pool_step (f i) (f (Suc i)))) \<and>
    (\<forall>ts \<sigma>' ps. pool_exec (map (\<lambda>t. (t, 0)) ts) (\<sigma>0, multicast_mt_threads n objects iterationCount) = Some (\<sigma>', ps) \<longrightarrow>
       (\<exists>t. pool_exec [(t, 0)] (\<sigma>', ps) \<noteq> None) \<or>
       complete {1..consumerCount} (Some (expectedResult iterationCount)) ps)"
proof -
  obtain k where k: "bufferSize = 2 ^ k" "k \<le> 62" "waiting \<sigma>0 = waiting \<sigma>"
    and st: "mp_started k {0} {1..consumerCount} (\<lambda>_. {}) (map Suc [0..<consumerCount]) (\<lambda>c. c) (blocking_wait_strategy object) n iterationCount
      (\<sigma>0, multicast_mt_threads n objects iterationCount)"
    using assms(5,1,6,2,3) by (rule multicast_mt_started)
  have "waiting \<sigma>0 object = {}" using k(3) assms(7) by simp
  note ends = mp_one_ends [OF st this k(1,2) assms(8,4)]
  show ?thesis by (intro conjI allI impI; erule ends)
qed

lemma multicast_mt_terminates_witness:
  "\<exists>objects \<sigma>0 l \<sigma>' ps.
     run 0 alone (multicast_mt_setup (blocking_wait_strategy 7) 1 2) 0 (at_rest 0) = (Returned objects, \<sigma>0, l) \<and>
     pool_exec (map (\<lambda>t. (t, 0)) ([1, 1, 1, 1] @ [2, 2, 2, 2] @ [0, 0, 0, 0, 0, 0, 0, 0, 0] @ [1, 1, 1, 1, 1, 1, 1, 1, 1] @ [2, 2, 2, 2, 2, 2, 2, 2, 2]))
       (\<sigma>0, multicast_mt_threads 6 objects 1) = Some (\<sigma>', ps) \<and>
     complete {1..2} (Some (expectedResult 1)) ps"
proof -
  obtain l where r: "run 0 alone (multicast_mt_setup (blocking_wait_strategy 7) 1 2) 0 (at_rest 0) = (Returned
      (new_multi 0 (blocking_wait_strategy 7) [1, 2], map (\<lambda>c. new_barrier_at (blocking_wait_strategy 7) (Cell c)) [1, 2], new_buffer 0), mt_set_up 0 2, l)"
    using multi_setup_run(2) [where k = 0 and W = "blocking_wait_strategy 7" and m = 2] by (auto simp: upt_rec numeral_2_eq_2)
  obtain \<sigma>' ps where p: "pool_exec (map (\<lambda>t. (t, 0)) ([1, 1, 1, 1] @ [2, 2, 2, 2] @ [0, 0, 0, 0, 0, 0, 0, 0, 0] @ [1, 1, 1, 1, 1, 1, 1, 1, 1] @ [2, 2, 2, 2, 2, 2, 2, 2, 2]))
      (mt_set_up 0 2, multicast_mt_threads 6 (new_multi 0 (blocking_wait_strategy 7) [1, 2], map (\<lambda>c. new_barrier_at (blocking_wait_strategy 7) (Cell c)) [1, 2], new_buffer 0) 1) = Some (\<sigma>', ps)"
    and ps: "ps 0 = Return None \<and> ps 1 = Return (Some 0) \<and> ps 2 = Return (Some 0) \<and> (\<forall>t > 2. ps t = Return None)"
    using multicast_mt_sleepy_run [of 5, unfolded rounds_6] by blast
  note e = three_threads_ended [OF ps]
  have "\<nexists>t. pool_exec [(t, 0)] (\<sigma>', ps) \<noteq> None"
    by (simp only: ended_stuck [OF e] simp_thms)
  then have "complete {1..2} (Some (expectedResult 1)) ps"
    using multicast_mt_terminates [OF _ _ _ _ r, where n = 6 and iterationCount = 1, THEN conjunct2, rule_format,
        OF _ _ _ _ _ _ _ p]
    by (simp del: pool_exec.simps)
  with r p show ?thesis by blast
qed

text \<open>
  The pipeline benchmark on the multi-threaded claim strategy, with the blocking wait
  strategy, ends however the threads are interleaved: no run is infinite, not even one in which
  the waits wake spuriously.  Where they do not, and each thread has more than
  \<^theory_text>\<open>bufferSize + (consumerCount + 2) * iterationCount\<close> rounds of waiting and looking, some
  thread can go on, until every thread has ended and every stage has the expected result.
\<close>

theorem pipeline_mt_terminates:
  assumes "bufferSize \<le> 2 ^ 62" and "0 < consumerCount" and "uint iterationCount < 2 ^ 62"
    and "uint iterationCount * (uint iterationCount - 1) < 2 ^ 64"
    and "run 0 alone (pipeline_mt_setup (blocking_wait_strategy object) bufferSize consumerCount) 0 \<sigma> = (Returned objects, \<sigma>0, l)"
    and "owner \<sigma> = (\<lambda>_. None)" and "waiting \<sigma> object = {}"
    and "unat bufferSize + (consumerCount + 2) * unat iterationCount < n"
  shows "(\<forall>f. f 0 = (\<sigma>0, pipeline_mt_threads n objects iterationCount) \<longrightarrow> (\<exists>i. \<not> pool_step (f i) (f (Suc i)))) \<and>
    (\<forall>ts \<sigma>' ps. pool_exec (map (\<lambda>t. (t, 0)) ts) (\<sigma>0, pipeline_mt_threads n objects iterationCount) = Some (\<sigma>', ps) \<longrightarrow>
       (\<exists>t. pool_exec [(t, 0)] (\<sigma>', ps) \<noteq> None) \<or>
       complete {1..consumerCount} (Some (expectedResult iterationCount)) ps)"
proof -
  obtain k where k: "bufferSize = 2 ^ k" "k \<le> 62" "waiting \<sigma>0 = waiting \<sigma>"
    and st: "mp_started k {0} {1..consumerCount} pipeline_upstream [consumerCount] (\<lambda>c. c) (blocking_wait_strategy object) n iterationCount
      (\<sigma>0, pipeline_mt_threads n objects iterationCount)"
    using assms(5,1,6,2,3) by (rule pipeline_mt_started)
  have "waiting \<sigma>0 object = {}" using k(3) assms(7) by simp
  note ends = mp_one_ends [OF st this k(1,2) assms(8,4)]
  show ?thesis by (intro conjI allI impI; erule ends)
qed

lemma pipeline_mt_terminates_witness:
  "\<exists>objects \<sigma>0 l \<sigma>' ps.
     run 0 alone (pipeline_mt_setup (blocking_wait_strategy 7) 1 2) 0 (at_rest 0) = (Returned objects, \<sigma>0, l) \<and>
     pool_exec (map (\<lambda>t. (t, 0)) ([2, 2, 2, 2] @ [0, 0, 0, 0, 0, 0, 0, 0] @ [1, 1, 1, 1, 1, 1, 1] @ [2, 2, 2, 2, 2, 2, 2, 2]))
       (\<sigma>0, pipeline_mt_threads 6 objects 1) = Some (\<sigma>', ps) \<and>
     complete {1..2} (Some (expectedResult 1)) ps"
proof -
  obtain l where r: "run 0 alone (pipeline_mt_setup (blocking_wait_strategy 7) 1 2) 0 (at_rest 0) = (Returned
      (new_multi 0 (blocking_wait_strategy 7) [2], map (\<lambda>c. new_barrier_at (blocking_wait_strategy 7) (Cell c)) [1, 2], new_buffer 0), mt_set_up 0 2, l)"
    using multi_setup_run(3) [where k = 0 and W = "blocking_wait_strategy 7" and m = 2] by (auto simp: upt_rec numeral_2_eq_2)
  obtain \<sigma>' ps where p: "pool_exec (map (\<lambda>t. (t, 0)) ([2, 2, 2, 2] @ [0, 0, 0, 0, 0, 0, 0, 0] @ [1, 1, 1, 1, 1, 1, 1] @ [2, 2, 2, 2, 2, 2, 2, 2]))
      (mt_set_up 0 2, pipeline_mt_threads 6 (new_multi 0 (blocking_wait_strategy 7) [2], map (\<lambda>c. new_barrier_at (blocking_wait_strategy 7) (Cell c)) [1, 2], new_buffer 0) 1) = Some (\<sigma>', ps)"
    and ps: "ps 0 = Return None \<and> ps 1 = Return (Some 0) \<and> ps 2 = Return (Some 0) \<and> (\<forall>t > 2. ps t = Return None)"
    using pipeline_mt_sleepy_run [of 5, unfolded rounds_6] by blast
  note e = three_threads_ended [OF ps]
  have "\<nexists>t. pool_exec [(t, 0)] (\<sigma>', ps) \<noteq> None"
    by (simp only: ended_stuck [OF e] simp_thms)
  then have "complete {1..2} (Some (expectedResult 1)) ps"
    using pipeline_mt_terminates [OF _ _ _ _ r, where n = 6 and iterationCount = 1, THEN conjunct2, rule_format,
        OF _ _ _ _ _ _ _ p]
    by (simp del: pool_exec.simps)
  with r p show ?thesis by blast
qed

text \<open>
  The diamond benchmark on the multi-threaded claim strategy, with the blocking wait
  strategy, ends however the threads are interleaved: no run is infinite, not even one in which
  the waits wake spuriously.  Where they do not, and each thread has more than
  \<^theory_text>\<open>bufferSize + (consumerCount + 2) * iterationCount\<close> rounds of waiting and looking, some
  thread can go on, until every thread has ended and every consumer has the expected result.
\<close>

theorem diamond_mt_terminates:
  assumes "bufferSize \<le> 2 ^ 62" and "1 < consumerCount" and "uint iterationCount < 2 ^ 62"
    and "uint iterationCount * (uint iterationCount - 1) < 2 ^ 64"
    and "run 0 alone (diamond_mt_setup (blocking_wait_strategy object) bufferSize consumerCount) 0 \<sigma> = (Returned objects, \<sigma>0, l)"
    and "owner \<sigma> = (\<lambda>_. None)" and "waiting \<sigma> object = {}"
    and "unat bufferSize + (consumerCount + 2) * unat iterationCount < n"
  shows "(\<forall>f. f 0 = (\<sigma>0, diamond_mt_threads n objects iterationCount) \<longrightarrow> (\<exists>i. \<not> pool_step (f i) (f (Suc i)))) \<and>
    (\<forall>ts \<sigma>' ps. pool_exec (map (\<lambda>t. (t, 0)) ts) (\<sigma>0, diamond_mt_threads n objects iterationCount) = Some (\<sigma>', ps) \<longrightarrow>
       (\<exists>t. pool_exec [(t, 0)] (\<sigma>', ps) \<noteq> None) \<or>
       complete {1..consumerCount} (Some (expectedResult iterationCount)) ps)"
proof -
  obtain k where k: "bufferSize = 2 ^ k" "k \<le> 62" "waiting \<sigma>0 = waiting \<sigma>"
    and st: "mp_started k {0} {1..consumerCount} (diamond_upstream consumerCount) [consumerCount] (\<lambda>c. c) (blocking_wait_strategy object) n iterationCount
      (\<sigma>0, diamond_mt_threads n objects iterationCount)"
    using assms(5,1,6,2,3) by (rule diamond_mt_started)
  have "waiting \<sigma>0 object = {}" using k(3) assms(7) by simp
  note ends = mp_one_ends [OF st this k(1,2) assms(8,4)]
  show ?thesis by (intro conjI allI impI; erule ends)
qed

lemma diamond_mt_terminates_witness:
  "\<exists>objects \<sigma>0 l \<sigma>' ps.
     run 0 alone (diamond_mt_setup (blocking_wait_strategy 7) 1 2) 0 (at_rest 0) = (Returned objects, \<sigma>0, l) \<and>
     pool_exec (map (\<lambda>t. (t, 0)) ([2, 2, 2, 2] @ [0, 0, 0, 0, 0, 0, 0, 0] @ [1, 1, 1, 1, 1, 1, 1] @ [2, 2, 2, 2, 2, 2, 2, 2]))
       (\<sigma>0, diamond_mt_threads 6 objects 1) = Some (\<sigma>', ps) \<and>
     complete {1..2} (Some (expectedResult 1)) ps"
proof -
  obtain l where r: "run 0 alone (diamond_mt_setup (blocking_wait_strategy 7) 1 2) 0 (at_rest 0) = (Returned
      (new_multi 0 (blocking_wait_strategy 7) [2], map (\<lambda>c. new_barrier_at (blocking_wait_strategy 7) (Cell c)) [1, 2], \<lparr>sbg_waitStrategy = (blocking_wait_strategy 7), sbg_sequences = [Cell 1]\<rparr>, new_buffer 0), mt_set_up 0 2, l)"
    using multi_setup_run(4) [where k = 0 and W = "blocking_wait_strategy 7" and m = 2] by (auto simp: upt_rec numeral_2_eq_2)
  obtain \<sigma>' ps where p: "pool_exec (map (\<lambda>t. (t, 0)) ([2, 2, 2, 2] @ [0, 0, 0, 0, 0, 0, 0, 0] @ [1, 1, 1, 1, 1, 1, 1] @ [2, 2, 2, 2, 2, 2, 2, 2]))
      (mt_set_up 0 2, diamond_mt_threads 6 (new_multi 0 (blocking_wait_strategy 7) [2], map (\<lambda>c. new_barrier_at (blocking_wait_strategy 7) (Cell c)) [1, 2], \<lparr>sbg_waitStrategy = (blocking_wait_strategy 7), sbg_sequences = [Cell 1]\<rparr>, new_buffer 0) 1) = Some (\<sigma>', ps)"
    and ps: "ps 0 = Return None \<and> ps 1 = Return (Some 0) \<and> ps 2 = Return (Some 0) \<and> (\<forall>t > 2. ps t = Return None)"
    using diamond_mt_sleepy_run [of 5, unfolded rounds_6] by blast
  note e = three_threads_ended [OF ps]
  have "\<nexists>t. pool_exec [(t, 0)] (\<sigma>', ps) \<noteq> None"
    by (simp only: ended_stuck [OF e] simp_thms)
  then have "complete {1..2} (Some (expectedResult 1)) ps"
    using diamond_mt_terminates [OF _ _ _ _ r, where n = 6 and iterationCount = 1, THEN conjunct2, rule_format,
        OF _ _ _ _ _ _ _ p]
    by (simp del: pool_exec.simps)
  with r p show ?thesis by blast
qed

end
