(* ===== verification/Access_Typing.thy ===== *)
theory Access_Typing
  imports Wait_Strategies Sequence_Barrier_Group
begin

text \<open>
  A type discipline for programs: which shared objects a program may access and what it returns,
  whatever the answers of its accesses, with the contracts of the wait strategies that only look
  at what they wait for.  What a program may not access it does not change.
\<close>

section \<open>The judgement\<close>

text \<open>Every access of the program satisfies \<open>A\<close>, everything that it can return satisfies \<open>R\<close>.\<close>

primrec typed :: "('d act \<Rightarrow> bool) \<Rightarrow> ('a \<Rightarrow> bool) \<Rightarrow> ('d, 'a) prog \<Rightarrow> bool" where
  "typed A R (Return x) = R x"
| "typed A R (Act c k) = (A c \<and> (\<forall>r. typed A R (k r)))"
| "typed A R Assert_Failed = True"
| "typed A R Out_Of_Fuel = True"

lemma typed_sound:
  "typed A R p \<Longrightarrow> ends p l out \<Longrightarrow> (\<forall>(c, r) \<in> set l. A c) \<and> (\<forall>x. out = Returned x \<longrightarrow> R x)"
proof (induction p arbitrary: l)
  case (Act c k)
  from Act.prems(2) obtain r l' where l: "l = (c, r) # l'" "ends (k r) l' out" by (auto simp: ends_Act)
  with Act.IH [OF rangeI, of r l'] Act.prems(1) show ?case by auto
qed auto

lemma typed_bind: "typed A R (bind p f) \<longleftrightarrow> typed A (\<lambda>x. typed A R (f x)) p"
  by (induction p) auto

lemma typed_mono: "typed A R p \<Longrightarrow> (\<And>c. A c \<Longrightarrow> A' c) \<Longrightarrow> (\<And>x. R x \<Longrightarrow> R' x) \<Longrightarrow> typed A' R' p"
  by (induction p) auto

lemma typed_weaken: "typed A (\<lambda>_. True) p \<Longrightarrow> (\<And>x. R x) \<Longrightarrow> typed A R p"
  by (rule typed_mono)

lemma typed_simps [simp]:
  "typed A R (do_act c p) \<longleftrightarrow> A c \<and> typed A R p"
  "typed A R (assert b p) \<longleftrightarrow> (b \<longrightarrow> typed A R p)"
  by (simp_all add: do_act_def assert_def)

lemma typed_load [simp]: "typed A R (load ord a k) \<longleftrightarrow> A (Load ord a) \<and> (\<forall>v. typed A R (k v))"
  by (auto simp: load_def) (metis seq_of.simps(1))

lemma typed_now: "A Now \<Longrightarrow> (\<And>t. typed A R (k t)) \<Longrightarrow> typed A R (now k)"
  by (simp add: now_def)

lemma typed_fetch_add: "A (Fetch_Add ord a v) \<Longrightarrow> (\<And>x. typed A R (k x)) \<Longrightarrow> typed A R (fetch_add ord a v k)"
  by (simp add: fetch_add_def)

lemma typed_cas:
  "A (Cas_Weak o1 o2 a e d) \<Longrightarrow> (\<And>ok x. typed A R (k ok x)) \<Longrightarrow> typed A R (compare_exchange_weak o1 o2 a e d k)"
  by (simp add: compare_exchange_weak_def)

text \<open>
  The accesses of the library: acquire and relaxed loads of \<open>Rd\<close>, release stores to \<open>Wr\<close>,
  read-modify-writes of \<open>Up\<close>, and synchronisation; elements of a ring buffer are none of them.
\<close>

fun confined :: "addr set \<Rightarrow> addr set \<Rightarrow> addr set \<Rightarrow> 'd act \<Rightarrow> bool" where
  "confined Rd Wr Up (Load ord a) \<longleftrightarrow> a \<in> Rd"
| "confined Rd Wr Up (Store ord a v) \<longleftrightarrow> ord = Release \<and> a \<in> Wr"
| "confined Rd Wr Up (Fetch_Add ord a v) \<longleftrightarrow> a \<in> Up"
| "confined Rd Wr Up (Cas_Weak o1 o2 a e d) \<longleftrightarrow> a \<in> Up"
| "confined Rd Wr Up (Init a v) \<longleftrightarrow> False"
| "confined Rd Wr Up (Read b i) \<longleftrightarrow> False"
| "confined Rd Wr Up (Write b i x) \<longleftrightarrow> False"
| "confined Rd Wr Up c \<longleftrightarrow> True"

lemma confined_mono: "confined Rd Wr Up c \<Longrightarrow> Rd \<subseteq> Rd' \<Longrightarrow> Wr \<subseteq> Wr' \<Longrightarrow> Up \<subseteq> Up' \<Longrightarrow> confined Rd' Wr' Up' c"
  by (cases c) auto

lemma typed_widen:
  "typed (confined Rd Wr Up) (\<lambda>_. True) p \<Longrightarrow> Rd \<subseteq> Rd' \<Longrightarrow> Wr \<subseteq> Wr' \<Longrightarrow> Up \<subseteq> Up' \<Longrightarrow> (\<And>x. R x) \<Longrightarrow>
    typed (confined Rd' Wr' Up') R p"
  by (erule typed_mono) (auto intro: confined_mono)

lemma typed_minimum_sequence_loop: "set as \<subseteq> Rd \<Longrightarrow> typed (confined Rd Wr Up) (\<lambda>_. True) (minimum_sequence_loop as v)"
  by (induction as arbitrary: v) auto

lemma typed_minimum_sequence: "set as \<subseteq> Rd \<Longrightarrow> typed (confined Rd Wr Up) (\<lambda>_. True) (minimum_sequence as)"
  by (cases as) (auto simp: minimum_sequence_def typed_minimum_sequence_loop)

lemma typed_minimum_sequence_after_loop:
  "set as \<subseteq> Rd \<Longrightarrow> typed (confined Rd Wr Up) (\<lambda>_. True) (minimum_sequence_after_loop m as d)"
  by (induction as arbitrary: d) auto

lemma typed_minimum_sequence_after:
  "set as \<subseteq> Rd \<Longrightarrow> typed (confined Rd Wr Up) (\<lambda>_. True) (minimum_sequence_after m as)"
  by (cases as) (auto simp: minimum_sequence_after_def typed_minimum_sequence_after_loop)

lemmas typed_minimum = typed_minimum_sequence_after [THEN typed_weaken] typed_minimum_sequence [THEN typed_weaken]

section \<open>What a run changes\<close>

text \<open>
  The entries of a log that change an atomic object or an element of a ring buffer: a
  compare-exchange does when it succeeds.
\<close>

fun changing :: "'d act \<times> 'd resp \<Rightarrow> bool" where
  "changing (Init a v, r) \<longleftrightarrow> True"
| "changing (Store ord a v, r) \<longleftrightarrow> True"
| "changing (Fetch_Add ord a v, r) \<longleftrightarrow> True"
| "changing (Cas_Weak o1 o2 a e d, r) \<longleftrightarrow> bool_of r"
| "changing (Write b i x, r) \<longleftrightarrow> True"
| "changing (c, r) \<longleftrightarrow> False"

definition changes :: "'d log \<Rightarrow> 'd log" where
  "changes l = filter changing l"

lemma changes_simps [simp]:
  "changes [] = []" "changes (l @ l') = changes l @ changes l'"
  "changes (e # l) = (if changing e then e # changes l else changes l)"
  by (simp_all add: changes_def)

lemma exec_not_changing:
  "exec t n c \<sigma> = Some (r, \<sigma>') \<Longrightarrow> \<not> changing (c, r) \<Longrightarrow> mem \<sigma>' = mem \<sigma> \<and> cells \<sigma>' = cells \<sigma>"
  by (cases c) (auto split: if_splits)

text \<open>A program alone whose log has no change leaves all atomics and ring buffers as they are.\<close>

lemma run_changes_nothing:
  "run t alone p i \<sigma> = (out, \<sigma>', l) \<Longrightarrow> changes l = [] \<Longrightarrow> mem \<sigma>' = mem \<sigma> \<and> cells \<sigma>' = cells \<sigma>"
proof (induction p arbitrary: i \<sigma> l)
  case (Act c k)
  show ?case
  proof (cases "exec t 0 c \<sigma>")
    case None
    with Act.prems(1) show ?thesis by (simp add: alone_def)
  next
    case (Some e)
    obtain r \<sigma>1 where e: "exec t 0 c \<sigma> = Some (r, \<sigma>1)" using Some by (cases e) auto
    obtain out1 \<sigma>2 l1 where r: "run t alone (k r) (Suc i) \<sigma>1 = (out1, \<sigma>2, l1)"
      by (cases "run t alone (k r) (Suc i) \<sigma>1") auto
    have "out1 = out" "\<sigma>2 = \<sigma>'" "l = (c, r) # l1" using Act.prems(1) e r by (auto simp: alone_def)
    with Act.IH [OF rangeI, of r "Suc i" \<sigma>1 l1] Act.prems(2) r exec_not_changing [OF e]
    show ?thesis by (auto split: if_splits)
  qed
qed auto

lemma confined_not_changing: "confined Rd {} {} c \<Longrightarrow> \<not> changing (c, r)"
  by (cases c) auto

lemma typed_changes_nothing:
  assumes "typed (confined Rd {} {}) R p" and "ends p l out"
  shows "changes l = []"
  using typed_sound [OF assms] confined_not_changing by (fastforce simp: changes_def filter_empty_conv)

section \<open>Wait strategies that only look at what they wait for\<close>

lemma typed_group_last_published:
  "set (sbg_sequences g) \<subseteq> Rd \<Longrightarrow> (\<And>x. R x) \<Longrightarrow> typed (confined Rd Wr Up) R (group_last_published g)"
  by (auto simp: group_last_published_def intro!: typed_minimum)

lemma group_last_published_changes: "ends (group_last_published g) l out \<Longrightarrow> changes l = []"
  by (rule typed_changes_nothing [OF typed_group_last_published [OF order_refl, where R = "\<lambda>_. True"]]) auto

locale confined_wait_strategy = wait_strategy_model W for W :: "'d wait_strategy" +
  assumes typed_wait: "typed (confined (set as) {} {}) (\<lambda>_. True) (ws_wait_until_published W n m as)"
    and typed_signal: "typed (confined {} {} {}) (\<lambda>_. True) (ws_signal_all_when_blocking W)"
begin

lemma typed_waits:
  assumes "set as \<subseteq> Rd" "\<And>x. R x"
  shows "typed (confined Rd Wr Up) R (ws_wait_until_published W n m as)"
  using assms by (simp add: typed_widen [OF typed_wait])

lemma typed_signals: "R () \<Longrightarrow> typed (confined Rd Wr Up) R (ws_signal_all_when_blocking W)"
  by (rule typed_widen [OF typed_signal]) auto

lemma typed_group_waits:
  assumes "sbg_waitStrategy g = W" "set (sbg_sequences g) \<subseteq> Rd" "\<And>x. R x"
  shows "typed (confined Rd Wr Up) R (group_wait_until_published n g m)"
  using assms(2,3)
  by (auto simp: assms(1) group_wait_defs typed_bind intro!: typed_minimum typed_waits)

lemma typed_barrier_waits:
  assumes "sb_waitStrategy b = W" "sb_lastPublished b \<in> Rd" "\<And>x. R x"
  shows "typed (confined Rd Wr Up) R (barrier_wait_until_published n b m)"
    and "typed (confined Rd Wr Up) R (barrier_last_published b)"
  using assms(2,3) by (auto simp: assms(1) barrier_wait_defs typed_bind Let_def intro!: typed_waits)

lemma typed_barrier_publish:
  assumes "sb_waitStrategy b = W" "sb_lastPublished b \<in> Wr" "R ()"
  shows "typed (confined Rd Wr Up) R (barrier_publish b x)"
  using assms by (simp add: barrier_publish_def typed_signals)

end

text \<open>The same of the waits with a limit, where the strategy has them.\<close>

locale confined_timed_wait_strategy = confined_wait_strategy W + timed_wait_strategy_model W
  for W :: "'d wait_strategy" +
  assumes typed_wait_for: "typed (confined (set as) {} {}) (\<lambda>_. True) (ws_timed_wait_for W n m as d)"
    and typed_wait_until: "typed (confined (set as) {} {}) (\<lambda>_. True) (ws_timed_wait_until W n m as d)"
begin

lemma typed_timed_waits:
  assumes "set as \<subseteq> Rd" "\<And>x. R x"
  shows "typed (confined Rd Wr Up) R (ws_timed_wait_for W n m as d)"
    and "typed (confined Rd Wr Up) R (ws_timed_wait_until W n m as d)"
  using assms by (simp_all add: typed_widen [OF typed_wait_for] typed_widen [OF typed_wait_until])

lemma typed_group_timed_waits:
  assumes "sbg_waitStrategy g = W" "set (sbg_sequences g) \<subseteq> Rd" "\<And>x. R x"
  shows "typed (confined Rd Wr Up) R (group_wait_until_published_for n g m d)"
    and "typed (confined Rd Wr Up) R (group_wait_until_published_until n g m d)"
  using assms(2,3)
  by (auto simp: assms(1) group_wait_defs typed_bind intro!: typed_minimum typed_timed_waits)

lemma typed_barrier_timed_waits:
  assumes "sb_waitStrategy b = W" "sb_lastPublished b \<in> Rd" "\<And>x. R x"
  shows "typed (confined Rd Wr Up) R (barrier_wait_until_published_for n b m d)"
    and "typed (confined Rd Wr Up) R (barrier_wait_until_published_until n b m d)"
  using assms(2,3)
  by (auto simp: assms(1) barrier_wait_defs typed_bind Let_def intro!: typed_timed_waits)

lemma group_timed_wait_changes:
  assumes "sbg_waitStrategy g = W"
  shows "ends (group_wait_until_published_for n g m d) l out \<Longrightarrow> changes l = []"
    and "ends (group_wait_until_published_until n g m d) l out \<Longrightarrow> changes l = []"
  using typed_changes_nothing [OF typed_group_timed_waits(1) [OF assms order_refl, where R = "\<lambda>_. True"]]
    typed_changes_nothing [OF typed_group_timed_waits(2) [OF assms order_refl, where R = "\<lambda>_. True"]] by auto

end

subsection \<open>Both strategies of the library are such\<close>

lemma typed_pause_loop: "R () \<Longrightarrow> typed (confined Rd Wr Up) R (pause_loop n)"
  by (induction n) auto

lemma typed_spin_once: "(\<And>x. R x) \<Longrightarrow> typed (confined Rd Wr Up) R (spin_once s)"
  by (auto simp: spin_once_def typed_bind Let_def intro: typed_pause_loop)

lemma typed_new_spin_wait: "(\<And>x. R x) \<Longrightarrow> typed (confined Rd Wr Up) R new_spin_wait"
  by (simp add: new_spin_wait_def spin_reset_def hardware_concurrency_def)

lemma typed_spin_until_published: "typed (confined (set as) {} {}) (\<lambda>_. True) (spin_until_published n m as sp r)"
  by (induction n arbitrary: sp r) (auto simp: typed_bind intro!: typed_spin_once typed_minimum)

lemma typed_spin_until_published_or:
  "typed (confined (set as) {} {}) (\<lambda>_. True) (spin_until_published_or n m as d sp r)"
  by (induction n arbitrary: sp r) (auto simp: typed_bind Let_def intro!: typed_spin_once typed_minimum typed_now)

lemma typed_cv_wait: "(\<And>x. R x) \<Longrightarrow> typed (confined (set as) {} {}) R (cv_wait object n m as)"
  by (induction n) (auto simp: typed_bind intro!: typed_minimum)

interpretation spin_confined: confined_timed_wait_strategy "spin_wait_strategy object" for object :: nat
  by unfold_locales
    (auto simp: spin_wait_strategy_def spin_wait_until_published_def spin_wait_until_published_for_def
      spin_wait_until_published_until_def spin_signal_all_when_blocking_def typed_bind
      intro!: typed_new_spin_wait typed_minimum typed_spin_until_published typed_spin_until_published_or typed_now)

interpretation blocking_confined: confined_wait_strategy "blocking_wait_strategy object" for object :: nat
  by unfold_locales
    (auto simp: blocking_wait_strategy_def blocking_wait_until_published_def
      blocking_signal_all_when_blocking_def typed_bind intro!: typed_cv_wait)

lemma library_strategy_confined: "W \<in> library_strategies \<Longrightarrow> confined_wait_strategy W"
  using spin_confined.confined_wait_strategy_axioms blocking_confined.confined_wait_strategy_axioms
  by (auto elim!: library_strategy_cases)

lemma timed_strategy_confined: "W \<in> timed_strategies \<Longrightarrow> confined_timed_wait_strategy W"
  using spin_confined.confined_timed_wait_strategy_axioms by (auto simp: timed_strategies_eq)

end
