(* ===== verification/Claim_Contract.thy ===== *)
theory Claim_Contract
  imports Access_Typing Sequence_Range
begin

text \<open>
  What the claim operations of both claim strategies promise of a claimed range, and what the
  barrier groups they wait on contribute to it: a claimed slot has been seen given back by
  every claim barrier, and a wait that gave up has a deadline behind it.
\<close>

section \<open>Differences within a window\<close>

lemma difference_sub:
  assumes "\<bar>difference a m\<bar> < 2 ^ 62" and "\<bar>difference b m\<bar> < 2 ^ 62"
  shows "difference a b = difference a m - difference b m"
proof -
  have "a - b = word_of_int (difference a m - difference b m)"
    by (simp add: difference_def)
  then have "difference a b = sint (word_of_int (difference a m - difference b m) :: sequence_t)"
    unfolding difference_def by metis
  also have "\<dots> = difference a m - difference b m"
    using assms by (intro sint_small) auto
  finally show ?thesis .
qed

lemma difference_offset:
  assumes "- (2 ^ 63) \<le> difference v m - k" and "difference v m - k < 2 ^ 63"
  shows "difference v (m + word_of_int k) = difference v m - k"
proof -
  have "v - (m + word_of_int k) = word_of_int (difference v m - k)"
    by (simp add: difference_def)
  then have "difference v (m + word_of_int k) = sint (word_of_int (difference v m - k) :: sequence_t)"
    unfolding difference_def by metis
  also have "\<dots> = difference v m - k" using assms by (rule sint_small)
  finally show ?thesis .
qed

lemma difference_back:
  assumes "uint i \<le> difference v m"
  shows "difference v (m + i) = difference v m - uint i"
proof -
  have "difference v m - uint i < 2 ^ 63"
    using difference_bounds(2) [of v m] uint_ge_0 [of i] by linarith
  moreover have "- (2 ^ 63) \<le> difference v m - uint i" using assms by simp
  ultimately show ?thesis using difference_offset [of v m "uint i"] by simp
qed

lemma foldl_min_window:
  assumes "\<And>v. v \<in> set (u # vs) \<Longrightarrow> \<bar>difference v m\<bar> < 2 ^ 62"
    and "r = foldl (\<lambda>m v. if difference v m < 0 then v else m) u vs"
  shows "r \<in> set (u # vs) \<and> (\<forall>v \<in> set (u # vs). difference r m \<le> difference v m)"
  using assms
proof (induction vs arbitrary: u)
  case (Cons w vs)
  define x where "x = (if difference w u < 0 then w else u)"
  have d: "difference w u = difference w m - difference u m"
    using Cons.prems(1) by (intro difference_sub) auto
  have x: "x \<in> {u, w}" "difference x m \<le> difference u m" "difference x m \<le> difference w m"
    using d by (auto simp: x_def)
  have "r \<in> set (x # vs) \<and> (\<forall>v \<in> set (x # vs). difference r m \<le> difference v m)"
    using Cons.prems x(1) by (intro Cons.IH) (auto simp: x_def)
  then show ?case using x by auto
qed simp

text \<open>The values a run has loaded from the claim barriers lie within \<open>2 ^ 62\<close> of \<open>m\<close>.\<close>

definition loads_near :: "addr list \<Rightarrow> sequence_t \<Rightarrow> 'd log \<Rightarrow> bool" where
  "loads_near as m l \<longleftrightarrow> (\<forall>a \<in> set as. \<forall>v. (Load Acquire a, RSeq v) \<in> set l \<longrightarrow> \<bar>difference v m\<bar> < 2 ^ 62)"

lemma loads_near_mono: "loads_near as m l \<Longrightarrow> set l' \<subseteq> set l \<Longrightarrow> loads_near as m l'"
  unfolding loads_near_def by blast

lemma group_last_published_saw:
  assumes r: "returns (group_last_published g) l r" and near: "loads_near (sbg_sequences g) m l"
  shows "saw (sbg_sequences g) m r l"
proof -
  from r obtain v vs where vs: "length (v # vs) = length (sbg_sequences g)" "l = load_log (sbg_sequences g) (v # vs)"
    and fold: "r = foldl (\<lambda>m v. if difference v m < 0 then v else m) v vs"
    by (auto simp: group_last_published_def ends_assert returns_minimum_sequence split: if_splits)
  have "\<bar>difference u m\<bar> < 2 ^ 62" if "u \<in> set (v # vs)" for u
    using load_log_memberD [of "v # vs" "sbg_sequences g" u] that vs near by (auto simp: loads_near_def)
  from foldl_min_window [OF this fold]
  have least: "r \<in> set (v # vs)" "\<forall>u \<in> set (v # vs). difference r m \<le> difference u m" by blast+
  moreover obtain a where "a \<in> set (sbg_sequences g)" "(Load Acquire a, RSeq r) \<in> set l"
    using load_log_memberD [of "v # vs" "sbg_sequences g" r] least(1) vs by auto
  ultimately show ?thesis
    unfolding saw_def saw_all_def saw_lag_def using vs by (auto intro!: exI [of _ "v # vs"])
qed

section \<open>The contract of a claim\<close>

text \<open>
  Every claim barrier was seen to have given back every slot of the range: the value loaded
  from it is at or after the position one buffer before.
\<close>

definition slots_free :: "addr list \<Rightarrow> size_t \<Rightarrow> sequence_range \<Rightarrow> 'd log \<Rightarrow> bool" where
  "slots_free gates N rng l \<longleftrightarrow> (\<forall>a \<in> set gates. \<exists>v. (Load Acquire a, RSeq v) \<in> set l \<and>
     (\<forall>i < range_size rng. 0 \<le> difference v (range_nth rng i - N)))"

text \<open>At most \<open>count\<close> slots from the next one on, and at least one when any are asked for.\<close>

definition claims_up_to :: "size_t \<Rightarrow> sequence_t \<Rightarrow> sequence_range \<Rightarrow> bool" where
  "claims_up_to count nxt rng \<longleftrightarrow> range_first rng = nxt \<and> range_size rng \<le> count \<and>
     (0 < count \<longrightarrow> 0 < range_size rng)"

lemma slots_freeI:
  assumes "saw_all gates (nxt - N) r l" and "uint n \<le> difference r (nxt - N) + 1"
  shows "slots_free gates N (sequence_range nxt n) l"
  unfolding slots_free_def
proof
  fix a assume "a \<in> set gates"
  then obtain v where v: "(Load Acquire a, RSeq v) \<in> set l" "difference r (nxt - N) \<le> difference v (nxt - N)"
    using saw_allD [OF assms(1)] by blast
  have "0 \<le> difference v (range_nth (sequence_range nxt n) i - N)" if "i < n" for i
  proof -
    have i: "uint i \<le> difference v (nxt - N)" using that assms(2) v(2) by (simp add: word_less_def)
    have "range_nth (sequence_range nxt n) i - N = (nxt - N) + i" by (simp add: sequence_range_defs)
    then show ?thesis using i by (simp only: difference_back [OF i] diff_ge_0_iff_ge)
  qed
  with v(1) show "\<exists>v. (Load Acquire a, RSeq v) \<in> set l \<and>
      (\<forall>i < range_size (sequence_range nxt n). 0 \<le> difference v (range_nth (sequence_range nxt n) i - N))"
    by (auto simp: sequence_range_defs)
qed

text \<open>For ranges not longer than the buffer, it is enough to look at the last slot.\<close>

lemma pow_numerals: "(2 :: int) ^ 63 = 9223372036854775808" "(2 :: int) ^ 62 = 4611686018427387904"
  by simp_all

lemma slots_free_last:
  assumes "0 < n" "n \<le> N" "N \<le> 2 ^ 62"
    and seen: "\<And>a. a \<in> set gates \<Longrightarrow> \<exists>v. (Load Acquire a, RSeq v) \<in> set l \<and>
      0 \<le> difference v (range_last (sequence_range x n) - N) \<and> difference v x < 2 ^ 62"
  shows "slots_free gates N (sequence_range x n) l"
  unfolding slots_free_def
proof
  fix a assume "a \<in> set gates"
  with seen obtain v where v: "(Load Acquire a, RSeq v) \<in> set l"
    "0 \<le> difference v (range_last (sequence_range x n) - N)" "difference v x < 4611686018427387904"
    unfolding pow_numerals by blast
  have "uint N \<le> uint (2 ^ 62 :: 64 word)" using assms(3) by (simp only: word_le_def)
  then have N: "uint n \<le> uint N" "uint N \<le> 4611686018427387904" "0 < uint n"
    using assms(1,2) by (simp_all add: word_le_def word_less_def)
  note d = difference_bounds(1) [of v x, unfolded pow_numerals]
  note offset = difference_offset [unfolded pow_numerals]
  have last: "range_last (sequence_range x n) - N = x + word_of_int (uint n - 1 - uint N)"
    by (simp add: sequence_range_defs)
  have e: "0 \<le> difference v x - (uint n - 1 - uint N)"
    using v(2) unfolding last
    by (subst (asm) offset) (use N d v(3) in linarith)+
  have "0 \<le> difference v (range_nth (sequence_range x n) i - N)" if "i < n" for i
  proof -
    have i: "uint i < uint n" "0 \<le> uint i" using that by (simp_all add: word_less_def)
    have nth: "range_nth (sequence_range x n) i - N = x + word_of_int (uint i - uint N)"
      by (simp add: sequence_range_defs)
    show ?thesis unfolding nth by (subst offset) (use N i d v(3) e in linarith)+
  qed
  with v(1) show "\<exists>v. (Load Acquire a, RSeq v) \<in> set l \<and>
      (\<forall>i < range_size (sequence_range x n). 0 \<le> difference v (range_nth (sequence_range x n) i - N))"
    by (auto simp: sequence_range_defs)
qed

text \<open>The slots available, as the code computes them.\<close>

lemma difference_claimable: "difference (r + N) nxt = difference r (nxt - N)"
  by (simp add: difference_def algebra_simps)

lemma available_word:
  assumes "0 \<le> difference a b"
  shows "uint (word_of_int (difference a b + 1) :: size_t) = difference a b + 1"
  unfolding uint_word_of_int using assms difference_bounds(2) [of a b] by (intro mod_pos_pos_trivial) simp_all

text \<open>The waits of a group fail only the assertion that it has a barrier.\<close>

lemma group_wait_fails:
  assumes "W \<in> library_strategies" and "sbg_waitStrategy g = W"
  shows "fails (group_wait_until_published n g m) l \<longleftrightarrow> sbg_sequences g = [] \<and> l = []"
  using waits_only_not_fails [OF wait_strategy_model.waits_only_group_wait
      [OF library_strategy_model [OF assms(1)] assms(2)], of n m l]
  by (cases "sbg_sequences g = []"; simp add: group_wait_defs ends_assert)

lemma group_timed_wait_fails:
  assumes "W \<in> timed_strategies" and "sbg_waitStrategy g = W"
  shows "fails (group_wait_until_published_for n g m d) l \<longleftrightarrow> sbg_sequences g = [] \<and> l = []"
    and "fails (group_wait_until_published_until n g m d) l \<longleftrightarrow> sbg_sequences g = [] \<and> l = []"
  using waits_only_not_fails [OF timed_wait_strategy_model.waits_only_group_timed_waits(1)
      [OF timed_strategy_model [OF assms(1)] assms(2)], of n m d l]
    waits_only_not_fails [OF timed_wait_strategy_model.waits_only_group_timed_waits(2)
      [OF timed_strategy_model [OF assms(1)] assms(2)], of n m d l]
  by (cases "sbg_sequences g = []"; simp add: group_wait_defs ends_assert)+

lemma group_last_published_fails:
  "fails (group_last_published g) l \<longleftrightarrow> sbg_sequences g = [] \<and> l = []"
  using waits_only_group_last_published [of g] waits_only_not_fails [of "group_last_published g"]
  by (cases "sbg_sequences g = []") (auto simp: group_last_published_def ends_assert)

end
