(* ===== verification/Single_Threaded_Claims.thy ===== *)
theory Single_Threaded_Claims
  imports Single_Threaded_Claim_Strategy Claim_Contract
begin

text \<open>
  What the claim operations of single_threaded_claim_strategy promise, on every completed
  run, with either wait strategy: which slots are claimed, that each has been given back by
  every claim barrier, how the strategy changes, and when an operation gives up.
\<close>

section \<open>Taking slots\<close>

lemma st_take_claims:
  assumes "saw_all gates (st_nextSequenceToClaim s - N) r l"
    and "st_take s count (difference (r + N) (st_nextSequenceToClaim s)) = (rng, s')"
  shows "claims_up_to count (st_nextSequenceToClaim s) rng \<and> slots_free gates N rng l \<and>
    s' = s\<lparr>st_nextSequenceToClaim := range_end rng\<rparr>"
proof -
  let ?d = "difference r (st_nextSequenceToClaim s - N)"
  define n where "n = min count (word_of_int (?d + 1))"
  have d: "0 \<le> ?d" using assms(1) by (simp add: saw_all_def)
  have rng: "rng = sequence_range (st_nextSequenceToClaim s) n"
    "s' = s\<lparr>st_nextSequenceToClaim := st_nextSequenceToClaim s + n\<rparr>"
    using assms(2) by (auto simp: st_take_def difference_claimable n_def Let_def)
  have "uint n \<le> uint (word_of_int (?d + 1) :: size_t)" by (simp add: n_def flip: word_le_def)
  then have "uint n \<le> ?d + 1" using available_word [OF d] by simp
  then have "slots_free gates N rng l" unfolding rng using assms(1) by (intro slots_freeI)
  moreover have "0 < n" if "0 < count"
  proof -
    have "0 < uint (word_of_int (?d + 1) :: size_t)" using available_word [OF d] d by simp
    then have "0 < (word_of_int (?d + 1) :: size_t)" by (simp add: word_less_def)
    with that show ?thesis by (simp add: n_def)
  qed
  ultimately show ?thesis by (simp add: rng claims_up_to_def sequence_range_defs n_def)
qed

text \<open>A claim barrier was seen lagging: it had not given back the next slot.\<close>

abbreviation seen_full :: "'d single_claim \<Rightarrow> 'd log \<Rightarrow> bool" where
  "seen_full s l \<equiv> \<exists>a \<in> set (sbg_sequences (st_claimBarrier s)). \<exists>v. (Load Acquire a, RSeq v) \<in> set l \<and>
     difference v (st_nextSequenceToClaim s - st_bufferSize s) < 0"

abbreviation st_claimed :: "size_t \<Rightarrow> 'd single_claim \<Rightarrow> sequence_range \<Rightarrow> 'd single_claim \<Rightarrow> 'd log \<Rightarrow> bool" where
  "st_claimed count s rng s' l \<equiv> claims_up_to count (st_nextSequenceToClaim s) rng \<and>
     slots_free (sbg_sequences (st_claimBarrier s)) (st_bufferSize s) rng l \<and>
     s' = s\<lparr>st_nextSequenceToClaim := range_end rng\<rparr>"

lemma st_try_claim_returns:
  assumes "returns (st_try_claim s count rng) l (ok, rng', s')"
    and "loads_near (sbg_sequences (st_claimBarrier s)) (st_nextSequenceToClaim s - st_bufferSize s) l"
  shows "if ok then st_claimed count s rng' s' l else rng' = rng \<and> s' = s \<and> seen_full s l"
proof -
  let ?g = "st_claimBarrier s" and ?m = "st_nextSequenceToClaim s - st_bufferSize s"
  from assms(1) obtain p l2 where l: "returns (group_last_published ?g) l p"
    and r: "if difference p ?m < 0 then (ok, rng', s') = (False, rng, s)
      else ok \<and> st_take s count (difference (p + st_bufferSize s) (st_nextSequenceToClaim s)) = (rng', s')"
    by (auto simp: st_try_claim_def returns_bind ends_Return ends_assert Let_def difference_claimable split: if_splits)
  have saw: "saw (sbg_sequences ?g) ?m p l" using l assms(2) by (rule group_last_published_saw)
  show ?thesis
  proof (cases "difference p ?m < 0")
    case True
    with saw r show ?thesis by (auto simp: saw_def saw_lag_def)
  next
    case False
    then have "saw_all (sbg_sequences ?g) ?m p l" using saw by (simp add: saw_def)
    with False r show ?thesis by (auto dest: st_take_claims split: if_splits)
  qed
qed

lemma st_timed_claim_returns:
  assumes "returns (if claimed then Return (True, rng, s) else bind p (\<lambda>published.
      let claimable = published + st_bufferSize s; diff = difference claimable (st_nextSequenceToClaim s)
      in if diff < 0 then Return (False, rng, s) else Return (True, st_take s count diff))) l (ok, rng', s')"
    and "\<not> claimed"
    and "\<And>r. returns p l r \<Longrightarrow> saw (sbg_sequences (st_claimBarrier s)) (st_nextSequenceToClaim s - st_bufferSize s) r l"
    and "\<And>r. returns p l r \<Longrightarrow> difference r (st_nextSequenceToClaim s - st_bufferSize s) < 0 \<Longrightarrow> D"
  shows "if ok then st_claimed count s rng' s' l else rng' = rng \<and> s' = s \<and> seen_full s l \<and> D"
proof -
  let ?m = "st_nextSequenceToClaim s - st_bufferSize s"
  from assms(1,2) obtain r where r: "returns p l r"
    and o: "if difference r ?m < 0 then (ok, rng', s') = (False, rng, s)
      else ok \<and> st_take s count (difference (r + st_bufferSize s) (st_nextSequenceToClaim s)) = (rng', s')"
    by (auto simp: returns_bind ends_Return Let_def difference_claimable split: if_splits)
  note saw = assms(3) [OF r]
  show ?thesis
  proof (cases "difference r ?m < 0")
    case True
    with saw o assms(4) [OF r] show ?thesis by (auto simp: saw_def saw_lag_def)
  next
    case False
    then have "saw_all (sbg_sequences (st_claimBarrier s)) ?m r l" using saw by (simp add: saw_def)
    with False o show ?thesis by (auto dest: st_take_claims split: if_splits)
  qed
qed

section \<open>The claim operations\<close>

lemmas run_claim_defs = st_claim_def st_try_claim_def st_try_claim_for_def st_try_claim_until_def st_take_def
  group_wait_defs group_last_published_def minimum_sequence_def minimum_sequence_after_def difference_def
  load_def assert_def sequence_range_def Let_def

text \<open>
  C23.  \<open>claim_one\<close> returns the next sequence number and advances by one; when it returns, every
  claim barrier has been seen to have given back the slot.
\<close>

theorem st_claim_one_correct:
  assumes "W \<in> library_strategies" and "sbg_waitStrategy (st_claimBarrier s) = W"
    and "returns (st_claim_one n s) l (x, s')"
  shows "x = st_nextSequenceToClaim s \<and> s' = s\<lparr>st_nextSequenceToClaim := x + 1\<rparr> \<and>
    (\<forall>a \<in> set (sbg_sequences (st_claimBarrier s)). \<exists>v. (Load Acquire a, RSeq v) \<in> set l \<and>
       0 \<le> difference v (x - st_bufferSize s))"
proof -
  note W = library_strategy_model [OF assms(1)]
  obtain r where r: "returns (group_wait_until_published n (st_claimBarrier s)
      (st_nextSequenceToClaim s - st_bufferSize s)) l r"
    and x: "x = st_nextSequenceToClaim s" "s' = s\<lparr>st_nextSequenceToClaim := x + 1\<rparr>"
    using assms(3) by (auto simp: st_claim_one_def returns_bind ends_Return)
  show ?thesis
    using saw_allD [OF wait_strategy_model.returns_group_wait [OF W assms(2) r]] x by blast
qed

lemma st_claim_one_correct_witness:
  "let s = \<lparr>st_bufferSize = 4, st_nextSequenceToClaim = 4,
       st_claimBarrier = \<lparr>sbg_waitStrategy = spin_wait_strategy 7, sbg_sequences = [Cell 1]\<rparr>,
       st_readBarrier = \<lparr>sb_waitStrategy = spin_wait_strategy 7, sb_lastPublished = Cell 0\<rparr>\<rparr> :: unit single_claim;
     l = [(Load Acquire (Cell 1), RSeq 0)]
   in returns (st_claim_one 0 s) l (4, s\<lparr>st_nextSequenceToClaim := 5\<rparr>) \<and>
     (\<forall>a \<in> set (sbg_sequences (st_claimBarrier s)). \<exists>v. (Load Acquire a, RSeq v) \<in> set l \<and> 0 \<le> difference v 0)"
proof -
  let ?s = "\<lparr>st_bufferSize = 4, st_nextSequenceToClaim = 4,
       st_claimBarrier = \<lparr>sbg_waitStrategy = spin_wait_strategy 7, sbg_sequences = [Cell 1]\<rparr>,
       st_readBarrier = \<lparr>sb_waitStrategy = spin_wait_strategy 7, sb_lastPublished = Cell 0\<rparr>\<rparr> :: unit single_claim"
  have r: "returns (st_claim_one 0 ?s) [(Load Acquire (Cell 1), RSeq 0)] (4, ?s\<lparr>st_nextSequenceToClaim := 5\<rparr>)"
    by (simp add: st_claim_one_def group_wait_defs minimum_sequence_after_def difference_def path_simps)
  have "sbg_waitStrategy (st_claimBarrier ?s) = spin_wait_strategy 7" by simp
  from st_claim_one_correct [OF library_strategiesI(1) this r] r show ?thesis by (simp add: Let_def)
qed

text \<open>
  C24.  \<open>claim\<close> takes at most \<open>count\<close> slots, at least one when \<open>count\<close> is not 0, consecutive from
  the next one on; it advances past them, and every claim barrier has been seen to have given
  back each of them.
\<close>

theorem st_claim_correct:
  assumes "W \<in> library_strategies" and "sbg_waitStrategy (st_claimBarrier s) = W"
    and "returns (st_claim n s count) l (rng, s')"
  shows "claims_up_to count (st_nextSequenceToClaim s) rng \<and>
    slots_free (sbg_sequences (st_claimBarrier s)) (st_bufferSize s) rng l \<and>
    s' = s\<lparr>st_nextSequenceToClaim := range_end rng\<rparr>"
proof -
  note W = library_strategy_model [OF assms(1)]
  obtain r where r: "returns (group_wait_until_published n (st_claimBarrier s)
      (st_nextSequenceToClaim s - st_bufferSize s)) l r"
    and t: "st_take s count (difference (r + st_bufferSize s) (st_nextSequenceToClaim s)) = (rng, s')"
    using assms(3) by (auto simp: st_claim_def returns_bind ends_Return ends_assert Let_def split: if_splits)
  show ?thesis
    using wait_strategy_model.returns_group_wait [OF W assms(2) r] t by (rule st_take_claims)
qed

lemma st_claim_correct_witness:
  "let s = \<lparr>st_bufferSize = 4, st_nextSequenceToClaim = 2,
       st_claimBarrier = \<lparr>sbg_waitStrategy = spin_wait_strategy 7, sbg_sequences = [Cell 1]\<rparr>,
       st_readBarrier = \<lparr>sb_waitStrategy = spin_wait_strategy 7, sb_lastPublished = Cell 0\<rparr>\<rparr> :: unit single_claim;
     l = [(Load Acquire (Cell 1), RSeq (- 1))]
   in returns (st_claim 0 s 9) l (sequence_range 2 2, s\<lparr>st_nextSequenceToClaim := 4\<rparr>) \<and>
     claims_up_to 9 2 (sequence_range 2 2) \<and> slots_free [Cell 1] 4 (sequence_range 2 2) l"
proof -
  let ?s = "\<lparr>st_bufferSize = 4, st_nextSequenceToClaim = 2,
       st_claimBarrier = \<lparr>sbg_waitStrategy = spin_wait_strategy 7, sbg_sequences = [Cell 1]\<rparr>,
       st_readBarrier = \<lparr>sb_waitStrategy = spin_wait_strategy 7, sb_lastPublished = Cell 0\<rparr>\<rparr> :: unit single_claim"
  have "run 0 alone (st_claim 0 ?s 9) 0 (put (Cell 1) (- 1) (at_rest ())) =
      (Returned (sequence_range 2 2, ?s\<lparr>st_nextSequenceToClaim := 4\<rparr>), put (Cell 1) (- 1) (at_rest ()),
       [(Load Acquire (Cell 1), RSeq (- 1))])"
    by (simp add: run_claim_defs)
  then have r: "returns (st_claim 0 ?s 9) [(Load Acquire (Cell 1), RSeq (- 1))]
      (sequence_range 2 2, ?s\<lparr>st_nextSequenceToClaim := 4\<rparr>)"
    by (rule run_ends) simp
  have "sbg_waitStrategy (st_claimBarrier ?s) = spin_wait_strategy 7" by simp
  from st_claim_correct [OF library_strategiesI(1) this r] r show ?thesis by (simp add: Let_def)
qed

text \<open>A claim strategy with buffer size 4 and one claim barrier, for the examples.\<close>

definition small_claims :: "sequence_t \<Rightarrow> unit single_claim" where
  "small_claims nxt = \<lparr>st_bufferSize = 4, st_nextSequenceToClaim = nxt,
     st_claimBarrier = \<lparr>sbg_waitStrategy = spin_wait_strategy 7, sbg_sequences = [Cell 1]\<rparr>,
     st_readBarrier = \<lparr>sb_waitStrategy = spin_wait_strategy 7, sb_lastPublished = Cell 0\<rparr>\<rparr>"

lemma small_claims_select [simp]:
  "st_bufferSize (small_claims nxt) = 4" "st_nextSequenceToClaim (small_claims nxt) = nxt"
  "st_claimBarrier (small_claims nxt) = \<lparr>sbg_waitStrategy = spin_wait_strategy 7, sbg_sequences = [Cell 1]\<rparr>"
  "small_claims nxt\<lparr>st_nextSequenceToClaim := y\<rparr> = small_claims y"
  by (simp_all add: small_claims_def)

text \<open>
  A claim never takes more than the buffer holds: when the consumers are behind the
  producer, as a disruptor keeps them, the range has at most \<open>buffer_size()\<close> slots.
\<close>

theorem st_claim_at_most_buffer:
  assumes "W \<in> library_strategies" and "sbg_waitStrategy (st_claimBarrier s) = W"
    and "returns (st_claim n s count) l (rng, s')"
    and "a \<in> set (sbg_sequences (st_claimBarrier s))"
    and "\<And>v. (Load Acquire a, RSeq v) \<in> set l \<Longrightarrow> difference v (st_nextSequenceToClaim s) < 0"
  shows "range_size rng \<le> st_bufferSize s"
proof (rule ccontr)
  note W = library_strategy_model [OF assms(1)]
  obtain r where r: "returns (group_wait_until_published n (st_claimBarrier s)
      (st_nextSequenceToClaim s - st_bufferSize s)) l r"
    and t: "st_take s count (difference (r + st_bufferSize s) (st_nextSequenceToClaim s)) = (rng, s')"
    using assms(3) by (auto simp: st_claim_def returns_bind ends_Return ends_assert Let_def split: if_splits)
  have c: "claims_up_to count (st_nextSequenceToClaim s) rng"
    "slots_free (sbg_sequences (st_claimBarrier s)) (st_bufferSize s) rng l"
    using st_take_claims [OF wait_strategy_model.returns_group_wait [OF W assms(2) r] t] by blast+
  assume "\<not> range_size rng \<le> st_bufferSize s"
  with c(2) assms(4) obtain v where "(Load Acquire a, RSeq v) \<in> set l"
    "0 \<le> difference v (range_nth rng (st_bufferSize s) - st_bufferSize s)"
    by (auto simp: slots_free_def not_le)
  with c(1) assms(5) show False by (fastforce simp: claims_up_to_def range_first_def range_nth_def)
qed

lemma st_claim_at_most_buffer_witness:
  "returns (st_claim 0 (small_claims 2) 9) [(Load Acquire (Cell 1), RSeq 1)] (sequence_range 2 4, small_claims 6) \<and>
   range_size (sequence_range 2 4) \<le> 4"
proof -
  have "run 0 alone (st_claim 0 (small_claims 2) 9) 0 (put (Cell 1) 1 (at_rest ())) =
      (Returned (sequence_range 2 4, small_claims 6), put (Cell 1) 1 (at_rest ()), [(Load Acquire (Cell 1), RSeq 1)])"
    by (simp add: run_claim_defs)
  then have r: "returns (st_claim 0 (small_claims 2) 9) [(Load Acquire (Cell 1), RSeq 1)]
      (sequence_range 2 4, small_claims 6)" by (rule run_ends) simp
  have "range_size (sequence_range 2 4) \<le> st_bufferSize (small_claims 2)"
    by (rule st_claim_at_most_buffer [OF library_strategiesI(1) _ r, of 7 "Cell 1"]) (simp_all add: difference_def)
  with r show ?thesis by simp
qed

lemma st_try_claim_changes: "returns (st_try_claim s count rng) l x \<Longrightarrow> changes l = []"
  by (auto simp: st_try_claim_def returns_bind Let_def ends_assert ends_Return group_last_published_changes
      split: if_splits)

text \<open>
  Nothing is asked for and a slot is free: the code returns true and rewrites the range, where
  its documentation promises that no slots claimed means false and an unchanged range.
\<close>

lemma st_try_claim_zero:
  assumes "returns (group_last_published (st_claimBarrier s)) l p"
    and "0 \<le> difference p (st_nextSequenceToClaim s - st_bufferSize s)"
  shows "returns (st_try_claim s 0 rng) l (True, sequence_range (st_nextSequenceToClaim s) 0, s)"
proof -
  have "st_take s 0 d = (sequence_range (st_nextSequenceToClaim s) 0, s)" for d
    by (simp add: st_take_def Let_def min_def word_le_def)
  then have "returns (let seq = p + st_bufferSize s; diff = difference seq (st_nextSequenceToClaim s)
      in if diff < 0 then Return (False, rng, s) else assert (0 \<le> diff) (Return (True, st_take s 0 diff)))
      [] (True, sequence_range (st_nextSequenceToClaim s) 0, s)"
    using assms(2) by (simp add: Let_def ends_assert ends_Return difference_claimable)
  with assms(1) show ?thesis unfolding st_try_claim_def returns_bind by (metis append_Nil2)
qed

lemma st_try_claim_keeps_gates:
  "returns (st_try_claim s count rng) l (ok, rng', s') \<Longrightarrow> st_claimBarrier s' = st_claimBarrier s"
  by (auto simp: st_try_claim_def returns_bind Let_def ends_assert ends_Return st_take_def split: if_splits)

lemma st_timed_claim_changes:
  assumes "returns (if claimed then Return (True, rng, s) else bind p (\<lambda>published.
      let claimable = published + st_bufferSize s; diff = difference claimable (st_nextSequenceToClaim s)
      in if diff < 0 then Return (False, rng, s) else Return (True, st_take s count diff))) l x"
    and "\<And>r. returns p l r \<Longrightarrow> changes l = []"
  shows "changes l = []"
  using assms by (auto simp: returns_bind Let_def ends_Return split: if_splits)

text \<open>
  C25.  \<open>try_claim\<close> does not wait and writes to no atomic and no element.  When it returns true it
  has claimed as \<open>claim\<close> does; when it returns false a claim barrier was seen that had not given
  back the next slot, and neither the strategy nor the out-parameter has changed.  This covers
  \<open>count = 0\<close>, where the code departs from its documentation: with a free slot the result is true
  and the out-parameter is rewritten to an empty range (\<open>st_try_claim_zero\<close>).
\<close>

theorem st_try_claim_correct:
  assumes "returns (st_try_claim s count rng) l (ok, rng', s')"
    and "loads_near (sbg_sequences (st_claimBarrier s)) (st_nextSequenceToClaim s - st_bufferSize s) l"
  shows "changes l = [] \<and> (if ok
    then claims_up_to count (st_nextSequenceToClaim s) rng' \<and>
      slots_free (sbg_sequences (st_claimBarrier s)) (st_bufferSize s) rng' l \<and>
      s' = s\<lparr>st_nextSequenceToClaim := range_end rng'\<rparr>
    else rng' = rng \<and> s' = s \<and>
      (\<exists>a \<in> set (sbg_sequences (st_claimBarrier s)). \<exists>v. (Load Acquire a, RSeq v) \<in> set l \<and>
        difference v (st_nextSequenceToClaim s - st_bufferSize s) < 0))"
  using st_try_claim_returns [OF assms] st_try_claim_changes [OF assms(1)] by (rule conjI [rotated])

text \<open>A full buffer: the consumer is at -1, the next slot would be 4.\<close>

lemma st_try_claim_correct_witness:
  "returns (st_try_claim (small_claims 4) 1 empty_sequence_range) [(Load Acquire (Cell 1), RSeq (- 1))]
     (False, empty_sequence_range, small_claims 4) \<and> difference (- 1) 0 < 0"
proof -
  let ?l = "[(Load Acquire (Cell 1), RSeq (- 1))] :: unit log"
  have "run 0 alone (st_try_claim (small_claims 4) 1 empty_sequence_range) 0 (put (Cell 1) (- 1) (at_rest ())) =
      (Returned (False, empty_sequence_range, small_claims 4), put (Cell 1) (- 1) (at_rest ()), ?l)"
    by (simp add: run_claim_defs)
  then have r: "returns (st_try_claim (small_claims 4) 1 empty_sequence_range) ?l (False, empty_sequence_range, small_claims 4)"
    by (rule run_ends) simp
  have "loads_near [Cell 1] 0 ?l" by (simp add: loads_near_def difference_def)
  then have "difference (- 1) 0 < 0" using st_try_claim_correct [OF r] by simp
  with r show ?thesis by blast
qed

text \<open>
  C26.  \<open>try_claim_until\<close>, on a wait strategy whose timed waits compile: it writes to no atomic and
  no element; when it returns true it has claimed as \<open>claim\<close> does (an empty range for
  \<open>count = 0\<close>, as \<open>try_claim\<close>); when it returns false the strategy and the range are unchanged, a
  claim barrier was seen lagging, and the deadline has passed.
\<close>

theorem st_try_claim_until_correct:
  assumes "W \<in> timed_strategies" and "sbg_waitStrategy (st_claimBarrier s) = W"
    and "returns (st_try_claim_until n s count rng d) l (ok, rng', s')"
    and "loads_near (sbg_sequences (st_claimBarrier s)) (st_nextSequenceToClaim s - st_bufferSize s) l"
  shows "changes l = [] \<and> (if ok
    then claims_up_to count (st_nextSequenceToClaim s) rng' \<and>
      slots_free (sbg_sequences (st_claimBarrier s)) (st_bufferSize s) rng' l \<and>
      s' = s\<lparr>st_nextSequenceToClaim := range_end rng'\<rparr>
    else rng' = rng \<and> s' = s \<and> deadline_passed d l \<and>
      (\<exists>a \<in> set (sbg_sequences (st_claimBarrier s)). \<exists>v. (Load Acquire a, RSeq v) \<in> set l \<and>
        difference v (st_nextSequenceToClaim s - st_bufferSize s) < 0))"
proof -
  note W = timed_strategy_model [OF assms(1)]
  let ?g = "st_claimBarrier s" and ?m = "st_nextSequenceToClaim s - st_bufferSize s"
  obtain ok1 rng1 s1 l1 l2 where l: "l = l1 @ l2" and tr: "returns (st_try_claim s count rng) l1 (ok1, rng1, s1)"
    and wt: "returns (if ok1 then Return (True, rng1, s1)
      else bind (group_wait_until_published_until n (st_claimBarrier s1)
        (st_nextSequenceToClaim s1 - st_bufferSize s1) d) (\<lambda>published.
          let claimable = published + st_bufferSize s1; diff = difference claimable (st_nextSequenceToClaim s1)
          in if diff < 0 then Return (False, rng1, s1) else Return (True, st_take s1 count diff))) l2 (ok, rng', s')"
    using assms(3) by (auto simp: st_try_claim_until_def returns_bind)
  have quiet: "changes l2 = []"
  proof (rule st_timed_claim_changes [OF wt])
    have "sbg_waitStrategy (st_claimBarrier s1) = W" using assms(2) st_try_claim_keeps_gates [OF tr] by simp
    note confined_timed_wait_strategy.group_timed_wait_changes(2) [OF timed_strategy_confined [OF assms(1)] this]
    then show "changes l2 = []" if "returns (group_wait_until_published_until n (st_claimBarrier s1)
        (st_nextSequenceToClaim s1 - st_bufferSize s1) d) l2 r" for r using that by blast
  qed
  then have changes: "changes l = []" using st_try_claim_changes [OF tr] by (simp add: l)
  have tried: "if ok1 then st_claimed count s rng1 s1 l1 else rng1 = rng \<and> s1 = s \<and> seen_full s l1"
    using st_try_claim_returns [OF tr] assms(4) loads_near_mono [of _ _ l l1] l by simp
  show ?thesis
  proof (cases ok1)
    case True
    with wt have "ok" "rng' = rng1" "s' = s1" "l = l1" by (simp_all add: ends_Return l)
    with tried True changes show ?thesis by simp
  next
    case False
    with tried have s1: "rng1 = rng" "s1 = s" by simp_all
    have "if ok then st_claimed count s rng' s' l2 else rng' = rng \<and> s' = s \<and> seen_full s l2 \<and> deadline_passed d l2"
      by (rule st_timed_claim_returns [OF wt [unfolded s1] False])
        (use timed_wait_strategy_model.returns_group_wait_until [OF W assms(2)]
          timed_wait_strategy_model.group_wait_until_deadline [OF W assms(2)] in blast)+
    then show ?thesis
      using changes unfolding l slots_free_def by (auto split: if_splits elim: deadline_passed_mono)
  qed
qed

text \<open>A full buffer, on one core, and a clock that reads a time after the deadline.\<close>

lemma st_try_claim_until_correct_witness:
  "\<exists>l. returns (st_try_claim_until 1 (small_claims 4) 1 empty_sequence_range 5) l
     (False, empty_sequence_range, small_claims 4) \<and> deadline_passed 5 l"
proof -
  let ?l = "[(Load Acquire (Cell 1), RSeq (- 1)), (Load Acquire (Cell 1), RSeq (- 1)), (Hardware_Concurrency, RNat 1),
    (Load Acquire (Cell 1), RSeq (- 1)), (Now, RNat 20)] :: unit log"
  have "run 0 alone (st_try_claim_until 1 (small_claims 4) 1 empty_sequence_range 5) 0
        ((put (Cell 1) (- 1) (at_rest ()))\<lparr>cores := 1, clock := 20\<rparr>) =
      (Returned (False, empty_sequence_range, small_claims 4),
       (put (Cell 1) (- 1) (at_rest ()))\<lparr>cores := 1, clock := 20\<rparr>, ?l)"
    by (simp add: run_claim_defs spin_wait_strategy_def spin_wait_until_published_until_def new_spin_wait_def
        spin_reset_def next_spin_will_yield_def prog_defs tick_def)
  then have r: "returns (st_try_claim_until 1 (small_claims 4) 1 empty_sequence_range 5) ?l
      (False, empty_sequence_range, small_claims 4)" by (rule run_ends) simp
  have near: "loads_near (sbg_sequences (st_claimBarrier (small_claims 4)))
      (st_nextSequenceToClaim (small_claims 4) - st_bufferSize (small_claims 4)) ?l"
    by (simp add: loads_near_def difference_def)
  have "sbg_waitStrategy (st_claimBarrier (small_claims 4)) = spin_wait_strategy 7" by simp
  from st_try_claim_until_correct [OF timed_strategiesI this r near] r show ?thesis by auto
qed

text \<open>
  \<open>try_claim_for\<close> is the same with the deadline that lies the timeout after a time read
  from the clock.
\<close>

theorem st_try_claim_for_correct:
  assumes "W \<in> timed_strategies" and "sbg_waitStrategy (st_claimBarrier s) = W"
    and "returns (st_try_claim_for n s count rng d) l (ok, rng', s')"
    and "loads_near (sbg_sequences (st_claimBarrier s)) (st_nextSequenceToClaim s - st_bufferSize s) l"
  shows "changes l = [] \<and> (if ok
    then claims_up_to count (st_nextSequenceToClaim s) rng' \<and>
      slots_free (sbg_sequences (st_claimBarrier s)) (st_bufferSize s) rng' l \<and>
      s' = s\<lparr>st_nextSequenceToClaim := range_end rng'\<rparr>
    else rng' = rng \<and> s' = s \<and> (\<exists>t. (Now, RNat t) \<in> set l \<and> deadline_passed (t + d) l) \<and>
      (\<exists>a \<in> set (sbg_sequences (st_claimBarrier s)). \<exists>v. (Load Acquire a, RSeq v) \<in> set l \<and>
        difference v (st_nextSequenceToClaim s - st_bufferSize s) < 0))"
proof -
  note W = timed_strategy_model [OF assms(1)]
  obtain ok1 rng1 s1 l1 l2 where l: "l = l1 @ l2" and tr: "returns (st_try_claim s count rng) l1 (ok1, rng1, s1)"
    and wt: "returns (if ok1 then Return (True, rng1, s1)
      else bind (group_wait_until_published_for n (st_claimBarrier s1)
        (st_nextSequenceToClaim s1 - st_bufferSize s1) d) (\<lambda>published.
          let claimable = published + st_bufferSize s1; diff = difference claimable (st_nextSequenceToClaim s1)
          in if diff < 0 then Return (False, rng1, s1) else Return (True, st_take s1 count diff))) l2 (ok, rng', s')"
    using assms(3) by (auto simp: st_try_claim_for_def returns_bind)
  have quiet: "changes l2 = []"
  proof (rule st_timed_claim_changes [OF wt])
    have "sbg_waitStrategy (st_claimBarrier s1) = W" using assms(2) st_try_claim_keeps_gates [OF tr] by simp
    note confined_timed_wait_strategy.group_timed_wait_changes(1) [OF timed_strategy_confined [OF assms(1)] this]
    then show "changes l2 = []" if "returns (group_wait_until_published_for n (st_claimBarrier s1)
        (st_nextSequenceToClaim s1 - st_bufferSize s1) d) l2 r" for r using that by blast
  qed
  then have changes: "changes l = []" using st_try_claim_changes [OF tr] by (simp add: l)
  have tried: "if ok1 then st_claimed count s rng1 s1 l1 else rng1 = rng \<and> s1 = s \<and> seen_full s l1"
    using st_try_claim_returns [OF tr] assms(4) loads_near_mono [of _ _ l l1] l by simp
  show ?thesis
  proof (cases ok1)
    case True
    with wt have "ok" "rng' = rng1" "s' = s1" "l = l1" by (simp_all add: ends_Return l)
    with tried True changes show ?thesis by simp
  next
    case False
    with tried have s1: "rng1 = rng" "s1 = s" by simp_all
    have "if ok then st_claimed count s rng' s' l2 else rng' = rng \<and> s' = s \<and> seen_full s l2 \<and>
        (\<exists>t. (Now, RNat t) \<in> set l2 \<and> deadline_passed (t + d) l2)"
      by (rule st_timed_claim_returns [OF wt [unfolded s1] False])
        (use timed_wait_strategy_model.returns_group_wait_for [OF W assms(2)]
          timed_wait_strategy_model.group_wait_for_deadline [OF W assms(2)] in blast)+
    then show ?thesis
      using changes unfolding l slots_free_def using deadline_passed_mono [of _ l2 "l1 @ l2"] by (cases ok) auto
  qed
qed

lemma st_try_claim_for_correct_witness:
  "\<exists>l t. returns (st_try_claim_for 1 (small_claims 4) 1 empty_sequence_range 0) l
     (False, empty_sequence_range, small_claims 4) \<and> (Now, RNat t) \<in> set l \<and> deadline_passed t l"
proof -
  let ?l = "[(Load Acquire (Cell 1), RSeq (- 1)), (Load Acquire (Cell 1), RSeq (- 1)), (Now, RNat 21),
    (Hardware_Concurrency, RNat 1), (Load Acquire (Cell 1), RSeq (- 1)), (Now, RNat 22)] :: unit log"
  have "run 0 (\<lambda>i. (\<lambda>\<sigma>. \<sigma>, 1)) (st_try_claim_for 1 (small_claims 4) 1 empty_sequence_range 0) 0
        ((put (Cell 1) (- 1) (at_rest ()))\<lparr>cores := 1, clock := 20\<rparr>) =
      (Returned (False, empty_sequence_range, small_claims 4),
       (put (Cell 1) (- 1) (at_rest ()))\<lparr>cores := 1, clock := 22\<rparr>, ?l)"
    by (simp add: run_claim_defs spin_wait_strategy_def spin_wait_until_published_for_def
        spin_wait_until_published_until_def new_spin_wait_def
        spin_reset_def next_spin_will_yield_def prog_defs tick_def)
  then have r: "returns (st_try_claim_for 1 (small_claims 4) 1 empty_sequence_range 0) ?l
      (False, empty_sequence_range, small_claims 4)" by (rule run_ends) simp
  have near: "loads_near (sbg_sequences (st_claimBarrier (small_claims 4)))
      (st_nextSequenceToClaim (small_claims 4) - st_bufferSize (small_claims 4)) ?l"
    by (simp add: loads_near_def difference_def)
  have "sbg_waitStrategy (st_claimBarrier (small_claims 4)) = spin_wait_strategy 7" by simp
  from st_try_claim_for_correct [OF timed_strategiesI this r near] r show ?thesis
    by (simp only: if_False add_0_right) blast
qed

lemma st_try_claim_fails:
  "fails (st_try_claim s count rng) l \<longleftrightarrow> sbg_sequences (st_claimBarrier s) = [] \<and> l = []"
  by (auto simp: st_try_claim_def fails_bind group_last_published_fails Let_def ends_assert ends_Return
      dest: group_last_published_fails [THEN iffD2])

text \<open>
  C27.  The claim operations fail an assertion exactly when no claim barrier has been added:
  the assertions on the slots available never fail.  The attempts with a timeout or deadline
  are stated for the wait strategies whose timed waits compile.
\<close>

theorem st_claim_assertions:
  assumes "W \<in> library_strategies" and "sbg_waitStrategy (st_claimBarrier s) = W"
  shows "((\<exists>l. fails (st_claim_one n s) l) \<longleftrightarrow> sbg_sequences (st_claimBarrier s) = []) \<and>
    ((\<exists>l. fails (st_claim n s count) l) \<longleftrightarrow> sbg_sequences (st_claimBarrier s) = []) \<and>
    ((\<exists>l. fails (st_try_claim s count rng) l) \<longleftrightarrow> sbg_sequences (st_claimBarrier s) = []) \<and>
    (W \<in> timed_strategies \<longrightarrow>
      ((\<exists>l. fails (st_try_claim_for n s count rng d) l) \<longleftrightarrow> sbg_sequences (st_claimBarrier s) = []) \<and>
      ((\<exists>l. fails (st_try_claim_until n s count rng d) l) \<longleftrightarrow> sbg_sequences (st_claimBarrier s) = []))"
proof (intro conjI impI)
  note group = group_wait_fails [OF assms(1)]
  have diff: "0 \<le> difference (r + st_bufferSize s) (st_nextSequenceToClaim s)"
    if "returns (group_wait_until_published n (st_claimBarrier s)
      (st_nextSequenceToClaim s - st_bufferSize s)) l r" for l r
    using wait_strategy_model.returns_group_wait [OF library_strategy_model [OF assms(1)] assms(2) that]
    by (simp add: saw_all_def difference_claimable)
  show "(\<exists>l. fails (st_claim_one n s) l) \<longleftrightarrow> sbg_sequences (st_claimBarrier s) = []"
    by (simp add: st_claim_one_def fails_bind group [OF assms(2)])
  show "(\<exists>l. fails (st_claim n s count) l) \<longleftrightarrow> sbg_sequences (st_claimBarrier s) = []"
    using diff by (auto simp: st_claim_def fails_bind group [OF assms(2)] ends_assert Let_def)
  show "(\<exists>l. fails (st_try_claim s count rng) l) \<longleftrightarrow> sbg_sequences (st_claimBarrier s) = []"
    by (simp add: st_try_claim_fails)
  have keep: "fails (group_wait_until_published_for n (st_claimBarrier s') m d) l \<longleftrightarrow> sbg_sequences (st_claimBarrier s) = [] \<and> l = []"
    "fails (group_wait_until_published_until n (st_claimBarrier s') m d) l \<longleftrightarrow> sbg_sequences (st_claimBarrier s) = [] \<and> l = []"
    if "W \<in> timed_strategies" "returns (st_try_claim s count rng) l' (ok, rng', s')" for m l l' ok rng' s'
    using st_try_claim_keeps_gates [OF that(2)] assms(2) by (simp_all add: group_timed_wait_fails [OF that(1)])
  show "(\<exists>l. fails (st_try_claim_for n s count rng d) l) \<longleftrightarrow> sbg_sequences (st_claimBarrier s) = []"
    if "W \<in> timed_strategies"
    using keep(1) [OF that] by (auto simp: st_try_claim_for_def fails_bind st_try_claim_fails Let_def split: if_splits)
  show "(\<exists>l. fails (st_try_claim_until n s count rng d) l) \<longleftrightarrow> sbg_sequences (st_claimBarrier s) = []"
    if "W \<in> timed_strategies"
    using keep(2) [OF that] by (auto simp: st_try_claim_until_def fails_bind st_try_claim_fails Let_def split: if_splits)
qed

lemma st_claim_assertions_witness: "\<not> (\<exists>l. fails (st_claim 3 (small_claims 4) 2) l)"
proof -
  have "sbg_waitStrategy (st_claimBarrier (small_claims 4)) = spin_wait_strategy 7" by simp
  from st_claim_assertions [OF library_strategiesI(1) this] show ?thesis by auto
qed

end
