(* ===== verification/Multi_Threaded_Claims.thy ===== *)
theory Multi_Threaded_Claims
  imports Multi_Threaded_Claim_Strategy Claim_Contract
begin

text \<open>
  What the operations of multi_threaded_claim_strategy promise: the claims, which take their
  slots from the shared counter, publishing with its assertion, and the waits of the readers.
\<close>

section \<open>Claiming\<close>

text \<open>
  \<open>claim_one()\<close> is \<open>claim(1)\<close>: the same accesses and the first number of the range.
\<close>

theorem mt_claim_one_is_claim:
  assumes "0 < mt_bufferSize s"
  shows "mt_claim_one n s = bind (mt_claim n s 1) (\<lambda>rng. Return (range_first rng))"
proof -
  have "min 1 (mt_bufferSize s) = 1" using assms by (simp add: min_def word_le_def word_less_def)
  then show ?thesis
    by (simp add: mt_claim_one_def mt_claim_def fetch_add_def bind_assoc sequence_range_defs Let_def)
qed

text \<open>A claim strategy with buffer size 4 and one claim barrier, for the examples.\<close>

definition small_multi :: "unit multi_claim" where
  "small_multi = \<lparr>mt_indexMask = 3, mt_bufferSize = 4, mt_waitStrategy = spin_wait_strategy 7,
     mt_claimBarrier = \<lparr>sbg_waitStrategy = spin_wait_strategy 7, sbg_sequences = [Cell 1]\<rparr>,
     mt_published = 0, mt_nextClaimable = Cell 0\<rparr>"

lemma small_multi_select [simp]:
  "mt_indexMask small_multi = 3" "mt_bufferSize small_multi = 4"
  "mt_waitStrategy small_multi = spin_wait_strategy 7" "mt_published small_multi = 0"
  "mt_claimBarrier small_multi = \<lparr>sbg_waitStrategy = spin_wait_strategy 7, sbg_sequences = [Cell 1]\<rparr>"
  "mt_nextClaimable small_multi = Cell 0"
  by (simp_all add: small_multi_def)

lemma mt_claim_one_is_claim_witness:
  "mt_claim_one 1 small_multi = bind (mt_claim 1 small_multi 1) (\<lambda>rng. Return (range_first rng))"
  by (rule mt_claim_one_is_claim) simp

text \<open>
  C28.  \<open>claim\<close> takes \<open>min(count, buffer_size())\<close> consecutive slots from the counter by one
  fetch-add, which is its first access; when it returns, every claim barrier has been seen to
  have given back each slot of the range.
\<close>

theorem mt_claim_correct:
  assumes "W \<in> library_strategies" and "sbg_waitStrategy (mt_claimBarrier s) = W"
    and "0 < count" "0 < mt_bufferSize s" "mt_bufferSize s \<le> 2 ^ 62"
    and "returns (mt_claim n s count) l rng"
    and "\<And>a v. a \<in> set (sbg_sequences (mt_claimBarrier s)) \<Longrightarrow> (Load Acquire a, RSeq v) \<in> set l \<Longrightarrow>
      difference v (range_first rng) < 2 ^ 62"
  shows "hd l = (Fetch_Add Relaxed (mt_nextClaimable s) (min count (mt_bufferSize s)), RSeq (range_first rng)) \<and>
    range_size rng = min count (mt_bufferSize s) \<and>
    slots_free (sbg_sequences (mt_claimBarrier s)) (mt_bufferSize s) rng l"
proof -
  note W = library_strategy_model [OF assms(1)]
  define c where "c = min count (mt_bufferSize s)"
  obtain x l' r where l: "l = (Fetch_Add Relaxed (mt_nextClaimable s) c, RSeq x) # l'" and rng: "rng = sequence_range x c"
    and r: "returns (group_wait_until_published n (mt_claimBarrier s) (range_last rng - mt_bufferSize s)) l' r"
    using assms(6) by (auto simp: mt_claim_def Let_def ends_fetch_add returns_bind ends_Return c_def)
  have "slots_free (sbg_sequences (mt_claimBarrier s)) (mt_bufferSize s) (sequence_range x c) l"
  proof (rule slots_free_last)
    show "0 < c" "c \<le> mt_bufferSize s" using assms(3,4) by (auto simp: c_def min_def)
    fix a assume a: "a \<in> set (sbg_sequences (mt_claimBarrier s))"
    then obtain v where "(Load Acquire a, RSeq v) \<in> set l'" "0 \<le> difference v (range_last rng - mt_bufferSize s)"
      using saw_allD [OF wait_strategy_model.returns_group_wait [OF W assms(2) r]] by blast
    then show "\<exists>v. (Load Acquire a, RSeq v) \<in> set l \<and>
        0 \<le> difference v (range_last (sequence_range x c) - mt_bufferSize s) \<and> difference v x < 2 ^ 62"
      using assms(7) [OF a] by (auto simp: l rng range_first_def sequence_range_def)
  qed (rule assms(5))
  then show ?thesis by (simp add: l rng c_def sequence_range_defs)
qed

lemma mt_claim_correct_witness:
  "\<exists>l. returns (mt_claim 1 small_multi 9) l (sequence_range 2 4) \<and>
     slots_free [Cell 1] 4 (sequence_range 2 4) l"
proof -
  let ?l = "[(Fetch_Add Relaxed (Cell 0) 4, RSeq 2), (Load Acquire (Cell 1), RSeq 1)] :: unit log"
  have "run 0 alone (mt_claim 1 small_multi 9) 0 (put (Cell 1) 1 (put (Cell 0) 2 (at_rest ()))) =
      (Returned (sequence_range 2 4), put (Cell 0) 6 (put (Cell 1) 1 (put (Cell 0) 2 (at_rest ()))), ?l)"
    by (simp add: mt_claim_def group_wait_defs minimum_sequence_after_def difference_def prog_defs sequence_range_defs Let_def)
  then have r: "returns (mt_claim 1 small_multi 9) ?l (sequence_range 2 4)" by (rule run_ends) simp
  have "slots_free (sbg_sequences (mt_claimBarrier small_multi)) (mt_bufferSize small_multi) (sequence_range 2 4) ?l"
    by (rule mt_claim_correct [OF library_strategiesI(1) _ _ _ _ r, THEN conjunct2, THEN conjunct2])
      (auto simp: difference_def sequence_range_defs)
  with r show ?thesis by auto
qed

text \<open>A value of the claim counter that the run has seen, by the load or by a failed exchange.\<close>

definition counter_seen :: "addr \<Rightarrow> sequence_t \<Rightarrow> 'd log \<Rightarrow> bool" where
  "counter_seen counter x l \<longleftrightarrow> (Load Relaxed counter, RSeq x) \<in> set l \<or>
     (\<exists>e d. (Cas_Weak Relaxed Relaxed counter e d, RCas False x) \<in> set l)"

lemma counter_seen_mono: "counter_seen a x l \<Longrightarrow> set l \<subseteq> set l' \<Longrightarrow> counter_seen a x l'"
  by (auto simp: counter_seen_def)

lemma min_available:
  assumes "0 \<le> difference p x" and "0 < count"
  shows "0 < min count (word_of_int (difference p x + 1) :: size_t)"
    and "uint (min count (word_of_int (difference p x + 1) :: size_t)) \<le> difference p x + 1"
proof -
  have u: "uint (word_of_int (difference p x + 1) :: size_t) = difference p x + 1"
    using assms(1) by (rule available_word)
  then have "0 < (word_of_int (difference p x + 1) :: size_t)"
    using assms(1) by (simp add: word_less_def)
  with assms(2) show "0 < min count (word_of_int (difference p x + 1) :: size_t)" by simp
  have "uint (min count (word_of_int (difference p x + 1) :: size_t)) \<le> uint (word_of_int (difference p x + 1) :: size_t)"
    by (simp flip: word_le_def)
  with u show "uint (min count (word_of_int (difference p x + 1) :: size_t)) \<le> difference p x + 1" by simp
qed

lemma returns_mt_try_claim_loop:
  assumes "returns (mt_try_claim_loop n s p count rng seq) l (ok, rng')" and "0 < count"
  shows "\<exists>x. (x = seq \<or> counter_seen (mt_nextClaimable s) x l) \<and>
    (if ok then 0 \<le> difference p x \<and> claims_up_to count x rng' \<and> uint (range_size rng') \<le> difference p x + 1 \<and>
        changes l = [(Cas_Weak Relaxed Relaxed (mt_nextClaimable s) x (range_end rng'), RCas True x)]
     else rng' = rng \<and> difference p x < 0 \<and> changes l = [])"
  using assms
proof (induction n arbitrary: count seq l)
  case 0
  then show ?case by (simp add: ends_Out_Of_Fuel)
next
  case (Suc n)
  show ?case
  proof (cases "difference p seq < 0")
    case True
    with Suc.prems show ?thesis by (auto simp: ends_Return)
  next
    case False
    define c where "c = min count (word_of_int (difference p seq + 1))"
    have c: "0 < c" "uint c \<le> difference p seq + 1" "c \<le> count"
      using False min_available [of p seq count] Suc.prems(2) by (simp_all add: c_def)
    have "returns (compare_exchange_weak Relaxed Relaxed (mt_nextClaimable s) seq (seq + c) (\<lambda>b v.
        if b then Return (True, sequence_range seq c) else mt_try_claim_loop n s p c rng v)) l (ok, rng')"
      using Suc.prems(1) False by (simp add: Let_def c_def cong: if_cong)
    then obtain b v l' where
      l: "l = (Cas_Weak Relaxed Relaxed (mt_nextClaimable s) seq (seq + c), RCas b v) # l'" and b: "b \<longrightarrow> v = seq"
      and r: "returns (if b then Return (True, sequence_range seq c) else mt_try_claim_loop n s p c rng v) l' (ok, rng')"
      unfolding ends_cas by blast
    show ?thesis
    proof (cases b)
      case True
      with r b have "ok" "rng' = sequence_range seq c" "v = seq" "l' = []" by (simp_all add: ends_Return)
      with False c l True show ?thesis
        by (intro exI [of _ seq]) (simp add: claims_up_to_def sequence_range_defs)
    next
      case False
      with r have "returns (mt_try_claim_loop n s p c rng v) l' (ok, rng')" by simp
      from Suc.IH [OF this c(1)] obtain x where x: "x = v \<or> counter_seen (mt_nextClaimable s) x l'"
        and o: "if ok then 0 \<le> difference p x \<and> claims_up_to c x rng' \<and> uint (range_size rng') \<le> difference p x + 1 \<and>
          changes l' = [(Cas_Weak Relaxed Relaxed (mt_nextClaimable s) x (range_end rng'), RCas True x)]
        else rng' = rng \<and> difference p x < 0 \<and> changes l' = []" by blast
      have "counter_seen (mt_nextClaimable s) x l"
        using x False by (auto simp: counter_seen_def l)
      moreover have "claims_up_to count x rng'" if "claims_up_to c x rng'"
        using that c by (auto simp: claims_up_to_def)
      ultimately show ?thesis using o l False by (intro exI [of _ x]) auto
    qed
  qed
qed

text \<open>
  Nothing is asked for and a slot is free: as in the other strategy the attempt returns true with
  an empty range, after an exchange of the counter for itself.
\<close>

lemma mt_try_claim_zero:
  assumes "returns (group_last_published (mt_claimBarrier s)) l p"
    and "0 \<le> difference p (x - mt_bufferSize s)"
  shows "returns (mt_try_claim (Suc n) s 0 rng)
    (l @ [(Load Relaxed (mt_nextClaimable s), RSeq x),
      (Cas_Weak Relaxed Relaxed (mt_nextClaimable s) x x, RCas True x)]) (True, sequence_range x 0)"
proof -
  have "min 0 d = 0" for d :: size_t by (simp add: min_def word_le_def)
  then have "returns (let published = p + mt_bufferSize s in load Relaxed (mt_nextClaimable s)
      (mt_try_claim_loop (Suc n) s published 0 rng))
    [(Load Relaxed (mt_nextClaimable s), RSeq x), (Cas_Weak Relaxed Relaxed (mt_nextClaimable s) x x, RCas True x)]
    (True, sequence_range x 0)"
    using assms(2) by (auto simp: Let_def ends_load ends_cas ends_Return difference_claimable)
  with assms(1) show ?thesis unfolding mt_try_claim_def returns_bind by blast
qed

text \<open>
  C29.  \<open>try_claim\<close>: when it returns true its only change of memory is one compare-exchange that
  moves the counter from the first slot of the range past its last, the range has at most
  \<open>count\<close> slots and at least one, and every claim barrier has been seen to have given back each
  of them; when it returns false it has changed nothing, neither the counter nor another atomic
  nor the range, and a claim barrier was seen that had not given back the slot the counter was
  seen at.  The barriers are taken to be within \<open>2 ^ 62\<close> of the counter.
\<close>

theorem mt_try_claim_correct:
  assumes "returns (mt_try_claim n s count rng) l (ok, rng')" and "0 < count"
    and near: "\<And>x. counter_seen (mt_nextClaimable s) x l \<Longrightarrow>
      loads_near (sbg_sequences (mt_claimBarrier s)) (x - mt_bufferSize s) l"
  shows "if ok
    then claims_up_to count (range_first rng') rng' \<and>
      changes l =
        [(Cas_Weak Relaxed Relaxed (mt_nextClaimable s) (range_first rng') (range_end rng'), RCas True (range_first rng'))] \<and>
      slots_free (sbg_sequences (mt_claimBarrier s)) (mt_bufferSize s) rng' l
    else rng' = rng \<and> changes l = [] \<and> (\<exists>x. counter_seen (mt_nextClaimable s) x l \<and>
      (\<exists>a \<in> set (sbg_sequences (mt_claimBarrier s)). \<exists>v. (Load Acquire a, RSeq v) \<in> set l \<and>
        difference v (x - mt_bufferSize s) < 0))"
proof -
  let ?g = "mt_claimBarrier s" and ?N = "mt_bufferSize s"
  obtain p l1 x0 l2 where l: "l = l1 @ (Load Relaxed (mt_nextClaimable s), RSeq x0) # l2"
    and p: "returns (group_last_published ?g) l1 p"
    and r: "returns (mt_try_claim_loop n s (p + ?N) count rng x0) l2 (ok, rng')"
    using assms(1) by (auto simp: mt_try_claim_def returns_bind ends_load Let_def)
  obtain x where x: "x = x0 \<or> counter_seen (mt_nextClaimable s) x l2"
    and o: "if ok then 0 \<le> difference (p + ?N) x \<and> claims_up_to count x rng' \<and>
        uint (range_size rng') \<le> difference (p + ?N) x + 1 \<and>
        changes l2 = [(Cas_Weak Relaxed Relaxed (mt_nextClaimable s) x (range_end rng'), RCas True x)]
      else rng' = rng \<and> difference (p + ?N) x < 0 \<and> changes l2 = []"
    using returns_mt_try_claim_loop [OF r assms(2)] by blast
  have "changes l = changes l2" using group_last_published_changes [OF p] by (simp add: l)
  note o = o [folded this]
  have cx: "counter_seen (mt_nextClaimable s) x l" using x by (auto simp: counter_seen_def l)
  have "saw (sbg_sequences ?g) (x - ?N) p l1"
    using p loads_near_mono [OF near [OF cx], of l1] by (intro group_last_published_saw) (auto simp: l)
  then have saw: "saw (sbg_sequences ?g) (x - ?N) p l" by (rule saw_mono) (auto simp: l)
  show ?thesis
  proof (cases ok)
    case True
    with o have first: "range_first rng' = x" by (simp add: claims_up_to_def)
    have rng: "sequence_range x (range_size rng') = rng'"
      using first by (cases rng') (simp add: sequence_range_defs)
    have "slots_free (sbg_sequences ?g) ?N (sequence_range x (range_size rng')) l"
      using saw o True by (intro slots_freeI [of _ _ _ p]) (simp_all add: saw_def difference_claimable)
    then show ?thesis using True o first by (simp add: rng)
  next
    case False
    with o have "difference p (x - ?N) < 0" by (simp add: difference_claimable)
    with saw obtain a where "a \<in> set (sbg_sequences ?g)" "(Load Acquire a, RSeq p) \<in> set l"
      by (auto simp: saw_def saw_lag_def split: if_splits)
    with False o cx \<open>difference p (x - ?N) < 0\<close> show ?thesis by auto
  qed
qed

text \<open>The exchange fails once, as another producer has taken slot 2 in the meantime.\<close>

lemma mt_try_claim_correct_witness:
  "\<exists>l. returns (mt_try_claim 2 small_multi 9 empty_sequence_range) l (True, sequence_range 3 1) \<and>
     slots_free [Cell 1] 4 (sequence_range 3 1) l"
proof -
  let ?l = "[(Load Acquire (Cell 1), RSeq (- 1)), (Load Relaxed (Cell 0), RSeq 2),
    (Cas_Weak Relaxed Relaxed (Cell 0) 2 4, RCas False 3),
    (Cas_Weak Relaxed Relaxed (Cell 0) 3 4, RCas True 3)] :: unit log"
  have "run 0 (\<lambda>i. (if i = 2 then put (Cell 0) 3 else (\<lambda>\<sigma>. \<sigma>), 0)) (mt_try_claim (Suc (Suc 0)) small_multi 9 empty_sequence_range) 0
      (put (Cell 1) (- 1) (put (Cell 0) 2 (at_rest ()))) =
      (Returned (True, sequence_range 3 1), put (Cell 0) 4 (put (Cell 0) 3 (put (Cell 1) (- 1) (put (Cell 0) 2 (at_rest ())))), ?l)"
    by (simp add: mt_try_claim_def group_last_published_def minimum_sequence_def difference_def prog_defs
        sequence_range_defs Let_def)
  then have "returns (mt_try_claim (Suc (Suc 0)) small_multi 9 empty_sequence_range) ?l (True, sequence_range 3 1)"
    by (rule run_ends) simp
  then have r: "returns (mt_try_claim 2 small_multi 9 empty_sequence_range) ?l (True, sequence_range 3 1)"
    by (simp add: numeral_2_eq_2)
  have near: "loads_near (sbg_sequences (mt_claimBarrier small_multi)) (x - mt_bufferSize small_multi) ?l"
    if "counter_seen (mt_nextClaimable small_multi) x ?l" for x
    using that by (auto simp: counter_seen_def loads_near_def difference_def)
  have "slots_free (sbg_sequences (mt_claimBarrier small_multi)) (mt_bufferSize small_multi) (sequence_range 3 1) ?l"
    using mt_try_claim_correct [OF r _ near] by simp
  with r show ?thesis by auto
qed

end
