(* ===== verification/Multi_Threaded_Timed_Claims.thy ===== *)
theory Multi_Threaded_Timed_Claims
  imports Multi_Threaded_Claims
begin

text \<open>
  try_claim_until of multi_threaded_claim_strategy: the compare-exchange loop that waits, with a
  deadline, whenever the claim counter has run ahead of the claim barriers.
\<close>

text \<open>
  All claim barriers were seen, and \<open>r\<close> is the least of the values seen.  Unlike \<open>saw\<close> this does
  not depend on the number that the claim counter happened to show.
\<close>

definition seen_least :: "addr list \<Rightarrow> sequence_t \<Rightarrow> 'd log \<Rightarrow> bool" where
  "seen_least gates r l \<longleftrightarrow> (\<exists>vs. length vs = length gates \<and> set (load_log gates vs) \<subseteq> set l \<and>
     r \<in> set vs \<and> (\<forall>v \<in> set vs. 0 \<le> difference v r))"

lemma seen_least_mono: "seen_least gates r l \<Longrightarrow> set l \<subseteq> set l' \<Longrightarrow> seen_least gates r l'"
  unfolding seen_least_def by blast

lemma seen_leastI:
  assumes "length vs = length gates" "set (load_log gates vs) \<subseteq> set l" "r \<in> set vs"
    and "\<And>v. v \<in> set vs \<Longrightarrow> difference r m \<le> difference v m" and near: "loads_near gates m l"
  shows "seen_least gates r l"
proof -
  have n: "\<bar>difference v m\<bar> < 2 ^ 62" if "v \<in> set vs" for v
    using load_log_memberD [of vs gates v] assms(1,2) that near by (auto simp: loads_near_def)
  have "0 \<le> difference v r" if "v \<in> set vs" for v
    using difference_sub [OF n [OF that] n [OF assms(3)]] assms(4) [OF that] by simp
  then show ?thesis using assms(1-3) by (auto simp: seen_least_def)
qed

lemma seen_least_saw:
  assumes "seen_least gates r l" and near: "loads_near gates m l"
  shows "saw gates m r l"
proof -
  obtain vs where vs: "length vs = length gates" "set (load_log gates vs) \<subseteq> set l" "r \<in> set vs"
    and least: "\<And>v. v \<in> set vs \<Longrightarrow> 0 \<le> difference v r"
    using assms(1) by (auto simp: seen_least_def)
  have n: "\<bar>difference v m\<bar> < 2 ^ 62" if "v \<in> set vs" for v
    using load_log_memberD [of vs gates v] vs that near by (auto simp: loads_near_def)
  have "difference r m \<le> difference v m" if "v \<in> set vs" for v
    using difference_sub [OF n [OF that] n [OF vs(3)]] least [OF that] by simp
  moreover obtain a where "a \<in> set gates" "(Load Acquire a, RSeq r) \<in> set l"
    using load_log_memberD [of vs gates r] vs by auto
  ultimately show ?thesis using vs by (auto simp: saw_def saw_all_def saw_lag_def)
qed

lemma saw_all_least: "saw_all gates m r l \<Longrightarrow> loads_near gates m l \<Longrightarrow> seen_least gates r l"
  unfolding saw_all_def by (blast intro: seen_leastI)

lemma group_last_published_least:
  assumes r: "returns (group_last_published g) l r" and near: "loads_near (sbg_sequences g) m l"
  shows "seen_least (sbg_sequences g) r l"
proof -
  from r obtain v vs where vs: "length (v # vs) = length (sbg_sequences g)" "l = load_log (sbg_sequences g) (v # vs)"
    and fold: "r = foldl (\<lambda>m v. if difference v m < 0 then v else m) v vs"
    by (auto simp: group_last_published_def ends_assert returns_minimum_sequence split: if_splits)
  have "\<bar>difference u m\<bar> < 2 ^ 62" if "u \<in> set (v # vs)" for u
    using load_log_memberD [of "v # vs" "sbg_sequences g" u] that vs near by (auto simp: loads_near_def)
  from foldl_min_window [OF this fold] show ?thesis
    using vs near by (intro seen_leastI [of "v # vs" _ _ _ m]) auto
qed

text \<open>One round of the loop: the attempt, after a wait when the counter is ahead.\<close>

lemma mt_try_claim_until_loop_Suc:
  "mt_try_claim_until_loop w (Suc n) s published count rng d sequence =
     bind (if difference published sequence < 0
       then bind (group_wait_until_published_until w (mt_claimBarrier s) (sequence - mt_bufferSize s) d)
              (\<lambda>waited. Return (waited + mt_bufferSize s))
       else Return published) (\<lambda>published.
     if difference published sequence < 0 then Return (False, rng)
     else compare_exchange_weak Relaxed Relaxed (mt_nextClaimable s) sequence
            (sequence + min count (word_of_int (difference published sequence + 1)))
            (\<lambda>exchanged seen. if exchanged
              then Return (True, sequence_range sequence (min count (word_of_int (difference published sequence + 1))))
              else mt_try_claim_until_loop w n s published count rng d seen))"
  by (cases "difference published sequence < 0")
    (simp_all only: mt_try_claim_until_loop.simps Let_def if_True if_False bind_assoc bind.simps(1) not_False_eq_True)

lemma returns_mt_try_claim_until_wait:
  assumes "W \<in> timed_strategies" and W: "sbg_waitStrategy g = W"
    and w: "returns (if difference p seq < 0
       then bind (group_wait_until_published_until w g (seq - N) d) (\<lambda>waited. Return (waited + N))
       else Return p) l p1"
    and least: "seen_least (sbg_sequences g) (p - N) l0" and near: "loads_near (sbg_sequences g) (seq - N) l0"
  shows "saw (sbg_sequences g) (seq - N) (p1 - N) (l0 @ l) \<and> (difference p1 seq < 0 \<longrightarrow> deadline_passed d l) \<and>
    changes l = []"
proof (cases "difference p seq < 0")
  case True
  with w have g: "returns (group_wait_until_published_until w g (seq - N) d) l (p1 - N)"
    by (auto simp: returns_bind ends_Return)
  then have "saw (sbg_sequences g) (seq - N) (p1 - N) l"
    by (rule timed_wait_strategy_model.returns_group_wait_until [OF timed_strategy_model [OF assms(1)] W])
  then have "saw (sbg_sequences g) (seq - N) (p1 - N) (l0 @ l)" by (rule saw_mono) simp
  moreover have "difference p1 seq = difference (p1 - N) (seq - N)"
    using difference_claimable [of "p1 - N" N seq] by simp
  ultimately show ?thesis
    using timed_wait_strategy_model.group_wait_until_deadline [OF timed_strategy_model [OF assms(1)] W g]
      confined_timed_wait_strategy.group_timed_wait_changes(2) [OF timed_strategy_confined [OF assms(1)] W g] by simp
next
  case False
  with w have "l = []" "p1 = p" by (simp_all add: ends_Return)
  then show ?thesis using seen_least_saw [OF least near] False by simp
qed

lemma returns_mt_try_claim_until_loop:
  assumes "W \<in> timed_strategies" and W: "sbg_waitStrategy (mt_claimBarrier s) = W" and "0 < count"
    and "returns (mt_try_claim_until_loop w n s p count rng d seq) l (ok, rng')"
    and "seen_least (sbg_sequences (mt_claimBarrier s)) (p - mt_bufferSize s) l0"
    and "counter_seen (mt_nextClaimable s) seq l0"
    and near: "\<And>x. counter_seen (mt_nextClaimable s) x (l0 @ l) \<Longrightarrow>
      loads_near (sbg_sequences (mt_claimBarrier s)) (x - mt_bufferSize s) (l0 @ l)"
  shows "\<exists>x r. counter_seen (mt_nextClaimable s) x (l0 @ l) \<and>
    (if ok then claims_up_to count x rng' \<and> uint (range_size rng') \<le> difference r (x - mt_bufferSize s) + 1 \<and>
        saw_all (sbg_sequences (mt_claimBarrier s)) (x - mt_bufferSize s) r (l0 @ l) \<and>
        changes l = [(Cas_Weak Relaxed Relaxed (mt_nextClaimable s) x (range_end rng'), RCas True x)]
     else rng' = rng \<and> changes l = [] \<and> deadline_passed d l \<and>
        saw_lag (sbg_sequences (mt_claimBarrier s)) (x - mt_bufferSize s) r (l0 @ l))"
  using assms(4-7)
proof (induction n arbitrary: p seq l l0)
  case 0
  then show ?case by (simp add: ends_Out_Of_Fuel)
next
  case (Suc n)
  let ?g = "mt_claimBarrier s" and ?as = "sbg_sequences (mt_claimBarrier s)" and ?N = "mt_bufferSize s"
  note near = Suc.prems(4)
  obtain p1 l1 l2 where l: "l = l1 @ l2"
    and w: "returns (if difference p seq < 0
       then bind (group_wait_until_published_until w ?g (seq - ?N) d) (\<lambda>waited. Return (waited + ?N))
       else Return p) l1 p1"
    and r: "returns (if difference p1 seq < 0 then Return (False, rng)
     else compare_exchange_weak Relaxed Relaxed (mt_nextClaimable s) seq
            (seq + min count (word_of_int (difference p1 seq + 1)))
            (\<lambda>exchanged seen. if exchanged
              then Return (True, sequence_range seq (min count (word_of_int (difference p1 seq + 1))))
              else mt_try_claim_until_loop w n s p1 count rng d seen)) l2 (ok, rng')"
    using Suc.prems(1) unfolding mt_try_claim_until_loop_Suc returns_bind by blast
  have seq: "counter_seen (mt_nextClaimable s) seq (l0 @ l)" using Suc.prems(3) by (rule counter_seen_mono) simp
  note near_seq = near [OF seq]
  have "loads_near ?as (seq - ?N) l0" using near_seq by (rule loads_near_mono) simp
  note saw = returns_mt_try_claim_until_wait [OF assms(1) W w Suc.prems(2) this]
  show ?case
  proof (cases "difference p1 seq < 0")
    case True
    then have "saw_lag ?as (seq - ?N) (p1 - ?N) (l0 @ l1)"
      using saw difference_claimable [of "p1 - ?N" ?N seq] by (simp add: saw_def)
    then have "saw_lag ?as (seq - ?N) (p1 - ?N) (l0 @ l)" by (rule saw_lag_mono) (auto simp: l)
    moreover have "deadline_passed d l" "changes l = []" using saw True r l by (auto simp: ends_Return)
    ultimately show ?thesis using True r seq by (auto simp: ends_Return)
  next
    case False
    then have all: "saw_all ?as (seq - ?N) (p1 - ?N) (l0 @ l1)"
      using saw difference_claimable [of "p1 - ?N" ?N seq] by (simp add: saw_def)
    define c where "c = min count (word_of_int (difference p1 seq + 1))"
    have c: "0 < c" "uint c \<le> difference p1 seq + 1" "c \<le> count"
      using False min_available [of p1 seq count] assms(3) by (simp_all add: c_def)
    obtain b v l3 where l2: "l2 = (Cas_Weak Relaxed Relaxed (mt_nextClaimable s) seq (seq + c), RCas b v) # l3"
      and b: "b \<longrightarrow> v = seq"
      and r: "returns (if b then Return (True, sequence_range seq c) else mt_try_claim_until_loop w n s p1 count rng d v) l3 (ok, rng')"
      using r False unfolding c_def [symmetric] if_not_P [OF False] ends_cas by auto
    show ?thesis
    proof (cases b)
      case True
      with r b have o: "ok" "rng' = sequence_range seq c" "v = seq" by (simp_all add: ends_Return)
      have "saw_all ?as (seq - ?N) (p1 - ?N) (l0 @ l)" using all by (rule saw_all_mono) (auto simp: l)
      then show ?thesis
        using o True c seq difference_claimable [of "p1 - ?N" ?N seq] l l2 saw r
        by (intro exI [of _ seq] exI [of _ "p1 - ?N"]) (simp add: claims_up_to_def sequence_range_defs ends_Return)
    next
      case False
      let ?l0 = "l0 @ l1 @ [(Cas_Weak Relaxed Relaxed (mt_nextClaimable s) seq (seq + c), RCas b v)]"
      have eq: "?l0 @ l3 = l0 @ l" by (simp add: l l2)
      have "loads_near ?as (seq - ?N) (l0 @ l1)" using near_seq by (rule loads_near_mono) (auto simp: l)
      from saw_all_least [OF all this] have least: "seen_least ?as (p1 - ?N) ?l0"
        by (rule seen_least_mono) auto
      have seen: "counter_seen (mt_nextClaimable s) v ?l0" using False by (auto simp: counter_seen_def)
      have "returns (mt_try_claim_until_loop w n s p1 count rng d v) l3 (ok, rng')" using r False by simp
      moreover have "changes l = changes l3" using saw False by (simp add: l l2)
      ultimately show ?thesis using Suc.IH [OF _ least seen] near
        unfolding eq by (fastforce simp: l l2 elim: deadline_passed_mono)
    qed
  qed
qed

text \<open>
  C30.  \<open>try_claim_until\<close>, on a wait strategy whose timed waits compile: when it returns true it has
  claimed as \<open>try_claim\<close> does, by one compare-exchange of the counter and no other change of
  memory, with what the last search or wait has seen of the claim barriers; when it returns false
  it has changed nothing, neither the counter nor another atomic nor the range, the deadline has
  passed, and a claim barrier was seen that had not given back the slot the counter was seen at.
\<close>

theorem mt_try_claim_until_correct:
  assumes "W \<in> timed_strategies" and "sbg_waitStrategy (mt_claimBarrier s) = W"
    and "returns (mt_try_claim_until n s count rng d) l (ok, rng')" and "0 < count"
    and near: "\<And>x. counter_seen (mt_nextClaimable s) x l \<Longrightarrow>
      loads_near (sbg_sequences (mt_claimBarrier s)) (x - mt_bufferSize s) l"
  shows "if ok
    then claims_up_to count (range_first rng') rng' \<and>
      changes l =
        [(Cas_Weak Relaxed Relaxed (mt_nextClaimable s) (range_first rng') (range_end rng'), RCas True (range_first rng'))] \<and>
      slots_free (sbg_sequences (mt_claimBarrier s)) (mt_bufferSize s) rng' l
    else rng' = rng \<and> changes l = [] \<and> deadline_passed d l \<and> (\<exists>x. counter_seen (mt_nextClaimable s) x l \<and>
      (\<exists>a \<in> set (sbg_sequences (mt_claimBarrier s)). \<exists>v. (Load Acquire a, RSeq v) \<in> set l \<and>
        difference v (x - mt_bufferSize s) < 0))"
proof -
  let ?g = "mt_claimBarrier s" and ?N = "mt_bufferSize s"
  obtain p l1 x0 l2 where l: "l = (l1 @ [(Load Relaxed (mt_nextClaimable s), RSeq x0)]) @ l2"
    and p: "returns (group_last_published ?g) l1 p"
    and r: "returns (mt_try_claim_until_loop n n s (p + ?N) count rng d x0) l2 (ok, rng')"
    using assms(3) by (auto simp: mt_try_claim_until_def returns_bind ends_load Let_def)
  have x0: "counter_seen (mt_nextClaimable s) x0 (l1 @ [(Load Relaxed (mt_nextClaimable s), RSeq x0)])"
    by (simp add: counter_seen_def)
  then have "counter_seen (mt_nextClaimable s) x0 l" by (rule counter_seen_mono) (auto simp: l)
  then have "loads_near (sbg_sequences ?g) (x0 - ?N) l1" by (rule loads_near_mono [OF near]) (auto simp: l)
  with p have "seen_least (sbg_sequences ?g) p l1" by (rule group_last_published_least)
  then have "seen_least (sbg_sequences ?g) (p + ?N - ?N) (l1 @ [(Load Relaxed (mt_nextClaimable s), RSeq x0)])"
    by (auto elim: seen_least_mono)
  from returns_mt_try_claim_until_loop [OF assms(1,2,4) r this x0, folded l, OF near]
  obtain x y where x: "counter_seen (mt_nextClaimable s) x l"
    and o: "if ok then claims_up_to count x rng' \<and> uint (range_size rng') \<le> difference y (x - ?N) + 1 \<and>
        saw_all (sbg_sequences ?g) (x - ?N) y l \<and>
        changes l2 = [(Cas_Weak Relaxed Relaxed (mt_nextClaimable s) x (range_end rng'), RCas True x)]
     else rng' = rng \<and> changes l2 = [] \<and> deadline_passed d l2 \<and> saw_lag (sbg_sequences ?g) (x - ?N) y l" by blast
  have quiet: "changes l = changes l2" using group_last_published_changes [OF p] by (simp add: l)
  show ?thesis
  proof (cases ok)
    case True
    with o have first: "range_first rng' = x" by (simp add: claims_up_to_def)
    then have rng: "sequence_range x (range_size rng') = rng'"
      by (cases rng') (simp add: sequence_range_defs)
    have "slots_free (sbg_sequences ?g) ?N (sequence_range x (range_size rng')) l"
      using o True by (intro slots_freeI [of _ _ _ y]) simp_all
    then show ?thesis using True o quiet first by (simp add: rng)
  next
    case False
    moreover have "deadline_passed d l2 \<Longrightarrow> deadline_passed d l" by (rule deadline_passed_mono) (auto simp: l)
    ultimately show ?thesis using o x quiet unfolding saw_lag_def by auto
  qed
qed

text \<open>The barrier lags at first and gives slots 2 and 3 back while the producer waits.\<close>

lemma mt_try_claim_until_correct_witness:
  "\<exists>l. returns (mt_try_claim_until 1 small_multi 9 empty_sequence_range 5) l (True, sequence_range 2 2) \<and>
     slots_free [Cell 1] 4 (sequence_range 2 2) l"
proof -
  let ?l = "[(Load Acquire (Cell 1), RSeq (- 3)), (Load Relaxed (Cell 0), RSeq 2),
    (Load Acquire (Cell 1), RSeq (- 1)), (Cas_Weak Relaxed Relaxed (Cell 0) 2 4, RCas True 2)] :: unit log"
  have "run 0 (\<lambda>i. (if i = 2 then put (Cell 1) (- 1) else (\<lambda>\<sigma>. \<sigma>), 0))
      (mt_try_claim_until 1 small_multi 9 empty_sequence_range 5) 0
      (put (Cell 1) (- 3) (put (Cell 0) 2 (at_rest ()))) =
      (Returned (True, sequence_range 2 2), put (Cell 0) 4 (put (Cell 1) (- 1) (put (Cell 1) (- 3) (put (Cell 0) 2 (at_rest ())))), ?l)"
    by (simp add: mt_try_claim_until_def group_last_published_def group_wait_defs minimum_sequence_def
        minimum_sequence_after_def difference_def prog_defs sequence_range_defs Let_def)
  then have r: "returns (mt_try_claim_until 1 small_multi 9 empty_sequence_range 5) ?l (True, sequence_range 2 2)"
    by (rule run_ends) simp
  have near: "loads_near (sbg_sequences (mt_claimBarrier small_multi)) (x - mt_bufferSize small_multi) ?l"
    if "counter_seen (mt_nextClaimable small_multi) x ?l" for x
    using that by (auto simp: counter_seen_def loads_near_def difference_def)
  have "slots_free (sbg_sequences (mt_claimBarrier small_multi)) (mt_bufferSize small_multi) (sequence_range 2 2) ?l"
    using mt_try_claim_until_correct [OF timed_strategiesI _ r _ near] by simp
  with r show ?thesis by auto
qed

end
