(* ===== verification/Multi_Threaded_Publishing.thy ===== *)
theory Multi_Threaded_Publishing
  imports Multi_Threaded_Claims
begin

text \<open>
  Publishing with multi_threaded_claim_strategy, and what its readers see: the assertion of
  \<open>set_published\<close>, the search for the last published sequence number, which ends within one
  round of the buffer, and the waits, the timed ones of which ignore their deadline.
\<close>

section \<open>Publishing\<close>

text \<open>
  C31.  \<open>publish(sequence)\<close> fails its assertion exactly when the entry of the slot does not
  hold the number one buffer before; otherwise it stores the number in the entry, changes no
  other sequence number and releases the mutex it has taken, and \<open>sequence\<close> counts as published.
\<close>

theorem mt_publish_correct:
  assumes "W \<in> library_strategies" and "mt_waitStrategy s = W" and "owner \<sigma> (ws_object W) = None"
  shows "\<exists>ws l. run t alone (bind (mt_publish s p) (\<lambda>_. mt_is_published s p)) i \<sigma> =
    (if mem \<sigma> (mt_entry s p) = p - mt_bufferSize s
     then (Returned True, (put (mt_entry s p) p \<sigma>)\<lparr>waiting := ws\<rparr>, l)
     else (Failed, \<sigma>, l))"
proof (cases "mem \<sigma> (mt_entry s p) = p - mt_bufferSize s")
  case True
  obtain ws l where r: "run t alone (ws_signal_all_when_blocking W) (Suc (Suc i)) (put (mt_entry s p) p \<sigma>) =
      (Returned (), (put (mt_entry s p) p \<sigma>)\<lparr>waiting := ws\<rparr>, l)"
    using run_signal [OF assms(1), of "put (mt_entry s p) p \<sigma>" t "Suc (Suc i)"] assms(3) by auto
  show ?thesis
    by (intro exI) (simp add: mt_publish_def mt_set_published_def mt_is_published_def prog_defs assms(2) True
        run_bind [OF r] bind_assoc)
next
  case False
  then show ?thesis by (simp add: mt_publish_def mt_set_published_def prog_defs)
qed

lemma mt_publish_correct_witness:
  "\<exists>ws l. run 0 alone (bind (mt_publish small_multi 4) (\<lambda>_. mt_is_published small_multi 4)) 0 (at_rest ()) =
     (Returned True, (put (Elem 0 0) 4 (at_rest ()))\<lparr>waiting := ws\<rparr>, l)"
  using mt_publish_correct [OF library_strategiesI(1), of small_multi 7 "at_rest ()" 0 4 0]
  by (simp add: mt_entry_def)

section \<open>Publishing a range\<close>

text \<open>Numbers less than a buffer apart have different entries.\<close>

lemma mt_entry_inject:
  assumes "mt_indexMask s = 2 ^ k - 1" "k < 64" "i < 2 ^ k" "j < 2 ^ k"
  shows "mt_entry s (x + of_nat i) = mt_entry s (x + of_nat j) \<longleftrightarrow> i = j"
proof
  assume e: "mt_entry s (x + of_nat i) = mt_entry s (x + of_nat j)"
  have seq: "x + of_nat n = seq_at (uint x + int n)" for n by (simp add: seq_at_def)
  have "nat ((uint x + int i) mod 2 ^ k) = nat ((uint x + int j) mod 2 ^ k)"
    using e seq_at_and_mask [OF refl assms(2)] by (simp add: mt_entry_def assms(1) seq)
  then have "(uint x + int i) mod 2 ^ k = (uint x + int j) mod 2 ^ k"
    by (auto simp: nat_eq_iff2 split: if_splits)
  moreover have "\<bar>(uint x + int i) - (uint x + int j)\<bar> < 2 ^ k"
  proof -
    have "int i < 2 ^ k" "int j < 2 ^ k" using assms(3,4) by simp_all
    then show ?thesis by linarith
  qed
  ultimately have "uint x + int i = uint x + int j" by (rule mod_window_inj)
  then show "i = j" by simp
qed simp

text \<open>The machine after the numbers \<open>x + i\<close> to \<open>x + (j - 1)\<close> have been stored in their entries.\<close>

definition entries_stored :: "'d multi_claim \<Rightarrow> sequence_t \<Rightarrow> nat \<Rightarrow> nat \<Rightarrow> 'd mach \<Rightarrow> 'd mach" where
  "entries_stored s x i j = fold (\<lambda>n. put (mt_entry s (x + of_nat n)) (x + of_nat n)) [i..<j]"

lemma run_mt_publish_loop:
  assumes mask: "mt_indexMask s = 2 ^ k - 1" "k < 64" and "unat j \<le> 2 ^ k" "i \<le> j"
  shows "\<exists>\<sigma>' l. run t alone (mt_publish_loop s rng i j) ix \<sigma> =
    (if \<forall>n \<in> {unat i..<unat j}. mem \<sigma> (mt_entry s (range_first rng + of_nat n)) = range_first rng + of_nat n - mt_bufferSize s
     then (Returned (), entries_stored s (range_first rng) (unat i) (unat j) \<sigma>, l) else (Failed, \<sigma>', l))"
  using assms(4)
proof (induction "unat j - unat i" arbitrary: i ix \<sigma> rule: less_induct)
  case less
  let ?x = "range_first rng"
  show ?case
  proof (cases "i < j")
    case False
    with less.prems have "i = j" by simp
    then show ?thesis by (simp add: mt_publish_loop.simps entries_stored_def)
  next
    case True
    note i = unat_plus_1 [OF True] inc_le [OF True] unat_count_up [OF True]
    have u: "unat i < unat j" using True by (simp add: word_less_nat_alt)
    have set: "{unat i..<unat j} = insert (unat i) {unat (i + 1)..<unat j}" using u i(1) by auto
    have nth: "range_nth rng i = ?x + of_nat (unat i)" by (simp add: range_nth_def range_first_def)
    let ?ok = "mem \<sigma> (mt_entry s (?x + of_nat (unat i))) = ?x + of_nat (unat i) - mt_bufferSize s"
    let ?\<sigma>1 = "put (mt_entry s (?x + of_nat (unat i))) (?x + of_nat (unat i)) \<sigma>"
    show ?thesis
    proof (cases ?ok)
      case False
      then have "run t alone (mt_publish_loop s rng i j) ix \<sigma> =
          (Failed, \<sigma>, [(Load Relaxed (mt_entry s (?x + of_nat (unat i))), RSeq (mem \<sigma> (mt_entry s (?x + of_nat (unat i)))))])"
        using True unfolding mt_publish_loop.simps [of s rng i j] nth by (simp add: mt_set_published_def prog_defs)
      with False show ?thesis unfolding set by auto
    next
      case True
      have same: "mem ?\<sigma>1 (mt_entry s (?x + of_nat n)) = mem \<sigma> (mt_entry s (?x + of_nat n))"
        if "n \<in> {unat (i + 1)..<unat j}" for n
        using mt_entry_inject [OF mask, of n "unat i" ?x] that assms(3) u i(1) by auto
      obtain \<sigma>' l where IH: "run t alone (mt_publish_loop s rng (i + 1) j) (ix + 2) ?\<sigma>1 =
        (if \<forall>n \<in> {unat (i + 1)..<unat j}. mem ?\<sigma>1 (mt_entry s (?x + of_nat n)) = ?x + of_nat n - mt_bufferSize s
         then (Returned (), entries_stored s ?x (unat (i + 1)) (unat j) ?\<sigma>1, l) else (Failed, \<sigma>', l))"
        using less.hyps [OF i(3,2), of "ix + 2" ?\<sigma>1] by blast
      have step: "entries_stored s ?x (unat (i + 1)) (unat j) ?\<sigma>1 = entries_stored s ?x (unat i) (unat j) \<sigma>"
        using u i(1) by (simp add: entries_stored_def upt_conv_Cons)
      have all: "(\<forall>n \<in> {unat i..<unat j}. mem \<sigma> (mt_entry s (?x + of_nat n)) = ?x + of_nat n - mt_bufferSize s) \<longleftrightarrow>
        (\<forall>n \<in> {unat (i + 1)..<unat j}. mem ?\<sigma>1 (mt_entry s (?x + of_nat n)) = ?x + of_nat n - mt_bufferSize s)"
        unfolding set using True same by simp
      have "run t alone (mt_publish_loop s rng i j) ix \<sigma> =
        (let (out, \<sigma>2, l2) = run t alone (mt_publish_loop s rng (i + 1) j) (ix + 2) ?\<sigma>1
         in (out, \<sigma>2, [(Load Relaxed (mt_entry s (?x + of_nat (unat i))), RSeq (?x + of_nat (unat i) - mt_bufferSize s)),
            (Store Release (mt_entry s (?x + of_nat (unat i))) (?x + of_nat (unat i)), RUnit)] @ l2))"
        using \<open>i < j\<close> True unfolding mt_publish_loop.simps [of s rng i j] nth
        by (simp add: mt_set_published_def prog_defs split: prod.splits)
      then show ?thesis unfolding all IH step by (auto split: if_splits)
    qed
  qed
qed

lemma entries_stored_frame:
  "(\<And>n. n \<in> {i..<j} \<Longrightarrow> a \<noteq> mt_entry s (x + of_nat n)) \<Longrightarrow> mem (entries_stored s x i j \<sigma>) a = mem \<sigma> a"
  "owner (entries_stored s x i j \<sigma>) = owner \<sigma>" "cells (entries_stored s x i j \<sigma>) = cells \<sigma>"
  by (induction "j - i" arbitrary: i \<sigma>) (auto simp: entries_stored_def upt_rec)

lemma mem_entries_stored:
  assumes mask: "mt_indexMask s = 2 ^ k - 1" "k < 64" and "j \<le> 2 ^ k" and "n \<in> {i..<j}"
  shows "mem (entries_stored s x i j \<sigma>) (mt_entry s (x + of_nat n)) = x + of_nat n"
proof -
  have "entries_stored s x i j \<sigma> = entries_stored s x n j (entries_stored s x i n \<sigma>)"
    using assms(4) upt_add_eq_append [of i n "j - n"] by (simp add: entries_stored_def)
  also have "\<dots> = entries_stored s x (Suc n) j (put (mt_entry s (x + of_nat n)) (x + of_nat n) (entries_stored s x i n \<sigma>))"
    using assms(4) by (simp add: entries_stored_def upt_rec [of n j])
  also have "mem \<dots> (mt_entry s (x + of_nat n)) = x + of_nat n"
    using mt_entry_inject [OF mask, of n] assms(3,4) by (subst entries_stored_frame(1)) auto
  finally show ?thesis .
qed

text \<open>
  C32.  \<open>publish(range)\<close>, for a range of at most \<open>buffer_size()\<close> numbers: when the entry of each
  holds the number one buffer before, every number of the range counts as published afterwards, no
  other sequence number and no mutex has changed; otherwise the assertion fails.
\<close>

theorem mt_publish_range_correct:
  assumes "W \<in> library_strategies" and "mt_waitStrategy s = W" and "owner \<sigma> (ws_object W) = None"
    and "mt_indexMask s = 2 ^ k - 1" and "k < 64" and "unat (range_size rng) \<le> 2 ^ k"
  shows "\<exists>\<sigma>' l.
    if \<forall>n < unat (range_size rng).
      mem \<sigma> (mt_entry s (range_first rng + of_nat n)) = range_first rng + of_nat n - mt_bufferSize s
    then run t alone (mt_publish_range s rng) i \<sigma> = (Returned (), \<sigma>', l) \<and>
      (\<forall>n < unat (range_size rng). mem \<sigma>' (mt_entry s (range_first rng + of_nat n)) = range_first rng + of_nat n) \<and>
      (\<forall>a. (\<forall>n < unat (range_size rng). a \<noteq> mt_entry s (range_first rng + of_nat n)) \<longrightarrow> mem \<sigma>' a = mem \<sigma> a) \<and>
      owner \<sigma>' = owner \<sigma> \<and> cells \<sigma>' = cells \<sigma>
    else run t alone (mt_publish_range s rng) i \<sigma> = (Failed, \<sigma>', l)"
proof -
  let ?ok = "\<forall>n < unat (range_size rng).
      mem \<sigma> (mt_entry s (range_first rng + of_nat n)) = range_first rng + of_nat n - mt_bufferSize s"
  let ?\<sigma>1 = "entries_stored s (range_first rng) 0 (unat (range_size rng)) \<sigma>"
  have "0 \<le> range_size rng" by simp
  from run_mt_publish_loop [OF assms(4-6) this, where t = t and ix = i and \<sigma> = \<sigma> and rng = rng]
  obtain \<sigma>2 l where loop: "run t alone (mt_publish_loop s rng 0 (range_size rng)) i \<sigma> =
      (if ?ok then (Returned (), ?\<sigma>1, l) else (Failed, \<sigma>2, l))"
    unfolding unat_0 atLeast0LessThan Ball_def lessThan_iff by blast
  show ?thesis
  proof (cases ?ok)
    case True
    then have l: "run t alone (mt_publish_loop s rng 0 (range_size rng)) i \<sigma> = (Returned (), ?\<sigma>1, l)"
      using loop by simp
    obtain ws l2 where "run t alone (ws_signal_all_when_blocking W) (i + length l) ?\<sigma>1 =
        (Returned (), ?\<sigma>1\<lparr>waiting := ws\<rparr>, l2)"
      using run_signal [OF assms(1), of ?\<sigma>1 t "i + length l"] assms(3) by (auto simp: entries_stored_frame)
    then have "run t alone (mt_publish_range s rng) i \<sigma> = (Returned (), ?\<sigma>1\<lparr>waiting := ws\<rparr>, l @ l2)"
      by (simp add: mt_publish_range_def run_bind [OF l] assms(2))
    then show ?thesis
      using True mem_entries_stored [OF assms(4-6)] entries_stored_frame(1) [of 0 "unat (range_size rng)" _ s "range_first rng" \<sigma>]
      by (intro exI [of _ "?\<sigma>1\<lparr>waiting := ws\<rparr>"] exI [of _ "l @ l2"]) (simp add: entries_stored_frame)
  next
    case False
    then have "run t alone (mt_publish_loop s rng 0 (range_size rng)) i \<sigma> = (Failed, \<sigma>2, l)"
      using loop by simp
    then have "run t alone (mt_publish_range s rng) i \<sigma> = (Failed, \<sigma>2, l)"
      by (simp add: mt_publish_range_def run_bind)
    with False show ?thesis by auto
  qed
qed

lemma mt_publish_range_correct_witness:
  "\<exists>\<sigma>' l. run 0 alone (mt_publish_range small_multi (sequence_range 4 3)) 0
      ((at_rest ())\<lparr>mem := (\<lambda>a. case a of Elem b i \<Rightarrow> [0, 1, 2, 3] ! i | _ \<Rightarrow> 0)\<rparr>) = (Returned (), \<sigma>', l) \<and>
    mem \<sigma>' (Elem 0 2) = 6 \<and> mem \<sigma>' (Elem 0 3) = 3"
proof -
  let ?\<sigma> = "(at_rest ())\<lparr>mem := (\<lambda>a. case a of Elem b i \<Rightarrow> [0, 1, 2, 3] ! i | _ \<Rightarrow> 0)\<rparr>"
  have n: "n < 3 \<longleftrightarrow> n = 0 \<or> n = 1 \<or> n = 2" for n :: nat by auto
  have "\<exists>\<sigma>' l.
    if \<forall>n < unat (range_size (sequence_range 4 3)). mem ?\<sigma> (mt_entry small_multi (range_first (sequence_range 4 3) + of_nat n)) =
        range_first (sequence_range 4 3) + of_nat n - mt_bufferSize small_multi
    then run 0 alone (mt_publish_range small_multi (sequence_range 4 3)) 0 ?\<sigma> = (Returned (), \<sigma>', l) \<and>
      (\<forall>n < unat (range_size (sequence_range 4 3)). mem \<sigma>' (mt_entry small_multi (range_first (sequence_range 4 3) + of_nat n)) =
        range_first (sequence_range 4 3) + of_nat n) \<and>
      (\<forall>a. (\<forall>n < unat (range_size (sequence_range 4 3)). a \<noteq> mt_entry small_multi (range_first (sequence_range 4 3) + of_nat n)) \<longrightarrow>
        mem \<sigma>' a = mem ?\<sigma> a) \<and> owner \<sigma>' = owner ?\<sigma> \<and> cells \<sigma>' = cells ?\<sigma>
    else run 0 alone (mt_publish_range small_multi (sequence_range 4 3)) 0 ?\<sigma> = (Failed, \<sigma>', l)"
    by (rule mt_publish_range_correct [OF library_strategiesI(1), where k = 2]) (simp_all add: sequence_range_defs)
  then show ?thesis
    by (simp add: sequence_range_defs n mt_entry_def all_conj_distrib) force
qed

section \<open>The last published sequence number\<close>

text \<open>On a machine that nobody else changes: \<open>j\<close> entries in a row, then one that is not published.\<close>

lemma run_mt_is_published:
  "run t alone (mt_is_published s p) i \<sigma> =
     (Returned (mem \<sigma> (mt_entry s p) = p), \<sigma>, [(Load Acquire (mt_entry s p), RSeq (mem \<sigma> (mt_entry s p)))])"
  by (simp add: mt_is_published_def prog_defs)

lemma run_mt_last_published_loop:
  assumes "\<And>k. k < j \<Longrightarrow> mem \<sigma> (mt_entry s (seq + of_nat k)) = seq + of_nat k"
    and "mem \<sigma> (mt_entry s (seq + of_nat j)) \<noteq> seq + of_nat j" and "j \<le> n"
  shows "\<exists>l. run t alone (mt_last_published_loop n s seq (seq - 1)) i \<sigma> = (Returned (seq + of_nat j - 1), \<sigma>, l)"
  using assms
proof (induction n arbitrary: j seq i)
  case 0
  then show ?case by (simp add: run_bind [OF run_mt_is_published])
next
  case (Suc n)
  show ?case
  proof (cases j)
    case 0
    then show ?thesis using Suc.prems(2) by (simp add: run_bind [OF run_mt_is_published])
  next
    case (Suc j')
    have "\<exists>l. run t alone (mt_last_published_loop n s (seq + 1) (seq + 1 - 1)) (i + 1) \<sigma> =
        (Returned (seq + 1 + of_nat j' - 1), \<sigma>, l)"
    proof (rule Suc.IH)
      show "mem \<sigma> (mt_entry s (seq + 1 + of_nat k)) = seq + 1 + of_nat k" if "k < j'" for k
        using Suc.prems(1) [of "Suc k"] that Suc by (simp add: algebra_simps)
    qed (use Suc.prems(2,3) Suc in \<open>simp_all add: algebra_simps\<close>)
    then show ?thesis using Suc.prems(1) [of 0] Suc by (auto simp: run_bind [OF run_mt_is_published])
  qed
qed

text \<open>
  C33.  \<open>last_published_after\<close> ends, after at most \<open>buffer_size() + 1\<close> entries when nobody else
  writes, and returns the last of the published numbers that follow the one given without a gap.
\<close>

theorem mt_last_published_after_correct:
  assumes "mt_indexMask s = 2 ^ k - 1" and "k < 64" and "2 ^ k \<le> n"
  shows "\<exists>j l. j \<le> 2 ^ k \<and>
    run t alone (mt_last_published_after n s x) i \<sigma> = (Returned (x + of_nat j), \<sigma>, l) \<and>
    (\<forall>p \<in> {1..j}. mem \<sigma> (mt_entry s (x + of_nat p)) = x + of_nat p) \<and>
    mem \<sigma> (mt_entry s (x + of_nat j + 1)) \<noteq> x + of_nat j + 1"
proof -
  define P where "P j \<longleftrightarrow> mem \<sigma> (mt_entry s (x + 1 + of_nat j)) \<noteq> x + 1 + of_nat j" for j
  have "\<exists>j \<le> 2 ^ k. P j"
  proof (rule ccontr)
    assume "\<not> (\<exists>j \<le> 2 ^ k. P j)"
    then have all: "mem \<sigma> (mt_entry s (x + 1 + of_nat j)) = x + 1 + of_nat j" if "j \<le> 2 ^ k" for j
      using that by (auto simp: P_def)
    have "mt_entry s (x + 1 + of_nat (2 ^ k)) = mt_entry s (x + 1)"
    proof -
      obtain y where y: "x = seq_at y" by (metis seq_at_def word_of_int_uint)
      have "x + 1 = seq_at (y + 1)" "x + 1 + of_nat (2 ^ k) = seq_at (y + 1 + 2 ^ k)"
        by (simp_all add: y seq_at_def)
      then show ?thesis using seq_at_and_mask [OF refl assms(2)] by (simp add: mt_entry_def assms(1))
    qed
    with all [of 0] all [of "2 ^ k"] have "x + 1 + of_nat (2 ^ k) = x + 1" by simp
    then have "(2 ^ k :: 64 word) = 0" by simp
    then show False using assms(2) by simp
  qed
  then obtain j where j: "j \<le> 2 ^ k" "P j" "\<And>i. i < j \<Longrightarrow> \<not> P i"
    using exists_least_iff [of "\<lambda>j. j \<le> 2 ^ k \<and> P j"] by auto
  obtain l where "run t alone (mt_last_published_loop n s (x + 1) (x + 1 - 1)) i \<sigma> =
      (Returned (x + 1 + of_nat j - 1), \<sigma>, l)"
    using run_mt_last_published_loop [of j \<sigma> s "x + 1" n t i] j assms(3) by (auto simp: P_def)
  then have "run t alone (mt_last_published_after n s x) i \<sigma> = (Returned (x + of_nat j), \<sigma>, l)"
    by (simp add: mt_last_published_after_def)
  moreover have "mem \<sigma> (mt_entry s (x + of_nat p)) = x + of_nat p" if "p \<in> {1..j}" for p
    using j(3) [of "p - 1"] that by (cases p) (auto simp: P_def algebra_simps)
  ultimately show ?thesis using j(1,2) by (auto simp: P_def algebra_simps)
qed

text \<open>Entries 0, 5, 2, 3: after -1 only 0 is published, though 2 and 3 are.\<close>

lemma mt_last_published_after_correct_witness:
  "\<exists>j l. j \<le> 4 \<and> run 0 alone (mt_last_published_after 4 small_multi (- 1)) 0
      ((at_rest ())\<lparr>mem := (\<lambda>a. case a of Elem b i \<Rightarrow> [0, 5, 2, 3] ! i | _ \<Rightarrow> 0)\<rparr>) =
     (Returned (of_nat j - 1), (at_rest ())\<lparr>mem := (\<lambda>a. case a of Elem b i \<Rightarrow> [0, 5, 2, 3] ! i | _ \<Rightarrow> 0)\<rparr>, l)"
  using mt_last_published_after_correct [of small_multi 2 4 0 "- 1" 0
      "(at_rest ())\<lparr>mem := (\<lambda>a. case a of Elem b i \<Rightarrow> [0, 5, 2, 3] ! i | _ \<Rightarrow> 0)\<rparr>"]
  by auto

section \<open>The waits of the readers\<close>

text \<open>
  C34.  A wait for \<open>sequence\<close> given a last known number returns a number at or after
  \<open>sequence\<close>: the entries of everything between the last known number and \<open>sequence\<close> were seen
  at or after it, those of the numbers beyond it up to the result were seen published, and the
  one after the result was not.
\<close>

theorem mt_wait_until_published_correct:
  assumes "W \<in> library_strategies" and "mt_waitStrategy s = W"
    and "x < y" "y - x < 2 ^ 63 - 1"
    and "returns (mt_wait_until_published n s (seq_at y) (seq_at x)) l r"
  shows "\<exists>q \<ge> y. r = seq_at q \<and>
    (\<forall>p. x < p \<longrightarrow> p \<le> y \<longrightarrow> (\<exists>v. (Load Acquire (mt_entry s (seq_at p)), RSeq v) \<in> set l \<and> 0 \<le> difference v (seq_at p))) \<and>
    (\<forall>p. y < p \<longrightarrow> p \<le> q \<longrightarrow> (Load Acquire (mt_entry s (seq_at p)), RSeq (seq_at p)) \<in> set l) \<and>
    (\<exists>v. v \<noteq> seq_at (q + 1) \<and> (Load Acquire (mt_entry s (seq_at (q + 1))), RSeq v) \<in> set l)"
proof -
  note W = library_strategy_model [OF assms(1)]
  obtain l1 l2 u where l: "l = l1 @ l2" and w: "returns (mt_wait_loop n s (seq_at y) (seq_at (x + 1))) l1 u"
    and r: "returns (mt_last_published_after n s (seq_at y)) l2 r"
    using assms(5) by (auto simp: mt_wait_until_published_def ends_assert returns_bind seq_at_add_1 split: if_splits)
  obtain j where j: "r = seq_at (y + int j)"
    and seen: "\<forall>i \<in> {1..j}. (Load Acquire (mt_entry s (seq_at (y + int i))), RSeq (seq_at (y + int i))) \<in> set l2"
    and stop: "\<exists>v. v \<noteq> seq_at (y + int j + 1) \<and> (Load Acquire (mt_entry s (seq_at (y + int j + 1))), RSeq v) \<in> set l2"
    using returns_mt_last_published_after [OF r] by blast
  have waited: "\<exists>v. (Load Acquire (mt_entry s (seq_at p)), RSeq v) \<in> set l \<and> 0 \<le> difference v (seq_at p)"
    if "x < p" "p \<le> y" for p
    using wait_strategy_model.returns_mt_wait_loop [OF W assms(2) w _ _, of p] assms(3,4) that l by force
  have beyond: "(Load Acquire (mt_entry s (seq_at p)), RSeq (seq_at p)) \<in> set l" if "y < p" "p \<le> y + int j" for p
  proof -
    have "nat (p - y) \<in> {1..j}" "p = y + int (nat (p - y))" using that by auto
    then show ?thesis using seen l by (metis Un_iff set_append)
  qed
  show ?thesis
    using j waited beyond stop l by (intro exI [of _ "y + int j"]) auto
qed

text \<open>Waiting for 1 after -1: 0 and 1 are published, 2 is too, 3 is not.\<close>

lemma mt_wait_until_published_correct_witness:
  "\<exists>l. returns (mt_wait_until_published 4 small_multi 1 (- 1)) l 2 \<and> (\<exists>q \<ge> 1. 2 = seq_at q)"
proof -
  define \<sigma> where "\<sigma> = (at_rest ())\<lparr>mem := (\<lambda>a. case a of Elem b i \<Rightarrow> [0, 1, 2, 9] ! i | _ \<Rightarrow> 0)\<rparr>"
  have "\<exists>l. run 0 alone (mt_wait_until_published (Suc (Suc (Suc (Suc 0)))) small_multi 1 (- 1)) 0 \<sigma> = (Returned 2, \<sigma>, l)"
    by (simp add: mt_wait_until_published_def mt_wait_loop.simps mt_last_published_after_def run_bind [OF run_mt_is_published]
        mt_is_published_def prog_defs mt_entry_def difference_def \<sigma>_def)
  then obtain l where "returns (mt_wait_until_published (Suc (Suc (Suc (Suc 0)))) small_multi 1 (- 1)) l 2"
    by (auto dest: run_ends)
  then have r: "returns (mt_wait_until_published 4 small_multi (seq_at 1) (seq_at (- 1))) l 2"
    by (simp add: seq_at_def numeral_eq_Suc)
  from mt_wait_until_published_correct [OF library_strategiesI(1) _ _ _ this, of 7]
  have "\<exists>q \<ge> 1. 2 = seq_at q" by auto
  with r show ?thesis by (auto simp: seq_at_def)
qed

text \<open>
  The wait with a deadline calls the wait without one, so its result is never before the
  number waited for and the branch for a timeout is dead.
\<close>

context wait_strategy_model
begin

lemma returns_mt_wait_until_loop:
  assumes "mt_waitStrategy s = W"
  shows "returns (mt_wait_until_loop n s sequence d seq) l early \<longleftrightarrow>
    early = None \<and> returns (mt_wait_loop n s sequence seq) l ()"
  using assms
proof (induction n s sequence d seq arbitrary: l rule: mt_wait_until_loop.induct)
  case (1 n s sequence d seq)
  have reached: "\<not> difference r seq < 0" if "returns (ws_wait_until_published (mt_waitStrategy s) n seq as) l r" for as l r
    using that wait_reached "1.prems" by (simp add: not_less)
  show ?case
  proof (cases "difference seq sequence \<le> 0")
    case False
    then show ?thesis
      by (subst mt_wait_until_loop.simps, subst mt_wait_loop.simps) (auto simp: ends_Return)
  next
    case True
    note IH = "1.IH"(1) [OF True _ "1.prems"] "1.IH"(2) [OF True _ _ "1.prems"]
    show ?thesis
    proof
      assume "returns (mt_wait_until_loop n s sequence d seq) l early"
      then show "early = None \<and> returns (mt_wait_loop n s sequence seq) l ()"
        using IH reached True
        by (subst (asm) mt_wait_until_loop.simps, subst mt_wait_loop.simps)
          (fastforce simp: returns_bind ends_Return split: if_splits)
    next
      assume "early = None \<and> returns (mt_wait_loop n s sequence seq) l ()"
      then show "returns (mt_wait_until_loop n s sequence d seq) l early"
        using IH reached True
        by (subst mt_wait_until_loop.simps, subst (asm) mt_wait_loop.simps)
          (fastforce simp: returns_bind ends_Return split: if_splits)
    qed
  qed
qed

end

lemma returns_mt_wait_until:
  assumes "W \<in> library_strategies" and "mt_waitStrategy s = W"
  shows "returns (mt_wait_until_published_until n s sequence known d) l r \<longleftrightarrow>
    returns (mt_wait_until_published n s sequence known) l r"
  by (auto simp: mt_wait_until_published_until_def mt_wait_until_published_def ends_assert returns_bind
      wait_strategy_model.returns_mt_wait_until_loop [OF library_strategy_model [OF assms(1)] assms(2)]
      split: option.splits)

lemma mt_wait_seen:
  assumes "W \<in> library_strategies" and "mt_waitStrategy s = W"
    and "returns (mt_wait_until_published n s (seq_at y) (seq_at x)) l r"
    and "x < y" "y - x < 2 ^ 63 - 1" "x < p" "p \<le> y"
  shows "\<exists>v. (Load Acquire (mt_entry s (seq_at p)), RSeq v) \<in> set l \<and> 0 \<le> difference v (seq_at p)"
  using wait_strategy_model.returns_mt_wait [OF library_strategy_model [OF assms(1)] assms(2-5)] assms(6,7) by blast

text \<open>
  C35.  The waits with a deadline or a timeout of multi_threaded_claim_strategy ignore it: they
  complete exactly the runs of the wait without one (after a clock reading, for the timeout),
  whatever the deadline, and so never return before \<open>sequence\<close> is published.
\<close>

theorem mt_timed_waits_ignore_deadline:
  assumes "W \<in> library_strategies" and "mt_waitStrategy s = W"
  shows "(returns (mt_wait_until_published_until n s sequence known d) l r \<longleftrightarrow>
      returns (mt_wait_until_published n s sequence known) l r) \<and>
    (returns (mt_wait_until_published_for n s sequence known t) l r \<longleftrightarrow>
      (\<exists>time l'. l = (Now, RNat time) # l' \<and> returns (mt_wait_until_published n s sequence known) l' r))"
  using returns_mt_wait_until [OF assms]
  by (auto simp: mt_wait_until_published_for_def ends_now)

text \<open>Number 0 is seen unpublished and the clock past the deadline: the wait cannot return yet.\<close>

lemma mt_timed_waits_ignore_deadline_witness:
  "\<not> returns (mt_wait_until_published_until 9 small_multi 0 (- 1) 5)
     [(Load Acquire (Elem 0 0), RSeq (- 4)), (Hardware_Concurrency, RNat 1),
      (Load Acquire (Elem 0 0), RSeq (- 4)), (Now, RNat 20)] (- 1)"
proof
  let ?l = "[(Load Acquire (Elem 0 0), RSeq (- 4)), (Hardware_Concurrency, RNat 1),
      (Load Acquire (Elem 0 0), RSeq (- 4)), (Now, RNat 20)] :: unit log"
  assume "returns (mt_wait_until_published_until 9 small_multi 0 (- 1) 5) ?l (- 1)"
  then have "returns (mt_wait_until_published 9 small_multi (seq_at 0) (seq_at (- 1))) ?l (- 1)"
    using mt_timed_waits_ignore_deadline [OF library_strategiesI(1), of small_multi 7] by (simp add: seq_at_def)
  then have "\<exists>v. (Load Acquire (mt_entry small_multi (seq_at 0)), RSeq v) \<in> set ?l \<and> 0 \<le> difference v (seq_at 0)"
    by (intro mt_wait_seen [where x = "- 1" and y = 0 and p = 0, OF library_strategiesI(1) [of 7]]) simp_all
  then show False by (auto simp: mt_entry_def difference_def seq_at_def)
qed

end
