(* ===== verification/Claim_Typing.thy ===== *)
theory Claim_Typing
  imports Access_Typing Single_Threaded_Claim_Strategy Multi_Threaded_Claim_Strategy
begin

text \<open>
  The type discipline applied to the claim strategies: which shared objects each operation may
  touch and what it returns.  No operation reaches outside the atomics of the strategy and of the
  barriers it was given, \<open>m_published\<close> is indexed within its bounds, and every operation that
  changes a strategy leaves it well-formed.  The judgement is about all logs, so it holds
  whatever the other threads do, and of timed operations as well.
\<close>

section \<open>The single-threaded claim strategy\<close>

text \<open>
  Well-formed: the buffer size is a power of two, the wait strategy is one of the library and
  shared by both barriers.
\<close>

definition st_well_formed :: "'d single_claim \<Rightarrow> bool" where
  "st_well_formed s \<longleftrightarrow> power_of_two (st_bufferSize s) \<and>
     sb_waitStrategy (st_readBarrier s) \<in> library_strategies \<and>
     sbg_waitStrategy (st_claimBarrier s) = sb_waitStrategy (st_readBarrier s)"

text \<open>It loads its own cursor and the claim barriers, and stores nothing but its own cursor.\<close>

definition st_access :: "'d single_claim \<Rightarrow> 'd act \<Rightarrow> bool" where
  "st_access s = confined (insert (sb_lastPublished (st_readBarrier s)) (set (sbg_sequences (st_claimBarrier s))))
     {sb_lastPublished (st_readBarrier s)} {}"

lemma st_well_formed_claims [simp]:
  "st_well_formed (s\<lparr>st_nextSequenceToClaim := i\<rparr>) \<longleftrightarrow> st_well_formed s"
  by (simp add: st_well_formed_def)

text \<open>
  The results: a claim starts at the next number, is no larger than asked for, and moves the
  producer's cursor to its end and changes nothing else; a failed attempt changes nothing.
\<close>

definition st_claimed :: "'d single_claim \<Rightarrow> size_t \<Rightarrow> sequence_range \<times> 'd single_claim \<Rightarrow> bool" where
  "st_claimed s count = (\<lambda>(rng, s').
     range_first rng = st_nextSequenceToClaim s \<and> range_size rng \<le> count \<and>
     s' = s\<lparr>st_nextSequenceToClaim := range_end rng\<rparr> \<and> st_well_formed s')"

definition st_tried :: "'d single_claim \<Rightarrow> size_t \<Rightarrow> sequence_range \<Rightarrow> bool \<times> sequence_range \<times> 'd single_claim \<Rightarrow> bool" where
  "st_tried s count rng = (\<lambda>(ok, rest). if ok then st_claimed s count rest else rest = (rng, s))"

lemma st_take_typed: "st_well_formed s \<Longrightarrow> st_claimed s count (st_take s count d)"
  by (simp add: st_claimed_def st_take_def Let_def sequence_range_defs)

lemma new_single_claim_typed:
  "W \<in> library_strategies \<Longrightarrow> typed (\<lambda>c. c = Init a (- 1)) st_well_formed (new_single_claim bufferSize W a)"
  by (simp add: new_single_claim_def new_sequence_barrier_def typed_bind st_well_formed_def power_of_two_def
      new_sequence_barrier_group_def)

lemma st_add_typed:
  assumes "st_well_formed s"
  shows "typed (\<lambda>_. False) st_well_formed (st_add_claim_barrier s b)"
    and "st_well_formed (st_add_claim_barrier_group s g)"
  using assms by (simp_all add: st_add_claim_barrier_def st_add_claim_barrier_group_def group_add_barrier_def
      group_add_group_def typed_bind st_well_formed_def)

lemma st_group_typed:
  assumes "st_well_formed s" and "\<And>x. R x"
  shows "typed (st_access s) R (group_wait_until_published n (st_claimBarrier s) m)"
    and "typed (st_access s) R (group_last_published (st_claimBarrier s))"
  using assms unfolding st_access_def st_well_formed_def
  by (auto intro!: confined_wait_strategy.typed_group_waits [OF library_strategy_confined]
      typed_group_last_published)

text \<open>The timed waits, when the wait strategy has them.\<close>

abbreviation st_timed :: "'d single_claim \<Rightarrow> bool" where
  "st_timed s \<equiv> sb_waitStrategy (st_readBarrier s) \<in> timed_strategies"

lemma st_group_timed_typed:
  assumes "st_well_formed s" "st_timed s" and "\<And>x. R x"
  shows "typed (st_access s) R (group_wait_until_published_for n (st_claimBarrier s) m d)"
    and "typed (st_access s) R (group_wait_until_published_until n (st_claimBarrier s) m d)"
  using assms unfolding st_access_def st_well_formed_def
  by (auto intro!: confined_timed_wait_strategy.typed_group_timed_waits [OF timed_strategy_confined])

lemma st_barrier_typed:
  assumes "st_well_formed s"
  shows "typed (st_access s) (\<lambda>_. True) (barrier_wait_until_published n (st_readBarrier s) m)"
    and "typed (st_access s) (\<lambda>_. True) (barrier_last_published (st_readBarrier s))"
    and "typed (st_access s) (\<lambda>_. True) (barrier_publish (st_readBarrier s) x)"
  using assms unfolding st_access_def st_well_formed_def
  by (auto intro!: confined_wait_strategy.typed_barrier_waits [OF library_strategy_confined]
      confined_wait_strategy.typed_barrier_publish [OF library_strategy_confined])

lemma st_barrier_timed_typed:
  assumes "st_timed s"
  shows "typed (st_access s) (\<lambda>_. True) (barrier_wait_until_published_for n (st_readBarrier s) m d)"
    and "typed (st_access s) (\<lambda>_. True) (barrier_wait_until_published_until n (st_readBarrier s) m d)"
  using assms unfolding st_access_def
  by (auto intro!: confined_timed_wait_strategy.typed_barrier_timed_waits [OF timed_strategy_confined])

lemma st_claim_one_typed:
  "st_well_formed s \<Longrightarrow> typed (st_access s) (\<lambda>(seq, s'). st_claimed s 1 (sequence_range seq 1, s')) (st_claim_one n s)"
  by (auto simp: st_claim_one_def typed_bind st_claimed_def sequence_range_defs intro!: st_group_typed)

lemma st_claim_typed: "st_well_formed s \<Longrightarrow> typed (st_access s) (st_claimed s count) (st_claim n s count)"
  by (auto simp: st_claim_def typed_bind Let_def intro!: st_group_typed st_take_typed)

lemma st_try_claim_typed: "st_well_formed s \<Longrightarrow> typed (st_access s) (st_tried s count rng) (st_try_claim s count rng)"
  by (auto simp: st_try_claim_def typed_bind Let_def st_tried_def intro!: st_group_typed st_take_typed)

lemma st_timed_try_claim_typed:
  assumes "st_well_formed s" "st_timed s"
  shows "typed (st_access s) (st_tried s count rng) (st_try_claim_for n s count rng d)"
    and "typed (st_access s) (st_tried s count rng) (st_try_claim_until n s count rng d)"
  unfolding st_try_claim_for_def st_try_claim_until_def typed_bind
  by (rule typed_mono [OF st_try_claim_typed [OF assms(1)]],
      auto simp: st_tried_def typed_bind Let_def intro!: st_group_timed_typed st_take_typed assms)+

text \<open>
  C36.  The single-threaded claim strategy is well-typed, whatever the other threads do.  Its
  constructor touches only the atomic of the new strategy and makes a well-formed one (buffer
  size a power of two, both barriers on one wait strategy of the library).  Its operations load
  only the cursor and the claim barriers, store only the cursor, with release, and never touch
  an element of the ring buffer.  Claims start at the next number, are no larger than asked for,
  move the producer's cursor to their end and leave the rest of the strategy, so that it stays
  well-formed; a failed attempt leaves both the strategy and the out-parameter.  The operations
  with a timeout or deadline are as well-typed, on the wait strategies whose timed waits compile.
\<close>

theorem st_well_typed:
  assumes "W \<in> library_strategies" and "st_well_formed s"
  shows "typed (\<lambda>c. c = Init a (- 1)) st_well_formed (new_single_claim bufferSize W a) \<and>
    typed (\<lambda>_. False) st_well_formed (st_add_claim_barrier s b) \<and>
    st_well_formed (st_add_claim_barrier_group s g) \<and>
    typed (st_access s) (\<lambda>(seq, s'). st_claimed s 1 (sequence_range seq 1, s')) (st_claim_one n s) \<and>
    typed (st_access s) (st_claimed s count) (st_claim n s count) \<and>
    typed (st_access s) (st_tried s count rng) (st_try_claim s count rng) \<and>
    typed (st_access s) (\<lambda>_. True) (st_publish s x) \<and>
    typed (st_access s) (\<lambda>_. True) (st_last_published s) \<and>
    typed (st_access s) (\<lambda>_. True) (st_wait_until_published_known n s x known) \<and>
    (sb_waitStrategy (st_readBarrier s) \<in> timed_strategies \<longrightarrow>
      typed (st_access s) (st_tried s count rng) (st_try_claim_for n s count rng d) \<and>
      typed (st_access s) (st_tried s count rng) (st_try_claim_until n s count rng d) \<and>
      typed (st_access s) (\<lambda>_. True) (st_wait_until_published_known_for n s x known d) \<and>
      typed (st_access s) (\<lambda>_. True) (st_wait_until_published_known_until n s x known d))"
  unfolding st_publish_def st_last_published_def st_wait_until_published_known_def st_wait_until_published_def
    st_wait_until_published_known_for_def st_wait_until_published_for_def
    st_wait_until_published_known_until_def st_wait_until_published_until_def
  using assms by (intro conjI impI new_single_claim_typed st_add_typed st_claim_one_typed st_claim_typed
      st_try_claim_typed st_timed_try_claim_typed st_barrier_typed st_barrier_timed_typed)

text \<open>The property at a strategy of four slots with one claim barrier.\<close>

definition four_slots :: "nat single_claim" where
  "four_slots = \<lparr>st_bufferSize = 4, st_nextSequenceToClaim = 4,
     st_claimBarrier = \<lparr>sbg_waitStrategy = spin_wait_strategy 0, sbg_sequences = [Cell 1]\<rparr>,
     st_readBarrier = \<lparr>sb_waitStrategy = spin_wait_strategy 0, sb_lastPublished = Cell 0\<rparr>\<rparr>"

lemma four_slots_well_formed: "st_well_formed four_slots"
  by (simp add: st_well_formed_def four_slots_def power_of_two_def library_strategies_def)

lemma st_well_typed_witness:
  "typed (st_access four_slots) (st_tried four_slots 2 empty_sequence_range)
     (st_try_claim_until 1 four_slots 2 empty_sequence_range 9)"
proof -
  have "sb_waitStrategy (st_readBarrier four_slots) \<in> timed_strategies" by (simp add: four_slots_def)
  then show ?thesis
    using st_well_typed [OF library_strategiesI(1) [of 0] four_slots_well_formed,
      of undefined undefined undefined undefined 1 2 empty_sequence_range 0 0 9] by blast
qed

section \<open>The multi-threaded claim strategy\<close>

definition mt_well_formed :: "'d multi_claim \<Rightarrow> bool" where
  "mt_well_formed s \<longleftrightarrow> power_of_two (mt_bufferSize s) \<and> mt_indexMask s = mt_bufferSize s - 1 \<and>
     mt_waitStrategy s \<in> library_strategies \<and> sbg_waitStrategy (mt_claimBarrier s) = mt_waitStrategy s"

text \<open>The array \<open>m_published\<close>: one entry for each slot.\<close>

definition mt_entries :: "nat \<Rightarrow> size_t \<Rightarrow> addr set" where
  "mt_entries array bufferSize = {Elem array i | i. i < unat bufferSize}"

text \<open>
  It loads its counter, its entries and the claim barriers, stores nothing but its entries, and
  updates nothing but its counter.
\<close>

definition mt_access :: "'d multi_claim \<Rightarrow> 'd act \<Rightarrow> bool" where
  "mt_access s = confined
     (insert (mt_nextClaimable s) (mt_entries (mt_published s) (mt_bufferSize s) \<union> set (sbg_sequences (mt_claimBarrier s))))
     (mt_entries (mt_published s) (mt_bufferSize s)) {mt_nextClaimable s}"

text \<open>The construction: the counter, and relaxed stores to the entries.\<close>

definition mt_constructing :: "nat \<Rightarrow> addr \<Rightarrow> size_t \<Rightarrow> 'd act \<Rightarrow> bool" where
  "mt_constructing array a bufferSize c \<longleftrightarrow>
     c = Init a 0 \<or> (\<exists>e \<in> mt_entries array bufferSize. \<exists>v. c = Store Relaxed e v)"

definition mt_tried :: "size_t \<Rightarrow> sequence_range \<Rightarrow> bool \<times> sequence_range \<Rightarrow> bool" where
  "mt_tried count rng = (\<lambda>(ok, rng'). if ok then range_size rng' \<le> count else rng' = rng)"

lemma mt_entry_in_bounds:
  assumes "mt_well_formed s"
  shows "mt_entry s x \<in> mt_entries (mt_published s) (mt_bufferSize s)"
proof -
  from assms have m: "x AND mt_indexMask s \<le> mt_bufferSize s - 1" and pos: "mt_bufferSize s \<noteq> 0"
    by (auto simp: mt_well_formed_def power_of_two_def word_and_le1)
  then have "unat (x AND mt_indexMask s) \<le> unat (mt_bufferSize s) - 1"
    by (simp add: word_le_nat_alt unat_minus_one)
  moreover have "0 < unat (mt_bufferSize s)" using pos by (simp add: unat_gt_0)
  ultimately show ?thesis by (auto simp: mt_entry_def mt_entries_def)
qed

lemma mt_constructing_store [simp]:
  "i < bufferSize \<Longrightarrow> mt_constructing array a bufferSize (Store Relaxed (Elem array (unat i)) v)"
  by (auto simp: mt_constructing_def mt_entries_def word_less_nat_alt)

lemma mt_init_published_typed:
  "typed (mt_constructing array a bufferSize) (\<lambda>_. True) (mt_init_published bufferSize array i)"
proof (induction bufferSize array i rule: mt_init_published.induct)
  case (1 bufferSize array i)
  then show ?case by (subst mt_init_published.simps) simp
qed

lemma new_multi_claim_typed:
  "W \<in> library_strategies \<Longrightarrow>
    typed (mt_constructing array a bufferSize) mt_well_formed (new_multi_claim bufferSize W array a)"
  by (auto simp: new_multi_claim_def typed_bind mt_constructing_def [of _ _ _ "Init _ _"] mt_well_formed_def
      power_of_two_def new_sequence_barrier_group_def intro!: typed_weaken [OF mt_init_published_typed])

lemma mt_add_typed:
  assumes "mt_well_formed s"
  shows "typed (\<lambda>_. False) mt_well_formed (mt_add_claim_barrier s b)"
    and "mt_well_formed (mt_add_claim_barrier_group s g)"
  using assms by (simp_all add: mt_add_claim_barrier_def mt_add_claim_barrier_group_def group_add_barrier_def
      group_add_group_def typed_bind mt_well_formed_def)

lemma mt_group_typed:
  assumes "mt_well_formed s" and "\<And>x. R x"
  shows "typed (mt_access s) R (group_wait_until_published n (mt_claimBarrier s) m)"
    and "typed (mt_access s) R (group_last_published (mt_claimBarrier s))"
  using assms unfolding mt_access_def mt_well_formed_def
  by (auto intro!: confined_wait_strategy.typed_group_waits [OF library_strategy_confined]
      typed_group_last_published)

lemma mt_group_timed_typed:
  assumes "mt_well_formed s" "mt_waitStrategy s \<in> timed_strategies" and "\<And>x. R x"
  shows "typed (mt_access s) R (group_wait_until_published_until n (mt_claimBarrier s) m d)"
  using assms unfolding mt_access_def mt_well_formed_def
  by (auto intro!: confined_timed_wait_strategy.typed_group_timed_waits [OF timed_strategy_confined])

lemma mt_wait_typed:
  assumes "mt_well_formed s" and "\<And>x. R x"
  shows "typed (mt_access s) R (ws_wait_until_published (mt_waitStrategy s) n m [mt_entry s x])"
  using assms mt_entry_in_bounds [OF assms(1), of x] unfolding mt_access_def mt_well_formed_def
  by (auto intro!: confined_wait_strategy.typed_waits [OF library_strategy_confined])

lemma mt_signal_typed:
  "mt_well_formed s \<Longrightarrow> typed (mt_access s) (\<lambda>_. True) (ws_signal_all_when_blocking (mt_waitStrategy s))"
  unfolding mt_access_def mt_well_formed_def
  by (auto intro!: confined_wait_strategy.typed_signals [OF library_strategy_confined])

lemma mt_access_simps [simp]:
  "mt_access s (Fetch_Add ord (mt_nextClaimable s) x)"
  "mt_access s (Cas_Weak o1 o2 (mt_nextClaimable s) x y)"
  "mt_access s (Load ord (mt_nextClaimable s))"
  "mt_access s Now"
  "mt_well_formed s \<Longrightarrow> mt_access s (Load ord (mt_entry s x))"
  "mt_well_formed s \<Longrightarrow> mt_access s (Store Release (mt_entry s x) y)"
  by (auto simp: mt_access_def mt_entry_in_bounds)

subsection \<open>Claims\<close>

lemma mt_claim_one_typed: "mt_well_formed s \<Longrightarrow> typed (mt_access s) (\<lambda>_. True) (mt_claim_one n s)"
  by (auto simp: mt_claim_one_def typed_bind intro!: typed_fetch_add mt_group_typed)

lemma mt_claim_typed:
  "mt_well_formed s \<Longrightarrow> typed (mt_access s) (\<lambda>rng. range_size rng = min count (mt_bufferSize s)) (mt_claim n s count)"
  by (auto simp: mt_claim_def typed_bind Let_def sequence_range_defs intro!: typed_fetch_add mt_group_typed)

lemma mt_tried_simps [simp]:
  "mt_tried count rng (False, rng)"
  "mt_tried count rng (True, sequence_range x m) \<longleftrightarrow> m \<le> count"
  by (simp_all add: mt_tried_def sequence_range_defs)

lemma mt_try_claim_loop_typed:
  "m \<le> count \<Longrightarrow> typed (mt_access s) (mt_tried count rng) (mt_try_claim_loop n s published m rng x)"
  by (induction n arbitrary: m x) (auto simp: Let_def min.coboundedI1 intro!: typed_cas)

lemma mt_try_claim_typed:
  "mt_well_formed s \<Longrightarrow> typed (mt_access s) (mt_tried count rng) (mt_try_claim n s count rng)"
  by (auto simp: mt_try_claim_def typed_bind Let_def intro!: mt_group_typed mt_try_claim_loop_typed)

lemma mt_try_claim_until_loop_typed:
  "mt_well_formed s \<Longrightarrow> mt_waitStrategy s \<in> timed_strategies \<Longrightarrow>
    typed (mt_access s) (mt_tried count rng) (mt_try_claim_until_loop w n s published count rng d x)"
  by (induction n arbitrary: published x) (auto simp: Let_def typed_bind intro!: typed_cas mt_group_timed_typed)

lemma mt_timed_try_claim_typed:
  assumes "mt_well_formed s" "mt_waitStrategy s \<in> timed_strategies"
  shows "typed (mt_access s) (mt_tried count rng) (mt_try_claim_until n s count rng d)"
    and "typed (mt_access s) (mt_tried count rng) (mt_try_claim_for n s count rng d)"
  using assms by (auto simp: mt_try_claim_for_def mt_try_claim_until_def typed_bind Let_def
      intro!: typed_now mt_group_typed mt_try_claim_until_loop_typed)

subsection \<open>Publishing and waiting\<close>

lemma mt_set_published_typed:
  "mt_well_formed s \<Longrightarrow> R () \<Longrightarrow> typed (mt_access s) R (mt_set_published s x)"
  by (simp add: mt_set_published_def)

lemma mt_publish_loop_typed: "mt_well_formed s \<Longrightarrow> typed (mt_access s) (\<lambda>_. True) (mt_publish_loop s rng i j)"
proof (induction s rng i j rule: mt_publish_loop.induct)
  case (1 s rng i j)
  then show ?case by (subst mt_publish_loop.simps) (auto simp: typed_bind intro!: mt_set_published_typed)
qed

lemma mt_publish_typed:
  assumes "mt_well_formed s"
  shows "typed (mt_access s) (\<lambda>_. True) (mt_publish s x)"
    and "typed (mt_access s) (\<lambda>_. True) (mt_publish_range s rng)"
  using assms by (auto simp: mt_publish_def mt_publish_range_def typed_bind
      intro!: mt_set_published_typed mt_signal_typed typed_weaken [OF mt_publish_loop_typed])

lemma mt_is_published_typed:
  "mt_well_formed s \<Longrightarrow> (\<And>p. R p) \<Longrightarrow> typed (mt_access s) R (mt_is_published s x)"
  by (simp add: mt_is_published_def)

lemma mt_last_published_loop_typed:
  "mt_well_formed s \<Longrightarrow> typed (mt_access s) (\<lambda>_. True) (mt_last_published_loop n s x y)"
  by (induction n arbitrary: x y) (auto simp: typed_bind intro!: mt_is_published_typed)

lemma mt_last_published_after_typed:
  "mt_well_formed s \<Longrightarrow> typed (mt_access s) (\<lambda>_. True) (mt_last_published_after n s x)"
  by (simp add: mt_last_published_after_def mt_last_published_loop_typed)

lemma mt_wait_loop_typed: "mt_well_formed s \<Longrightarrow> typed (mt_access s) (\<lambda>_. True) (mt_wait_loop n s y x)"
proof (induction n s y x rule: mt_wait_loop.induct)
  case (1 n s y x)
  have "typed (mt_access s) (\<lambda>_. True) (mt_wait_loop n s y (x + 1))" if "difference x y \<le> 0"
    using 1 that by blast
  then show ?case
    by (subst mt_wait_loop.simps) (auto simp: typed_bind intro!: mt_is_published_typed mt_wait_typed [OF 1(2)] 1(2))
qed

lemma mt_wait_until_loop_typed:
  "mt_well_formed s \<Longrightarrow> typed (mt_access s) (\<lambda>_. True) (mt_wait_until_loop n s y d x)"
proof (induction n s y d x rule: mt_wait_until_loop.induct)
  case (1 n s y d x)
  have "typed (mt_access s) (\<lambda>_. True) (mt_wait_until_loop n s y d (x + 1))" if "difference x y \<le> 0"
    using 1 that by blast
  then show ?case
    by (subst mt_wait_until_loop.simps)
      (auto simp: typed_bind intro!: mt_is_published_typed mt_wait_typed [OF 1(3)] 1(3))
qed

lemma mt_waits_typed:
  assumes "mt_well_formed s"
  shows "typed (mt_access s) (\<lambda>_. True) (mt_wait_until_published n s y x)"
    and "typed (mt_access s) (\<lambda>_. True) (mt_wait_until_published_until n s y x d)"
    and "typed (mt_access s) (\<lambda>_. True) (mt_wait_until_published_for n s y x d)"
  using assms by (auto simp: mt_wait_until_published_for_def mt_wait_until_published_until_def
      mt_wait_until_published_def typed_bind split: option.splits
      intro!: typed_now mt_last_published_after_typed typed_weaken [OF mt_wait_loop_typed]
        typed_weaken [OF mt_wait_until_loop_typed])

text \<open>
  C37.  The multi-threaded claim strategy is well-typed, whatever the other threads do.  Its
  constructor touches only the counter and the entries \<open>0 \<le> i < bufferSize\<close> of \<open>m_published\<close> and
  makes a well-formed strategy (buffer size a power of two, the mask one less, one wait strategy
  of the library); adding claim barriers touches nothing and keeps it so.  The operations index
  \<open>m_published\<close> within its bounds for every sequence number, load only the entries, the counter
  and the claim barriers, store only entries, with release, read-modify-write only the counter,
  and never touch an element of the ring buffer.  A claim has exactly the size asked for, capped
  by the buffer's; the range of a successful attempt is no larger than asked for, and a failed
  attempt leaves its out-parameter.  The attempts with a timeout or deadline, which use the timed
  waits of the wait strategy, are as well-typed on the strategies whose timed waits compile.
\<close>

theorem mt_well_typed:
  assumes "W \<in> library_strategies" and "mt_well_formed s"
  shows "typed (mt_constructing array a bufferSize) mt_well_formed (new_multi_claim bufferSize W array a) \<and>
    typed (\<lambda>_. False) mt_well_formed (mt_add_claim_barrier s b) \<and>
    mt_well_formed (mt_add_claim_barrier_group s g) \<and>
    typed (mt_access s) (\<lambda>_. True) (mt_claim_one n s) \<and>
    typed (mt_access s) (\<lambda>rng. range_size rng = min count (mt_bufferSize s)) (mt_claim n s count) \<and>
    typed (mt_access s) (mt_tried count rng) (mt_try_claim n s count rng) \<and>
    typed (mt_access s) (\<lambda>_. True) (mt_publish s y) \<and>
    typed (mt_access s) (\<lambda>_. True) (mt_publish_range s rng) \<and>
    typed (mt_access s) (\<lambda>_. True) (mt_last_published_after n s x) \<and>
    typed (mt_access s) (\<lambda>_. True) (mt_wait_until_published n s y x) \<and>
    typed (mt_access s) (\<lambda>_. True) (mt_wait_until_published_for n s y x d) \<and>
    typed (mt_access s) (\<lambda>_. True) (mt_wait_until_published_until n s y x d) \<and>
    (mt_waitStrategy s \<in> timed_strategies \<longrightarrow>
      typed (mt_access s) (mt_tried count rng) (mt_try_claim_for n s count rng d) \<and>
      typed (mt_access s) (mt_tried count rng) (mt_try_claim_until n s count rng d))"
  using assms by (intro conjI impI new_multi_claim_typed mt_add_typed mt_claim_one_typed mt_claim_typed
      mt_try_claim_typed mt_timed_try_claim_typed mt_publish_typed mt_last_published_after_typed mt_waits_typed)

text \<open>The property at a strategy of four slots with one claim barrier.\<close>

definition four_entries :: "nat multi_claim" where
  "four_entries = \<lparr>mt_indexMask = 3, mt_bufferSize = 4, mt_waitStrategy = spin_wait_strategy 0,
     mt_claimBarrier = \<lparr>sbg_waitStrategy = spin_wait_strategy 0, sbg_sequences = [Cell 1]\<rparr>,
     mt_published = 0, mt_nextClaimable = Cell 0\<rparr>"

lemma four_entries_well_formed: "mt_well_formed four_entries"
  by (simp add: mt_well_formed_def four_entries_def power_of_two_def library_strategies_def)

lemma mt_well_typed_witness:
  "typed (mt_access four_entries) (\<lambda>rng. range_size rng = min 9 (mt_bufferSize four_entries)) (mt_claim 1 four_entries 9)
    \<and> mt_bufferSize four_entries = 4"
  using mt_well_typed [OF library_strategiesI(1) [of 0] four_entries_well_formed, of undefined undefined 0]
  by (intro conjI) (blast, simp add: four_entries_def)

end
