(* ===== verification/Barrier_Contract.thy ===== *)
theory Barrier_Contract
  imports Claim_Contract
begin

text \<open>
  What sequence barriers and barrier groups promise with every wait strategy: a number
  published is the number read and ends the waits for it, a wait that gives up has seen a
  barrier lagging and its deadline behind it, and a group counts as published what all of its
  barriers, those of the groups added to it among them, have published.
\<close>

section \<open>Sequence barriers\<close>

text \<open>
  C38.  Publishing a number on a barrier whose wait strategy nobody is using makes it the last
  published number, and a wait for a number at or before it returns it at once, as the waits with
  a timeout or deadline do on a wait strategy that has them; no other sequence number changes and
  the mutex of the strategy is free again.
\<close>

theorem barrier_publish_roundtrip:
  assumes "W \<in> library_strategies" and "sb_waitStrategy b = W" and "owner \<sigma> (ws_object W) = None"
    and "0 \<le> difference p m"
  shows "(\<exists>ws l. run t alone (bind (barrier_publish b p) (\<lambda>_. bind (barrier_last_published b) (\<lambda>x.
        bind (barrier_wait_until_published n b m) (\<lambda>y. Return (x, y))))) i \<sigma> =
      (Returned (p, p), (put (sb_lastPublished b) p \<sigma>)\<lparr>waiting := ws\<rparr>, l)) \<and>
    (W \<in> timed_strategies \<longrightarrow>
      (\<exists>ws l. run t alone (bind (barrier_publish b p) (\<lambda>_. bind (barrier_wait_until_published_for n b m d) (\<lambda>y.
        bind (barrier_wait_until_published_until n b m d) (\<lambda>z. Return (y, z))))) i \<sigma> =
      (Returned (p, p), (put (sb_lastPublished b) p \<sigma>)\<lparr>waiting := ws\<rparr>, l)))"
proof -
  obtain ws l where r: "run t alone (ws_signal_all_when_blocking W) (Suc i) (put (sb_lastPublished b) p \<sigma>) =
      (Returned (), (put (sb_lastPublished b) p \<sigma>)\<lparr>waiting := ws\<rparr>, l)"
    using run_signal [OF assms(1), of "put (sb_lastPublished b) p \<sigma>" t "Suc i"] assms(3) by auto
  show ?thesis
    by (intro conjI impI exI) (simp_all add: barrier_publish_def barrier_wait_defs prog_defs assms(2,4) run_bind [OF r])
qed

text \<open>The round trip on the strategy with a mutex, and the waits with a limit on the other.\<close>

lemma barrier_publish_roundtrip_witness:
  "(\<exists>ws l. run 0 alone (bind (barrier_publish \<lparr>sb_waitStrategy = blocking_wait_strategy 3, sb_lastPublished = Cell 5\<rparr> 7)
      (\<lambda>_. bind (barrier_last_published \<lparr>sb_waitStrategy = blocking_wait_strategy 3, sb_lastPublished = Cell 5\<rparr>) (\<lambda>x.
      bind (barrier_wait_until_published 1 \<lparr>sb_waitStrategy = blocking_wait_strategy 3, sb_lastPublished = Cell 5\<rparr> 6) (\<lambda>y.
        Return (x, y))))) 0 (at_rest ()) =
    (Returned (7, 7), (put (Cell 5) 7 (at_rest ()))\<lparr>waiting := ws\<rparr>, l)) \<and>
   (\<exists>ws l. run 0 alone (bind (barrier_publish \<lparr>sb_waitStrategy = spin_wait_strategy 3, sb_lastPublished = Cell 5\<rparr> 7)
      (\<lambda>_. bind (barrier_wait_until_published_for 1 \<lparr>sb_waitStrategy = spin_wait_strategy 3, sb_lastPublished = Cell 5\<rparr> 6 9) (\<lambda>y.
      bind (barrier_wait_until_published_until 1 \<lparr>sb_waitStrategy = spin_wait_strategy 3, sb_lastPublished = Cell 5\<rparr> 6 9) (\<lambda>z.
        Return (y, z))))) 0 (at_rest ()) =
    (Returned (7, 7), (put (Cell 5) 7 (at_rest ()))\<lparr>waiting := ws\<rparr>, l))"
  using barrier_publish_roundtrip [OF library_strategiesI(2),
      of "\<lparr>sb_waitStrategy = blocking_wait_strategy 3, sb_lastPublished = Cell 5\<rparr>" 3 "at_rest ()" 7 6 0 1 0 9]
    barrier_publish_roundtrip [OF library_strategiesI(1),
      of "\<lparr>sb_waitStrategy = spin_wait_strategy 3, sb_lastPublished = Cell 5\<rparr>" 3 "at_rest ()" 7 6 0 1 0 9]
  by (simp add: difference_def)

text \<open>
  The waits of a barrier: without a deadline the result is a value of the barrier at or
  after the number waited for; with one it may be before, and then the deadline has passed.
  The waits with one are those of the wait strategies that have them.
\<close>

theorem barrier_waits_correct:
  assumes "W \<in> library_strategies" and "sb_waitStrategy b = W"
  shows "(returns (barrier_wait_until_published n b m) l r \<longrightarrow>
      0 \<le> difference r m \<and> (Load Acquire (sb_lastPublished b), RSeq r) \<in> set l) \<and>
    (W \<in> timed_strategies \<and> returns (barrier_wait_until_published_until n b m d) l r \<longrightarrow>
      (Load Acquire (sb_lastPublished b), RSeq r) \<in> set l \<and> (0 \<le> difference r m \<or> deadline_passed d l)) \<and>
    (W \<in> timed_strategies \<and> returns (barrier_wait_until_published_for n b m d) l r \<longrightarrow>
      (Load Acquire (sb_lastPublished b), RSeq r) \<in> set l \<and>
      (0 \<le> difference r m \<or> (\<exists>t. (Now, RNat t) \<in> set l \<and> deadline_passed (t + d) l)))"
proof -
  note W = library_strategy_model [OF assms(1)]
  have read_it: "(Load Acquire a, RSeq r) \<in> set l" if "saw [a] m r l" for a r and l :: "'a log"
    using that by (auto simp: saw_def saw_all_def saw_lag_def length_Suc_conv split: if_splits)
  have "0 \<le> difference r m \<and> (Load Acquire (sb_lastPublished b), RSeq r) \<in> set l"
    if "returns (barrier_wait_until_published n b m) l r"
    using wait_strategy_model.returns_barrier_wait [OF W assms(2) that] read_it by (simp add: saw_all_iff)
  moreover have "(Load Acquire (sb_lastPublished b), RSeq r) \<in> set l \<and> (0 \<le> difference r m \<or> deadline_passed d l)"
    if "W \<in> timed_strategies" "returns (barrier_wait_until_published_until n b m d) l r"
    using timed_wait_strategy_model.returns_barrier_wait_until [OF timed_strategy_model [OF that(1)] assms(2) that(2)]
      timed_wait_strategy_model.barrier_wait_until_deadline [OF timed_strategy_model [OF that(1)] assms(2) that(2)]
      read_it by fastforce
  moreover have "(Load Acquire (sb_lastPublished b), RSeq r) \<in> set l \<and>
      (0 \<le> difference r m \<or> (\<exists>t. (Now, RNat t) \<in> set l \<and> deadline_passed (t + d) l))"
    if "W \<in> timed_strategies" "returns (barrier_wait_until_published_for n b m d) l r"
    using timed_wait_strategy_model.returns_barrier_wait_for [OF timed_strategy_model [OF that(1)] assms(2) that(2)]
      timed_wait_strategy_model.barrier_wait_for_deadline [OF timed_strategy_model [OF that(1)] assms(2) that(2)]
      read_it by fastforce
  ultimately show ?thesis by blast
qed

text \<open>A barrier at -1 waited on for 0, on one core, with a deadline the clock is past.\<close>

lemma barrier_waits_correct_witness:
  "\<exists>l. returns (barrier_wait_until_published_until 1
     \<lparr>sb_waitStrategy = spin_wait_strategy 3 :: unit wait_strategy, sb_lastPublished = Cell 5\<rparr> 0 9) l (- 1) \<and> deadline_passed 9 l"
proof -
  let ?b = "\<lparr>sb_waitStrategy = spin_wait_strategy 3, sb_lastPublished = Cell 5\<rparr> :: unit sequence_barrier"
  let ?l = "[(Load Acquire (Cell 5), RSeq (- 1)), (Hardware_Concurrency, RNat 1),
    (Load Acquire (Cell 5), RSeq (- 1)), (Now, RNat 20)] :: unit log"
  let ?\<sigma> = "(put (Cell 5) (- 1) (at_rest ()))\<lparr>cores := 1, clock := 20\<rparr>"
  have "run 0 alone (barrier_wait_until_published_until 1 ?b 0 9) 0 ?\<sigma> = (Returned (- 1), ?\<sigma>, ?l)"
    by (simp add: barrier_wait_defs difference_def spin_wait_strategy_def spin_wait_until_published_until_def
        new_spin_wait_def spin_reset_def next_spin_will_yield_def minimum_sequence_after_def prog_defs tick_def)
  then have r: "returns (barrier_wait_until_published_until 1 ?b 0 9) ?l (- 1)" by (rule run_ends) simp
  have "0 \<le> difference (- 1) 0 \<or> deadline_passed 9 ?l"
    using barrier_waits_correct [OF library_strategiesI(1), of ?b 3] r by simp
  then have "deadline_passed 9 ?l" by (simp add: difference_def)
  with r show ?thesis by blast
qed

section \<open>Barrier groups\<close>

text \<open>
  C39.  A group that another group was added to waits for the barriers of both: each was seen
  at or after the number waited for, and the result is the least of the values seen.
\<close>

theorem group_wait_correct:
  assumes "W \<in> library_strategies" and "sbg_waitStrategy g = W"
    and "returns (group_wait_until_published n (group_add_group g h) m) l r"
  shows "0 \<le> difference r m \<and>
    (\<exists>a \<in> set (sbg_sequences g) \<union> set (sbg_sequences h). (Load Acquire a, RSeq r) \<in> set l) \<and>
    (\<forall>a \<in> set (sbg_sequences g) \<union> set (sbg_sequences h).
       \<exists>v. (Load Acquire a, RSeq v) \<in> set l \<and> difference r m \<le> difference v m)"
proof -
  have "sbg_waitStrategy (group_add_group g h) = W" by (simp add: group_add_group_def assms(2))
  from wait_strategy_model.returns_group_wait [OF library_strategy_model [OF assms(1)] this assms(3)]
  have saw: "saw_all (sbg_sequences g @ sbg_sequences h) m r l" by (simp add: group_add_group_def)
  then obtain vs where "length vs = length (sbg_sequences g @ sbg_sequences h)"
    "set (load_log (sbg_sequences g @ sbg_sequences h) vs) \<subseteq> set l" "r \<in> set vs"
    by (auto simp: saw_all_def)
  then have "\<exists>a \<in> set (sbg_sequences g @ sbg_sequences h). (Load Acquire a, RSeq r) \<in> set l"
    using load_log_memberD [of vs "sbg_sequences g @ sbg_sequences h" r] by auto
  moreover have "\<forall>a \<in> set (sbg_sequences g @ sbg_sequences h). \<exists>v. (Load Acquire a, RSeq v) \<in> set l \<and>
      difference r m \<le> difference v m"
    using saw_allD [OF saw] by blast
  ultimately show ?thesis using saw by (simp add: saw_all_def)
qed

lemma group_wait_correct_witness:
  "\<exists>l. returns (group_wait_until_published 1
      (group_add_group \<lparr>sbg_waitStrategy = spin_wait_strategy 3 :: unit wait_strategy, sbg_sequences = [Cell 5]\<rparr>
        \<lparr>sbg_waitStrategy = spin_wait_strategy 3, sbg_sequences = [Cell 6]\<rparr>) 2) l 4 \<and>
     (\<exists>v. (Load Acquire (Cell 6), RSeq v) \<in> set l \<and> difference 4 2 \<le> difference v 2)"
proof -
  let ?g = "\<lparr>sbg_waitStrategy = spin_wait_strategy 3, sbg_sequences = [Cell 5]\<rparr> :: unit sequence_barrier_group"
  let ?h = "\<lparr>sbg_waitStrategy = spin_wait_strategy 3, sbg_sequences = [Cell 6]\<rparr> :: unit sequence_barrier_group"
  let ?l = "[(Load Acquire (Cell 5), RSeq 4), (Load Acquire (Cell 6), RSeq 7)] :: unit log"
  let ?\<sigma> = "put (Cell 5) 4 (put (Cell 6) 7 (at_rest ()))"
  have "run 0 alone (group_wait_until_published 1 (group_add_group ?g ?h) 2) 0 ?\<sigma> = (Returned 4, ?\<sigma>, ?l)"
    by (simp add: group_wait_defs group_add_group_def difference_def minimum_sequence_after_def prog_defs)
  then have r: "returns (group_wait_until_published 1 (group_add_group ?g ?h) 2) ?l 4" by (rule run_ends) simp
  from group_wait_correct [OF library_strategiesI(1) _ this, of 3]
  have "\<exists>v. (Load Acquire (Cell 6), RSeq v) \<in> set ?l \<and> difference 4 2 \<le> difference v 2" by simp
  with r show ?thesis by blast
qed

lemma run_minimum_sequence_loop:
  assumes "\<And>a. a \<in> set as \<Longrightarrow> mem \<sigma> a = seq_at (f a)"
    and "\<And>y z. y \<in> insert x (f ` set as) \<Longrightarrow> z \<in> insert x (f ` set as) \<Longrightarrow> y - z < 2 ^ 63"
  shows "fst (run t alone (minimum_sequence_loop as (seq_at x)) i \<sigma>) = Returned (seq_at (Min (insert x (f ` set as))))"
  using assms
proof (induction as arbitrary: x i)
  case (Cons a as)
  have w: "f a - x < 2 ^ 63" "x - f a < 2 ^ 63"
    using Cons.prems(2) [of "f a" x] Cons.prems(2) [of x "f a"] by auto
  have d: "difference (seq_at (f a)) (seq_at x) = f a - x" using w by (intro difference_seq_at) auto
  have m: "(if difference (seq_at (f a)) (seq_at x) < 0 then seq_at (f a) else seq_at x) = seq_at (min x (f a))"
    by (simp add: d min_def)
  have "Min (insert x (f ` set (a # as))) = Min (insert (min x (f a)) (f ` set as))"
    by (cases "as = []") (auto simp: min.assoc)
  moreover have "fst (run t alone (minimum_sequence_loop as (seq_at (min x (f a)))) (Suc i) \<sigma>) =
      Returned (seq_at (Min (insert (min x (f a)) (f ` set as))))"
    using Cons.prems by (intro Cons.IH) (auto simp: min_def)
  ultimately show ?case using Cons.prems(1) [of a] m by (simp add: run_load split_beta Let_def)
qed simp

lemma run_minimum_sequence:
  assumes "as \<noteq> []" and "\<And>a. a \<in> set as \<Longrightarrow> mem \<sigma> a = seq_at (f a)"
    and "\<And>a b. a \<in> set as \<Longrightarrow> b \<in> set as \<Longrightarrow> f a - f b < 2 ^ 63"
  shows "fst (run t alone (minimum_sequence as) i \<sigma>) = Returned (seq_at (Min (f ` set as)))"
proof (cases as)
  case (Cons a as')
  have "fst (run t alone (minimum_sequence_loop as' (seq_at (f a))) (Suc i) \<sigma>) =
      Returned (seq_at (Min (insert (f a) (f ` set as'))))"
    using assms(2,3) Cons by (intro run_minimum_sequence_loop) auto
  then show ?thesis using assms(2) [of a] by (simp add: Cons minimum_sequence_def run_load split_beta Let_def)
qed (use assms(1) in simp)

text \<open>
  \<open>last_published\<close> of a group is the least of its barriers, and adding a group takes the
  lesser of the two groups, as long as all barriers lie less than \<open>2 ^ 63\<close> apart.
\<close>

theorem group_last_published_correct:
  assumes "sbg_sequences g \<noteq> []" and "sbg_sequences h \<noteq> []"
    and "\<And>a. mem \<sigma> a = seq_at (f a)"
    and "\<And>a b. a \<in> set (sbg_sequences g) \<union> set (sbg_sequences h) \<Longrightarrow>
      b \<in> set (sbg_sequences g) \<union> set (sbg_sequences h) \<Longrightarrow> f a - f b < 2 ^ 63"
  shows "fst (run t alone (group_last_published g) i \<sigma>) = Returned (seq_at (Min (f ` set (sbg_sequences g)))) \<and>
    fst (run t alone (group_last_published (group_add_group g h)) i \<sigma>) =
      Returned (seq_at (min (Min (f ` set (sbg_sequences g))) (Min (f ` set (sbg_sequences h)))))"
proof -
  have "fst (run t alone (group_last_published k) i \<sigma>) = Returned (seq_at (Min (f ` set (sbg_sequences k))))"
    if "sbg_sequences k \<noteq> []" "set (sbg_sequences k) \<subseteq> set (sbg_sequences g) \<union> set (sbg_sequences h)" for k
  proof -
    have "fst (run t alone (minimum_sequence (sbg_sequences k)) i \<sigma>) = Returned (seq_at (Min (f ` set (sbg_sequences k))))"
      using that by (intro run_minimum_sequence assms(3,4)) auto
    then show ?thesis using that(1) by (simp add: group_last_published_def prog_defs)
  qed
  note this [of g] this [of "group_add_group g h"]
  moreover have "Min (f ` (set (sbg_sequences g) \<union> set (sbg_sequences h))) =
      min (Min (f ` set (sbg_sequences g))) (Min (f ` set (sbg_sequences h)))"
    using assms(1,2) by (simp add: image_Un Min_Un)
  ultimately show ?thesis using assms(1) by (simp add: group_add_group_def)
qed

lemma group_last_published_correct_witness:
  "fst (run 0 alone (group_last_published (group_add_group
      \<lparr>sbg_waitStrategy = spin_wait_strategy 3, sbg_sequences = [Cell 5, Cell 6]\<rparr>
      \<lparr>sbg_waitStrategy = spin_wait_strategy 3, sbg_sequences = [Cell 7]\<rparr>)) 0
     (put (Cell 7) (- 1) (put (Cell 6) 7 (at_rest ())))) = Returned (- 1)"
  using group_last_published_correct [of "\<lparr>sbg_waitStrategy = spin_wait_strategy 3, sbg_sequences = [Cell 5, Cell 6]\<rparr>"
      "\<lparr>sbg_waitStrategy = spin_wait_strategy 3, sbg_sequences = [Cell 7]\<rparr>"
      "put (Cell 7) (- 1) (put (Cell 6) 7 (at_rest ()))"
      "\<lambda>a. if a = Cell 7 then - 1 else if a = Cell 6 then 7 else 0" 0 0]
  by (auto simp: seq_at_def)

end
