(* ===== verification/Blocking_Wakeup.thy ===== *)
theory Blocking_Wakeup
  imports Sequence_Barrier Wait_Strategies Rely_Guarantee
begin

text \<open>
  The blocking wait strategy loses no wake-up.  One thread waits for a sequence barrier, another
  publishes a number that ends the wait.  Without any help from spurious wake-ups, every
  interleaving is of bounded length and ends only when both threads have returned.
\<close>

definition wakeup_threads ::
    "nat \<Rightarrow> addr \<Rightarrow> nat \<Rightarrow> sequence_t \<Rightarrow> sequence_t \<Rightarrow> nat \<Rightarrow> ('d, sequence_t option) prog" where
  "wakeup_threads object a n sequence published =
     (let b = \<lparr>sb_waitStrategy = blocking_wait_strategy object, sb_lastPublished = a\<rparr>
      in (\<lambda>thread. Return None)
        (0 := bind (barrier_wait_until_published n b sequence) (\<lambda>r. Return (Some r)),
         1 := bind (barrier_publish b published) (\<lambda>_. Return None)))"

text \<open>
  The points of the two threads.  The waiting thread is at point 1 when its first look at the
  barrier has found too small a number, holds the mutex at 2, 3, 5 and 6, is asleep at 4 and has
  returned at 7.
\<close>

definition waiter_search :: "nat \<Rightarrow> addr \<Rightarrow> nat \<Rightarrow> sequence_t \<Rightarrow> ('d, sequence_t option) prog" where
  "waiter_search object a n sequence =
     bind (bind (cv_wait object n sequence [a]) (\<lambda>r. do_act (Unlock object) (Return r))) (\<lambda>r. Return (Some r))"

definition waiter_at :: "nat \<Rightarrow> addr \<Rightarrow> nat \<Rightarrow> sequence_t \<Rightarrow> nat \<Rightarrow> ('d, sequence_t option) prog \<Rightarrow> bool" where
  "waiter_at object a n sequence i p \<longleftrightarrow>
     i = 0 \<and> p = load Acquire a (\<lambda>v. if 0 \<le> difference v sequence then Return (Some v)
        else do_act (Lock object) (waiter_search object a (Suc (Suc n)) sequence)) \<or>
     i = 1 \<and> p = do_act (Lock object) (waiter_search object a (Suc (Suc n)) sequence) \<or>
     i = 2 \<and> p = waiter_search object a (Suc (Suc n)) sequence \<or>
     i = 3 \<and> p = do_act (Cv_Block object) (do_act (Cv_Wake object) (waiter_search object a (Suc n) sequence)) \<or>
     i = 4 \<and> p = do_act (Cv_Wake object) (waiter_search object a (Suc n) sequence) \<or>
     i = 5 \<and> p = waiter_search object a (Suc n) sequence \<or>
     i = 6 \<and> (\<exists>v. 0 \<le> difference v sequence \<and> p = do_act (Unlock object) (Return (Some v))) \<or>
     i = 7 \<and> (\<exists>v. 0 \<le> difference v sequence \<and> p = Return (Some v))"

definition publisher_at :: "nat \<Rightarrow> addr \<Rightarrow> sequence_t \<Rightarrow> nat \<Rightarrow> ('d, sequence_t option) prog \<Rightarrow> bool" where
  "publisher_at object a published j p \<longleftrightarrow>
     (let unlock = do_act (Unlock object) (Return None); notify = do_act (Notify_All object) unlock;
          lock = do_act (Lock object) notify
      in j = 0 \<and> p = do_act (Store Release a published) lock \<or> j = 1 \<and> p = lock \<or>
         j = 2 \<and> p = notify \<or> j = 3 \<and> p = unlock \<or> j = 4 \<and> p = Return None)"

text \<open>
  What holds when the threads are at points \<open>i\<close> and \<open>j\<close>: the mutex is with the one whose point
  says so, the waiting thread is asleep only as long as the notification is still to come, and
  once it has been woken the published number is there.
\<close>

definition meeting ::
    "nat \<Rightarrow> addr \<Rightarrow> nat \<Rightarrow> sequence_t \<Rightarrow> sequence_t \<Rightarrow> nat \<Rightarrow> nat \<Rightarrow> ('d, sequence_t option) pool \<Rightarrow> bool" where
  "meeting object a n sequence published i j c \<longleftrightarrow>
     waiter_at object a n sequence i (snd c 0) \<and> publisher_at object a published j (snd c 1) \<and>
     (\<forall>t > 1. snd c t = Return None) \<and>
     owner (fst c) object = (if i \<in> {2, 3, 5, 6} then Some 0 else if j \<in> {2, 3} then Some 1 else None) \<and>
     (i \<in> {2, 3, 5, 6} \<longrightarrow> j \<notin> {2, 3}) \<and>
     (0 < j \<longrightarrow> mem (fst c) a = published) \<and>
     (i = 3 \<longrightarrow> j \<le> 1) \<and> (i = 4 \<longrightarrow> (0 \<in> waiting (fst c) object \<longleftrightarrow> j \<le> 2)) \<and> (i = 5 \<longrightarrow> j = 4)"

lemma waiter_search_Suc:
  "waiter_search object a (Suc n) sequence = load Acquire a (\<lambda>v.
     if 0 \<le> difference v sequence then do_act (Unlock object) (Return (Some v))
     else do_act (Cv_Block object) (do_act (Cv_Wake object) (waiter_search object a n sequence)))"
  by (simp add: waiter_search_def minimum_sequence_after_def prog_defs fun_eq_iff difference_def)

lemma publisher_at_le: "publisher_at object a published j p \<Longrightarrow> j \<le> 4"
  by (auto simp: publisher_at_def Let_def)

lemma publisher_at_Act:
  assumes "publisher_at object a published j (Act c k)"
  shows "publisher_at object a published (Suc j) (k r)"
    and "c = [Store Release a published, Lock object, Notify_All object, Unlock object] ! j" and "j < 4"
  using assms by (auto simp: publisher_at_def Let_def do_act_def)

lemma publisher_step:
  assumes "meeting object a n sequence published i j (\<sigma>, ps)" and "ps 1 = Act c k"
    and "exec 1 0 c \<sigma> = Some (r, \<sigma>')"
  shows "meeting object a n sequence published i (Suc j) (\<sigma>', ps(1 := k r))"
proof -
  have p: "publisher_at object a published j (Act c k)" using assms by (simp add: meeting_def)
  note next_point = publisher_at_Act [OF p]
  from \<open>j < 4\<close> consider "j = 0" | "j = 1" | "j = 2" | "j = 3" by linarith
  then show ?thesis
    by cases (use assms next_point in \<open>auto simp: meeting_def split: if_splits\<close>)
qed

lemma waiter_at_points:
  "waiter_at object a n sequence (Suc 0) p \<longleftrightarrow> p = do_act (Lock object) (waiter_search object a (Suc (Suc n)) sequence)"
  "waiter_at object a n sequence 2 p \<longleftrightarrow> p = waiter_search object a (Suc (Suc n)) sequence"
  "waiter_at object a n sequence 3 p \<longleftrightarrow>
     p = do_act (Cv_Block object) (do_act (Cv_Wake object) (waiter_search object a (Suc n) sequence))"
  "waiter_at object a n sequence 4 p \<longleftrightarrow> p = do_act (Cv_Wake object) (waiter_search object a (Suc n) sequence)"
  "waiter_at object a n sequence 5 p \<longleftrightarrow> p = waiter_search object a (Suc n) sequence"
  "waiter_at object a n sequence 6 p \<longleftrightarrow>
     (\<exists>v. 0 \<le> difference v sequence \<and> p = do_act (Unlock object) (Return (Some v)))"
  "waiter_at object a n sequence 7 p \<longleftrightarrow> (\<exists>v. 0 \<le> difference v sequence \<and> p = Return (Some v))"
  by (simp_all add: waiter_at_def)

lemma waiter_step:
  assumes m: "meeting object a n sequence published i j (\<sigma>, ps)" and p: "ps 0 = Act c k"
    and e: "exec 0 0 c \<sigma> = Some (r, \<sigma>')" and d: "0 \<le> difference published sequence"
  shows "\<exists>i' > i. meeting object a n sequence published i' j (\<sigma>', ps(0 := k r))"
proof -
  have w: "waiter_at object a n sequence i (Act c k)"
    using m unfolding meeting_def by (simp only: snd_conv p)
  have j: "j \<le> 4" using m unfolding meeting_def by (blast dest: publisher_at_le)
  from w consider "i = 0" | "i = 2" | "i = 5" | "i = 1" | "i = 3" | "i = 4" | "i = 6"
    unfolding waiter_at_def by blast
  then show ?thesis
  proof cases
    case 1
    then have "meeting object a n sequence published
        (if 0 \<le> difference (mem \<sigma> a) sequence then 7 else 1) j (\<sigma>', ps(0 := k r))"
      using m p e by (auto simp: meeting_def waiter_at_def prog_defs)
    with 1 show ?thesis by (intro exI [of _ "if 0 \<le> difference (mem \<sigma> a) sequence then 7 else 1"]) simp
  next
    case 2
    then have "meeting object a n sequence published
        (if 0 \<le> difference (mem \<sigma> a) sequence then 6 else 3) j (\<sigma>', ps(0 := k r))"
      using m p e d by (auto simp: meeting_def waiter_at_def waiter_search_Suc prog_defs)
    with 2 show ?thesis by (intro exI [of _ "if 0 \<le> difference (mem \<sigma> a) sequence then 6 else 3"]) simp
  next
    case 3
    then have "meeting object a n sequence published 6 j (\<sigma>', ps(0 := k r))"
      using m p e d by (auto simp: meeting_def waiter_at_def waiter_search_Suc prog_defs)
    with 3 show ?thesis by (intro exI [of _ 6]) simp
  next
    case 4
    then have "meeting object a n sequence published 2 j (\<sigma>', ps(0 := k r))"
      using m p e by (auto simp: meeting_def waiter_at_points do_act_def split: if_splits)
    with 4 show ?thesis by (intro exI [of _ 2]) simp
  next
    case 5
    then have "meeting object a n sequence published 4 j (\<sigma>', ps(0 := k r))"
      using m p e by (auto simp: meeting_def waiter_at_points do_act_def split: if_splits)
    with 5 show ?thesis by (intro exI [of _ 4]) simp
  next
    case 6
    then have "meeting object a n sequence published 5 j (\<sigma>', ps(0 := k r))"
      using m p e j by (auto simp: meeting_def waiter_at_points do_act_def split: if_splits)
    with 6 show ?thesis by (intro exI [of _ 5]) simp
  next
    case 7
    then have "meeting object a n sequence published 7 j (\<sigma>', ps(0 := k r))"
      using m p e by (auto simp: meeting_def waiter_at_points do_act_def split: if_splits)
    with 7 show ?thesis by (intro exI [of _ 7]) simp
  qed
qed

lemma meeting_exec:
  assumes "meeting object a n sequence published i j (\<sigma>, ps)" and "0 \<le> difference published sequence"
    and "pool_exec (map (\<lambda>t. (t, 0)) ts) (\<sigma>, ps) = Some c"
  shows "\<exists>i' j'. meeting object a n sequence published i' j' c \<and> i + j + length ts \<le> i' + j'"
  using assms(1,3)
proof (induction ts arbitrary: i j \<sigma> ps)
  case (Cons t ts)
  from Cons.prems(2) obtain x k r \<sigma>' where x: "ps t = Act x k" "exec t 0 x \<sigma> = Some (r, \<sigma>')"
    and rest: "pool_exec (map (\<lambda>t. (t, 0)) ts) (\<sigma>', ps(t := k r)) = Some c"
    by (auto split: prog.splits option.splits)
  have "t \<le> 1" using Cons.prems(1) x(1) by (cases "t > 1") (auto simp: meeting_def)
  then consider "t = 0" | "t = 1" by linarith
  then obtain i' j' where "meeting object a n sequence published i' j' (\<sigma>', ps(t := k r))" "i + j < i' + j'"
    using waiter_step [OF Cons.prems(1) _ _ assms(2)] publisher_step [OF Cons.prems(1)] x
    by cases fastforce+
  with Cons.IH [OF _ rest] show ?case by fastforce
qed auto

text \<open>A thread that is not at its last point can step, unless the other is on the way to let it.\<close>

lemma waiter_runs:
  assumes m: "meeting object a n sequence published i j (\<sigma>, ps)" and "i \<noteq> 7"
    and "i = 1 \<Longrightarrow> j \<notin> {2, 3}" and "i = 4 \<Longrightarrow> j = 4"
  shows "pool_exec [(0, 0)] (\<sigma>, ps) \<noteq> None"
proof -
  have w: "waiter_at object a n sequence i (ps 0)" using m by (simp add: meeting_def)
  from w \<open>i \<noteq> 7\<close> consider "i = 0" | "i = 2 \<or> i = 5" | "i = 1" | "i = 3" | "i = 4" | "i = 6"
    unfolding waiter_at_def by blast
  then show ?thesis
  proof cases
    case 1
    then show ?thesis using w by (simp add: waiter_at_def load_def)
  next
    case 2
    then show ?thesis using w by (auto simp: waiter_at_points waiter_search_Suc load_def)
  qed (use m assms(3,4) in \<open>auto simp: meeting_def waiter_at_points do_act_def split: if_splits\<close>)
qed

lemma publisher_runs:
  assumes m: "meeting object a n sequence published i j (\<sigma>, ps)" and "j \<noteq> 4"
    and "j = 1 \<Longrightarrow> i \<notin> {2, 3, 5, 6}"
  shows "pool_exec [(1, 0)] (\<sigma>, ps) \<noteq> None"
proof -
  have p: "publisher_at object a published j (ps 1)" using m by (simp add: meeting_def)
  from p \<open>j \<noteq> 4\<close> consider "j = 0" | "j = 1" | "j = 2" | "j = 3"
    unfolding publisher_at_def Let_def by blast
  then show ?thesis
    by cases (use p m assms(3) in \<open>auto simp: meeting_def publisher_at_def prog_defs split: if_splits\<close>)
qed

lemma meeting_stuck:
  assumes m: "meeting object a n sequence published i j (\<sigma>, ps)"
    and "\<And>t. pool_exec [(t, 0)] (\<sigma>, ps) = None"
  shows "i = 7 \<and> j = 4"
proof -
  have w: "i = 7 \<or> (i = 1 \<and> j \<in> {2, 3}) \<or> (i = 4 \<and> j \<noteq> 4)"
    using waiter_runs [OF m] assms(2) by metis
  have p: "j = 4 \<or> (j = 1 \<and> i \<in> {2, 3, 5, 6})"
    using publisher_runs [OF m] assms(2) by metis
  from w p show ?thesis by auto
qed

lemma meeting_start:
  assumes "owner \<sigma> object = None"
  shows "meeting object a n sequence published 0 0 (\<sigma>, wakeup_threads object a (Suc (Suc n)) sequence published)"
  using assms
  by (simp add: meeting_def wakeup_threads_def waiter_at_def publisher_at_def waiter_search_def barrier_wait_defs
      barrier_publish_def blocking_wait_strategy_def blocking_wait_until_published_def
      blocking_signal_all_when_blocking_def Let_def assert_def if_distrib [of "\<lambda>p. bind p f" for f]
      cong: if_cong)

text \<open>
  C40.  Liveness of the blocking wait strategy: no wake-up is lost.  One thread waits for a
  number on a sequence barrier with the blocking strategy while another publishes a number that
  is not before it.  Whatever the interleaving, and without a single spurious wake-up, the two
  make at most 11 accesses together, and when neither can go on both have returned, the waiting
  one with a number that ends its wait.  Two waiting rounds suffice: no interleaving uses up
  the fuel.
\<close>

theorem blocking_no_lost_wakeup:
  assumes "0 \<le> difference published sequence" and "owner \<sigma>0 object = None"
    and "pool_exec (map (\<lambda>t. (t, 0)) ts)
      (\<sigma>0, wakeup_threads object a (Suc (Suc n)) sequence published) = Some (\<sigma>, ps)"
  shows "length ts \<le> 11 \<and>
    ((\<forall>t. pool_exec [(t, 0)] (\<sigma>, ps) = None) \<longrightarrow>
      (\<exists>r. ps 0 = Return (Some r) \<and> 0 \<le> difference r sequence) \<and> ps 1 = Return None)"
proof -
  obtain i j where m: "meeting object a n sequence published i j (\<sigma>, ps)" and l: "length ts \<le> i + j"
    using meeting_exec [OF meeting_start [OF assms(2)] assms(1,3)] by auto
  have p: "publisher_at object a published j (ps 1)" and w: "waiter_at object a n sequence i (ps 0)"
    using m by (simp_all add: meeting_def)
  have "j \<le> 4" using p by (rule publisher_at_le)
  moreover have "i \<le> 7" using w by (auto simp: waiter_at_def)
  moreover have "(\<exists>r. ps 0 = Return (Some r) \<and> 0 \<le> difference r sequence) \<and> ps 1 = Return None"
    if "\<forall>t. pool_exec [(t, 0)] (\<sigma>, ps) = None"
    using meeting_stuck [OF m] that w p by (auto simp: waiter_at_def publisher_at_def Let_def)
  ultimately show ?thesis using l by auto
qed

text \<open>The waiting thread falls asleep, the other publishes and notifies, and both return.\<close>

theorem blocking_no_lost_wakeup_witness:
  "\<exists>\<sigma> ps. pool_exec (map (\<lambda>t. (t, 0)) [0, 0, 0, 0, 1, 1, 1, 1, 0, 0, 0])
      (at_rest (), wakeup_threads 0 (Cell 1) (Suc (Suc 0)) 1 2) = Some (\<sigma>, ps) \<and>
    (\<exists>r. ps 0 = Return (Some r) \<and> 0 \<le> difference r 1) \<and> ps 1 = Return None"
proof -
  have "\<exists>c. pool_exec (map (\<lambda>t. (t, 0)) [0, 0, 0, 0, 1, 1, 1, 1, 0, 0, 0])
      (at_rest (), wakeup_threads 0 (Cell 1) (Suc (Suc 0)) 1 2) = Some c \<and>
      (\<forall>t. pool_exec [(t, 0)] c = None)"
    by (simp add: wakeup_threads_def barrier_wait_defs barrier_publish_def blocking_wait_strategy_def
      blocking_wait_until_published_def blocking_signal_all_when_blocking_def Let_def prog_defs
      minimum_sequence_after_def difference_def)
  then obtain \<sigma> ps where e: "pool_exec (map (\<lambda>t. (t, 0)) [0, 0, 0, 0, 1, 1, 1, 1, 0, 0, 0])
      (at_rest (), wakeup_threads 0 (Cell 1) (Suc (Suc 0)) 1 2) = Some (\<sigma>, ps)"
    and stuck: "\<forall>t. pool_exec [(t, 0)] (\<sigma>, ps) = None" by force
  then show ?thesis
    using blocking_no_lost_wakeup [OF _ _ e] by (simp add: difference_def)
qed

end
