(* ===== verification/Spec2Isabelle.thy ===== *)
theory Spec2Isabelle
  imports Single_Producer_Tests Multi_Producer_Tests Benchmark_Termination Multi_Producer_Termination
    Single_Threaded_Claims Multi_Threaded_Timed_Claims Multi_Threaded_Publishing Claim_Typing
    Barrier_Contract Blocking_Wakeup
begin

text \<open>
  Disruptor++: a verification development.

  The library (src/include/disruptorplus) passes items from producer threads to consumer
  threads through a ring buffer.  Every slot ever used has a 64-bit sequence number, which
  wraps around.  A producer claims a sequence number from a claim strategy, writes the slot and
  publishes the number; a consumer waits for the number on a barrier, reads the slot and
  publishes its own progress on a barrier of its own; the claim strategy waits for the barriers
  of the consumers (its claim barriers) before it hands out a slot again.  How a thread waits is
  the business of a wait strategy: it spins, or it sleeps on a condition variable.

  \<^bold>\<open>The model.\<close>  Theory Machine has the language: a function of the library is a tree of the
  accesses to shared state that the code makes, in its order, with the memory orders that the
  code names.  Everything between two accesses is plain HOL.  A failing \<open>assert\<close> is the outcome
  \<open>Assert_Failed\<close>.  A member that only one thread uses is a field of a record that the
  operations return updated; a template parameter \<open>WaitStrategy\<close> is a record of operations, with
  \<open>None\<close> for a member template that does not compile when a program uses it.
  There are four readings of a program:
    \<^item> \<open>ends\<close>, \<open>returns\<close> and \<open>fails\<close> (Machine): its accesses are answered by anything, so what holds
      of all logs holds whatever the other threads do and whatever the memory model is;
    \<^item> \<open>run\<close> (Interleaving): the program on a machine with atomics, ring buffer elements, mutexes,
      condition variables and a clock, under a schedule of interference;
    \<^item> \<open>pool_run\<close> and \<open>pool_exec\<close> (Rely_Guarantee): threads on one machine, one access at a time in
      any order.  Condition variables may wake, and weak compare-exchanges fail, spuriously;
    \<^item> \<open>weak_run\<close> (Weak_Memory): the same, but a load returns any value that its memory order does not
      forbid.  All stores and data accesses are kept in a history, and each thread has a view of
      it: what it has done, and what it has acquired from releasing stores and from mutexes.  An
      access to data is \<open>ordered\<close> when the thread knows all accesses it conflicts with, that is, when
      they happen before it; \<open>race_free\<close> states this of every access about to be made.

  \<^bold>\<open>Theories and sources.\<close>  The definitions have the names of the code, with a prefix for the
  class.
    \<^item> Prelude: the words of sequence numbers and the positions they stand for.
    \<^item> Sequence (sequence.hpp): \<open>difference\<close>, \<open>minimum_sequence\<close>, \<open>minimum_sequence_after\<close>.
    \<^item> Sequence_Range (sequence_range.hpp): the class \<open>sequence_range\<close>.
    \<^item> Ring_Buffer (ring_buffer.hpp): construction, indexing and element access.
    \<^item> Spin_Wait (spin_wait.hpp): the back-off of a spinning thread with its 32-bit counter.
    \<^item> Wait_Strategy: the interface, the locale \<open>wait_strategy_model\<close> with its contract, and its
      extension \<open>timed_wait_strategy_model\<close> by the waits with a timeout or deadline.
      Spin_Wait_Strategy (spin_wait_strategy.hpp) interprets the second, Blocking_Wait_Strategy
      (blocking_wait_strategy.hpp) only the first.  Wait_Strategies states what both promise;
      \<open>library_strategies\<close> are the objects of both classes, \<open>timed_strategies\<close> those of them whose
      timed waits compile.
    \<^item> Access_Typing: the type discipline of accesses, what a run changes (\<open>changes\<close>), and the
      wait strategies that only look at what they wait for (the locale \<open>confined_wait_strategy\<close> and
      its extension \<open>confined_timed_wait_strategy\<close>).
    \<^item> Sequence_Barrier (sequence_barrier.hpp) and Sequence_Barrier_Group
      (sequence_barrier_group.hpp), over any wait strategy; Barrier_Contract states what they promise.
    \<^item> Single_Threaded_Claim_Strategy (single_threaded_claim_strategy.hpp), with its properties in
      Single_Threaded_Claims; Multi_Threaded_Claim_Strategy (multi_threaded_claim_strategy.hpp),
      with its properties in Multi_Threaded_Claims, Multi_Threaded_Timed_Claims and
      Multi_Threaded_Publishing; Claim_Contract is what the two have in common, and Claim_Typing
      which shared objects either may touch.
    \<^item> Benchmark_Clients (src/benchmark: unicast, multicast, pipeline, diamond and sequencer .cpp):
      the set-up and the threads of the programs that use the library.  Test_Clients
      (src/test/benchmark.cpp): the same of the programs that claim and publish batches.
    \<^item> Weak_Protocols: protocols on the weak machine (the locales \<open>weak_protocol\<close> and
      \<open>weak_race_free_protocol\<close>), the weakest precondition \<open>weakly_safe\<close> of a thread, and that threads
      safe on their own are sound and free of data races together.  Happens_Before names the
      entries of the history (a position was written, published, read, given back) and says what
      it is to know them.
    \<^item> Single_Producer with Single_Producer_Consumers and Single_Producer_Loop, and Multi_Producer
      with Multi_Producer_History, Multi_Producer_Consumers and Multi_Producer_Producers: the
      protocols that the threads follow, with the unbounded positions and the history as ghost
      state, and the proofs that the clients follow them.  Every store passes on a promise: the
      cursor, or the entry of a position, that the item is written and that all is done with its
      slot one buffer before; the barrier of a consumer, that it and all upstream of it have read
      so far.  The locale \<open>reader\<close> (theory Reader, continued in Message_Reader for readers of messages)
      is what a consumer relies on; both protocols provide it.  Single_Producer_Batches and
      Multi_Producer_Batches show that writers of batches follow the protocols.  Sleeping is the protocol of
      threads that fall asleep and Sleeping_Clients that the code follows it; Joint_Protocols runs
      two protocols side by side, so that what each shows can be used together.
    \<^item> Single_Producer_Setup, Single_Producer_Benchmarks, Multi_Producer_Setup and
      Multi_Producer_Benchmarks, Single_Producer_Tests and Multi_Producer_Tests: the reachable states
      of whole programs.  Benchmark_Completion and
      Multi_Producer_Completion: they cannot deadlock.  Rounds_Of_Waiting counts the rounds that
      threads wait; with it Benchmark_Termination and Multi_Producer_Termination show that programs
      end.  Blocking_Wakeup looks at one sleeper and its waker.

  \<^bold>\<open>What is shown.\<close>
    \<^item> Of whole programs: in every state that a benchmark reaches, with either wait strategy, any
      power of two up to \<open>2 ^ 62\<close> as buffer size and any number of consumers or producers, by any
      execution on the weak machine, no assertion has failed, no data race has occurred or is
      about to, and a consumer that has ended has the expected result (unicast_correct, multicast_correct,
      pipeline_correct, diamond_correct; and for the multi-threaded claim strategy sequencer_correct,
      unicast_mt_correct, multicast_mt_correct, pipeline_mt_correct and diamond_mt_correct).  The same
      is shown of the test programs, where any number of writers claim and publish ranges: the
      reader, when it has ended, has read all messages of all writers (batches_correct,
      multi_batches_correct).  With
      the blocking strategy no benchmark can deadlock, even if condition variables never wake
      spuriously (multicast_completes, pipeline_completes, diamond_completes and
      mp_started_complete), and all of them end (multicast_terminates, pipeline_terminates,
      diamond_terminates, sequencer_terminates, multicast_mt_terminates, pipeline_mt_terminates,
      diamond_mt_terminates).  pipeline_window is the invariant of the reachable states.
    \<^item> Of the wait strategies: what a wait has seen when it returns, and when it may give up
      (Wait_Strategies); that a spinning wait ends (spin_wait_terminates) and that no wake-up of the
      blocking strategy is lost (blocking_no_lost_wakeup).
    \<^item> Of every operation of the claim strategies, barriers and groups: its result, its effect on
      each branch, and exactly when its assertions fail; which shared objects it may touch, whatever
      the other threads do, and that it leaves a strategy well-formed (st_well_typed, mt_well_typed).
    \<^item> Of the operations with a timeout or deadline, on the strategies that have timed waits: the same,
      and that they give up only when the deadline has passed, having changed nothing.
    \<^item> Of the data: minima and differences of wrapped numbers, ranges, the ring buffer as a window
      on an unbounded sequence of items, the back-off of the spinner call by call.

  \<^bold>\<open>Where the code departs from what it means.\<close>
    \<^item> The two waits with a limit of blocking_wait_strategy pass the predicate before the time to
      \<open>wait_for\<close> and \<open>wait_until\<close> of \<open>std::condition_variable\<close>, which take the time first.  The member
      templates cannot be instantiated, so with this strategy no operation of the library that
      has a timeout or deadline compiles, apart from the waits of the multi-threaded claim strategy,
      which do not pass the limit on.  They have no model here (blocking_not_timed).
    \<^item> Those waits of the multi-threaded claim strategy ignore their limit
      (mt_timed_waits_ignore_deadline).
    \<^item> The attempts to claim \<open>count = 0\<close> slots return true and rewrite the range when a slot is free,
      where their documentation promises false and an unchanged range (st_try_claim_zero and
      mt_try_claim_zero).

  \<^bold>\<open>Bounds and fuel.\<close>  Waiting loops take the number of rounds they may wait as first argument and
  end with \<open>Out_Of_Fuel\<close> when these are used up.  The correctness theorems hold for every number of
  rounds, of such a thread in that it has broken no rule so far.  The termination theorems show how
  many rounds are enough: a round of waiting ends with a notification, so
  \<open>(consumers + 2) * items + 1\<close> are, unless condition variables wake spuriously, which they could do
  any number of times (sp_enough_rounds in Benchmark_Termination).  On the multi-threaded claim
  strategy \<open>bufferSize + (consumers + 2) * items + 1\<close> are (mp_enough_rounds in
  Multi_Producer_Termination), where the items are those of all producers; the same number bounds the
  entries that \<open>mt_last_published_after\<close> looks at, of which at most \<open>bufferSize\<close> are published and
  not yet taken.  Both follow from one account of what waiting costs (the locale \<open>paying_progress\<close> in
  Rounds_Of_Waiting).  The reading loop
  of a consumer takes the number of batches it may read, at most the number of items.
  \<open>mt_last_published_after\<close> ends after \<open>buffer_size() + 1\<close> entries when nobody else writes
  (mt_last_published_after_correct); all other loops are total functions.  The contracts in words
  assume that the numbers compared are less than \<open>2 ^ 63\<close> apart; where whole programs are concerned
  this is proved, from a buffer size of at most \<open>2 ^ 62\<close>.  The sum that the benchmarks expect is
  computed with a 64-bit product, which is assumed not to overflow.

  \<^bold>\<open>Not modelled.\<close>  The weak machine takes the accesses in an order in which every load finds the
  store it reads already made: executions in which program order and reads-from form a cycle
  (relaxed loads that read what a later store of the same thread leads to, up to values out of thin
  air) are not among its runs.  It uses that the modification order of each atomic is the order of the
  stores, which is sound because every store is shown to know the newest one before it, or to be
  part of a read-modify-write among others (the rest of \<open>ordered\<close>).  Termination, deadlock freedom and
  lost wake-ups are shown for interleavings: they need that stores become visible in time, of
  which the memory model says little.  The properties of single operations, which are stated of
  logs, do not depend on the memory model.  config.hpp has only the cache line size, which is used for padding.  Of the test
  program src/test/benchmark.cpp one run is modelled; its time stamps, its table of latencies and
  the repetition of runs are not, nor is src/test/test_2.cpp, which is like its program with
  several writers.  The waits with a limit of blocking_wait_strategy are left out because they
  do not compile.  The mains of the benchmarks measure time and print.  Allocation failure,
  destructors and moves of the ring buffer, and the build scripts are left out.
\<close>

end
